(* ===== verification/Fb303_Prelude.thy ===== *)
theory Fb303_Prelude
  imports Complex_Main "HOL-Library.Word"
begin

text \<open>
  Shared vocabulary of the development: the error values the components raise, the names of the
  machine types, the saturating cast to a signed range that both lock-trait families use, and the
  generic lemmas on association lists and on lists of nodes that the container components share.
\<close>

section \<open>Machine types\<close>

type_synonym int64 = "64 word"
type_synonym uint64 = "64 word"
type_synonym name = string

text \<open>
  C++ exceptions and fatal checks that an operation of the library can end in. \<open>CheckFailure\<close> is a
  failing glog \<^verbatim>\<open>CHECK\<close> (the process aborts), the others are the thrown standard exceptions.
\<close>

datatype cxx_error =
    OutOfRange
  | LengthError
  | InvalidArgument string
  | RuntimeError string
  | CheckFailure

named_theorems step_defs \<open>definitions unfolded by the proofs about one step\<close>

section \<open>Saturation\<close>

text \<open>The value of a signed type of \<open>w\<close> bits nearest to an integer.\<close>

definition clamp_signed :: "nat \<Rightarrow> int \<Rightarrow> int" where
  "clamp_signed w x = max (- (2 ^ (w - 1))) (min (2 ^ (w - 1) - 1) x)"

lemma clamp_signed_id:
  "- (2 ^ (w - 1)) \<le> x \<Longrightarrow> x < 2 ^ (w - 1) \<Longrightarrow> clamp_signed w x = x"
  by (simp add: clamp_signed_def)

lemma clamp_signed_range:
  "- (2 ^ (w - 1)) \<le> clamp_signed w x \<and> clamp_signed w x < 2 ^ (w - 1)"
  by (simp add: clamp_signed_def max_def min_def)

lemma clamp_signed_mono: "x \<le> y \<Longrightarrow> clamp_signed w x \<le> clamp_signed w y"
  by (auto simp: clamp_signed_def max_def min_def)

section \<open>Lists of nodes\<close>

lemma butlast_last_mset:
  "xs \<noteq> [] \<Longrightarrow> set xs = insert (last xs) (set (butlast xs))"
  by (metis append_butlast_last_id set_append Un_commute insert_is_Un list.set(1,2) empty_set
      set_simps(2))

lemma last_notin_butlast: "distinct xs \<Longrightarrow> xs \<noteq> [] \<Longrightarrow> last xs \<notin> set (butlast xs)"
  by (metis append_butlast_last_id distinct.simps(2) distinct_append distinct1_rotate rotate1.simps(2))

lemma map_last_notin_butlast:
  "distinct (map f xs) \<Longrightarrow> xs \<noteq> [] \<Longrightarrow> f (last xs) \<notin> f ` set (butlast xs)"
  using last_notin_butlast[of "map f xs"] by (simp add: map_butlast last_map flip: set_map)

lemma distinct_map_filterI [intro]: "distinct (map f xs) \<Longrightarrow> distinct (map f (filter P xs))"
  by (induction xs) auto

lemma filter_neq_id: "x \<notin> f ` set xs \<Longrightarrow> filter (\<lambda>y. f y \<noteq> x) xs = xs"
  by (induction xs) auto

lemma distinct_map_eqD:
  "distinct (map f xs) \<Longrightarrow> x \<in> set xs \<Longrightarrow> y \<in> set xs \<Longrightarrow> f x = f y \<Longrightarrow> x = y"
  by (meson distinct_map inj_onD)

lemma length_filter_remove1_key:
  "distinct (map f xs) \<Longrightarrow> x \<in> set xs \<Longrightarrow>
   length (filter (\<lambda>y. f y \<noteq> f x) xs) = length xs - 1"
proof (induction xs)
  case (Cons a xs)
  then show ?case
    by (auto simp: filter_neq_id) (metis Suc_pred length_pos_if_in_set)+
qed simp

section \<open>Most-recent-first lists\<close>

text \<open>\<open>nub\<close> keeps the first occurrence of every element.\<close>

fun nub :: "'a list \<Rightarrow> 'a list" where
  "nub [] = []"
| "nub (x # xs) = x # filter (\<lambda>y. y \<noteq> x) (nub xs)"

lemma set_nub [simp]: "set (nub xs) = set xs"
  by (induction xs) auto

lemma distinct_nub [simp]: "distinct (nub xs)"
  by (induction xs) auto

lemma nub_id: "distinct xs \<Longrightarrow> nub xs = xs"
  by (induction xs) (auto intro: filter_True)

lemma take_filter_take:
  "distinct ys \<Longrightarrow>
   take (c - 1) (filter (\<lambda>y. y \<noteq> k) (take c ys)) = take (c - 1) (filter (\<lambda>y. y \<noteq> k) ys)"
proof (induction ys arbitrary: c)
  case (Cons y ys)
  show ?case
  proof (cases c)
    case (Suc c')
    show ?thesis
    proof (cases "y = k")
      case True
      with Cons.prems have "filter (\<lambda>y. y \<noteq> k) ys = ys" by (auto intro: filter_True)
      moreover from True Cons.prems have "filter (\<lambda>y. y \<noteq> k) (take c' ys) = take c' ys"
        by (auto intro!: filter_True dest: in_set_takeD)
      ultimately show ?thesis using True Suc by simp
    next
      case False
      with Cons.IH[of c'] Cons.prems Suc show ?thesis by (cases c') auto
    qed
  qed simp
qed simp

text \<open>
  A store of bounded size in which using a key moves it to the front. Whatever the operation
  that uses keys is, after a run of uses the store holds the most recently used keys.
\<close>

locale mru_store =
  fixes use :: "'k \<Rightarrow> 's \<Rightarrow> 's"
    and keys :: "'s \<Rightarrow> 'k list"
    and cap :: "'s \<Rightarrow> nat"
    and invar :: "'s \<Rightarrow> bool"
  assumes invar_use: "invar s \<Longrightarrow> invar (use k s)"
    and cap_use: "invar s \<Longrightarrow> cap (use k s) = cap s"
    and keys_use: "invar s \<Longrightarrow> keys (use k s) = take (cap s) (k # filter (\<lambda>x. x \<noteq> k) (keys s))"
    and keys_distinct: "invar s \<Longrightarrow> distinct (keys s)"
    and keys_bound: "invar s \<Longrightarrow> length (keys s) \<le> cap s"
begin

lemma run_invar: "invar s \<Longrightarrow> invar (fold use ks s) \<and> cap (fold use ks s) = cap s"
  by (induction ks arbitrary: s) (simp_all add: invar_use cap_use)

lemma run_keys:
  assumes "invar s"
  shows "keys (fold use ks s) = take (cap s) (nub (rev ks @ keys s))"
proof (induction ks rule: rev_induct)
  case Nil
  from assms show ?case by (simp add: nub_id keys_distinct keys_bound)
next
  case (snoc k ks)
  let ?t = "fold use ks s" and ?Y = "nub (rev ks @ keys s)"
  have t: "invar ?t" "cap ?t = cap s" using run_invar[OF assms] by auto
  have "keys (use k ?t) = take (cap s) (k # filter (\<lambda>x. x \<noteq> k) (take (cap s) ?Y))"
    by (simp add: keys_use t snoc)
  also have "\<dots> = take (cap s) (k # filter (\<lambda>x. x \<noteq> k) ?Y)"
    using take_filter_take[OF distinct_nub, where c = "cap s"]
    by (cases "cap s") simp_all
  finally show ?case by simp
qed

lemma recent_key_kept:
  assumes "invar s" and "0 < cap s"
  shows "k \<in> set (keys (use k s))"
  using assms by (cases "cap s") (simp_all add: keys_use)

end

end
