(* ===== verification/SimpleLRU.thy ===== *)
theory SimpleLRU
  imports Fb303_Prelude
begin

text \<open>
  The least-recently-used map of \<^verbatim>\<open>fb303/SimpleLRUMap.h\<close>. The \<open>std::list\<close> is a list of nodes,
  each with its address, so that an iterator is the address of a node and the hash map
  from keys to iterators is a map from keys to addresses. Operations that dereference an iterator or
  call \<open>back()\<close> return \<open>None\<close> where C++ leaves the behaviour undefined; the invariant shows that
  this never happens. The eviction callback is the list of entries it was called with, in order.
  The statistics are 64-bit words: \<open>uint_fast32_t\<close> is 64 bits wide on LP64 targets.
\<close>

section \<open>State\<close>

type_synonym iter = nat
type_synonym ('k, 'v) node = "iter \<times> 'k \<times> 'v"

record ('k, 'v) lru =
  lru_capacity :: nat
  lru_list :: "('k, 'v) node list"
  lru_listSize :: nat
  lru_map :: "'k \<rightharpoonup> iter"
  lru_hits :: uint64
  lru_misses :: uint64
  next_node :: iter  \<comment> \<open>the allocator: the address the next node gets\<close>

definition nkey :: "('k, 'v) node \<Rightarrow> 'k" where
  "nkey n = fst (snd n)"

definition nval :: "('k, 'v) node \<Rightarrow> 'v" where
  "nval n = snd (snd n)"

definition SimpleLRUMap :: "nat \<Rightarrow> ('k, 'v) lru" where
  "SimpleLRUMap cap =
     \<lparr>lru_capacity = cap, lru_list = [], lru_listSize = 0, lru_map = Map.empty, lru_hits = 0, lru_misses = 0,
      next_node = 0\<rparr>"

definition node_at :: "iter \<Rightarrow> ('k, 'v) lru \<Rightarrow> ('k, 'v) node option" where
  "node_at i s = List.find (\<lambda>n. fst n = i) (lru_list s)"

definition deref :: "iter \<Rightarrow> ('k, 'v) lru \<Rightarrow> 'v option" where
  "deref i s = map_option nval (node_at i s)"

section \<open>Private operations\<close>

definition evict :: "('k, 'v) lru \<Rightarrow> (('k \<times> 'v) \<times> ('k, 'v) lru) option" where
  "evict s =
     (if lru_list s = [] then None
      else let b = last (lru_list s) in
        Some ((nkey b, nval b),
              s\<lparr>lru_map := (lru_map s)(nkey b := None),
                lru_list := butlast (lru_list s),
                lru_listSize := lru_listSize s - 1\<rparr>))"

function evict_while ::
  "('k \<times> 'v) list \<Rightarrow> ('k, 'v) lru \<Rightarrow> (('k \<times> 'v) list \<times> ('k, 'v) lru) option"
where
  "evict_while ev s =
     (if lru_listSize s \<ge> lru_capacity s then
        (case evict s of
           None \<Rightarrow> None
         | Some (e, s') \<Rightarrow> evict_while (ev @ [e]) s')
      else Some (ev, s))"
  by pat_completeness auto
termination
  by (relation "measure (\<lambda>(ev, s). length (lru_list s))")
     (auto simp: evict_def Let_def split: if_splits)

declare evict_while.simps [simp del]

definition ensure_room ::
  "('k, 'v) lru \<Rightarrow> (bool \<times> ('k \<times> 'v) list \<times> ('k, 'v) lru) option"
where
  "ensure_room s =
     (if lru_capacity s < 1 then Some (False, [], s)
      else (case evict_while [] s of
              None \<Rightarrow> None
            | Some (ev, s') \<Rightarrow> Some (True, ev, s')))"

definition splay :: "iter \<Rightarrow> ('k, 'v) lru \<Rightarrow> (iter \<times> ('k, 'v) lru) option" where
  "splay i s =
     (case node_at i s of
        None \<Rightarrow> None
      | Some n \<Rightarrow> Some (i, s\<lparr>lru_list := n # filter (\<lambda>m. fst m \<noteq> i) (lru_list s)\<rparr>))"

definition try_add ::
  "'k \<Rightarrow> 'v \<Rightarrow> ('k, 'v) lru \<Rightarrow> (iter option \<times> ('k \<times> 'v) list \<times> ('k, 'v) lru) option"
where
  "try_add key value s =
     (case ensure_room s of
        None \<Rightarrow> None
      | Some (False, ev, s') \<Rightarrow> Some (None, ev, s')
      | Some (True, ev, s') \<Rightarrow>
          let i = next_node s' in
            Some (Some i, ev,
                  s'\<lparr>lru_list := (i, key, value) # lru_list s',
                     lru_listSize := lru_listSize s' + 1,
                     lru_map := (if lru_map s' key = None then (lru_map s')(key \<mapsto> i) else lru_map s'),
                     next_node := i + 1\<rparr>))"

section \<open>Public operations\<close>

text \<open>\<open>reserve\<close> only presizes the hash table: nothing an operation can observe changes.\<close>

definition reserve :: "nat \<Rightarrow> ('k, 'v) lru \<Rightarrow> ('k, 'v) lru" where
  "reserve n s = s"

definition find_const :: "'k \<Rightarrow> ('k, 'v) lru \<Rightarrow> iter option \<times> ('k, 'v) lru" where
  "find_const key s =
     (case lru_map s key of
        None \<Rightarrow> (None, s\<lparr>lru_misses := lru_misses s + 1\<rparr>)
      | Some i \<Rightarrow> (Some i, s\<lparr>lru_hits := lru_hits s + 1\<rparr>))"

definition find_move ::
  "'k \<Rightarrow> bool \<Rightarrow> ('k, 'v) lru \<Rightarrow> (iter option \<times> ('k, 'v) lru) option"
where
  "find_move key moveToFront s =
     (case lru_map s key of
        None \<Rightarrow> Some (None, s\<lparr>lru_misses := lru_misses s + 1\<rparr>)
      | Some i \<Rightarrow>
          (if moveToFront then
             (case splay i s of
                None \<Rightarrow> None
              | Some (j, s') \<Rightarrow>
                  Some (Some j, s'\<lparr>lru_map := (lru_map s')(key \<mapsto> j), lru_hits := lru_hits s' + 1\<rparr>))
           else Some (Some i, s\<lparr>lru_hits := lru_hits s + 1\<rparr>)))"

definition peek :: "'k \<Rightarrow> ('k, 'v) lru \<Rightarrow> ((cxx_error + 'v) \<times> ('k, 'v) lru) option" where
  "peek key s =
     (case find_const key s of
        (None, s') \<Rightarrow> Some (Inl OutOfRange, s')
      | (Some i, s') \<Rightarrow> map_option (\<lambda>v. (Inr v, s')) (deref i s'))"

text \<open>\<open>touch\<close> and the non-const \<open>operator[]\<close> return a reference: the address of the node.\<close>

definition touch :: "'k \<Rightarrow> ('k, 'v) lru \<Rightarrow> ((cxx_error + iter) \<times> ('k, 'v) lru) option" where
  "touch key s =
     (case find_move key True s of
        None \<Rightarrow> None
      | Some (None, s') \<Rightarrow> Some (Inl OutOfRange, s')
      | Some (Some i, s') \<Rightarrow> Some (Inr i, s'))"

definition index :: "'k \<Rightarrow> ('k, 'v) lru \<Rightarrow> ((cxx_error + iter) \<times> ('k, 'v) lru) option" where
  "index key s =
     (case find_move key False s of
        None \<Rightarrow> None
      | Some (None, s') \<Rightarrow> Some (Inl OutOfRange, s')
      | Some (Some i, s') \<Rightarrow> Some (Inr i, s'))"

definition index_const :: "'k \<Rightarrow> ('k, 'v) lru \<Rightarrow> ((cxx_error + 'v) \<times> ('k, 'v) lru) option" where
  "index_const key s = peek key s"

definition try_get_or_create ::
  "'k \<Rightarrow> ('k \<Rightarrow> 'v) \<Rightarrow> bool \<Rightarrow> ('k, 'v) lru
     \<Rightarrow> (iter option \<times> ('k \<times> 'v) list \<times> ('k, 'v) lru) option"
where
  "try_get_or_create key factory moveToFront s =
     (case find_move key moveToFront s of
        None \<Rightarrow> None
      | Some (Some i, s') \<Rightarrow> Some (Some i, [], s')
      | Some (None, s') \<Rightarrow> try_add key (factory key) s')"

definition get_or_create ::
  "'k \<Rightarrow> ('k \<Rightarrow> 'v) \<Rightarrow> bool \<Rightarrow> ('k, 'v) lru
     \<Rightarrow> ((cxx_error + iter) \<times> ('k \<times> 'v) list \<times> ('k, 'v) lru) option"
where
  "get_or_create key factory moveToFront s =
     (case try_get_or_create key factory moveToFront s of
        None \<Rightarrow> None
      | Some (Some p, ev, s') \<Rightarrow> Some (Inr p, ev, s')
      | Some (None, ev, s') \<Rightarrow> Some (Inl LengthError, ev, s'))"

definition assign :: "iter \<Rightarrow> 'v \<Rightarrow> ('k, 'v) lru \<Rightarrow> ('k, 'v) lru" where
  "assign i value s =
     s\<lparr>lru_list := map (\<lambda>n. if fst n = i then (i, nkey n, value) else n) (lru_list s)\<rparr>"

definition try_set ::
  "'k \<Rightarrow> 'v \<Rightarrow> bool \<Rightarrow> ('k, 'v) lru \<Rightarrow> (int \<times> ('k \<times> 'v) list \<times> ('k, 'v) lru) option"
where
  "try_set key value moveToFront s =
     (case lru_map s key of
        None \<Rightarrow>
          (case try_add key value s of
             None \<Rightarrow> None
           | Some (None, ev, s') \<Rightarrow> Some (0, ev, s')
           | Some (Some _, ev, s') \<Rightarrow> Some (1, ev, s'))
      | Some i \<Rightarrow>
          (if moveToFront then
             (case splay i s of
                None \<Rightarrow> None
              | Some (j, s') \<Rightarrow>
                  Some (-1, [], assign j value (s'\<lparr>lru_map := (lru_map s')(key \<mapsto> j)\<rparr>)))
           else Some (-1, [], assign i value s)))"

definition set_value ::
  "'k \<Rightarrow> 'v \<Rightarrow> bool \<Rightarrow> ('k, 'v) lru
     \<Rightarrow> ((cxx_error + bool) \<times> ('k \<times> 'v) list \<times> ('k, 'v) lru) option"
where
  "set_value key value moveToFront s =
     (case try_set key value moveToFront s of
        None \<Rightarrow> None
      | Some (r, ev, s') \<Rightarrow>
          Some (if r = 1 then Inr True else if r = -1 then Inr False else Inl LengthError, ev, s'))"

definition erase_key :: "'k \<Rightarrow> ('k, 'v) lru \<Rightarrow> (bool \<times> ('k, 'v) lru) option" where
  "erase_key key s =
     (case lru_map s key of
        None \<Rightarrow> Some (False, s)
      | Some i \<Rightarrow>
          (case node_at i s of
             None \<Rightarrow> None
           | Some _ \<Rightarrow>
               Some (True,
                     s\<lparr>lru_list := filter (\<lambda>m. fst m \<noteq> i) (lru_list s),
                       lru_listSize := lru_listSize s - 1,
                       lru_map := (lru_map s)(key := None)\<rparr>)))"

text \<open>The iterator after node \<open>i\<close>, \<open>None\<close> standing for \<open>end()\<close>.\<close>

definition next_iter :: "iter \<Rightarrow> ('k, 'v) lru \<Rightarrow> iter option" where
  "next_iter i s =
     (case tl (dropWhile (\<lambda>m. fst m \<noteq> i) (lru_list s)) of [] \<Rightarrow> None | n # _ \<Rightarrow> Some (fst n))"

definition erase_pos :: "iter \<Rightarrow> ('k, 'v) lru \<Rightarrow> (iter option \<times> ('k, 'v) lru) option" where
  "erase_pos pos s =
     (case node_at pos s of
        None \<Rightarrow> None
      | Some n \<Rightarrow>
          (case lru_map s (nkey n) of
             None \<Rightarrow> Some (None, s)
           | Some i \<Rightarrow>
               Some (next_iter i s,
                     s\<lparr>lru_list := filter (\<lambda>m. fst m \<noteq> i) (lru_list s),
                       lru_listSize := lru_listSize s - 1,
                       lru_map := (lru_map s)(nkey n := None)\<rparr>)))"

definition begin_iter :: "('k, 'v) lru \<Rightarrow> iter option" where
  "begin_iter s = (case lru_list s of [] \<Rightarrow> None | n # _ \<Rightarrow> Some (fst n))"

definition clear_stats :: "('k, 'v) lru \<Rightarrow> ('k, 'v) lru" where
  "clear_stats s = s\<lparr>lru_hits := 0, lru_misses := 0\<rparr>"

definition clear :: "bool \<Rightarrow> ('k, 'v) lru \<Rightarrow> ('k, 'v) lru" where
  "clear clearStats s =
     (let s' = s\<lparr>lru_map := Map.empty, lru_list := [], lru_listSize := 0\<rparr>
      in if clearStats then clear_stats s' else s')"

definition is_empty :: "('k, 'v) lru \<Rightarrow> bool" where
  "is_empty s \<longleftrightarrow> lru_list s = []"

definition lru_size :: "('k, 'v) lru \<Rightarrow> nat" where
  "lru_size s = lru_listSize s"

fun evict_for ::
  "nat \<Rightarrow> nat \<Rightarrow> ('k \<times> 'v) list \<Rightarrow> ('k, 'v) lru
     \<Rightarrow> (('k \<times> 'v) list \<times> ('k, 'v) lru) option"
where
  "evict_for newCapacity i ev s =
     (if newCapacity < i then
        (case evict s of
           None \<Rightarrow> None
         | Some (e, s') \<Rightarrow> evict_for newCapacity (i - 1) (ev @ [e]) s')
      else Some (ev, s))"

declare evict_for.simps [simp del]

definition set_capacity ::
  "nat \<Rightarrow> ('k, 'v) lru \<Rightarrow> (nat \<times> ('k \<times> 'v) list \<times> ('k, 'v) lru) option"
where
  "set_capacity newCapacity s =
     (case evict_for newCapacity (lru_size s) [] s of
        None \<Rightarrow> None
      | Some (ev, s') \<Rightarrow> Some (lru_capacity s, ev, s'\<lparr>lru_capacity := newCapacity\<rparr>))"

text \<open>
  \<open>hit_ratio\<close> divides after the sum of the two counters, which wraps at their width. The quotient is
  the exact rational one; \<open>double\<close> rounds it.
\<close>

definition hit_ratio :: "('k, 'v) lru \<Rightarrow> rat" where
  "hit_ratio s =
     (let total = lru_hits s + lru_misses s
      in if total = 0 then 0 else of_nat (unat (lru_hits s)) / of_nat (unat total))"

section \<open>The invariant\<close>

definition lru_idx :: "('k, 'v) node list \<Rightarrow> 'k \<rightharpoonup> iter" where
  "lru_idx xs = map_of (map (\<lambda>n. (nkey n, fst n)) xs)"

definition lru_wf :: "('k, 'v) lru \<Rightarrow> bool" where
  "lru_wf s \<longleftrightarrow>
     distinct (map fst (lru_list s)) \<and>
     distinct (map nkey (lru_list s)) \<and>
     lru_listSize s = length (lru_list s) \<and>
     lru_map s = lru_idx (lru_list s) \<and>
     (\<forall>n \<in> set (lru_list s). fst n < next_node s)"

definition lru_inv :: "('k, 'v) lru \<Rightarrow> bool" where
  "lru_inv s \<longleftrightarrow> lru_wf s \<and> length (lru_list s) \<le> lru_capacity s"

text \<open>What the cache holds, most recently used entry first.\<close>

definition entries :: "('k, 'v) lru \<Rightarrow> ('k \<times> 'v) list" where
  "entries s = map snd (lru_list s)"

text \<open>The state with only the first \<open>m\<close> nodes left.\<close>

definition trunc :: "nat \<Rightarrow> ('k, 'v) lru \<Rightarrow> ('k, 'v) lru" where
  "trunc m s =
     s\<lparr>lru_map := lru_idx (take m (lru_list s)), lru_list := take m (lru_list s),
       lru_listSize := length (take m (lru_list s))\<rparr>"

section \<open>Lemmas on the index\<close>

lemma lru_idx_None [simp]: "lru_idx xs k = None \<longleftrightarrow> k \<notin> nkey ` set xs"
  by (simp add: lru_idx_def map_of_eq_None_iff image_image)

lemma lru_idx_Some:
  "distinct (map nkey xs) \<Longrightarrow> lru_idx xs k = Some i \<longleftrightarrow> (\<exists>n \<in> set xs. nkey n = k \<and> fst n = i)"
  by (auto simp: lru_idx_def comp_def)

lemma lru_idx_Nil [simp]: "lru_idx [] = Map.empty"
  by (simp add: lru_idx_def)

lemma lru_idx_Cons [simp]: "lru_idx (n # xs) = (lru_idx xs)(nkey n \<mapsto> fst n)"
  by (simp add: lru_idx_def)

lemma filter_id_key:
  "distinct (map fst xs) \<Longrightarrow> distinct (map nkey xs) \<Longrightarrow> n \<in> set xs \<Longrightarrow>
   filter (\<lambda>m. fst m \<noteq> fst n) xs = filter (\<lambda>m. nkey m \<noteq> nkey n) xs"
  by (rule filter_cong) (auto dest: distinct_map_eqD)

lemma lru_idx_filter_key:
  "lru_idx (filter (\<lambda>m. nkey m \<noteq> k) xs) = (lru_idx xs)(k := None)"
  by (induction xs) (auto simp: fun_eq_iff)

lemma lru_idx_butlast:
  "distinct (map nkey xs) \<Longrightarrow> xs \<noteq> [] \<Longrightarrow>
   lru_idx (butlast xs) = (lru_idx xs)(nkey (last xs) := None)"
proof (induction xs)
  case (Cons n xs)
  show ?case
  proof (cases "xs = []")
    case False
    then have "last xs \<in> set xs" by simp
    with Cons.prems(1) have "nkey n \<noteq> nkey (last xs)" by auto
    with False Cons show ?thesis by (auto simp: fun_eq_iff)
  qed (simp add: fun_eq_iff)
qed simp

lemma lru_idx_map_value:
  "lru_idx (map (\<lambda>n. if fst n = i then (i, nkey n, v) else n) xs) = lru_idx xs"
  by (induction xs) (auto simp: nkey_def)

lemma node_at_in:
  assumes "lru_wf s" and "lru_map s k = Some i"
  obtains n where "node_at i s = Some n" and "n \<in> set (lru_list s)" and "nkey n = k" and "fst n = i"
proof -
  from assms obtain n where n: "n \<in> set (lru_list s)" "nkey n = k" "fst n = i"
    by (auto simp: lru_wf_def lru_idx_Some)
  then have "node_at i s \<noteq> None"
    unfolding node_at_def find_None_iff by blast
  then obtain m where m: "node_at i s = Some m"
    by blast
  then have "m \<in> set (lru_list s)" "fst m = i"
    by (auto simp: node_at_def find_Some_iff)
  with n assms(1) have "m = n"
    by (auto simp: lru_wf_def dest: distinct_map_eqD)
  with n m show ?thesis by (intro that) auto
qed

lemma node_at_Some_in: "node_at i s = Some n \<Longrightarrow> n \<in> set (lru_list s) \<and> fst n = i"
  by (auto simp: node_at_def find_Some_iff)

section \<open>Eviction\<close>

lemma trunc_all: "lru_wf s \<Longrightarrow> length (lru_list s) \<le> m \<Longrightarrow> trunc m s = s"
  by (simp add: trunc_def lru_wf_def)

lemma trunc_trunc: "m \<le> m' \<Longrightarrow> trunc m (trunc m' s) = trunc m s"
  by (simp add: trunc_def min_def)

lemma trunc_list [simp]:
  "lru_list (trunc m s) = take m (lru_list s)" "lru_capacity (trunc m s) = lru_capacity s"
  "next_node (trunc m s) = next_node s" "lru_hits (trunc m s) = lru_hits s"
  "lru_misses (trunc m s) = lru_misses s" "lru_map (trunc m s) = lru_idx (take m (lru_list s))"
  "lru_listSize (trunc m s) = length (take m (lru_list s))"
  by (simp_all add: trunc_def)

lemma lru_wf_trunc: "lru_wf s \<Longrightarrow> lru_wf (trunc m s)"
  by (auto simp: lru_wf_def take_map[symmetric] dest: in_set_takeD)

lemma evict_trunc:
  assumes "lru_wf s" and "lru_list s \<noteq> []"
  shows "evict s = Some (snd (last (lru_list s)), trunc (length (lru_list s) - 1) s)"
proof -
  have "take (length (lru_list s) - 1) (lru_list s) = butlast (lru_list s)"
    by (simp add: butlast_conv_take)
  with assms show ?thesis
    by (simp add: evict_def Let_def trunc_def lru_wf_def lru_idx_butlast nval_def)
       (simp add: nkey_def)
qed

lemma drop_last_rev:
  "xs \<noteq> [] \<Longrightarrow> m < length xs \<Longrightarrow>
   f (last xs) # rev (map f (drop m (take (length xs - 1) xs))) = rev (map f (drop m xs))"
  by (induction xs rule: rev_induct) auto

lemma evict_while_trunc:
  "lru_wf s \<Longrightarrow> 1 \<le> lru_capacity s \<Longrightarrow>
   evict_while ev s =
     Some (ev @ rev (map snd (drop (lru_capacity s - 1) (lru_list s))), trunc (lru_capacity s - 1) s)"
proof (induction ev s rule: evict_while.induct)
  case (1 ev s)
  let ?L = "lru_list s" and ?c = "lru_capacity s"
  show ?case
  proof (cases "lru_listSize s \<ge> ?c")
    case True
    with "1.prems" have ne: "?L \<noteq> []" and lt: "?c - 1 < length ?L"
      by (auto simp: lru_wf_def)
    let ?s' = "trunc (length ?L - 1) s"
    from "1.IH"[OF True evict_trunc[OF "1.prems"(1) ne] refl] "1.prems"
    have "evict_while (ev @ [snd (last ?L)]) ?s' =
        Some ((ev @ [snd (last ?L)]) @ rev (map snd (drop (?c - 1) (take (length ?L - 1) ?L))),
              trunc (?c - 1) ?s')"
      by (simp add: lru_wf_trunc)
    then show ?thesis
      using True lt drop_last_rev[OF ne lt, of snd]
      by (simp add: evict_while.simps[of ev s] evict_trunc[OF "1.prems"(1) ne] trunc_trunc)
  next
    case False
    with "1.prems" show ?thesis
      by (simp add: evict_while.simps[of ev s] trunc_all lru_wf_def)
  qed
qed

lemma evict_for_trunc:
  "lru_wf s \<Longrightarrow> i = length (lru_list s) \<Longrightarrow>
   evict_for m i ev s = Some (ev @ rev (map snd (drop m (lru_list s))), trunc m s)"
proof (induction m i ev s rule: evict_for.induct)
  case (1 m i ev s)
  let ?L = "lru_list s"
  show ?case
  proof (cases "m < i")
    case True
    with "1.prems" have ne: "?L \<noteq> []" and lt: "m < length ?L"
      by auto
    let ?s' = "trunc (length ?L - 1) s"
    from "1.IH"[OF True evict_trunc[OF "1.prems"(1) ne] refl] "1.prems"
    have "evict_for m (i - 1) (ev @ [snd (last ?L)]) ?s' =
        Some ((ev @ [snd (last ?L)]) @ rev (map snd (drop m (take (length ?L - 1) ?L))),
              trunc m ?s')"
      by (simp add: lru_wf_trunc)
    then show ?thesis
      using True lt drop_last_rev[OF ne lt, of snd]
      by (simp add: evict_for.simps[of m i ev s] evict_trunc[OF "1.prems"(1) ne] trunc_trunc)
  next
    case False
    with "1.prems" show ?thesis
      by (simp add: evict_for.simps[of m "length ?L"] trunc_all)
  qed
qed

section \<open>The abstract cache\<close>

text \<open>
  The contract: a bounded list of entries, most recently used first. \<open>spec_find\<close>, \<open>spec_add\<close>,
  \<open>spec_set\<close> and \<open>spec_erase\<close> say what the operations do to it and which entries they evict.
\<close>

definition spec_front :: "'k \<Rightarrow> ('k \<times> 'v) list \<Rightarrow> ('k \<times> 'v) list" where
  "spec_front k es =
     (case map_of es k of
        None \<Rightarrow> es
      | Some v \<Rightarrow> (k, v) # filter (\<lambda>e. fst e \<noteq> k) es)"

definition spec_find :: "'k \<Rightarrow> bool \<Rightarrow> ('k \<times> 'v) list \<Rightarrow> ('k \<times> 'v) list" where
  "spec_find k moveToFront es = (if moveToFront then spec_front k es else es)"

definition spec_add ::
  "nat \<Rightarrow> 'k \<Rightarrow> 'v \<Rightarrow> ('k \<times> 'v) list \<Rightarrow> ('k \<times> 'v) list \<times> ('k \<times> 'v) list"
where
  "spec_add cap k v es =
     (if cap = 0 then ([], es) else (rev (drop (cap - 1) es), (k, v) # take (cap - 1) es))"

definition spec_set ::
  "nat \<Rightarrow> 'k \<Rightarrow> 'v \<Rightarrow> bool \<Rightarrow> ('k \<times> 'v) list
     \<Rightarrow> int \<times> ('k \<times> 'v) list \<times> ('k \<times> 'v) list"
where
  "spec_set cap k v moveToFront es =
     (if k \<in> fst ` set es then
        (-1, [], if moveToFront then (k, v) # filter (\<lambda>e. fst e \<noteq> k) es
                 else map (\<lambda>e. if fst e = k then (k, v) else e) es)
      else (if cap = 0 then 0 else 1, spec_add cap k v es))"

section \<open>Refinement lemmas\<close>

lemma fst_entries: "fst ` set (entries s) = nkey ` set (lru_list s)"
  by (simp add: entries_def image_image nkey_def)

lemma length_entries [simp]: "length (entries s) = length (lru_list s)"
  by (simp add: entries_def)

lemma distinct_entries: "lru_wf s \<Longrightarrow> distinct (map fst (entries s))"
  by (simp add: entries_def lru_wf_def comp_def nkey_def [abs_def])

lemma lru_map_None_iff: "lru_wf s \<Longrightarrow> lru_map s k = None \<longleftrightarrow> k \<notin> fst ` set (entries s)"
  by (simp add: lru_wf_def fst_entries)

lemma entry_of_node:
  "lru_wf s \<Longrightarrow> n \<in> set (lru_list s) \<Longrightarrow> map_of (entries s) (nkey n) = Some (nval n)"
  by (simp add: distinct_entries) (force simp: entries_def nkey_def nval_def)

lemma entries_upd [simp]:
  "entries (s\<lparr>lru_map := m\<rparr>) = entries s" "entries (s\<lparr>lru_hits := h\<rparr>) = entries s"
  "entries (s\<lparr>lru_misses := h\<rparr>) = entries s" "entries (s\<lparr>lru_listSize := z\<rparr>) = entries s"
  "entries (s\<lparr>lru_capacity := z\<rparr>) = entries s" "entries (s\<lparr>next_node := z\<rparr>) = entries s"
  by (simp_all add: entries_def)

lemma lru_inv_stats [simp]:
  "lru_inv (s\<lparr>lru_hits := h\<rparr>) = lru_inv s" "lru_inv (s\<lparr>lru_misses := h\<rparr>) = lru_inv s"
  by (simp_all add: lru_inv_def lru_wf_def)

lemma lru_inv_wf: "lru_inv s \<Longrightarrow> lru_wf s"
  by (simp add: lru_inv_def)

lemma deref_found:
  assumes "lru_wf s" and "lru_map s k = Some i"
  shows "deref i s = map_of (entries s) k" and "map_of (entries s) k \<noteq> None"
proof -
  from assms obtain n where "node_at i s = Some n" "n \<in> set (lru_list s)" "nkey n = k"
    by (rule node_at_in)
  with entry_of_node[OF assms(1), of n]
  show "deref i s = map_of (entries s) k" and "map_of (entries s) k \<noteq> None"
    by (simp_all add: deref_def)
qed

lemma splay_refines:
  assumes "lru_inv s" and "lru_map s k = Some i"
  obtains L where "splay i s = Some (i, s\<lparr>lru_list := L\<rparr>)" and "lru_inv (s\<lparr>lru_list := L\<rparr>)"
    and "map snd L = spec_front k (entries s)"
proof -
  from assms obtain n where n: "node_at i s = Some n" "n \<in> set (lru_list s)" "nkey n = k" "fst n = i"
    by (auto simp: lru_inv_def elim: node_at_in)
  let ?L = "n # filter (\<lambda>m. fst m \<noteq> i) (lru_list s)"
  from assms have d: "distinct (map fst (lru_list s))" "distinct (map nkey (lru_list s))"
    by (simp_all add: lru_inv_def lru_wf_def)
  have f: "filter (\<lambda>m. fst m \<noteq> i) (lru_list s) = filter (\<lambda>m. nkey m \<noteq> k) (lru_list s)"
    using filter_id_key[OF d n(2)] n by simp
  have len: "length ?L = length (lru_list s)"
    using length_filter_remove1_key[OF d(1) n(2)] n(2,4) by (cases "lru_list s") auto
  have idx: "lru_idx ?L = lru_idx (lru_list s)"
    using n assms by (auto simp: f lru_idx_filter_key fun_eq_iff lru_inv_def lru_wf_def)
  have "nkey n \<notin> nkey ` set (filter (\<lambda>m. fst m \<noteq> i) (lru_list s))"
    unfolding f using n(3) by auto
  with assms len idx n d have "lru_inv (s\<lparr>lru_list := ?L\<rparr>)"
    by (auto simp: lru_inv_def lru_wf_def)
  moreover have "map snd ?L = spec_front k (entries s)"
    using entry_of_node[OF lru_inv_wf[OF assms(1)] n(2)] n(3)
    by (auto simp: spec_front_def f entries_def filter_map comp_def nkey_def nval_def
        prod_eq_iff)
  moreover have "splay i s = Some (i, s\<lparr>lru_list := ?L\<rparr>)"
    using n by (simp add: splay_def)
  ultimately show ?thesis by (intro that) auto
qed

lemma find_move_refines:
  assumes "lru_inv s"
  obtains it s' where "find_move k mv s = Some (it, s')" and "lru_inv s'"
    and "entries s' = spec_find k mv (entries s)" and "lru_capacity s' = lru_capacity s"
    and "it = None \<longleftrightarrow> k \<notin> fst ` set (entries s)"
    and "\<And>i. it = Some i \<Longrightarrow> deref i s' = map_of (entries s) k"
    and "lru_hits s' = lru_hits s + (if it = None then 0 else 1)"
    and "lru_misses s' = lru_misses s + (if it = None then 1 else 0)"
    and "lru_map s' = lru_map s"
proof (cases "lru_map s k")
  case None
  with assms have "k \<notin> fst ` set (entries s)" by (simp add: lru_map_None_iff lru_inv_def)
  moreover from this have "map_of (entries s) k = None" by (simp add: map_of_eq_None_iff)
  ultimately show ?thesis
    using None assms
    by (intro that[of None "s\<lparr>lru_misses := lru_misses s + 1\<rparr>"])
       (simp_all add: find_move_def spec_find_def spec_front_def)
next
  case (Some i)
  with assms have mem: "k \<in> fst ` set (entries s)"
    using lru_map_None_iff[of s k] by (auto simp: lru_inv_def)
  note dr = deref_found[OF lru_inv_wf[OF assms] Some]
  show ?thesis
  proof (cases mv)
    case False
    with Some assms mem dr show ?thesis
      by (intro that[of "Some i" "s\<lparr>lru_hits := lru_hits s + 1\<rparr>"])
         (simp_all add: find_move_def spec_find_def deref_def node_at_def)
  next
    case True
    obtain L where L: "splay i s = Some (i, s\<lparr>lru_list := L\<rparr>)" "lru_inv (s\<lparr>lru_list := L\<rparr>)"
        "map snd L = spec_front k (entries s)"
      using splay_refines[OF assms Some] .
    let ?s' = "s\<lparr>lru_list := L, lru_hits := lru_hits s + 1\<rparr>"
    have m: "(lru_map s)(k \<mapsto> i) = lru_map s" using Some by auto
    have "deref i ?s' = map_of (spec_front k (entries s)) k"
      using deref_found(1)[OF lru_inv_wf[OF L(2)], of k i] Some L(3)
      by (simp add: deref_def node_at_def entries_def)
    also have "\<dots> = map_of (entries s) k"
      by (simp add: spec_front_def split: option.splits)
    finally have "deref i ?s' = map_of (entries s) k" .
    with True Some L m mem show ?thesis
      by (intro that[of "Some i" ?s'])
         (simp_all add: find_move_def spec_find_def entries_def lru_inv_def lru_wf_def)
  qed
qed

lemma try_add_refines:
  assumes "lru_inv s" and "lru_map s k = None"
  obtains it s' where
    "try_add k v s = Some (it, fst (spec_add (lru_capacity s) k v (entries s)), s')"
    and "lru_inv s'" and "entries s' = snd (spec_add (lru_capacity s) k v (entries s))"
    and "lru_capacity s' = lru_capacity s" and "it = None \<longleftrightarrow> lru_capacity s = 0"
    and "\<And>i. it = Some i \<Longrightarrow> deref i s' = Some v"
proof (cases "lru_capacity s = 0")
  case True
  with assms show ?thesis
    by (intro that[of None s]) (simp_all add: try_add_def ensure_room_def spec_add_def)
next
  case False
  let ?c = "lru_capacity s" and ?t = "trunc (lru_capacity s - 1) s"
  let ?s' = "?t\<lparr>lru_list := (next_node s, k, v) # take (?c - 1) (lru_list s),
      lru_listSize := length (take (?c - 1) (lru_list s)) + 1,
      lru_map := (lru_map ?t)(k \<mapsto> next_node s), next_node := next_node s + 1\<rparr>"
  from assms have wf: "lru_wf s" by (simp add: lru_inv_def)
  have k: "k \<notin> nkey ` set (take (?c - 1) (lru_list s))"
    using assms wf by (auto simp: lru_wf_def dest: in_set_takeD)
  then have "lru_map ?t k = None" by (simp)
  with False wf have eq: "try_add k v s =
      Some (Some (next_node s), rev (map snd (drop (?c - 1) (lru_list s))), ?s')"
    by (simp add: try_add_def ensure_room_def evict_while_trunc Let_def)
  have "lru_inv ?s'"
    using lru_wf_trunc[OF wf, of "?c - 1"] k False
    by (auto simp: lru_inv_def lru_wf_def nkey_def image_iff less_Suc_eq)
  moreover have "deref (next_node s) ?s' = Some v"
    by (simp add: deref_def node_at_def nval_def)
  ultimately show ?thesis
    using eq False
    by (intro that[of "Some (next_node s)" ?s']) (simp_all add: spec_add_def entries_def take_map drop_map)
qed

lemma assign_refines:
  assumes "lru_inv s" and "lru_map s k = Some i"
  shows "lru_inv (assign i v s)"
    and "entries (assign i v s) = map (\<lambda>e. if fst e = k then (k, v) else e) (entries s)"
    and "lru_capacity (assign i v s) = lru_capacity s"
proof -
  let ?f = "\<lambda>n. if fst n = i then (i, nkey n, v) else n"
  have ids: "fst \<circ> ?f = fst" and ks: "nkey \<circ> ?f = nkey" by (auto simp: nkey_def fun_eq_iff)
  show "lru_inv (assign i v s)"
    using assms by (auto simp: lru_inv_def lru_wf_def assign_def lru_idx_map_value ids ks)
  show "lru_capacity (assign i v s) = lru_capacity s" by (simp add: assign_def)
  from assms obtain n where n: "n \<in> set (lru_list s)" "nkey n = k" "fst n = i"
    by (auto simp: lru_inv_def elim: node_at_in)
  have "snd (?f m) = (if fst (snd m) = k then (k, v) else snd m)" if "m \<in> set (lru_list s)" for m
    using that n assms(1) distinct_map_eqD[of fst "lru_list s" m n]
      distinct_map_eqD[of nkey "lru_list s" m n]
    by (auto simp: lru_inv_def lru_wf_def nkey_def)
  then show "entries (assign i v s) = map (\<lambda>e. if fst e = k then (k, v) else e) (entries s)"
    by (simp add: entries_def assign_def)
qed

lemma spec_front_assign:
  "k \<in> fst ` set es \<Longrightarrow>
   map (\<lambda>e. if fst e = k then (k, v) else e) (spec_front k es) = (k, v) # filter (\<lambda>e. fst e \<noteq> k) es"
proof -
  assume "k \<in> fst ` set es"
  then obtain w where "map_of es k = Some w" by (metis map_of_eq_None_iff option.exhaust)
  moreover have "map (\<lambda>e. if fst e = k then (k, v) else e) (filter (\<lambda>e. fst e \<noteq> k) es) =
      filter (\<lambda>e. fst e \<noteq> k) es"
    by (rule map_idI) simp
  ultimately show ?thesis by (simp add: spec_front_def)
qed

lemma try_set_refines_ex:
  assumes "lru_inv s"
  shows "case spec_set (lru_capacity s) k v mv (entries s) of (r, ev, es) \<Rightarrow>
           \<exists>s'. try_set k v mv s = Some (r, ev, s') \<and> lru_inv s' \<and>
                lru_capacity s' = lru_capacity s \<and> entries s' = es"
proof (cases "lru_map s k")
  case None
  with assms have k: "k \<notin> fst ` set (entries s)" by (simp add: lru_inv_def lru_map_None_iff)
  obtain it s' where
    s': "try_add k v s = Some (it, fst (spec_add (lru_capacity s) k v (entries s)), s')"
      "lru_inv s'" "entries s' = snd (spec_add (lru_capacity s) k v (entries s))"
      "lru_capacity s' = lru_capacity s" "it = None \<longleftrightarrow> lru_capacity s = 0"
    using try_add_refines[OF assms None, of v] by metis
  with None k show ?thesis
    by (cases it) (simp_all add: try_set_def spec_set_def split: prod.splits)
next
  case (Some i)
  with assms have k: "k \<in> fst ` set (entries s)"
    using lru_map_None_iff[of s k] by (simp add: lru_inv_def)
  show ?thesis
  proof (cases mv)
    case False
    with Some k assign_refines[OF assms Some] show ?thesis
      by (simp add: try_set_def spec_set_def)
  next
    case True
    obtain L where L: "splay i s = Some (i, s\<lparr>lru_list := L\<rparr>)" "lru_inv (s\<lparr>lru_list := L\<rparr>)"
        "map snd L = spec_front k (entries s)"
      using splay_refines[OF assms Some] .
    have m: "(lru_map s)(k \<mapsto> i) = lru_map s" using Some by auto
    from assign_refines[OF L(2), of k i v] Some L(3) True k L(1) m show ?thesis
      by (simp add: try_set_def spec_set_def entries_def spec_front_assign)
  qed
qed

lemma try_get_or_create_refines_ex:
  assumes "lru_inv s"
  shows "\<exists>it ev s'. try_get_or_create k f mv s = Some (it, ev, s') \<and> lru_inv s' \<and>
      lru_capacity s' = lru_capacity s \<and>
      (if k \<in> fst ` set (entries s)
       then ev = [] \<and> entries s' = spec_find k mv (entries s) \<and>
            (\<exists>i. it = Some i \<and> deref i s' = map_of (entries s) k)
       else (ev, entries s') = spec_add (lru_capacity s) k (f k) (entries s) \<and>
            (it = None \<longleftrightarrow> lru_capacity s = 0) \<and> (\<forall>i. it = Some i \<longrightarrow> deref i s' = Some (f k)))"
proof -
  obtain it s1 where s1: "find_move k mv s = Some (it, s1)" "lru_inv s1"
      "entries s1 = spec_find k mv (entries s)" "lru_capacity s1 = lru_capacity s"
      "it = None \<longleftrightarrow> k \<notin> fst ` set (entries s)"
      "\<And>i. it = Some i \<Longrightarrow> deref i s1 = map_of (entries s) k" "lru_map s1 = lru_map s"
    using find_move_refines[OF assms, of k mv] by metis
  show ?thesis
  proof (cases it)
    case (Some i)
    with s1 show ?thesis by (simp add: try_get_or_create_def)
  next
    case None
    with s1 assms have "lru_map s1 k = None" by (simp add: lru_inv_def lru_map_None_iff)
    moreover from None s1 have "entries s1 = entries s"
      by (auto simp: spec_find_def spec_front_def dest: map_of_SomeD split: option.splits)
         (force dest: map_of_SomeD)+
    ultimately obtain it' s' where
      "try_add k (f k) s1 = Some (it', fst (spec_add (lru_capacity s) k (f k) (entries s)), s')"
      "lru_inv s'" "entries s' = snd (spec_add (lru_capacity s) k (f k) (entries s))"
      "lru_capacity s' = lru_capacity s" "it' = None \<longleftrightarrow> lru_capacity s = 0"
      "\<And>i. it' = Some i \<Longrightarrow> deref i s' = Some (f k)"
      using try_add_refines[OF s1(2), of k "f k"] s1(4) by metis
    with None s1(1,5) show ?thesis by (simp add: try_get_or_create_def)
  qed
qed

section \<open>Remaining operations\<close>

lemma erase_key_refines_ex:
  assumes "lru_inv s"
  shows "\<exists>s'. erase_key k s = Some (k \<in> fst ` set (entries s), s') \<and> lru_inv s' \<and>
           lru_capacity s' = lru_capacity s \<and> entries s' = filter (\<lambda>e. fst e \<noteq> k) (entries s)"
proof (cases "lru_map s k")
  case None
  with assms have "k \<notin> fst ` set (entries s)" by (simp add: lru_inv_def lru_map_None_iff)
  moreover from this have "filter (\<lambda>e. fst e \<noteq> k) (entries s) = entries s" by (rule filter_neq_id)
  ultimately show ?thesis using None assms by (simp add: erase_key_def)
next
  case (Some i)
  with assms have k: "k \<in> fst ` set (entries s)"
    using lru_map_None_iff[of s k] by (simp add: lru_inv_def)
  from Some assms obtain n where
    n: "node_at i s = Some n" "n \<in> set (lru_list s)" "nkey n = k" "fst n = i"
    by (auto simp: lru_inv_def elim: node_at_in)
  from assms have d: "distinct (map fst (lru_list s))" "distinct (map nkey (lru_list s))"
    by (simp_all add: lru_inv_def lru_wf_def)
  have f: "filter (\<lambda>m. fst m \<noteq> i) (lru_list s) = filter (\<lambda>m. nkey m \<noteq> k) (lru_list s)"
    using filter_id_key[OF d n(2)] n by simp
  have len: "length (filter (\<lambda>m. nkey m \<noteq> k) (lru_list s)) = length (lru_list s) - 1"
    using length_filter_remove1_key[OF d(2) n(2)] n(3) by simp
  have e: "map snd (filter (\<lambda>m. nkey m \<noteq> k) (lru_list s)) = filter (\<lambda>e. fst e \<noteq> k) (entries s)"
    by (simp add: entries_def filter_map comp_def nkey_def)
  from Some n assms k len d show ?thesis
    by (auto simp: erase_key_def f lru_inv_def lru_wf_def lru_idx_filter_key entries_def[of "lru_list_update _ _"]
        e)
qed

lemma erase_pos_is_erase_key:
  assumes "lru_inv s" and "node_at pos s = Some n"
  shows "erase_pos pos s = map_option (\<lambda>(b, s'). (next_iter pos s, s')) (erase_key (nkey n) s)"
proof -
  from node_at_Some_in[OF assms(2)] have n: "n \<in> set (lru_list s)" "fst n = pos" by auto
  with assms have "lru_map s (nkey n) = Some pos"
    by (auto simp: lru_inv_def lru_wf_def lru_idx_Some)
  with assms(2) show ?thesis by (simp add: erase_pos_def erase_key_def)
qed

lemma set_capacity_refines_ex:
  assumes "lru_inv s"
  shows "\<exists>s'. set_capacity c s = Some (lru_capacity s, rev (drop c (entries s)), s') \<and> lru_inv s' \<and>
           lru_capacity s' = c \<and> entries s' = take c (entries s)"
proof -
  from assms have wf: "lru_wf s" and size: "lru_size s = length (lru_list s)"
    by (simp_all add: lru_inv_def lru_wf_def lru_size_def)
  have "set_capacity c s =
      Some (lru_capacity s, rev (drop c (entries s)), (trunc c s)\<lparr>lru_capacity := c\<rparr>)"
    by (simp add: set_capacity_def size evict_for_trunc[OF wf] entries_def drop_map)
  moreover have "lru_inv ((trunc c s)\<lparr>lru_capacity := c\<rparr>)"
    using lru_wf_trunc[OF wf, of c] by (simp add: lru_inv_def lru_wf_def)
  moreover have "entries (trunc c s) = take c (entries s)"
    by (simp add: entries_def take_map)
  ultimately show ?thesis by simp
qed

lemma peek_refines:
  assumes "lru_inv s"
  shows "\<exists>s'. peek k s = Some (case map_of (entries s) k of None \<Rightarrow> Inl OutOfRange | Some v \<Rightarrow> Inr v, s') \<and>
           lru_inv s' \<and> entries s' = entries s \<and> lru_capacity s' = lru_capacity s"
proof (cases "lru_map s k")
  case None
  with assms have "map_of (entries s) k = None"
    by (simp add: lru_inv_def lru_map_None_iff map_of_eq_None_iff)
  with None assms show ?thesis by (simp add: peek_def find_const_def)
next
  case (Some i)
  from deref_found[OF lru_inv_wf[OF assms] Some] obtain v where
    "deref i s = Some v" "map_of (entries s) k = Some v" by auto
  with Some assms show ?thesis
    by (simp add: peek_def find_const_def deref_def node_at_def)
qed

lemma clear_inv: "lru_inv s \<Longrightarrow> lru_inv (clear b s) \<and> entries (clear b s) = []"
  by (simp add: clear_def Let_def clear_stats_def lru_inv_def lru_wf_def entries_def)

section \<open>Reachable caches\<close>

inductive lru_reach :: "('k, 'v) lru \<Rightarrow> bool" where
  construct: "lru_reach (SimpleLRUMap c)"
| look: "lru_reach s \<Longrightarrow> lru_reach (snd (find_const k s))"
| find: "lru_reach s \<Longrightarrow> find_move k mv s = Some (it, s') \<Longrightarrow> lru_reach s'"
| get: "lru_reach s \<Longrightarrow> try_get_or_create k f mv s = Some (it, ev, s') \<Longrightarrow> lru_reach s'"
| set: "lru_reach s \<Longrightarrow> try_set k v mv s = Some (r, ev, s') \<Longrightarrow> lru_reach s'"
| poke: "lru_reach s \<Longrightarrow> lru_map s k = Some i \<Longrightarrow> lru_reach (assign i v s)"
| erase: "lru_reach s \<Longrightarrow> erase_key k s = Some (b, s') \<Longrightarrow> lru_reach s'"
| erase_at: "lru_reach s \<Longrightarrow> erase_pos i s = Some (it, s') \<Longrightarrow> lru_reach s'"
| resize: "lru_reach s \<Longrightarrow> set_capacity c s = Some (old, ev, s') \<Longrightarrow> lru_reach s'"
| wipe: "lru_reach s \<Longrightarrow> lru_reach (clear b s)"
| wipe_stats: "lru_reach s \<Longrightarrow> lru_reach (clear_stats s)"

lemma lru_inv_construct: "lru_inv (SimpleLRUMap c)"
  by (simp add: lru_inv_def lru_wf_def SimpleLRUMap_def)

lemma try_set_inv:
  assumes "lru_inv s" "try_set k v mv s = Some (r, ev, s')" shows "lru_inv s'"
  using try_set_refines_ex[OF assms(1), of k v mv] assms(2) by (auto split: prod.splits)

lemma try_get_or_create_inv:
  assumes "lru_inv s" "try_get_or_create k f mv s = Some (it, ev, s')" shows "lru_inv s'"
  using try_get_or_create_refines_ex[OF assms(1), of k f mv] assms(2) by auto

lemma erase_key_inv:
  assumes "lru_inv s" "erase_key k s = Some (b, s')" shows "lru_inv s'"
  using erase_key_refines_ex[OF assms(1), of k] assms(2) by auto

lemma lru_reach_inv: "lru_reach s \<Longrightarrow> lru_inv s"
proof (induction rule: lru_reach.induct)
  case (construct c)
  show ?case by (rule lru_inv_construct)
next
  case (look s k)
  then show ?case by (simp add: find_const_def split: option.splits)
next
  case (find s k mv it s')
  then show ?case using find_move_refines[of s k mv] by (metis option.inject prod.inject)
next
  case (get s k f mv it ev s')
  then show ?case by (blast intro: try_get_or_create_inv)
next
  case (set s k v mv r ev s')
  then show ?case by (blast intro: try_set_inv)
next
  case (poke s k i v)
  then show ?case by (blast intro: assign_refines)
next
  case (erase s k b s')
  then show ?case by (blast intro: erase_key_inv)
next
  case (erase_at s i it s')
  show ?case
  proof (cases "node_at i s")
    case None
    with erase_at show ?thesis by (simp add: erase_pos_def)
  next
    case (Some n)
    with erase_at erase_pos_is_erase_key[of s i n] show ?thesis
      by (auto intro: erase_key_inv)
  qed
next
  case (resize s c old ev s')
  then show ?case using set_capacity_refines_ex[of s c] by auto
next
  case (wipe s b)
  then show ?case by (simp add: clear_inv)
next
  case (wipe_stats s)
  then show ?case by (simp add: clear_stats_def)
qed

section \<open>Use of keys\<close>

text \<open>The two operations that bring a key to the front, as drivers of a whole run.\<close>

definition use_set :: "('k \<Rightarrow> 'v) \<Rightarrow> 'k \<Rightarrow> ('k, 'v) lru \<Rightarrow> ('k, 'v) lru" where
  "use_set f k s = (case try_set k (f k) True s of None \<Rightarrow> s | Some (_, _, s') \<Rightarrow> s')"

definition use_get :: "('k \<Rightarrow> 'v) \<Rightarrow> 'k \<Rightarrow> ('k, 'v) lru \<Rightarrow> ('k, 'v) lru" where
  "use_get f k s = (case try_get_or_create k f True s of None \<Rightarrow> s | Some (_, _, s') \<Rightarrow> s')"

lemma take_cons_front:
  assumes "k \<in> set ks" and "distinct ks" and "length ks \<le> c"
  shows "take c (k # filter (\<lambda>x. x \<noteq> k) ks) = k # filter (\<lambda>x. x \<noteq> k) ks"
proof -
  have "length (filter (\<lambda>x. x \<noteq> k) ks) = length ks - 1"
    using length_filter_remove1_key[of "\<lambda>x. x" ks k] assms by simp
  moreover have "0 < length ks" using assms(1) by (cases ks) auto
  ultimately show ?thesis using assms(3) by simp
qed

lemma take_cons_new: "k \<notin> set ks \<Longrightarrow> take c (k # filter (\<lambda>x. x \<noteq> k) ks) = (if c = 0 then [] else k # take (c - 1) ks)"
  using filter_neq_id[of k "\<lambda>x. x" ks] by (cases c) simp_all

lemma map_fst_filter: "map fst (filter (\<lambda>e. fst e \<noteq> k) es) = filter (\<lambda>x. x \<noteq> k) (map fst es)"
  by (induction es) auto

lemma map_fst_spec_front:
  "k \<in> fst ` set es \<Longrightarrow> map fst (spec_front k es) = k # filter (\<lambda>x. x \<noteq> k) (map fst es)"
  by (auto simp: spec_front_def map_fst_filter split: option.splits) (force simp: map_of_eq_None_iff)

lemma entries_empty_cap: "lru_inv s \<Longrightarrow> lru_capacity s = 0 \<Longrightarrow> entries s = []"
  by (simp add: lru_inv_def entries_def)

lemma lru_inv_entries: "lru_inv s \<Longrightarrow> distinct (map fst (entries s)) \<and> length (entries s) \<le> lru_capacity s"
  by (simp add: lru_inv_def distinct_entries)

lemma use_set_refines:
  assumes "lru_inv s"
  shows "lru_inv (use_set f k s) \<and> lru_capacity (use_set f k s) = lru_capacity s \<and>
    map fst (entries (use_set f k s)) =
      take (lru_capacity s) (k # filter (\<lambda>x. x \<noteq> k) (map fst (entries s)))"
proof (cases "k \<in> fst ` set (entries s)")
  case True
  moreover note lru_inv_entries[OF assms]
  ultimately show ?thesis
    using try_set_refines_ex[OF assms, of k "f k" True] take_cons_front[of k "map fst (entries s)"]
    by (auto simp: spec_set_def use_set_def map_fst_filter)
next
  case False
  then show ?thesis
    using try_set_refines_ex[OF assms, of k "f k" True] take_cons_new[of k "map fst (entries s)"]
      entries_empty_cap[OF assms]
    by (auto simp: spec_set_def spec_add_def use_set_def take_map split: if_splits)
qed

lemma use_get_refines:
  assumes "lru_inv s"
  shows "lru_inv (use_get f k s) \<and> lru_capacity (use_get f k s) = lru_capacity s \<and>
    map fst (entries (use_get f k s)) =
      take (lru_capacity s) (k # filter (\<lambda>x. x \<noteq> k) (map fst (entries s)))"
proof (cases "k \<in> fst ` set (entries s)")
  case True
  moreover note lru_inv_entries[OF assms]
  ultimately show ?thesis
    using try_get_or_create_refines_ex[OF assms, of k f True]
      take_cons_front[of k "map fst (entries s)"] map_fst_spec_front[of k "entries s"]
    by (auto simp: use_get_def spec_find_def)
next
  case False
  then show ?thesis
    using try_get_or_create_refines_ex[OF assms, of k f True]
      take_cons_new[of k "map fst (entries s)"] entries_empty_cap[OF assms]
    by (auto simp: spec_add_def use_get_def take_map split: if_splits)
qed

interpretation lru_by_set: mru_store "use_set f" "\<lambda>s. map fst (entries s)" lru_capacity lru_inv
  for f :: "'k \<Rightarrow> 'v"
  by unfold_locales (simp_all add: use_set_refines lru_inv_entries del: length_entries)

interpretation lru_by_get: mru_store "use_get f" "\<lambda>s. map fst (entries s)" lru_capacity lru_inv
  for f :: "'k \<Rightarrow> 'v"
  by unfold_locales (simp_all add: use_get_refines lru_inv_entries del: length_entries)

section \<open>Properties\<close>

text \<open>
  C5: Every cache that can be reached from the constructor by the public operations satisfies
  the invariant (list, index and size counter agree, keys are distinct, the size is at most the
  capacity), and on it no operation runs into undefined behaviour: none of them dereferences a
  dangling iterator or calls \<open>back()\<close> on an empty list, and every eviction loop ends.
\<close>
theorem lru_reachable_safe:
  assumes "lru_reach s"
  shows "lru_inv s \<and> lru_size s = length (entries s) \<and> lru_size s \<le> lru_capacity s \<and>
    find_move k mv s \<noteq> None \<and> peek k s \<noteq> None \<and> try_set k v mv s \<noteq> None \<and>
    try_get_or_create k f mv s \<noteq> None \<and> erase_key k s \<noteq> None \<and> set_capacity c s \<noteq> None"
proof -
  from assms have inv: "lru_inv s" by (rule lru_reach_inv)
  then have "lru_size s = length (entries s)" "lru_size s \<le> lru_capacity s"
    by (simp_all add: lru_inv_def lru_wf_def lru_size_def)
  moreover have "find_move k mv s \<noteq> None" using find_move_refines[OF inv, of k mv] by blast
  moreover have "peek k s \<noteq> None" using peek_refines[OF inv, of k] by auto
  moreover have "try_set k v mv s \<noteq> None"
    using try_set_refines_ex[OF inv, of k v mv] by (auto split: prod.splits)
  moreover have "try_get_or_create k f mv s \<noteq> None"
    using try_get_or_create_refines_ex[OF inv, of k f mv] by auto
  moreover have "erase_key k s \<noteq> None" using erase_key_refines_ex[OF inv, of k] by auto
  moreover have "set_capacity c s \<noteq> None" using set_capacity_refines_ex[OF inv, of c] by auto
  ultimately show ?thesis using inv by simp
qed

theorem lru_reachable_safe_witness:
  "lru_inv (SimpleLRUMap 2 :: (nat, nat) lru) \<and>
   lru_size (SimpleLRUMap 2 :: (nat, nat) lru) \<le> lru_capacity (SimpleLRUMap 2 :: (nat, nat) lru)"
  using lru_reachable_safe[OF lru_reach.construct[of 2, where ?'k = nat and ?'v = nat]] by blast

text \<open>
  \<open>try_set\<close> implements the abstract cache: an existing key gets the new value and moves to the
  front exactly when asked (result -1); a new key is refused without capacity (result 0) and otherwise
  is added at the front (result 1), evicting exactly the least recently used entries beyond
  the capacity, in order from the least recently used, each passed to the callback once.
\<close>
theorem try_set_refines:
  assumes "lru_inv s"
  shows "case spec_set (lru_capacity s) k v mv (entries s) of (r, ev, es) \<Rightarrow>
           \<exists>s'. try_set k v mv s = Some (r, ev, s') \<and> lru_inv s' \<and>
                lru_capacity s' = lru_capacity s \<and> entries s' = es"
  using assms by (rule try_set_refines_ex)

theorem try_set_refines_witness:
  "\<exists>s'. try_set (7::nat) (1::nat) True (SimpleLRUMap 1) = Some (1, [], s') \<and> entries s' = [(7, 1)]"
  using try_set_refines[OF lru_inv_construct[of 1], of "7::nat" "1::nat" True]
  by (auto simp: spec_set_def spec_add_def SimpleLRUMap_def entries_def)

text \<open>
  \<open>try_get_or_create\<close> returns a pointer to the stored value of an existing key, whose entry
  moves to the front exactly when asked, and otherwise creates it with the factory under the same
  eviction rule as \<open>try_set\<close>; it returns null exactly when a missing key meets a zero capacity.
\<close>
theorem try_get_or_create_refines:
  assumes "lru_inv s"
  shows "\<exists>it ev s'. try_get_or_create k f mv s = Some (it, ev, s') \<and> lru_inv s' \<and>
      lru_capacity s' = lru_capacity s \<and>
      (if k \<in> fst ` set (entries s)
       then ev = [] \<and> entries s' = spec_find k mv (entries s) \<and>
            (\<exists>i. it = Some i \<and> deref i s' = map_of (entries s) k)
       else (ev, entries s') = spec_add (lru_capacity s) k (f k) (entries s) \<and>
            (it = None \<longleftrightarrow> lru_capacity s = 0) \<and> (\<forall>i. it = Some i \<longrightarrow> deref i s' = Some (f k)))"
  using assms by (rule try_get_or_create_refines_ex)

theorem try_get_or_create_refines_witness:
  "\<exists>it ev s'. try_get_or_create (3::nat) (\<lambda>k. k + 1) True (SimpleLRUMap 0) = Some (it, ev, s') \<and>
     it = None \<and> entries s' = []"
  using try_get_or_create_refines[OF lru_inv_construct[of 0], of "3::nat" "\<lambda>k. k + 1" True]
  by (auto simp: spec_add_def SimpleLRUMap_def entries_def)

text \<open>
  After any run of \<open>try_set\<close> calls that move to the front, the cache holds exactly the most
  recently set keys, most recent first and cut off at the capacity: the eviction order is LRU.
\<close>
theorem set_keeps_most_recent:
  assumes "lru_inv s"
  shows "map fst (entries (fold (use_set f) ks s)) =
    take (lru_capacity s) (nub (rev ks @ map fst (entries s)))"
  using assms by (rule lru_by_set.run_keys)

theorem set_keeps_most_recent_witness:
  "map fst (entries (fold (use_set (\<lambda>k. k * k)) [1, 2, 3, 1, 4] (SimpleLRUMap 3))) = [4::nat, 1, 3]"
  using set_keeps_most_recent[OF lru_inv_construct[of 3], of "\<lambda>k::nat. k * k" "[1, 2, 3, 1, 4]"]
  by (simp add: SimpleLRUMap_def entries_def)

text \<open>
  \<open>capacity(n)\<close> returns the old capacity and evicts exactly the entries beyond the \<open>n\<close> most
  recently used ones, least recently used first.
\<close>
theorem set_capacity_refines:
  assumes "lru_inv s"
  shows "\<exists>s'. set_capacity c s = Some (lru_capacity s, rev (drop c (entries s)), s') \<and> lru_inv s' \<and>
           lru_capacity s' = c \<and> entries s' = take c (entries s)"
  using assms by (rule set_capacity_refines_ex)

theorem set_capacity_refines_witness:
  "\<exists>s'. set_capacity 5 (SimpleLRUMap 2 :: (nat, nat) lru) = Some (2, [], s') \<and> lru_capacity s' = 5"
  using set_capacity_refines[OF lru_inv_construct[of 2, where ?'a = nat and ?'b = nat], of 5]
  by (auto simp: SimpleLRUMap_def entries_def)

end
