(* ===== verification/LockTraits.thy ===== *)
theory LockTraits
  imports Fb303_Prelude
begin

unbundle bit_operations_syntax

text \<open>
  The value cells of \<^verbatim>\<open>fb303/TLStatsLockTraits.h\<close>: the counters and the count/sum accumulators of
  \<open>TLStatsNoLocking\<close> and of \<open>TLStatsThreadSafe\<close>, one operation at a time. A value of the
  signed template parameter \<open>T\<close> is an \<open>'a word\<close> read with \<open>sint\<close>, its unsigned \<open>Raw\<close> the same word read
  with \<open>uint\<close>; \<open>Carry\<close> is a 64-bit word. The interleavings of the thread-safe accumulator are in the
  theory \<open>SeqLock\<close>.
\<close>

section \<open>TLStatsNoLocking\<close>

text \<open>
  \<open>CounterType\<close>: \<open>value_ += n\<close> on a signed type, so an overflow is undefined (\<open>None\<close>).
\<close>

definition nl_increment :: "'a::len word \<Rightarrow> 'a word \<Rightarrow> 'a word option" where
  "nl_increment n value =
     (if clamp_signed LENGTH('a) (sint value + sint n) = sint value + sint n
      then Some (value + n) else None)"

definition nl_counter_reset :: "'a::len word \<Rightarrow> 'a word \<times> 'a word" where
  "nl_counter_reset value = (value, 0)"

text \<open>
  \<open>TimeSeriesType\<close> adds with \<open>folly::constexpr_add_overflow_clamped\<close>, which is the parameter
  \<open>add_clamped\<close>; \<open>folly_add_clamped\<close> is its documented behaviour, saturating addition.
\<close>

record 'w nl_series =
  nl_count :: 'w
  nl_sum :: 'w

definition folly_add_clamped :: "('a::len word \<Rightarrow> 'a word \<Rightarrow> 'a word) \<Rightarrow> bool" where
  "folly_add_clamped f \<longleftrightarrow> (\<forall>x y. sint (f x y) = clamp_signed LENGTH('a) (sint x + sint y))"

definition nl_addValue ::
  "('a::len word \<Rightarrow> 'a word \<Rightarrow> 'a word) \<Rightarrow> 'a word \<Rightarrow> 'a word \<Rightarrow> 'a word nl_series \<Rightarrow> 'a word nl_series"
where
  "nl_addValue add_clamped value count t =
     t\<lparr>nl_count := add_clamped (nl_count t) count, nl_sum := add_clamped (nl_sum t) value\<rparr>"

definition nl_reset :: "'a::len word nl_series \<Rightarrow> ('a word \<times> 'a word) \<times> 'a word nl_series" where
  "nl_reset t = ((nl_count t, nl_sum t), t\<lparr>nl_count := 0, nl_sum := 0\<rparr>)"

section \<open>TLStatsThreadSafe\<close>

text \<open>\<open>CounterType\<close>: an atomic \<open>fetch_add\<close>, which wraps, and an atomic exchange with 0.\<close>

definition tsc_increment :: "'a::len word \<Rightarrow> 'a word \<Rightarrow> 'a word" where
  "tsc_increment n value = value + n"

definition tsc_reset :: "'a::len word \<Rightarrow> 'a word \<times> 'a word" where
  "tsc_reset value = (value, 0)"

subsection \<open>Two-word totals\<close>

record 'w snapshot =
  lo :: 'w
  hi :: uint64

definition zero_snapshot :: "'a::len word snapshot" where
  "zero_snapshot = \<lparr>lo = 0, hi = 0\<rparr>"

definition kInFlight :: uint64 where
  "kInFlight = 1"

definition addRaw :: "'a::len word \<Rightarrow> bool \<Rightarrow> 'a word snapshot \<Rightarrow> 'a word snapshot" where
  "addRaw addend negative p =
     (let before = lo p; after = before + addend
      in if (if negative then after > before else after < before)
         then \<lparr>lo = after, hi = hi p + (if negative then -1 else 1)\<rparr>
         else \<lparr>lo = after, hi = hi p\<rparr>)"

definition add :: "'a::len word \<Rightarrow> 'a word snapshot \<Rightarrow> 'a word snapshot" where
  "add addend p = addRaw addend (sint addend < 0) p"

definition difference :: "'a::len word snapshot \<Rightarrow> 'a word snapshot \<Rightarrow> 'a word snapshot" where
  "difference now base =
     (let borrow = (if lo now < lo base then 1 else 0)
      in \<lparr>lo = lo now - lo base, hi = hi now - hi base - borrow\<rparr>)"

definition addCalls :: "'a::len word snapshot \<Rightarrow> uint64 \<Rightarrow> 'a word snapshot" where
  "addCalls delta calls =
     (if LENGTH('a) < 64 then
        (let sum = ucast (lo delta) + calls
         in \<lparr>lo = ucast sum, hi = hi delta + drop_bit LENGTH('a) sum\<rparr>)
      else
        (let l = ucast (ucast (lo delta) + calls)
         in \<lparr>lo = l, hi = hi delta + (if l < lo delta then 1 else 0)\<rparr>))"

definition kMaxAsRaw :: "'a::len itself \<Rightarrow> 'a word" where
  "kMaxAsRaw _ = word_of_int (2 ^ (LENGTH('a) - 1) - 1)"

definition clamp :: "'a::len word snapshot \<Rightarrow> 'a word" where
  "clamp delta =
     (if sint (hi delta) > 0 then kMaxAsRaw TYPE('a)
      else if hi delta = 0 then
        (if lo delta > kMaxAsRaw TYPE('a) then kMaxAsRaw TYPE('a) else lo delta)
      else if hi delta = -1 then
        (if lo delta > kMaxAsRaw TYPE('a) then lo delta
         else word_of_int (- (2 ^ (LENGTH('a) - 1))))
      else word_of_int (- (2 ^ (LENGTH('a) - 1))))"

subsection \<open>The accumulator\<close>

record 'w surplus =
  total :: "'w snapshot"
  base :: "'w snapshot"

record 'w series =
  sum_ts :: "'w snapshot"            \<comment> \<open>\<open>sumLo_\<close>, \<open>sumHi_\<close>\<close>
  seq :: uint64
  lastSeq :: uint64
  baseSum :: "'w snapshot"           \<comment> \<open>\<open>baseSumLo_\<close>, \<open>baseSumHi_\<close>\<close>
  surplus_ts :: "'w surplus option"  \<comment> \<open>the pointer, null as \<open>None\<close>\<close>

definition new_series :: "'a::len word series" where
  "new_series =
     \<lparr>sum_ts = zero_snapshot, seq = 0, lastSeq = 0, baseSum = zero_snapshot, surplus_ts = None\<rparr>"

text \<open>\<open>makeSurplus\<close> allocates with \<open>nothrow\<close>: \<open>ok\<close> says whether the allocation succeeds.\<close>

definition makeSurplus :: "bool \<Rightarrow> 'a::len word series \<Rightarrow> 'a word series" where
  "makeSurplus ok t =
     (if ok then t\<lparr>surplus_ts := Some \<lparr>total = zero_snapshot, base = zero_snapshot\<rparr>\<rparr> else t)"

definition addValue :: "bool \<Rightarrow> 'a::len word \<Rightarrow> 'a word \<Rightarrow> 'a word series \<Rightarrow> 'a word series" where
  "addValue ok value count t =
     (let s = seq t;
          t1 = (if count \<noteq> 1 \<and> surplus_ts t = None then makeSurplus ok t else t);
          t2 = t1\<lparr>seq := s + 1\<rparr>;
          t3 = (case surplus_ts t2 of
                  Some b \<Rightarrow>
                    (if count \<noteq> 1
                     then t2\<lparr>surplus_ts := Some (b\<lparr>total := addRaw (count - 1) (sint count < 1) (total b)\<rparr>)\<rparr>
                     else t2)
                | None \<Rightarrow> t2);
          t4 = t3\<lparr>sum_ts := add value (sum_ts t3)\<rparr>
      in t4\<lparr>seq := s + 2\<rparr>)"

definition surplus_total :: "'a::len word surplus option \<Rightarrow> 'a word snapshot" where
  "surplus_total b = (case b of None \<Rightarrow> zero_snapshot | Some b \<Rightarrow> total b)"

definition surplus_base :: "'a::len word surplus option \<Rightarrow> 'a word snapshot" where
  "surplus_base b = (case b of None \<Rightarrow> zero_snapshot | Some b \<Rightarrow> base b)"

text \<open>\<open>drain\<close> when no update is in flight and no other drain holds the claim.\<close>

definition drain :: "'a::len word series \<Rightarrow> ('a word \<times> 'a word) \<times> 'a word series" where
  "drain t =
     (let last = lastSeq t;
          calls = (seq t - last) div 2;
          t1 = t\<lparr>surplus_ts := map_option (\<lambda>b. b\<lparr>base := total b\<rparr>) (surplus_ts t),
                 baseSum := sum_ts t,
                 lastSeq := seq t\<rparr>
      in ((clamp (addCalls (difference (surplus_total (surplus_ts t)) (surplus_base (surplus_ts t))) calls),
           clamp (difference (sum_ts t) (baseSum t))),
          t1))"

definition reset :: "'a::len word series \<Rightarrow> ('a word \<times> 'a word) \<times> 'a word series" where
  "reset t = (if seq t = (lastSeq t AND NOT kInFlight) then ((0, 0), t) else drain t)"

definition count_ts :: "'a::len word series \<Rightarrow> 'a word" where
  "count_ts t =
     (let calls = (seq t - (lastSeq t AND NOT kInFlight)) div 2
      in clamp (addCalls (difference (surplus_total (surplus_ts t)) (surplus_base (surplus_ts t))) calls))"

definition sum_of :: "'a::len word series \<Rightarrow> 'a word" where
  "sum_of t = clamp (difference (sum_ts t) (baseSum t))"

section \<open>Two-word totals denote integers\<close>

text \<open>\<open>snap_of v\<close> is the pair of words that stands for the integer \<open>v\<close>.\<close>

definition snap_of :: "int \<Rightarrow> 'a::len word snapshot" where
  "snap_of v = \<lparr>lo = word_of_int v, hi = word_of_int (v div 2 ^ LENGTH('a))\<rparr>"

lemma snap_of_0: "snap_of 0 = zero_snapshot"
  by (simp add: snap_of_def zero_snapshot_def)

lemma uint_word_of_int_mod: "uint (word_of_int v :: 'a::len word) = v mod 2 ^ LENGTH('a)"
  by (rule uint_word_of_int)

lemma word_of_int_mod_eqI:
  "v mod 2 ^ LENGTH('a) = u mod 2 ^ LENGTH('a) \<Longrightarrow> (word_of_int v :: 'a::len word) = word_of_int u"
  by (metis uint_word_of_int_mod word_uint_eqI)

lemma div_add_small:
  fixes v a M :: int
  assumes "0 \<le> a" "a < M"
  shows "(v + a) div M = v div M + (if M \<le> v mod M + a then 1 else 0)"
    and "(v + a) mod M = v mod M + a - (if M \<le> v mod M + a then M else 0)"
proof -
  have M: "0 < M" using assms by simp
  let ?l = "v mod M"
  have l: "0 \<le> ?l" "?l < M" using M by simp_all
  have v: "v = M * (v div M) + ?l" by simp
  have l2: "?l + a < 2 * M" using l assms by linarith
  have q: "(?l + a) div M = (if M \<le> ?l + a then 1 else 0)"
  proof (cases "M \<le> ?l + a")
    case True
    then have "(?l + a) div M = 1" using l2
      by (intro int_div_pos_eq[of _ _ _ "?l + a - M"]) simp_all
    with True show ?thesis by simp
  next
    case False
    then show ?thesis using l assms by (simp add: div_pos_pos_trivial)
  qed
  have "(v + a) div M = (M * (v div M) + (?l + a)) div M" using v by (simp add: add.assoc[symmetric])
  also have "\<dots> = v div M + (?l + a) div M" using M by (intro div_mult_self4) simp
  finally show d: "(v + a) div M = v div M + (if M \<le> v mod M + a then 1 else 0)" by (simp only: q)
  have "(v + a) mod M = v + a - M * ((v + a) div M)" by (simp add: minus_mult_div_eq_mod)
  also have "\<dots> = ?l + a - (if M \<le> ?l + a then M else 0)"
    unfolding d using minus_mult_div_eq_mod[of v M] by (simp add: algebra_simps)
  finally show "(v + a) mod M = v mod M + a - (if M \<le> v mod M + a then M else 0)" .
qed

lemma gap_iff:
  fixes u l M :: int
  assumes "0 \<le> u" "u < M" "0 \<le> l" "l < M"
  shows "l < l + u - (if M \<le> l + u then M else 0) \<longleftrightarrow> l + u < M \<and> 0 < u"
  using assms by auto

lemma div_diff_small:
  fixes a b M :: int
  assumes "0 < M"
  shows "(a - b) div M = a div M - b div M - (if a mod M < b mod M then 1 else 0)"
proof -
  have l: "0 \<le> a mod M" "a mod M < M" "0 \<le> b mod M" "b mod M < M" using assms by simp_all
  have "a - b = M * (a div M) + a mod M - (M * (b div M) + b mod M)" by simp
  then have "a - b = (a mod M - b mod M) + M * (a div M - b div M)" by (simp add: algebra_simps)
  then have "(a - b) div M = (a div M - b div M) + (a mod M - b mod M) div M"
    using assms by (metis div_mult_self2 less_irrefl)
  moreover have "(a mod M - b mod M) div M = - (if a mod M < b mod M then 1 else 0)"
  proof (cases "a mod M < b mod M")
    case True
    then have "(a mod M - b mod M) div M = -1"
      using l by (intro int_div_pos_eq[of _ _ _ "a mod M - b mod M + M"]; linarith)
    with True show ?thesis by simp
  next
    case False
    then have "0 \<le> a mod M - b mod M" "a mod M - b mod M < M" using l by linarith+
    with False show ?thesis by (simp add: div_pos_pos_trivial)
  qed
  ultimately show ?thesis by simp
qed

lemma addRaw_snap:
  fixes a :: "'a::len word"
  assumes "neg \<Longrightarrow> a \<noteq> 0"
  shows "addRaw a neg (snap_of v) = snap_of (v + (uint a - (if neg then 2 ^ LENGTH('a) else 0)))"
proof -
  let ?M = "2 ^ LENGTH('a) :: int"
  let ?b = "word_of_int v :: 'a word" and ?c = "word_of_int (v + uint a) :: 'a word"
  have a: "0 \<le> uint a" "uint a < ?M" by (simp_all add: uint_lt2p)
  have l: "0 \<le> v mod ?M" "v mod ?M < ?M" by simp_all
  have lo: "?b + a = ?c" by (metis wi_hom_add word_of_int_uint)
  have lo': "(word_of_int (v + (uint a - ?M)) :: 'a word) = ?c"
    by (rule word_of_int_mod_eqI) (metis add_diff_eq minus_mod_self2)
  have lt: "?c < ?b \<longleftrightarrow> ?M \<le> v mod ?M + uint a"
    unfolding word_less_def uint_word_of_int_mod div_add_small(2)[OF a] using a l by (cases "?M \<le> v mod ?M + uint a") simp_all
  have gt: "?b < ?c \<longleftrightarrow> v mod ?M + uint a < ?M \<and> 0 < uint a"
    unfolding word_less_def uint_word_of_int_mod div_add_small(2)[OF a] by (rule gap_iff[OF a l])
  have pos: "neg \<Longrightarrow> 0 < uint a" using assms a by (metis order_le_less uint_0_iff)
  have d: "(v + (uint a - ?M)) div ?M = (v + uint a) div ?M - 1"
    using div_diff_small[of ?M "v + uint a" ?M] by (simp add: add_diff_eq not_less)
  have dv: "(v + uint a) div ?M = v div ?M + (if ?M \<le> v mod ?M + uint a then 1 else 0)"
    by (rule div_add_small(1)[OF a])
  have w: "word_of_int (v div ?M + 1) = (word_of_int (v div ?M) + 1 :: uint64)"
    "word_of_int (v div ?M - 1) = (word_of_int (v div ?M) - 1 :: uint64)"
    by (simp_all flip: wi_hom_add wi_hom_sub)
  show ?thesis
  proof (cases neg)
    case True
    with pos have "0 < uint a" by simp
    then show ?thesis using True
      by (cases "?M \<le> v mod ?M + uint a")
        (simp_all add: addRaw_def snap_of_def Let_def lo lo' gt d dv w del: of_int_add of_int_diff)
  next
    case False
    then show ?thesis
      by (cases "?M \<le> v mod ?M + uint a")
        (simp_all add: addRaw_def snap_of_def Let_def lo lt dv w del: of_int_add of_int_diff)
  qed
qed

lemma word_of_int_hom: "word_of_int (x + y) = word_of_int x + (word_of_int y :: 'a::len word)"
  "word_of_int (x - y) = word_of_int x - (word_of_int y :: 'a::len word)"
  by (simp_all flip: wi_hom_add wi_hom_sub)

lemma sint_uint_if:
  fixes a :: "'a::len word"
  shows "sint a = uint a - (if 2 ^ (LENGTH('a) - 1) \<le> uint a then 2 ^ LENGTH('a) else 0)"
proof -
  obtain n where n: "LENGTH('a) = Suc n" by (metis len_gt_0 gr0_implies_Suc)
  have u: "0 \<le> uint a" "uint a < 2 ^ Suc n" using uint_lt2p[of a] n by simp_all
  have h: "(0::int) \<le> 2 ^ n" "(2::int) ^ n < 2 ^ Suc n" by simp_all
  have "sint a = (uint a + 2 ^ n) mod 2 ^ Suc n - 2 ^ n"
    by (simp add: sint_uint n signed_take_bit_eq_take_bit_shift take_bit_eq_mod)
  also have "\<dots> = uint a - (if 2 ^ n \<le> uint a then 2 ^ Suc n else 0)"
    unfolding div_add_small(2)[OF h] mod_pos_pos_trivial[OF u] by simp
  finally show ?thesis by (simp add: n)
qed

lemma sint_neg_iff: "sint a < 0 \<longleftrightarrow> 2 ^ (LENGTH('a) - 1) \<le> uint a" for a :: "'a::len word"
  using uint_lt2p[of a] by (simp add: sint_uint_if)

lemma add_snap: "add a (snap_of v) = snap_of (v + sint a)" for a :: "'a::len word"
proof -
  have "sint a = uint a - (if sint a < 0 then 2 ^ LENGTH('a) else 0)"
    unfolding sint_neg_iff by (rule sint_uint_if)
  then show ?thesis unfolding add_def by (subst addRaw_snap) auto
qed

lemma difference_snap: "difference (snap_of a) (snap_of b) = (snap_of (a - b) :: 'a::len word snapshot)"
  using div_diff_small[of "2 ^ LENGTH('a)" a b]
  by (simp add: difference_def snap_of_def Let_def word_less_def uint_word_of_int_mod word_of_int_hom)


lemma sint_word_of_int_id:
  assumes "- (2 ^ (LENGTH('a) - 1)) \<le> x" "x < 2 ^ (LENGTH('a) - 1)"
  shows "sint (word_of_int x :: 'a::len word) = x"
proof -
  have "2 ^ LENGTH('a) = 2 * (2 ^ (LENGTH('a) - 1) :: int)"
    by (metis len_gt_0 power_eq_if less_irrefl)
  with assms have "0 \<le> x + 2 ^ (LENGTH('a) - 1)" "x + 2 ^ (LENGTH('a) - 1) < 2 ^ LENGTH('a)"
    by linarith+
  then show ?thesis unfolding int_word_sint by (simp only: mod_pos_pos_trivial)
qed

lemma addCalls_snap_narrow:
  assumes "LENGTH('a::len) < 64" and "n < 2 ^ 63" and "0 \<le> n"
  shows "addCalls (snap_of v :: 'a word snapshot) (word_of_int n) = snap_of (v + n)"
proof -
  let ?M = "2 ^ LENGTH('a) :: int"
  have M: "?M \<le> 2 ^ 63" using assms by (intro power_increasing) simp_all
  have l: "0 \<le> v mod ?M" "v mod ?M < ?M" by simp_all
  define r where "r = v mod ?M + n"
  have "(2::int) ^ 64 = 2 ^ 63 + 2 ^ 63" by simp
  then have r: "0 \<le> r" "r < 2 ^ 64" using assms l M unfolding r_def by linarith+
  let ?s = "ucast (word_of_int v :: 'a word) + word_of_int n :: uint64"
  have "(ucast (word_of_int v :: 'a word) :: uint64) = word_of_int (v mod ?M)"
    by (metis uint_word_of_int_mod word_of_int_uint uint_word_of_int_eq unsigned_ucast_eq of_int_uint)
  then have s: "?s = word_of_int r" by (simp add: r_def word_of_int_hom)
  have us: "uint ?s = r" unfolding s uint_word_of_int_mod using r by (simp add: mod_pos_pos_trivial)
  have dv: "r div ?M + v div ?M = (v + n) div ?M"
    unfolding r_def using div_mult_self4[of ?M "v div ?M" "v mod ?M + n"] by (simp add: add.assoc[symmetric])
  have "ucast ?s = (word_of_int r :: 'a word)"
    unfolding s by (metis us s of_int_uint)
  also have "\<dots> = word_of_int (v + n)"
    unfolding r_def by (rule word_of_int_mod_eqI) (simp add: mod_simps)
  finally have lo: "ucast ?s = (word_of_int (v + n) :: 'a word)" .
  have "uint (drop_bit LENGTH('a) ?s) = r div ?M"
    unfolding unsigned_drop_bit_eq us using r by (simp add: take_bit_int_eq_self drop_bit_eq_div)
  then have "drop_bit LENGTH('a) ?s = word_of_int (r div ?M)" by (metis word_of_int_uint)
  with lo show ?thesis using assms(1)
    by (simp add: addCalls_def snap_of_def Let_def flip: dv)
qed

lemma addCalls_snap_wide:
  assumes "LENGTH('a::len) = 64" and "n < 2 ^ 63" and "0 \<le> n"
  shows "addCalls (snap_of v :: 'a word snapshot) (word_of_int n) = snap_of (v + n)"
proof -
  let ?M = "2 ^ LENGTH('a) :: int"
  let ?a = "word_of_int n :: 'a word"
  have "uint ?a = n" unfolding uint_word_of_int_mod using assms by simp
  moreover have "ucast (ucast (word_of_int v :: 'a word) + word_of_int n :: uint64) = word_of_int v + ?a"
    using assms(1) by (intro word_uint_eqI)
      (simp add: uint_word_ariths unsigned_ucast_eq uint_word_of_int_mod take_bit_eq_mod del: of_int_add)
  ultimately show ?thesis using addRaw_snap[of False ?a v] assms
    by (simp add: addCalls_def addRaw_def snap_of_def Let_def split: if_splits)
qed

lemma addCalls_snap:
  assumes "LENGTH('a::len) \<le> 64" and "n < 2 ^ 63" and "0 \<le> n"
  shows "addCalls (snap_of v :: 'a word snapshot) (word_of_int n) = snap_of (v + n)"
  using assms addCalls_snap_narrow[of n v] addCalls_snap_wide[of n v]
  by (cases "LENGTH('a) < 64") simp_all

lemma clamp_cases:
  fixes v M H q l :: int
  assumes "M = 2 * H" "1 \<le> H" "v = M * q + l" "0 \<le> l" "l < M"
  shows "(if 0 < q then H - 1
          else if q = 0 then (if H - 1 < l then H - 1 else l - (if H \<le> l then M else 0))
          else if q = -1 then (if H - 1 < l then l - (if H \<le> l then M else 0) else - H)
          else - H) = max (- H) (min (H - 1) v)"
proof -
  consider "0 < q" | "q = 0" | "q = -1" | "q < -1" by linarith
  then show ?thesis
  proof cases
    case 1
    then have "M * 1 \<le> M * q" using assms by (intro mult_left_mono) simp_all
    then have "M \<le> v" using assms(3,4) by linarith
    with 1 show ?thesis using assms(1,2) by simp
  next
    case 4
    then have "M * q \<le> M * (-2)" using assms by (intro mult_left_mono) simp_all
    then have "v < - M" using assms(3,4,5) by linarith
    with 4 show ?thesis using assms(1,2) by simp
  qed (use assms in auto)
qed

lemma clamp_snap:
  assumes "- (2 ^ (63 + LENGTH('a::len))) \<le> v" "v < 2 ^ (63 + LENGTH('a))"
  shows "sint (clamp (snap_of v :: 'a word snapshot)) = clamp_signed LENGTH('a) v"
proof -
  let ?M = "2 ^ LENGTH('a) :: int" and ?H = "2 ^ (LENGTH('a) - 1) :: int"
  let ?q = "v div ?M" 
  have M: "?M = 2 * ?H" by (metis len_gt_0 power_eq_if less_irrefl)
  have M0: "?M \<noteq> 0" by simp
  have H: "1 \<le> ?H" by simp
  have v: "v = ?M * ?q + v mod ?M" by simp
  have l: "0 \<le> v mod ?M" "v mod ?M < ?M" by simp_all
  have A: "2 ^ (63 + LENGTH('a)) = 2 ^ 63 * ?M" by (simp add: power_add)
  have "(- (2 ^ 63)) * ?M \<le> v" using assms(1) unfolding A by (simp only: mult_minus_left)
  from zdiv_mono1[OF this, of ?M] have "- (2 ^ 63) \<le> ?q"
    unfolding nonzero_mult_div_cancel_right[OF M0] by simp
  moreover have "?q < 2 ^ 63" 
  proof (rule ccontr)
    assume "\<not> ?q < 2 ^ 63"
    then have "?M * 2 ^ 63 \<le> ?M * ?q" by (intro mult_left_mono) simp_all
    with assms(2) v l show False unfolding A by (simp only: mult.commute)
  qed
  ultimately have q: "sint (word_of_int ?q :: uint64) = ?q" 
    by (intro sint_word_of_int_id) simp_all
  have q0: "word_of_int ?q = (0::uint64) \<longleftrightarrow> ?q = 0" "word_of_int ?q = (-1::uint64) \<longleftrightarrow> ?q = -1"
    using q by (metis sint_0 of_int_0, metis sint_n1 of_int_minus of_int_1)
  have mu: "uint (kMaxAsRaw TYPE('a)) = ?H - 1"
    unfolding kMaxAsRaw_def uint_word_of_int_mod using M H by (intro mod_pos_pos_trivial) linarith+
  have ms: "sint (kMaxAsRaw TYPE('a)) = ?H - 1"
    unfolding kMaxAsRaw_def using H by (intro sint_word_of_int_id) linarith+
  note mx = mu ms
  have mn: "sint (word_of_int (- ?H) :: 'a word) = - ?H"
    by (rule sint_word_of_int_id) simp_all
  have lo: "uint (word_of_int v :: 'a word) = v mod ?M" 
     "sint (word_of_int v :: 'a word) = v mod ?M - (if ?H \<le> v mod ?M then ?M else 0)"
    by (simp_all only: sint_uint_if uint_word_of_int_mod)
  have c: "clamp (snap_of v :: 'a word snapshot) =
      (if 0 < ?q then kMaxAsRaw TYPE('a)
       else if ?q = 0 then (if ?H - 1 < v mod ?M then kMaxAsRaw TYPE('a) else word_of_int v)
       else if ?q = -1 then (if ?H - 1 < v mod ?M then word_of_int v else word_of_int (- ?H))
       else word_of_int (- ?H))"
    by (simp only: clamp_def snap_of_def snapshot.simps q q0 word_less_def lo(1) mu)
  show ?thesis
    unfolding c clamp_signed_def if_distrib[of sint] ms mn lo(2)
    by (rule clamp_cases[OF M H v l])
qed
section \<open>Histories of updates and resets\<close>

datatype 'u ts_op = Add 'u | Reset

fun run_ops :: "('u \<Rightarrow> 's \<Rightarrow> 's) \<Rightarrow> ('s \<Rightarrow> 'o \<times> 's) \<Rightarrow> 'u ts_op list \<Rightarrow> 's \<Rightarrow> 'o list \<times> 's" where
  "run_ops addv rst [] s = ([], s)"
| "run_ops addv rst (Add u # ops) s = run_ops addv rst ops (addv u s)"
| "run_ops addv rst (Reset # ops) s =
     (let (r, s') = rst s; (rs, s'') = run_ops addv rst ops s' in (r # rs, s''))"

fun adds :: "'u ts_op list \<Rightarrow> nat" where
  "adds [] = 0"
| "adds (Add u # ops) = Suc (adds ops)"
| "adds (Reset # ops) = adds ops"

locale windowed =
  fixes addv :: "'u \<Rightarrow> 's \<Rightarrow> 's" and rst :: "'s \<Rightarrow> 'o \<times> 's"
    and sadd :: "'u \<Rightarrow> 'm \<Rightarrow> 'm" and srst :: "'m \<Rightarrow> 'p \<times> 'm"
    and out :: "'o \<Rightarrow> 'p" and rel :: "nat \<Rightarrow> 's \<Rightarrow> 'm \<Rightarrow> bool" and limit :: nat
  assumes add_sim: "rel n s m \<Longrightarrow> n < limit \<Longrightarrow> rel (Suc n) (addv u s) (sadd u m)"
    and reset_sim: "rel n s m \<Longrightarrow> n \<le> limit \<Longrightarrow> rst s = (r, s') \<Longrightarrow> srst m = (p, m') \<Longrightarrow> out r = p \<and> rel n s' m'"
begin

lemma run_sim:
  assumes "rel n s m" "n + adds ops \<le> limit"
  shows "map out (fst (run_ops addv rst ops s)) = fst (run_ops sadd srst ops m) \<and>
         rel (n + adds ops) (snd (run_ops addv rst ops s)) (snd (run_ops sadd srst ops m))"
  using assms
proof (induction ops arbitrary: n s m)
  case (Cons x ops)
  show ?case
  proof (cases x)
    case (Add u)
    then show ?thesis using Cons.IH[OF add_sim[OF Cons.prems(1)], of u] Cons.prems(2) by simp
  next
    case Reset
    obtain r s' p m' where e: "rst s = (r, s')" "srst m = (p, m')" by (metis surj_pair)
    have "out r = p" "rel n s' m'" using reset_sim[OF Cons.prems(1) _ e] Cons.prems(2) by simp_all
    with Cons.IH[of n s' m'] Cons.prems(2) Reset show ?thesis
      by (simp add: e case_prod_beta)
  qed
qed simp

end

text \<open>What the thread-safe accumulator promises: exact totals, clamped once, at the reset.\<close>

definition exact_add :: "bool \<times> 'a::len word \<times> 'a word \<Rightarrow> bool \<times> int \<times> int \<Rightarrow> bool \<times> int \<times> int" where
  "exact_add u m =
     (case (u, m) of ((ok, v, k), (alloc, c, s)) \<Rightarrow>
        let alloc' = alloc \<or> (k \<noteq> 1 \<and> ok)
        in (alloc', c + (if k = 1 \<or> alloc' then sint k else 1), s + sint v))"

definition exact_reset :: "nat \<Rightarrow> bool \<times> int \<times> int \<Rightarrow> (int \<times> int) \<times> bool \<times> int \<times> int" where
  "exact_reset w m = (case m of (alloc, c, s) \<Rightarrow> ((clamp_signed w c, clamp_signed w s), (alloc, 0, 0)))"

definition ts_add :: "bool \<times> 'a::len word \<times> 'a word \<Rightarrow> 'a word series \<Rightarrow> 'a word series" where
  "ts_add u t = (case u of (ok, v, k) \<Rightarrow> addValue ok v k t)"

definition sint2 :: "'a::len word \<times> 'a word \<Rightarrow> int \<times> int" where
  "sint2 r = (sint (fst r), sint (snd r))"

definition ts_rel :: "nat \<Rightarrow> 'a::len word series \<Rightarrow> bool \<times> int \<times> int \<Rightarrow> bool" where
  "ts_rel n t m \<longleftrightarrow> 8 \<le> LENGTH('a) \<and> LENGTH('a) \<le> 64 \<and>
     (case m of (alloc, c, s) \<Rightarrow>
        (\<exists>prev k tot sb sm bs. prev + k \<le> n \<and>
           seq t = word_of_int (2 * int (prev + k)) \<and> lastSeq t = word_of_int (2 * int prev) \<and>
           sum_ts t = snap_of sm \<and> baseSum t = snap_of bs \<and>
           surplus_total (surplus_ts t) = snap_of tot \<and> surplus_base (surplus_ts t) = snap_of sb \<and>
           (surplus_ts t \<noteq> None) = alloc \<and>
           c = tot - sb + int k \<and> s = sm - bs \<and>
           \<bar>c\<bar> \<le> int k * 2 ^ (LENGTH('a) - 1) \<and> \<bar>s\<bar> \<le> int k * 2 ^ (LENGTH('a) - 1)))"

lemma sint_abs: "\<bar>sint a\<bar> \<le> 2 ^ (LENGTH('a) - 1)" for a :: "'a::len word"
  using sint_range_size[of a] by (simp add: word_size abs_le_iff)

lemma surplus_add_snap:
  fixes k :: "'a::len word"
  assumes "k \<noteq> 1"
  shows "addRaw (k - 1) (sint k < 1) (snap_of v) = snap_of (v + (sint k - 1))"
proof -
  let ?M = "2 ^ LENGTH('a) :: int"
  have u: "0 \<le> uint k" "uint k < ?M" by (simp_all add: uint_lt2p)
  have "uint (k - 1) = (if uint k = 0 then ?M - 1 else uint k - 1)"
  proof (cases "uint k = 0")
    case True
    then have "k - 1 = -1" by (simp add: unsigned_eq_0_iff)
    then show ?thesis using True by (simp add: unsigned_minus_1_eq_mask mask_eq_exp_minus_1)
  next
    case False
    then have "1 \<le> uint k" using u by linarith
    then have "1 \<le> k" by (simp add: word_le_def)
    then show ?thesis using False by (simp add: uint_minus_simple_alt)
  qed
  moreover have "sint k < 1 \<longleftrightarrow> sint k < 0 \<or> uint k = 0"
    by (metis sint_0 zless_add1_eq add_0 signed_eq_0_iff unsigned_eq_0_iff)
  moreover have "k - 1 \<noteq> 0" using assms by simp
  ultimately show ?thesis
    using sint_uint_if[of k] sint_neg_iff[of k] 
    by (subst addRaw_snap) (auto intro!: arg_cong[of _ _ snap_of])
qed


lemma ts_relE:
  fixes t :: "'a::len word series"
  assumes "ts_rel n t (alloc, c, s)"
  obtains prev k tot sb sm bs where
    "prev + k \<le> n"
    "seq t = word_of_int (2 * int (prev + k))" "lastSeq t = word_of_int (2 * int prev)"
    "sum_ts t = snap_of sm" "baseSum t = snap_of bs"
    "surplus_total (surplus_ts t) = snap_of tot" "surplus_base (surplus_ts t) = snap_of sb"
    "(surplus_ts t \<noteq> None) = alloc" "c = tot - sb + int k" "s = sm - bs"
    "\<bar>c\<bar> \<le> int k * 2 ^ (LENGTH('a) - 1)" "\<bar>s\<bar> \<le> int k * 2 ^ (LENGTH('a) - 1)"
  using assms unfolding ts_rel_def by force

lemma ts_relI:
  fixes t :: "'a::len word series"
  assumes "8 \<le> LENGTH('a)" "LENGTH('a) \<le> 64" "prev + k \<le> n"
    "seq t = word_of_int (2 * int (prev + k))" "lastSeq t = word_of_int (2 * int prev)"
    "sum_ts t = snap_of sm" "baseSum t = snap_of bs"
    "surplus_total (surplus_ts t) = snap_of tot" "surplus_base (surplus_ts t) = snap_of sb"
    "(surplus_ts t \<noteq> None) = alloc" "c = tot - sb + int k" "s = sm - bs"
    "\<bar>c\<bar> \<le> int k * 2 ^ (LENGTH('a) - 1)" "\<bar>s\<bar> \<le> int k * 2 ^ (LENGTH('a) - 1)"
  shows "ts_rel n t (alloc, c, s)"
  unfolding ts_rel_def prod.case using assms by blast

lemma abs_step:
  fixes c x h :: int
  assumes "\<bar>c\<bar> \<le> int k * h" "\<bar>x\<bar> \<le> h"
  shows "\<bar>c + x\<bar> \<le> int (Suc k) * h"
  using assms by (simp add: distrib_right)

lemma snap_of_cong: "snap_of a = (snap_of b :: 'a::len word snapshot) \<Longrightarrow> (snap_of (a + x) :: 'a word snapshot) = snap_of (b + x)"
  by (metis difference_snap diff_minus_eq_add)

lemma addValue_fields:
  "seq (addValue ok v k t) = seq t + 2" "lastSeq (addValue ok v k t) = lastSeq t"
  "baseSum (addValue ok v k t) = baseSum t" "sum_ts (addValue ok v k t) = add v (sum_ts t)"
  "surplus_ts (addValue ok v k t) =
     (if k = 1 then surplus_ts t
      else case (if surplus_ts t = None then surplus_ts (makeSurplus ok t) else surplus_ts t) of
             None \<Rightarrow> None
           | Some b \<Rightarrow> Some (b\<lparr>total := addRaw (k - 1) (sint k < 1) (total b)\<rparr>))"
  by (simp_all add: addValue_def makeSurplus_def Let_def split: option.splits)

lemma ts_add_sim:
  fixes t :: "'a::len word series"
  assumes "ts_rel n t m"
  shows "ts_rel (Suc n) (ts_add u t) (exact_add u m)"
proof -
  obtain ok v k where u: "u = (ok, v, k)" by (cases u)
  obtain alloc c s where m: "m = (alloc, c, s)" by (cases m)
  from assms have W: "8 \<le> LENGTH('a)" "LENGTH('a) \<le> 64" by (simp_all add: ts_rel_def)
  obtain prev d tot sb sm bs where R: "prev + d \<le> n"
    "seq t = word_of_int (2 * int (prev + d))" "lastSeq t = word_of_int (2 * int prev)"
    "sum_ts t = snap_of sm" "baseSum t = snap_of bs"
    "surplus_total (surplus_ts t) = snap_of tot" "surplus_base (surplus_ts t) = snap_of sb"
    "(surplus_ts t \<noteq> None) = alloc" "c = tot - sb + int d" "s = sm - bs"
    "\<bar>c\<bar> \<le> int d * 2 ^ (LENGTH('a) - 1)" "\<bar>s\<bar> \<le> int d * 2 ^ (LENGTH('a) - 1)"
    using assms unfolding m by (rule ts_relE)
  let ?t = "addValue ok v k t" and ?al = "alloc \<or> (k \<noteq> 1 \<and> ok)"
  let ?e = "if k = 1 \<or> ?al then sint k else 1"
  have e: "\<bar>?e\<bar> \<le> 2 ^ (LENGTH('a) - 1)" using sint_abs[of k] by simp
  have sq: "seq ?t = word_of_int (2 * int (prev + Suc d))"
    by (simp add: addValue_fields R word_of_int_hom)
  have b: "surplus_total (surplus_ts ?t) = snap_of (tot + (?e - 1))"
    "surplus_base (surplus_ts ?t) = snap_of sb" "(surplus_ts ?t \<noteq> None) = ?al"
    using R(6-8) W snap_of_cong[of 0 tot "sint k - 1"]
    by (auto simp: addValue_fields surplus_total_def surplus_base_def makeSurplus_def
        surplus_add_snap snap_of_0[symmetric] split: option.splits)
  show ?thesis
    unfolding u m ts_add_def exact_add_def prod.case Let_def
  proof (rule ts_relI[OF W _ sq _ _ _ b])
    show "sum_ts ?t = snap_of (sm + sint v)" by (simp add: addValue_fields R(4) add_snap)
  qed (use R abs_step[OF R(11) e] abs_step[OF R(12) sint_abs[of v]] in
       \<open>simp_all add: addValue_fields del: of_nat_Suc\<close>)
qed

lemma calls_word:
  assumes "k < 2 ^ 63"
  shows "(word_of_int (2 * int (prev + k)) - word_of_int (2 * int prev)) div 2
         = (word_of_int (int k) :: uint64)"
proof -
  have "word_of_int (2 * int (prev + k)) - word_of_int (2 * int prev) = (word_of_int (2 * int k) :: uint64)"
    by (simp add: algebra_simps flip: word_of_int_hom)
  moreover have "word_of_int (2 * int k) div 2 = (word_of_int (int k) :: uint64)"
  proof -
    have "2 * int k mod 2 ^ 64 = 2 * int k" using assms by (intro mod_pos_pos_trivial) simp_all
    then show ?thesis unfolding word_div_def uint_word_of_int_mod by simp
  qed
  ultimately show ?thesis by simp
qed

lemma even_and_not_inflight: "word_of_int (2 * x) AND NOT kInFlight = (word_of_int (2 * x) :: uint64)"
  by (rule bit_word_eqI) (auto simp: kInFlight_def bit_and_iff bit_not_iff bit_1_iff bit_simps bit_double_iff)

lemma seq_eq_iff:
  assumes "k < 2 ^ 63"
  shows "word_of_int (2 * int (prev + k)) = (word_of_int (2 * int prev) :: uint64) \<longleftrightarrow> k = 0"
proof
  assume "word_of_int (2 * int (prev + k)) = (word_of_int (2 * int prev) :: uint64)"
  with calls_word[OF assms, of prev] have "word_of_int (int k) = (0 :: uint64)" by simp
  then have "int k mod 2 ^ 64 = 0" using uint_word_of_int_mod[of "int k", where 'a = 64] by simp
  then show "k = 0" using assms by simp
qed simp

lemma clamp_window:
  assumes "\<bar>c\<bar> \<le> int k * 2 ^ (LENGTH('a::len) - 1)" "k < 2 ^ 63"
  shows "sint (clamp (snap_of c :: 'a word snapshot)) = clamp_signed LENGTH('a) c"
proof -
  have "int k * 2 ^ (LENGTH('a) - 1) < 2 ^ 63 * 2 ^ LENGTH('a)"
    using assms(2) by (intro mult_strict_mono) (simp_all add: power_strict_increasing)
  then show ?thesis using assms(1) unfolding power_add[symmetric] by (intro clamp_snap) linarith+
qed

lemma ts_window_reads:
  fixes t :: "'a::len word series"
  assumes "ts_rel n t (alloc, c, s)" "n < 2 ^ 63"
  shows "sint (count_ts t) = clamp_signed LENGTH('a) c" and "sint (sum_of t) = clamp_signed LENGTH('a) s"
  and "sint2 (fst (reset t)) = (clamp_signed LENGTH('a) c, clamp_signed LENGTH('a) s)"
  and "ts_rel n (snd (reset t)) (alloc, 0, 0)"
proof -
  have W: "8 \<le> LENGTH('a)" "LENGTH('a) \<le> 64" using assms by (simp_all add: ts_rel_def)
  obtain prev k tot sb sm bs where R: "prev + k \<le> n"
    "seq t = word_of_int (2 * int (prev + k))" "lastSeq t = word_of_int (2 * int prev)"
    "sum_ts t = snap_of sm" "baseSum t = snap_of bs"
    "surplus_total (surplus_ts t) = snap_of tot" "surplus_base (surplus_ts t) = snap_of sb"
    "(surplus_ts t \<noteq> None) = alloc" "c = tot - sb + int k" "s = sm - bs"
    "\<bar>c\<bar> \<le> int k * 2 ^ (LENGTH('a) - 1)" "\<bar>s\<bar> \<le> int k * 2 ^ (LENGTH('a) - 1)"
    using assms(1) by (rule ts_relE)
  have k: "k < 2 ^ 63" using R(1) assms(2) by simp
  have cnt: "addCalls (difference (surplus_total (surplus_ts t)) (surplus_base (surplus_ts t)))
          ((seq t - lastSeq t) div 2) = snap_of c"
    unfolding R(2,3,6,7,9) calls_word[OF k] difference_snap using W k by (intro addCalls_snap) simp_all
  have dif: "difference (sum_ts t) (baseSum t) = snap_of s"
    unfolding R(4,5,10) difference_snap ..
  have msk: "lastSeq t AND NOT kInFlight = lastSeq t" unfolding R(3) even_and_not_inflight ..
  show "sint (count_ts t) = clamp_signed LENGTH('a) c"
    unfolding count_ts_def Let_def msk cnt by (rule clamp_window[OF R(11) k])
  show "sint (sum_of t) = clamp_signed LENGTH('a) s"
    unfolding sum_of_def dif by (rule clamp_window[OF R(12) k])
  have eq: "seq t = lastSeq t \<longleftrightarrow> k = 0" unfolding R(2,3) by (rule seq_eq_iff[OF k])
  have z: "k = 0 \<Longrightarrow> c = 0 \<and> s = 0" using R(11,12) by simp
  show "sint2 (fst (reset t)) = (clamp_signed LENGTH('a) c, clamp_signed LENGTH('a) s)"
    unfolding reset_def msk eq
    using z by (auto simp: drain_def Let_def cnt dif sint2_def clamp_window[OF R(11) k] clamp_window[OF R(12) k] clamp_signed_def)
  show "ts_rel n (snd (reset t)) (alloc, 0, 0)"
  proof (cases "k = 0")
    case True
    with z show ?thesis using assms(1) by (simp add: reset_def msk eq)
  next
    case False
    have "surplus_total (surplus_ts (snd (drain t))) = snap_of tot"
      "surplus_base (surplus_ts (snd (drain t))) = snap_of tot"
      "(surplus_ts (snd (drain t)) \<noteq> None) = alloc"
      using R(6-8) by (auto simp: drain_def Let_def surplus_total_def surplus_base_def
          snap_of_0[symmetric] split: option.splits)
    note bl = this
    have rs: "snd (reset t) = snd (drain t)" using False by (simp add: reset_def msk eq)
    have f: "seq (snd (drain t)) = word_of_int (2 * int (prev + k + 0))"
      "lastSeq (snd (drain t)) = word_of_int (2 * int (prev + k))"
      "sum_ts (snd (drain t)) = snap_of sm" "baseSum (snd (drain t)) = snap_of sm"
      using R(2,4) by (simp_all add: drain_def Let_def)
    show ?thesis unfolding rs
      by (rule ts_relI[OF W _ f bl]) (use R(1) in simp_all)
  qed
qed


definition ts_limit :: nat where "ts_limit = 2 ^ 63 - 1"

interpretation tsw: windowed
  ts_add "reset :: 'a::len word series \<Rightarrow> ('a word \<times> 'a word) \<times> 'a word series"
  exact_add "exact_reset LENGTH('a)" sint2 ts_rel ts_limit
proof unfold_locales
  fix n :: nat and s :: "'a word series" and m r s' p m'
  assume A: "ts_rel n s m" "n \<le> ts_limit" "reset s = (r, s')" "exact_reset LENGTH('a) m = (p, m')"
  obtain al c v where m: "m = (al, c, v)" by (cases m)
  from A show "sint2 r = p \<and> ts_rel n s' m'"
    using ts_window_reads(3,4)[of n s al c v] by (auto simp: m exact_reset_def ts_limit_def)
qed (rule ts_add_sim)

lemma ts_rel_new: "8 \<le> LENGTH('a) \<Longrightarrow> LENGTH('a) \<le> 64 \<Longrightarrow> ts_rel 0 (new_series :: 'a::len word series) (False, 0, 0)"
  by (rule ts_relI[of 0 0 0 _ 0 0 0 0])
    (simp_all add: new_series_def snap_of_0 surplus_total_def surplus_base_def)


text \<open>What the unlocked accumulator promises: saturation at every update.\<close>

definition sat_add :: "'a::len word \<times> 'a word \<Rightarrow> int \<times> int \<Rightarrow> int \<times> int" where
  "sat_add u m = (clamp_signed LENGTH('a) (fst m + sint (snd u)), clamp_signed LENGTH('a) (snd m + sint (fst u)))"

definition sat_reset :: "int \<times> int \<Rightarrow> (int \<times> int) \<times> int \<times> int" where
  "sat_reset m = (m, (0, 0))"

definition nl_add :: "('a::len word \<Rightarrow> 'a word \<Rightarrow> 'a word) \<Rightarrow> 'a word \<times> 'a word \<Rightarrow> 'a word nl_series \<Rightarrow> 'a word nl_series" where
  "nl_add f u t = nl_addValue f (fst u) (snd u) t"

definition nl_rel :: "('a::len word \<Rightarrow> 'a word \<Rightarrow> 'a word) \<Rightarrow> nat \<Rightarrow> 'a word nl_series \<Rightarrow> int \<times> int \<Rightarrow> bool" where
  "nl_rel f n t m \<longleftrightarrow> folly_add_clamped f \<and> m = (sint (nl_count t), sint (nl_sum t))"

interpretation nlw: windowed "nl_add f" nl_reset sat_add sat_reset sint2 "nl_rel f" ts_limit
  for f :: "'a::len word \<Rightarrow> 'a word \<Rightarrow> 'a word"
  by unfold_locales
    (auto simp: nl_rel_def nl_add_def nl_addValue_def sat_add_def folly_add_clamped_def
      nl_reset_def sat_reset_def sint2_def)

fun fitting :: "('a::len word \<times> 'a word) ts_op list \<Rightarrow> int \<times> int \<Rightarrow> bool" where
  "fitting [] m \<longleftrightarrow> True"
| "fitting (Add u # ops) m \<longleftrightarrow>
     clamp_signed LENGTH('a) (fst m + sint (snd u)) = fst m + sint (snd u) \<and>
     clamp_signed LENGTH('a) (snd m + sint (fst u)) = snd m + sint (fst u) \<and>
     fitting ops (fst m + sint (snd u), snd m + sint (fst u))"
| "fitting (Reset # ops) m \<longleftrightarrow> fitting ops (0, 0)"

text \<open>The same history for the thread-safe accumulator, every allocation succeeding.\<close>

definition allocating :: "('w \<times> 'w) ts_op list \<Rightarrow> (bool \<times> 'w \<times> 'w) ts_op list" where
  "allocating = map (map_ts_op (\<lambda>u. (True, u)))"

lemma allocating_simps [simp]:
  "allocating [] = []" "allocating (Add u # ops) = Add (True, u) # allocating ops"
  "allocating (Reset # ops) = Reset # allocating ops"
  by (simp_all add: allocating_def)

lemma adds_allocating [simp]: "adds (allocating ops) = adds ops"
  by (induction ops rule: adds.induct) simp_all

lemma exact_add_ok: "exact_add (True, v, k) (al, c, s) = (al \<or> k \<noteq> 1, c + sint k, s + sint v)"
  by (auto simp: exact_add_def Let_def)

lemma exact_reset_simp:
  "exact_reset w (al, c, s) = ((clamp_signed w c, clamp_signed w s), (al, 0, 0))"
  by (simp add: exact_reset_def)

lemma spec_agree:
  assumes "fitting ops (c, s)" "clamp_signed LENGTH('a::len) c = c" "clamp_signed LENGTH('a) s = s"
  shows "fst (run_ops sat_add sat_reset (ops :: ('a word \<times> 'a word) ts_op list) (c, s)) =
         fst (run_ops exact_add (exact_reset LENGTH('a)) (allocating ops) (al, c, s))"
  using assms
proof (induction ops arbitrary: c s al)
  case (Cons x ops)
  show ?case
  proof (cases x)
    case (Add u)
    obtain v k where u: "u = (v, k)" by (cases u)
    from Cons.prems(1) Add u have f: "clamp_signed LENGTH('a) (c + sint k) = c + sint k"
      "clamp_signed LENGTH('a) (s + sint v) = s + sint v" "fitting ops (c + sint k, s + sint v)"
      by simp_all
    have "sat_add u (c, s) = (c + sint k, s + sint v)" by (simp add: sat_add_def u f)
    with Cons.IH[OF f(3,1,2), of "al \<or> k \<noteq> 1"] show ?thesis by (simp add: Add u exact_add_ok)
  next
    case Reset
    have "clamp_signed LENGTH('a) 0 = 0" by (simp add: clamp_signed_def)
    with Reset Cons show ?thesis
      by (simp add: sat_reset_def exact_reset_simp case_prod_beta)
  qed
qed simp

lemma sint2_inj: "sint2 a = sint2 b \<Longrightarrow> a = b"
  by (auto simp: sint2_def prod_eq_iff intro: signed_word_eqI)

text \<open>
  C3: Over any history of updates and resets with fewer than \<open>2 ^ 63\<close> updates, every \<open>reset\<close> of the
  thread-safe accumulator returns the exact count and the exact sum of the updates since the previous
  reset, each clamped once to the signed type; an update whose side block cannot be allocated counts as one.
\<close>
theorem threadsafe_reset_exact:
  assumes "8 \<le> LENGTH('a::len)" "LENGTH('a) \<le> 64" "adds ops < 2 ^ 63"
  shows "map sint2 (fst (run_ops ts_add reset ops (new_series :: 'a word series))) =
         fst (run_ops exact_add (exact_reset LENGTH('a)) ops (False, 0, 0))"
  using tsw.run_sim[OF ts_rel_new, of ops] assms by (simp add: ts_limit_def)

theorem threadsafe_reset_exact_witness:
  "map sint2 (fst (run_ops ts_add reset
      [Add (False, 1, 7), Reset, Add (True, 127, 1), Add (True, 127, 3), Add (True, -127, -128), Reset,
       Add (False, 1, 5), Reset] (new_series :: 8 word series))) = [(1, 1), (-124, 127), (5, 1)]"
  by (subst threadsafe_reset_exact) (simp_all add: exact_add_def exact_reset_def clamp_signed_def)

text \<open>
  For an \<open>add_clamped\<close> that saturates, every \<open>reset\<close> of the unlocked accumulator returns the count
  and the sum obtained by saturating at every single update since the previous reset.
\<close>
theorem nolocking_reset_saturates:
  assumes "folly_add_clamped f" "adds ops < 2 ^ 63"
  shows "map sint2 (fst (run_ops (nl_add f) nl_reset ops (\<lparr>nl_count = 0, nl_sum = 0\<rparr> :: 'a::len word nl_series))) =
         fst (run_ops sat_add sat_reset ops (0, 0))"
  using nlw.run_sim[of f 0 "\<lparr>nl_count = 0, nl_sum = 0\<rparr>" "(0, 0)" ops] assms
  by (simp add: ts_limit_def nl_rel_def)

definition sat_word_add :: "'a::len word \<Rightarrow> 'a word \<Rightarrow> 'a word" where
  "sat_word_add x y = word_of_int (clamp_signed LENGTH('a) (sint x + sint y))"

lemma sat_word_add_ok: "folly_add_clamped sat_word_add"
  unfolding folly_add_clamped_def sat_word_add_def
  using clamp_signed_range by (blast intro: sint_word_of_int_id)

theorem nolocking_reset_saturates_witness:
  "map sint2 (fst (run_ops (nl_add sat_word_add) nl_reset
      [Add (127, 1), Add (1, 1), Add (-1, 1), Reset, Add (3, 2), Reset]
      (\<lparr>nl_count = 0, nl_sum = 0\<rparr> :: 8 word nl_series))) = [(3, 126), (2, 3)]"
  by (subst nolocking_reset_saturates[OF sat_word_add_ok])
    (simp_all add: sat_add_def sat_reset_def clamp_signed_def)

text \<open>
  On every history whose running count and sum stay within the signed type, the two lock traits
  are interchangeable: \<open>TLStatsThreadSafe\<close> and \<open>TLStatsNoLocking\<close> return the same sequence of
  count and sum pairs.
\<close>
theorem lock_traits_agree:
  assumes "folly_add_clamped f" "8 \<le> LENGTH('a::len)" "LENGTH('a) \<le> 64" "adds ops < 2 ^ 63"
    and "fitting ops (0, 0)"
  shows "fst (run_ops ts_add reset (allocating ops) (new_series :: 'a word series)) =
         fst (run_ops (nl_add f) nl_reset ops (\<lparr>nl_count = 0, nl_sum = 0\<rparr> :: 'a word nl_series))"
proof -
  let ?ts = "run_ops ts_add reset (allocating ops) (new_series :: 'a word series)"
  let ?nl = "run_ops (nl_add f) nl_reset ops (\<lparr>nl_count = 0, nl_sum = 0\<rparr> :: 'a word nl_series)"
  have "map sint2 (fst ?ts) = fst (run_ops exact_add (exact_reset LENGTH('a)) (allocating ops) (False, 0, 0))"
    using tsw.run_sim[OF ts_rel_new, of "allocating ops"] assms by (simp add: ts_limit_def)
  also have "\<dots> = fst (run_ops sat_add sat_reset ops (0, 0))"
    using spec_agree[OF assms(5), of False] by (simp add: clamp_signed_def)
  also have "\<dots> = map sint2 (fst ?nl)"
    using nlw.run_sim[of f 0 "\<lparr>nl_count = 0, nl_sum = 0\<rparr>" "(0, 0)" ops] assms
    by (simp add: ts_limit_def nl_rel_def)
  finally show ?thesis by (metis inj_onI list.inj_map_strong sint2_inj)
qed

theorem lock_traits_agree_witness:
  "fst (run_ops ts_add reset (allocating [Add (100, 2), Add (-90, 1), Reset, Add (-5, -7), Reset])
      (new_series :: 8 word series)) =
   fst (run_ops (nl_add sat_word_add) nl_reset [Add (100, 2), Add (-90, 1), Reset, Add (-5, -7), Reset]
      (\<lparr>nl_count = 0, nl_sum = 0\<rparr> :: 8 word nl_series))"
  by (rule lock_traits_agree[OF sat_word_add_ok]) (simp_all add: clamp_signed_def)

end
