(* ===== verification/SeqLock.thy ===== *)
theory SeqLock
  imports LockTraits
begin

unbundle bit_operations_syntax

text \<open>
  The interleavings of \<open>TLStatsThreadSafe::TimeSeriesType\<close> (\<^verbatim>\<open>fb303/TLStatsLockTraits.h\<close>): one adder thread
  and any number of resetting threads, scheduled one shared-memory access at a time and sequentially
  consistently. The racing words (\<open>seq_\<close>, \<open>lastSeq_\<close>, the \<open>surplus_\<close> pointer and both halves of
  both totals) are loaded and stored in steps of their own. Accesses that commute with every other
  thread's are merged into a neighbouring step: the adder's loads of words only it stores, and the
  baselines, which only the drain that holds the claim touches. The ghost fields record the updates
  that were published and the windows that were reported.
\<close>

section \<open>The adder\<close>

text \<open>The points at which \<open>addValue(value, count)\<close> can be preempted; \<open>has\<close> is the local \<open>surplus != nullptr\<close>.\<close>

datatype 'w apc =
    AIdle
  | ALoaded 'w 'w uint64 bool      \<comment> \<open>\<open>seq\<close> and \<open>surplus\<close> are known; next \<open>seq_ = seq + 1\<close>\<close>
  | AOdd 'w 'w uint64 bool         \<comment> \<open>next the low word of the surplus, or of the sum\<close>
  | ASurplusCarry 'w 'w uint64     \<comment> \<open>next the high word of the surplus\<close>
  | ASum 'w 'w uint64 bool         \<comment> \<open>next the low word of the sum\<close>
  | ASumCarry 'w 'w uint64 bool    \<comment> \<open>next the high word of the sum\<close>
  | APublish 'w 'w uint64 bool     \<comment> \<open>next \<open>seq_ = seq + 2\<close>\<close>

text \<open>The two halves of \<open>addRaw\<close>: the low store with its wrap test, and the high store.\<close>

definition wraps :: "'a::len word \<Rightarrow> bool \<Rightarrow> 'a word snapshot \<Rightarrow> bool" where
  "wraps addend negative p =
     (if negative then lo p + addend > lo p else lo p + addend < lo p)"

definition store_lo :: "'a::len word \<Rightarrow> 'a word snapshot \<Rightarrow> 'a word snapshot" where
  "store_lo addend p = p\<lparr>lo := lo p + addend\<rparr>"

definition store_hi :: "bool \<Rightarrow> 'a::len word snapshot \<Rightarrow> 'a word snapshot" where
  "store_hi negative p = p\<lparr>hi := hi p + (if negative then -1 else 1)\<rparr>"

definition add_begin :: "bool \<Rightarrow> 'a::len word \<Rightarrow> 'a word \<Rightarrow> 'a word series \<Rightarrow> 'a word apc \<times> 'a word series" where
  "add_begin ok value count t =
     (let t1 = (if count \<noteq> 1 \<and> surplus_ts t = None then makeSurplus ok t else t)
      in (ALoaded value count (seq t) (count \<noteq> 1 \<and> surplus_ts t1 \<noteq> None), t1))"

definition upd_surplus ::
  "('a::len word snapshot \<Rightarrow> 'a word snapshot) \<Rightarrow> 'a word series \<Rightarrow> 'a word series" where
  "upd_surplus f t = t\<lparr>surplus_ts := map_option (\<lambda>b. b\<lparr>total := f (total b)\<rparr>) (surplus_ts t)\<rparr>"

fun adder_step :: "'a::len word apc \<Rightarrow> 'a word series \<Rightarrow> 'a word apc \<times> 'a word series" where
  "adder_step AIdle t = (AIdle, t)"
| "adder_step (ALoaded v k s has) t = (AOdd v k s has, t\<lparr>seq := s + 1\<rparr>)"
| "adder_step (AOdd v k s has) t =
     (if has then
        (if wraps (k - 1) (sint k < 1) (surplus_total (surplus_ts t))
         then (ASurplusCarry v k s, upd_surplus (store_lo (k - 1)) t)
         else (ASum v k s has, upd_surplus (store_lo (k - 1)) t))
      else (ASum v k s has, t))"
| "adder_step (ASurplusCarry v k s) t = (ASum v k s True, upd_surplus (store_hi (sint k < 1)) t)"
| "adder_step (ASum v k s has) t =
     (if wraps v (sint v < 0) (sum_ts t)
      then (ASumCarry v k s has, t\<lparr>sum_ts := store_lo v (sum_ts t)\<rparr>)
      else (APublish v k s has, t\<lparr>sum_ts := store_lo v (sum_ts t)\<rparr>))"
| "adder_step (ASumCarry v k s has) t =
     (APublish v k s has, t\<lparr>sum_ts := store_hi (sint v < 0) (sum_ts t)\<rparr>)"
| "adder_step (APublish v k s has) t = (AIdle, t\<lparr>seq := s + 2\<rparr>)"

section \<open>A resetting thread\<close>

datatype 'w dpc =
    DIdle
  | RSeq uint64                                   \<comment> \<open>\<open>reset\<close> has loaded \<open>seq_\<close>\<close>
  | DLoad                                         \<comment> \<open>\<open>drain\<close>, next loads \<open>lastSeq_\<close>\<close>
  | DTry uint64                                   \<comment> \<open>next the test of the claim bit and the exchange\<close>
  | DClaimed uint64                               \<comment> \<open>claim held, next loads the baseline of the sum\<close>
  | TSeq uint64 "'w snapshot"                     \<comment> \<open>\<open>readTotals\<close>, next loads \<open>seq_\<close>\<close>
  | TBlock uint64 "'w snapshot" uint64            \<comment> \<open>next loads \<open>surplus_\<close>\<close>
  | TSurLo uint64 "'w snapshot" uint64
  | TSurHi uint64 "'w snapshot" uint64 'w
  | TSumLo uint64 "'w snapshot" uint64 bool "'w snapshot"
  | TSumHi uint64 "'w snapshot" uint64 bool "'w snapshot" 'w
  | TConfirm uint64 "'w snapshot" uint64 bool "'w snapshot" "'w snapshot"
  | DBase uint64 "'w snapshot" uint64 bool "'w snapshot" "'w snapshot"   \<comment> \<open>\<open>Read\<close> accepted\<close>
  | DRelease uint64 'w 'w                         \<comment> \<open>next \<open>lastSeq_ = seq\<close>, then returns\<close>
  | DDone 'w 'w                                   \<comment> \<open>returned\<close>

text \<open>\<open>fail\<close> is a spurious failure of \<open>compare_exchange_weak\<close>.\<close>

fun drain_step :: "bool \<Rightarrow> 'a::len word dpc \<Rightarrow> 'a word series \<Rightarrow> 'a word dpc \<times> 'a word series" where
  "drain_step fail DIdle t = (RSeq (seq t), t)"
| "drain_step fail (RSeq s) t =
     (if s = (lastSeq t AND NOT kInFlight) then (DDone 0 0, t) else (DLoad, t))"
| "drain_step fail DLoad t = (DTry (lastSeq t), t)"
| "drain_step fail (DTry prev) t =
     (if prev AND kInFlight \<noteq> 0 then (DLoad, t)
      else if lastSeq t = prev \<and> \<not> fail then (DClaimed prev, t\<lparr>lastSeq := prev OR kInFlight\<rparr>)
      else (DTry (lastSeq t), t))"
| "drain_step fail (DClaimed prev) t = (TSeq prev (baseSum t), t)"
| "drain_step fail (TSeq prev bs) t =
     (if seq t AND kInFlight \<noteq> 0 then (TSeq prev bs, t) else (TBlock prev bs (seq t), t))"
| "drain_step fail (TBlock prev bs b) t =
     (case surplus_ts t of
        None \<Rightarrow> (TSumLo prev bs b False zero_snapshot, t)
      | Some _ \<Rightarrow> (TSurLo prev bs b, t))"
| "drain_step fail (TSurLo prev bs b) t = (TSurHi prev bs b (lo (surplus_total (surplus_ts t))), t)"
| "drain_step fail (TSurHi prev bs b l) t =
     (TSumLo prev bs b True \<lparr>lo = l, hi = hi (surplus_total (surplus_ts t))\<rparr>, t)"
| "drain_step fail (TSumLo prev bs b blk cnt) t = (TSumHi prev bs b blk cnt (lo (sum_ts t)), t)"
| "drain_step fail (TSumHi prev bs b blk cnt l) t =
     (TConfirm prev bs b blk cnt \<lparr>lo = l, hi = hi (sum_ts t)\<rparr>, t)"
| "drain_step fail (TConfirm prev bs b blk cnt sm) t =
     (if seq t = b then (DBase prev bs b blk cnt sm, t) else (TSeq prev bs, t))"
| "drain_step fail (DBase prev bs b blk cnt sm) t =
     (let bsur = (if blk then surplus_base (surplus_ts t) else zero_snapshot);
          calls = (b - prev) div 2;
          t1 = (if blk then t\<lparr>surplus_ts := map_option (\<lambda>x. x\<lparr>base := cnt\<rparr>) (surplus_ts t)\<rparr> else t)
      in (DRelease b (clamp (addCalls (difference cnt bsur) calls)) (clamp (difference sm bs)),
          t1\<lparr>baseSum := sm\<rparr>))"
| "drain_step fail (DRelease b c s) t = (DDone c s, t\<lparr>lastSeq := b\<rparr>)"
| "drain_step fail (DDone c s) t = (DDone c s, t)"

section \<open>The whole system\<close>

record 'w world =
  mem :: "'w series"
  adder :: "'w apc"
  drainers :: "nat \<Rightarrow> 'w dpc"
  hist :: "(int \<times> int) list"                        \<comment> \<open>published updates, count and value\<close>
  holder :: "nat option"                             \<comment> \<open>the thread that holds the claim\<close>
  drained :: nat                                     \<comment> \<open>how many updates were reported\<close>
  outs :: "(nat \<times> nat \<times> 'w \<times> 'w) list"             \<comment> \<open>the windows reported\<close>

definition world0 :: "'a::len word world" where
  "world0 = \<lparr>mem = new_series, adder = AIdle, drainers = (\<lambda>_. DIdle), hist = [], holder = None,
             drained = 0, outs = []\<rparr>"

text \<open>What an update counts as: \<open>count\<close>, or one call where no block could be had.\<close>

definition eff :: "'a::len word \<Rightarrow> bool \<Rightarrow> int" where
  "eff count has = (if has then sint count else 1)"

definition published :: "'a::len word apc \<Rightarrow> (int \<times> int) list" where
  "published pc = (case pc of APublish v k s has \<Rightarrow> [(eff k has, sint v)] | _ \<Rightarrow> [])"

definition claimed :: "'w dpc \<Rightarrow> 'w dpc \<Rightarrow> nat \<Rightarrow> nat option \<Rightarrow> nat option" where
  "claimed pc pc' i h =
     (case (pc, pc') of
        (DTry _, DClaimed _) \<Rightarrow> Some i
      | (DRelease _ _ _, DDone _ _) \<Rightarrow> None
      | _ \<Rightarrow> h)"

definition reported :: "'w dpc \<Rightarrow> nat \<Rightarrow> (nat \<times> nat \<times> 'w \<times> 'w) list" where
  "reported pc d = (case pc of DRelease b c s \<Rightarrow> [(d, unat b div 2, c, s)] | _ \<Rightarrow> [])"

inductive sl_step :: "'a::len word world \<Rightarrow> 'a word world \<Rightarrow> bool" where
  call_add: "adder w = AIdle \<Longrightarrow> add_begin ok v k (mem w) = (a, t) \<Longrightarrow>
    sl_step w (w\<lparr>mem := t, adder := a\<rparr>)"
| run_add: "adder_step (adder w) (mem w) = (a, t) \<Longrightarrow>
    sl_step w (w\<lparr>mem := t, adder := a, hist := hist w @ published (adder w)\<rparr>)"
| run_reset: "drain_step fail (drainers w i) (mem w) = (d, t) \<Longrightarrow>
    sl_step w (w\<lparr>mem := t, drainers := (drainers w)(i := d),
                 holder := claimed (drainers w i) d i (holder w),
                 drained := (case drainers w i of DRelease b c s \<Rightarrow> unat b div 2 | _ \<Rightarrow> drained w),
                 outs := outs w @ reported (drainers w i) (drained w)\<rparr>)"
| recall_reset: "drainers w i = DDone c s \<Longrightarrow> sl_step w (w\<lparr>drainers := (drainers w)(i := DIdle)\<rparr>)"

inductive sl_reach :: "'a::len word world \<Rightarrow> bool" where
  start: "sl_reach world0"
| step: "sl_reach w \<Longrightarrow> sl_step w w' \<Longrightarrow> sl_reach w'"

section \<open>The invariant\<close>

definition csum :: "nat \<Rightarrow> (int \<times> int) list \<Rightarrow> int" where
  "csum n h = (\<Sum>u\<leftarrow>take n h. fst u - 1)"

definition vsum :: "nat \<Rightarrow> (int \<times> int) list \<Rightarrow> int" where
  "vsum n h = (\<Sum>u\<leftarrow>take n h. snd u)"

definition seqw :: "nat \<Rightarrow> uint64" where
  "seqw n = word_of_int (2 * int n)"

definition blockless :: "'w series \<Rightarrow> (int \<times> int) list \<Rightarrow> bool" where
  "blockless t h \<longleftrightarrow> (surplus_ts t = None \<longrightarrow> (\<forall>u \<in> set h. fst u = 1))"

fun adder_inv :: "'a::len word apc \<Rightarrow> 'a word series \<Rightarrow> (int \<times> int) list \<Rightarrow> bool" where
  "adder_inv AIdle t h \<longleftrightarrow>
     seq t = seqw (length h) \<and> surplus_total (surplus_ts t) = snap_of (csum (length h) h) \<and>
     sum_ts t = snap_of (vsum (length h) h)"
| "adder_inv (ALoaded v k s has) t h \<longleftrightarrow>
     s = seqw (length h) \<and> seq t = s \<and> surplus_total (surplus_ts t) = snap_of (csum (length h) h) \<and>
     sum_ts t = snap_of (vsum (length h) h) \<and> (has \<longrightarrow> k \<noteq> 1 \<and> surplus_ts t \<noteq> None)"
| "adder_inv (AOdd v k s has) t h \<longleftrightarrow>
     s = seqw (length h) \<and> seq t = s + 1 \<and> surplus_total (surplus_ts t) = snap_of (csum (length h) h) \<and>
     sum_ts t = snap_of (vsum (length h) h) \<and> (has \<longrightarrow> k \<noteq> 1 \<and> surplus_ts t \<noteq> None)"
| "adder_inv (ASurplusCarry v k s) t h \<longleftrightarrow>
     s = seqw (length h) \<and> seq t = s + 1 \<and> surplus_ts t \<noteq> None \<and>
     store_hi (sint k < 1) (surplus_total (surplus_ts t)) = snap_of (csum (length h) h + (eff k True - 1)) \<and>
     sum_ts t = snap_of (vsum (length h) h)"
| "adder_inv (ASum v k s has) t h \<longleftrightarrow>
     s = seqw (length h) \<and> seq t = s + 1 \<and> (has \<longrightarrow> surplus_ts t \<noteq> None) \<and>
     surplus_total (surplus_ts t) = snap_of (csum (length h) h + (eff k has - 1)) \<and>
     sum_ts t = snap_of (vsum (length h) h)"
| "adder_inv (ASumCarry v k s has) t h \<longleftrightarrow>
     s = seqw (length h) \<and> seq t = s + 1 \<and> (has \<longrightarrow> surplus_ts t \<noteq> None) \<and>
     surplus_total (surplus_ts t) = snap_of (csum (length h) h + (eff k has - 1)) \<and>
     store_hi (sint v < 0) (sum_ts t) = snap_of (vsum (length h) h + sint v)"
| "adder_inv (APublish v k s has) t h \<longleftrightarrow>
     s = seqw (length h) \<and> seq t = s + 1 \<and> (has \<longrightarrow> surplus_ts t \<noteq> None) \<and>
     surplus_total (surplus_ts t) = snap_of (csum (length h) h + (eff k has - 1)) \<and>
     sum_ts t = snap_of (vsum (length h) h + sint v)"

lemma addRaw_halves:
  "addRaw a neg p = (if wraps a neg p then store_hi neg (store_lo a p) else store_lo a p)"
  by (cases p) (simp add: addRaw_def wraps_def store_lo_def store_hi_def Let_def)

lemma surplus_upd [simp]:
  "surplus_ts t \<noteq> None \<Longrightarrow> surplus_total (surplus_ts (upd_surplus f t)) = f (surplus_total (surplus_ts t))"
  "surplus_base (surplus_ts (upd_surplus f t)) = surplus_base (surplus_ts t)"
  "surplus_ts (upd_surplus f t) = None \<longleftrightarrow> surplus_ts t = None"
  "seq (upd_surplus f t) = seq t" "lastSeq (upd_surplus f t) = lastSeq t"
  "sum_ts (upd_surplus f t) = sum_ts t" "baseSum (upd_surplus f t) = baseSum t"
  by (auto simp: upd_surplus_def surplus_total_def surplus_base_def split: option.splits)

lemma surplus_upd_ex [simp]:
  "(\<exists>y. surplus_ts (upd_surplus f t) = Some y) \<longleftrightarrow> (\<exists>y. surplus_ts t = Some y)"
  by (simp add: upd_surplus_def)

lemma csum_snoc: "csum (Suc (length h)) (h @ [u]) = csum (length h) h + (fst u - 1)"
  and vsum_snoc: "vsum (Suc (length h)) (h @ [u]) = vsum (length h) h + snd u"
  by (simp_all add: csum_def vsum_def)

lemma seqw_Suc: "seqw (Suc n) = seqw n + 2"
  by (simp add: seqw_def word_of_int_hom)

lemma makeSurplus_simps [simp]:
  "surplus_ts t = None \<Longrightarrow> surplus_total (surplus_ts (makeSurplus ok t)) = surplus_total (surplus_ts t)"
  "surplus_ts t = None \<Longrightarrow> surplus_base (surplus_ts (makeSurplus ok t)) = surplus_base (surplus_ts t)"
  "seq (makeSurplus ok t) = seq t" "lastSeq (makeSurplus ok t) = lastSeq t"
  "sum_ts (makeSurplus ok t) = sum_ts t" "baseSum (makeSurplus ok t) = baseSum t"
  by (simp_all add: makeSurplus_def surplus_total_def surplus_base_def)

lemma add_begin_inv:
  assumes "adder_inv AIdle t h" "add_begin ok v k t = (a, t')"
  shows "adder_inv a t' h"
  using assms by (auto simp: add_begin_def Let_def)

lemma adder_step_inv:
  fixes t :: "'a::len word series"
  assumes "adder_inv a t h" "adder_step a t = (a', t')"
  shows "adder_inv a' t' (h @ published a)"
proof (cases a)
  case (AOdd v k s has)
  show ?thesis
  proof (cases has)
    case True
    with assms(1) AOdd have k: "k \<noteq> 1" by simp
    with assms AOdd True surplus_add_snap[OF k, of "csum (length h) h"] show ?thesis
      by (auto simp: published_def addRaw_halves eff_def split: if_splits)
  next
    case False
    with assms AOdd show ?thesis by (auto simp: published_def eff_def)
  qed
next
  case (ASum v k s has)
  with assms add_snap[of v "vsum (length h) h"] show ?thesis
    by (auto simp: published_def addRaw_halves add_def split: if_splits)
qed (use assms in \<open>auto simp: published_def csum_snoc vsum_snoc seqw_Suc\<close>)

lemma adder_step_blockless:
  assumes "adder_inv a t h" "blockless t h" "adder_step a t = (a', t')"
  shows "blockless t' (h @ published a)"
  using assms 
  by (cases a) (auto simp: blockless_def published_def eff_def split: if_splits)


lemma seqw_diff: "n \<le> m \<Longrightarrow> m < 2 ^ 63 \<Longrightarrow> (seqw m - seqw n) div 2 = word_of_int (int (m - n))"
  unfolding seqw_def using calls_word[of "m - n" n] by simp

lemma seqw_inj: "n < 2 ^ 63 \<Longrightarrow> m < 2 ^ 63 \<Longrightarrow> seqw n = seqw m \<longleftrightarrow> n = m"
proof (induction n m rule: linorder_wlog)
  case (le a b)
  then have "b - a < 2 ^ 63" by simp
  from seq_eq_iff[OF this, of a] le show ?case by (auto simp: seqw_def)
next
  case (sym a b)
  then show ?case by metis
qed

lemma unat_seqw: "n < 2 ^ 63 \<Longrightarrow> unat (seqw n) div 2 = n"
  by (simp add: seqw_def unat_eq_nat_uint uint_word_of_int_mod del: of_int_mult)

lemma seqw_bit0: "\<not> bit (seqw n) 0" 
  by (simp add: seqw_def bit_simps)

lemma and_inflight_bits:
  assumes "\<not> bit (x :: uint64) 0"
  shows "x AND kInFlight = 0" "x AND NOT kInFlight = x"
    and "(x OR kInFlight) AND kInFlight \<noteq> 0" "(x OR kInFlight) AND NOT kInFlight = x"
proof -
  show "x AND kInFlight = 0" "x AND NOT kInFlight = x" "(x OR kInFlight) AND NOT kInFlight = x"
    using assms by (auto intro!: bit_word_eqI gr0I simp: kInFlight_def bit_simps)
  have "bit ((x OR kInFlight) AND kInFlight) 0" by (simp add: kInFlight_def bit_simps)
  then show "(x OR kInFlight) AND kInFlight \<noteq> 0" by auto
qed

lemmas seqw_and [simp] = and_inflight_bits[OF seqw_bit0]

lemma seqw_odd [simp]: "seqw n \<noteq> seqw m OR kInFlight" "seqw n \<noteq> seqw m + 1"
proof -
  show "seqw n \<noteq> seqw m OR kInFlight" by (metis seqw_and(1,3))
  have "even (seqw n)" "odd (seqw m + 1)" using seqw_bit0[of n] seqw_bit0[of m] by (simp_all add: bit_0)
  then show "seqw n \<noteq> seqw m + 1" by metis
qed

lemmas odd_seq = seqw_odd(2)[symmetric]

definition based :: "'a::len word series \<Rightarrow> nat \<Rightarrow> (int \<times> int) list \<Rightarrow> bool" where
  "based t n h \<longleftrightarrow> baseSum t = snap_of (vsum n h) \<and> surplus_base (surplus_ts t) = snap_of (csum n h)"

definition window :: "nat \<Rightarrow> nat \<Rightarrow> (int \<times> int) list \<Rightarrow> (int \<times> int) list" where
  "window l n h = drop l (take n h)"

definition exact :: "(int \<times> int) list \<Rightarrow> nat \<times> nat \<times> 'a::len word \<times> 'a word \<Rightarrow> bool" where
  "exact h r = (case r of (l, n, c, s) \<Rightarrow>
     l \<le> n \<and> n \<le> length h \<and> 
     sint c = clamp_signed LENGTH('a) (\<Sum>u\<leftarrow>window l n h. fst u) \<and>
     sint s = clamp_signed LENGTH('a) (\<Sum>u\<leftarrow>window l n h. snd u))"

text \<open>The snapshot of \<open>seq_\<close> a reader holds, and what it has read while the sequence stayed there.\<close>

definition snap_at :: "nat \<Rightarrow> uint64 \<Rightarrow> nat \<Rightarrow> (int \<times> int) list \<Rightarrow> bool" where
  "snap_at l b n h \<longleftrightarrow> b = seqw n \<and> l \<le> n \<and> n \<le> length h"

definition block_read :: "bool \<Rightarrow> 'w series \<Rightarrow> nat \<Rightarrow> (int \<times> int) list \<Rightarrow> bool" where
  "block_read blk t n h \<longleftrightarrow>
     (if blk then surplus_ts t \<noteq> None else (\<forall>u \<in> set (take n h). fst u = 1))"

fun drain_inv :: "'a::len word dpc \<Rightarrow> 'a word series \<Rightarrow> (int \<times> int) list \<Rightarrow> nat \<Rightarrow> bool" where
  "drain_inv (DClaimed prev) t h l \<longleftrightarrow> prev = seqw l \<and> based t l h"
| "drain_inv (TSeq prev bs) t h l \<longleftrightarrow> prev = seqw l \<and> based t l h \<and> bs = snap_of (vsum l h)"
| "drain_inv (TBlock prev bs b) t h l \<longleftrightarrow> prev = seqw l \<and> based t l h \<and> bs = snap_of (vsum l h) \<and>
     (\<exists>n. snap_at l b n h)"
| "drain_inv (TSurLo prev bs b) t h l \<longleftrightarrow> prev = seqw l \<and> based t l h \<and> bs = snap_of (vsum l h) \<and>
     (\<exists>n. snap_at l b n h) \<and> surplus_ts t \<noteq> None"
| "drain_inv (TSurHi prev bs b x) t h l \<longleftrightarrow> prev = seqw l \<and> based t l h \<and> bs = snap_of (vsum l h) \<and>
     (\<exists>n. snap_at l b n h) \<and> surplus_ts t \<noteq> None \<and>
     (seq t = b \<longrightarrow> x = lo (surplus_total (surplus_ts t)))"
| "drain_inv (TSumLo prev bs b blk cnt) t h l \<longleftrightarrow> prev = seqw l \<and> based t l h \<and> bs = snap_of (vsum l h) \<and>
     (\<exists>n. snap_at l b n h \<and> block_read blk t n h) \<and> (seq t = b \<longrightarrow> cnt = surplus_total (surplus_ts t))"
| "drain_inv (TSumHi prev bs b blk cnt x) t h l \<longleftrightarrow> prev = seqw l \<and> based t l h \<and> bs = snap_of (vsum l h) \<and>
     (\<exists>n. snap_at l b n h \<and> block_read blk t n h) \<and>
     (seq t = b \<longrightarrow> cnt = surplus_total (surplus_ts t) \<and> x = lo (sum_ts t))"
| "drain_inv (TConfirm prev bs b blk cnt sm) t h l \<longleftrightarrow> prev = seqw l \<and> based t l h \<and> bs = snap_of (vsum l h) \<and>
     (\<exists>n. snap_at l b n h \<and> block_read blk t n h) \<and>
     (seq t = b \<longrightarrow> cnt = surplus_total (surplus_ts t) \<and> sm = sum_ts t)"
| "drain_inv (DBase prev bs b blk cnt sm) t h l \<longleftrightarrow> prev = seqw l \<and> based t l h \<and> bs = snap_of (vsum l h) \<and>
     (\<exists>n. snap_at l b n h \<and> block_read blk t n h \<and> cnt = snap_of (csum n h) \<and> sm = snap_of (vsum n h))"
| "drain_inv (DRelease b c s) t h l \<longleftrightarrow>
     (\<exists>n. snap_at l b n h \<and> based t n h \<and> exact h (l, n, c, s))"
| "drain_inv _ t h l \<longleftrightarrow> True"

fun holds :: "'w dpc \<Rightarrow> bool" where
  "holds DIdle = False" | "holds (RSeq s) = False" | "holds DLoad = False"
| "holds (DTry p) = False" | "holds (DDone c s) = False" | "holds _ = True"

lemma vsum_append: "n \<le> length h \<Longrightarrow> vsum n (h @ g) = vsum n h"
  and csum_append: "n \<le> length h \<Longrightarrow> csum n (h @ g) = csum n h"
  and window_append: "n \<le> length h \<Longrightarrow> window l n (h @ g) = window l n h"
  by (simp_all add: vsum_def csum_def window_def)


text \<open>What a step of the adder leaves alone.\<close>

definition undisturbed :: "'a::len word series \<Rightarrow> 'a word series \<Rightarrow> nat \<Rightarrow> bool" where
  "undisturbed t t' n \<longleftrightarrow> lastSeq t' = lastSeq t \<and> baseSum t' = baseSum t \<and>
     surplus_base (surplus_ts t') = surplus_base (surplus_ts t) \<and>
     (surplus_ts t \<noteq> None \<longrightarrow> surplus_ts t' \<noteq> None) \<and>
     (\<forall>i \<le> n. seq t' = seqw i \<longrightarrow> seq t = seqw i \<and> sum_ts t' = sum_ts t \<and>
        surplus_total (surplus_ts t') = surplus_total (surplus_ts t))"

lemma add_begin_undisturbed:
  "add_begin ok v k t = (a, t') \<Longrightarrow> undisturbed t t' n"
  by (auto simp: add_begin_def undisturbed_def Let_def split: if_splits)

lemma adder_step_undisturbed:
  assumes "adder_inv a t h" "adder_step a t = (a', t')" "Suc (length h) < 2 ^ 63"
  shows "undisturbed t t' (length h)"
proof (cases a)
  case (APublish v k s has)
  have "seqw (length h) + 2 \<noteq> seqw i" if "i \<le> length h" for i
    using that assms(3) seqw_inj[of "Suc (length h)" i] by (simp add: seqw_Suc[symmetric])
  with APublish assms show ?thesis by (auto simp: undisturbed_def)
qed (use assms in \<open>auto simp: undisturbed_def odd_seq simp del: not_None_eq split: if_splits\<close>)

lemma snap_at_append: "snap_at l b n h \<Longrightarrow> snap_at l b n (h @ g)"
  by (simp add: snap_at_def)

lemma based_append: "n \<le> length h \<Longrightarrow> based t n (h @ g) = based t n h"
  by (simp add: based_def vsum_append csum_append)

lemma based_undisturbed: "undisturbed t t' m \<Longrightarrow> based t' n h = based t n h"
  by (simp add: based_def undisturbed_def)

lemma block_read_mono:
  "undisturbed t t' m \<Longrightarrow> n \<le> length h \<Longrightarrow> block_read blk t n h \<Longrightarrow> block_read blk t' n (h @ g)"
  by (auto simp: block_read_def undisturbed_def split: if_splits)

lemma exact_append: "exact h r \<Longrightarrow> exact (h @ g) r"
  by (auto simp: exact_def window_append split: prod.splits)

lemma drain_inv_adder:
  assumes "drain_inv d t h l" "undisturbed t t' (length h)" "l \<le> length h"
  shows "drain_inv d t' (h @ g) l"
proof -
  have k: "based t' l (h @ g) = based t l h" "vsum l (h @ g) = vsum l h"
    using assms(2,3) by (simp_all add: based_append based_undisturbed vsum_append)
  have r: "snap_at l b n h \<Longrightarrow> seq t' = b \<Longrightarrow> seq t = b \<and> sum_ts t' = sum_ts t \<and>
        surplus_total (surplus_ts t') = surplus_total (surplus_ts t)" for b n
    using assms(2) by (auto simp: snap_at_def undisturbed_def)
  have b: "snap_at l b n h \<Longrightarrow> block_read blk t n h \<Longrightarrow> block_read blk t' n (h @ g)" for b n blk
    using assms(2) by (auto simp: snap_at_def intro: block_read_mono)
  have s: "surplus_ts t \<noteq> None \<Longrightarrow> surplus_ts t' \<noteq> None"
    using assms(2) by (simp add: undisturbed_def)
  have v: "snap_at l b n h \<Longrightarrow> vsum n (h @ g) = vsum n h \<and> csum n (h @ g) = csum n h
      \<and> based t' n (h @ g) = based t n h" for b n
    using assms(2) by (auto simp: snap_at_def vsum_append csum_append based_append based_undisturbed)
  note sa = snap_at_append[of l _ _ h g]
  show ?thesis
  proof (cases d)
    case (DBase p bs b blk cnt sm)
    with assms(1) show ?thesis using k sa v b by (simp only: drain_inv.simps) metis
  next
    case (DRelease b c s)
    with assms(1) obtain n where "snap_at l b n h" "based t n h" "exact h (l, n, c, s)" by auto
    with sa v DRelease show ?thesis by (auto intro!: exI[of _ n] exact_append)
  next
    case (TSumLo p bs b blk cnt)
    with assms(1) show ?thesis using k sa v b r by (simp only: drain_inv.simps) metis
  next
    case (TSumHi p bs b blk cnt)
    with assms(1) show ?thesis using k sa v b r by (simp only: drain_inv.simps) metis
  next
    case (TConfirm p bs b blk cnt)
    with assms(1) show ?thesis using k sa v b r by (simp only: drain_inv.simps) metis
  next
    case (TSurHi p bs b x)
    with assms(1) show ?thesis using k sa s r by (simp only: drain_inv.simps) metis
  qed (use assms(1) k sa s in auto)
qed


text \<open>A step of the thread that holds the claim.\<close>

lemma window_sums:
  assumes "l \<le> n" "n \<le> length h"
  shows "(\<Sum>u\<leftarrow>window l n h. fst u) = csum n h - csum l h + int (n - l)"
    and "(\<Sum>u\<leftarrow>window l n h. snd u) = vsum n h - vsum l h"
proof -
  have "take n h = take l h @ window l n h"
    using assms(1) by (metis append_take_drop_id min.absorb1 take_take window_def)
  then have "csum n h = csum l h + (\<Sum>u\<leftarrow>window l n h. fst u - 1)"
    "vsum n h = vsum l h + (\<Sum>u\<leftarrow>window l n h. snd u)"
    unfolding csum_def vsum_def by (metis map_append sum_list_append)+
  moreover have "(\<Sum>u\<leftarrow>window l n h. fst u - 1) = (\<Sum>u\<leftarrow>window l n h. fst u) - int (length (window l n h))"
    by (induction "window l n h" rule: list.induct) (simp_all add: sum_list_subtractf sum_list_triv)
  moreover have "length (window l n h) = n - l" using assms by (simp add: window_def)
  ultimately show "(\<Sum>u\<leftarrow>window l n h. fst u) = csum n h - csum l h + int (n - l)"
    "(\<Sum>u\<leftarrow>window l n h. snd u) = vsum n h - vsum l h" by simp_all
qed

definition bounded :: "nat \<Rightarrow> (int \<times> int) list \<Rightarrow> bool" where
  "bounded w h \<longleftrightarrow> (\<forall>u \<in> set h. \<bar>fst u\<bar> \<le> 2 ^ (w - 1) \<and> \<bar>snd u\<bar> \<le> 2 ^ (w - 1))"

lemma sum_list_abs_bound:
  fixes f :: "'u \<Rightarrow> int"
  assumes "\<forall>u \<in> set xs. \<bar>f u\<bar> \<le> b"
  shows "\<bar>\<Sum>u\<leftarrow>xs. f u\<bar> \<le> int (length xs) * b"
  using assms by (induction xs) (auto simp: distrib_right)

lemma window_bounds:
  assumes "bounded w h" "l \<le> n" "n \<le> length h"
  shows "\<bar>\<Sum>u\<leftarrow>window l n h. fst u\<bar> \<le> int (n - l) * 2 ^ (w - 1)"
    and "\<bar>\<Sum>u\<leftarrow>window l n h. snd u\<bar> \<le> int (n - l) * 2 ^ (w - 1)"
proof -
  have "set (window l n h) \<subseteq> set h" unfolding window_def by (meson set_drop_subset set_take_subset subset_trans)
  moreover have "length (window l n h) = n - l" using assms by (simp add: window_def)
  ultimately show "\<bar>\<Sum>u\<leftarrow>window l n h. fst u\<bar> \<le> int (n - l) * 2 ^ (w - 1)"
    "\<bar>\<Sum>u\<leftarrow>window l n h. snd u\<bar> \<le> int (n - l) * 2 ^ (w - 1)"
    using assms(1) sum_list_abs_bound[of "window l n h" fst "2 ^ (w - 1)"]
      sum_list_abs_bound[of "window l n h" snd "2 ^ (w - 1)"] by (auto simp: bounded_def)
qed

lemma blockless_csum:
  assumes "\<forall>u \<in> set (take n h). fst u = 1" "l \<le> n"
  shows "csum l h = 0"
proof -
  have "\<forall>u \<in> set (take l h). fst u - 1 = 0"
    using assms set_take_subset_set_take[OF assms(2), of h] by auto
  then show ?thesis unfolding csum_def by (metis (no_types, lifting) map_eq_conv sum_list_0)
qed

lemma drained_values:
  fixes t :: "'a::len word series"
  assumes W: "8 \<le> LENGTH('a)" "LENGTH('a) \<le> 64" and n: "l \<le> n" "n \<le> length h" "length h < 2 ^ 63"
    and "bounded LENGTH('a) h"
  shows "sint (clamp (addCalls (difference (snap_of (csum n h)) (snap_of (csum l h) :: 'a word snapshot))
             ((seqw n - seqw l) div 2))) = clamp_signed LENGTH('a) (\<Sum>u\<leftarrow>window l n h. fst u)"
    and "sint (clamp (difference (snap_of (vsum n h)) (snap_of (vsum l h) :: 'a word snapshot)))
         = clamp_signed LENGTH('a) (\<Sum>u\<leftarrow>window l n h. snd u)"
proof -
  have k: "n - l < 2 ^ 63" "n < 2 ^ 63" using n by simp_all
  have "addCalls (difference (snap_of (csum n h)) (snap_of (csum l h) :: 'a word snapshot))
          ((seqw n - seqw l) div 2) = snap_of (\<Sum>u\<leftarrow>window l n h. fst u)"
    unfolding seqw_diff[OF n(1) k(2)] difference_snap window_sums(1)[OF n(1,2)]
    using W k by (intro addCalls_snap) simp_all
  then show "sint (clamp (addCalls (difference (snap_of (csum n h)) (snap_of (csum l h) :: 'a word snapshot))
             ((seqw n - seqw l) div 2))) = clamp_signed LENGTH('a) (\<Sum>u\<leftarrow>window l n h. fst u)"
    using clamp_window[OF window_bounds(1)[OF assms(6) n(1,2)] k(1)] by simp
  show "sint (clamp (difference (snap_of (vsum n h)) (snap_of (vsum l h) :: 'a word snapshot)))
         = clamp_signed LENGTH('a) (\<Sum>u\<leftarrow>window l n h. snd u)"
    using clamp_window[OF window_bounds(2)[OF assms(6) n(1,2)] k(1)]
    by (simp add: difference_snap window_sums(2)[OF n(1,2)])
qed

lemma drain_base_inv:
  fixes t :: "'a::len word series"
  assumes W: "8 \<le> LENGTH('a)" "LENGTH('a) \<le> 64" and N: "length h < 2 ^ 63" and bd: "bounded LENGTH('a) h"
    and inv: "drain_inv (DBase prev bs b blk cnt sm) t h l"
    and st: "drain_step fail (DBase prev bs b blk cnt sm) t = (d, t')"
  shows "drain_inv d t' h l"
proof -
  from inv obtain n where n: "b = seqw n" "l \<le> n" "n \<le> length h" "block_read blk t n h"
    "cnt = snap_of (csum n h)" "sm = snap_of (vsum n h)" 
    and p: "prev = seqw l" "based t l h" "bs = snap_of (vsum l h)"
    by (auto simp: snap_at_def)
  let ?bsur = "if blk then surplus_base (surplus_ts t) else zero_snapshot"
  have z: "\<not> blk \<Longrightarrow> csum l h = 0 \<and> csum n h = 0"
    using n(2,4) blockless_csum[of n h l] blockless_csum[of n h n] by (auto simp: block_read_def)
  have bsur: "?bsur = snap_of (csum l h)"
    using p(2) z by (auto simp: based_def snap_of_0[symmetric])
  have "based t' n h"
    using st n(4,5,6) p(2) z
    by (auto simp: based_def block_read_def surplus_base_def Let_def split: option.splits if_splits)
  then show ?thesis
    using st n p bsur drained_values[OF W n(2,3) N bd]
    by (auto simp: Let_def exact_def snap_at_def intro!: exI[of _ n])
qed


lemma adder_inv_even:
  assumes "adder_inv a t h" "seq t = seqw n \<or> seq t AND kInFlight = 0"
  shows "seq t = seqw (length h) \<and> surplus_total (surplus_ts t) = snap_of (csum (length h) h) \<and>
         sum_ts t = snap_of (vsum (length h) h)"
proof -
  have "(seqw (length h) + 1) AND kInFlight \<noteq> 0"
  proof -
    have "odd (seqw (length h) + 1)" using seqw_bit0[of "length h"] by (simp add: bit_0)
    then have "bit ((seqw (length h) + 1) AND kInFlight) 0"
      unfolding kInFlight_def bit_and_iff by (simp add: bit_0)
    then show ?thesis by auto
  qed
  with assms show ?thesis by (cases a) (auto simp: odd_seq)
qed

definition same_totals :: "'a::len word series \<Rightarrow> 'a word series \<Rightarrow> bool" where
  "same_totals t t' \<longleftrightarrow> seq t' = seq t \<and> sum_ts t' = sum_ts t \<and>
     surplus_total (surplus_ts t') = surplus_total (surplus_ts t) \<and>
     (surplus_ts t' = None \<longleftrightarrow> surplus_ts t = None)"

lemma adder_inv_same: "same_totals t t' \<Longrightarrow> adder_inv a t' h = adder_inv a t h"
  by (cases a) (simp_all add: same_totals_def)

lemma drain_step_totals: "drain_step fail d t = (d', t') \<Longrightarrow> same_totals t t'"
  by (cases d) (auto simp: same_totals_def Let_def surplus_total_def split: if_splits option.splits)

lemma drain_step_inv:
  fixes t :: "'a::len word series"
  assumes W: "8 \<le> LENGTH('a)" "LENGTH('a) \<le> 64" and N: "length h < 2 ^ 63" and bd: "bounded LENGTH('a) h"
    and a: "adder_inv a t h" "blockless t h" and l: "l \<le> length h"
    and inv: "drain_inv d t h l" "holds d" "\<And>b c s. d \<noteq> DRelease b c s"
    and st: "drain_step fail d t = (d', t')"
  shows "drain_inv d' t' h l \<and> holds d' \<and> lastSeq t' = lastSeq t"
proof (cases d)
  case (DBase prev bs b blk cnt sm)
  then show ?thesis
    using drain_base_inv[OF W N bd inv(1)[unfolded DBase] st[unfolded DBase]] st
    by (auto simp: Let_def)
next
  case (TSeq prev bs)
  with inv st adder_inv_even[OF a(1)] l show ?thesis
    by (auto simp: snap_at_def split: if_splits)
next
  case (TBlock prev bs b)
  with inv obtain n where n: "snap_at l b n h" "n \<le> length h" by (auto simp: snap_at_def)
  have "surplus_ts t = None \<Longrightarrow> block_read False t n h"
    using a(2) by (auto simp: block_read_def blockless_def dest: in_set_takeD)
  with TBlock inv st n show ?thesis
    by (auto simp: surplus_total_def split: option.splits)
next
  case (TSurHi prev bs b x)
  with inv st show ?thesis by (auto simp: block_read_def)
next
  case (TConfirm prev bs b blk cnt sm)
  show ?thesis
  proof (cases "seq t = b")
    case True
    from TConfirm inv obtain n where n: "snap_at l b n h" "block_read blk t n h" by auto
    with True adder_inv_even[OF a(1), of n] have e: "seq t = seqw (length h)"
      "surplus_total (surplus_ts t) = snap_of (csum (length h) h)" "sum_ts t = snap_of (vsum (length h) h)"
      by (auto simp: snap_at_def)
    have "seqw n = seqw (length h)" using n(1) True e(1) unfolding snap_at_def by metis
    moreover have "n < 2 ^ 63" using n(1) N unfolding snap_at_def by linarith
    ultimately have "n = length h" using seqw_inj[OF _ N] by metis
    with n have r: "\<exists>n. snap_at l b n h \<and> block_read blk t n h \<and>
        surplus_total (surplus_ts t) = snap_of (csum n h) \<and> sum_ts t = snap_of (vsum n h)"
      using e(2,3) by blast
    have "d' = DBase prev bs b blk cnt sm" "t' = t" using st True TConfirm by simp_all
    moreover have "prev = seqw l" "based t l h" "bs = snap_of (vsum l h)"
      "cnt = surplus_total (surplus_ts t)" "sm = sum_ts t"
      using inv(1) True TConfirm by simp_all
    ultimately show ?thesis using r by simp
  next
    case False
    with TConfirm inv st show ?thesis by auto
  qed
qed (use inv st in \<open>auto simp: based_def split: if_splits\<close>)

fun windows :: "nat \<Rightarrow> (nat \<times> nat \<times> 'w \<times> 'w) list \<Rightarrow> nat \<Rightarrow> bool" where
  "windows l [] d \<longleftrightarrow> l = d"
| "windows l ((a, n, c, s) # os) d \<longleftrightarrow> a = l \<and> l \<le> n \<and> windows n os d"

lemma windows_snoc: "windows l os d \<Longrightarrow> d \<le> n \<Longrightarrow> windows l (os @ [(d, n, c, s)]) n"
  by (induction l os d rule: windows.induct) auto

definition world_inv :: "'a::len word world \<Rightarrow> bool" where
  "world_inv w \<longleftrightarrow>
     adder_inv (adder w) (mem w) (hist w) \<and> blockless (mem w) (hist w) \<and> bounded LENGTH('a) (hist w) \<and>
     drained w \<le> length (hist w) \<and>
     lastSeq (mem w) = (if holder w = None then seqw (drained w) else seqw (drained w) OR kInFlight) \<and>
     (\<forall>i. holds (drainers w i) \<longleftrightarrow> holder w = Some i) \<and>
     (case holder w of None \<Rightarrow> based (mem w) (drained w) (hist w)
      | Some i \<Rightarrow> drain_inv (drainers w i) (mem w) (hist w) (drained w)) \<and>
     windows 0 (outs w) (drained w) \<and> (\<forall>r \<in> set (outs w). exact (hist w) r)"

lemma world_inv_start: "world_inv (world0 :: 'a::len word world)"
  by (simp add: world_inv_def world0_def new_series_def seqw_def csum_def vsum_def snap_of_0
      surplus_total_def surplus_base_def blockless_def bounded_def based_def)

lemma world_inv_adder:
  assumes "world_inv w" "adder_inv a t (hist w @ g)" "blockless t (hist w @ g)"
    and "bounded LENGTH('a::len) (hist w @ g)" "undisturbed (mem w) t (length (hist w))"
  shows "world_inv ((w :: 'a word world)\<lparr>mem := t, adder := a, hist := hist w @ g\<rparr>)"
proof -
  have d: "drained w \<le> length (hist w)" using assms(1) by (simp add: world_inv_def)
  have "lastSeq t = lastSeq (mem w)" using assms(5) by (simp add: undisturbed_def)
  then show ?thesis
    using assms d drain_inv_adder[OF _ assms(5) d, where g = g]
    by (auto simp: world_inv_def based_append based_undisturbed exact_append split: option.splits)
qed

lemma published_bounded: "\<forall>u \<in> set (published a). \<bar>fst u\<bar> \<le> 2 ^ (LENGTH('a) - 1) \<and> \<bar>snd u\<bar> \<le> 2 ^ (LENGTH('a) - 1)"
  for a :: "'a::len word apc"
  by (cases a) (auto simp: published_def eff_def sint_abs[simplified])


lemma claim_step:
  "drain_step fail d t = (d', t') \<Longrightarrow> \<not> holds d \<Longrightarrow> holds d' \<Longrightarrow>
   \<exists>prev. d = DTry prev \<and> prev AND kInFlight = 0 \<and> lastSeq t = prev \<and> d' = DClaimed prev \<and>
          t' = t\<lparr>lastSeq := prev OR kInFlight\<rparr>"
  by (cases d) (auto split: if_splits)

lemma idle_step: "drain_step fail d t = (d', t') \<Longrightarrow> \<not> holds d \<Longrightarrow> \<not> holds d' \<Longrightarrow> t' = t"
  by (cases d) (auto split: if_splits)

lemma world_inv_reset:
  fixes w :: "'a::len word world"
  assumes W: "8 \<le> LENGTH('a)" "LENGTH('a) \<le> 64"
    and inv: "world_inv w" and N: "length (hist w) < 2 ^ 63"
    and st: "drain_step fail (drainers w i) (mem w) = (d, t)"
  shows "world_inv (w\<lparr>mem := t, drainers := (drainers w)(i := d),
                 holder := claimed (drainers w i) d i (holder w),
                 drained := (case drainers w i of DRelease b c s \<Rightarrow> unat b div 2 | _ \<Rightarrow> drained w),
                 outs := outs w @ reported (drainers w i) (drained w)\<rparr>)"
proof -
  have I: "adder_inv (adder w) (mem w) (hist w)" "blockless (mem w) (hist w)"
    "bounded LENGTH('a) (hist w)" "drained w \<le> length (hist w)"
    "\<forall>j. holds (drainers w j) \<longleftrightarrow> holder w = Some j" 
    "windows 0 (outs w) (drained w)" "\<forall>r \<in> set (outs w). exact (hist w) r"
    and L: "lastSeq (mem w) = (if holder w = None then seqw (drained w) else seqw (drained w) OR kInFlight)"
    and H: "case holder w of None \<Rightarrow> based (mem w) (drained w) (hist w)
      | Some i \<Rightarrow> drain_inv (drainers w i) (mem w) (hist w) (drained w)"
    using inv by (simp_all add: world_inv_def)
  have same: "same_totals (mem w) t" by (rule drain_step_totals[OF st])
  have A: "adder_inv (adder w) t (hist w)" using adder_inv_same[OF same] I(1) by metis
  have B: "blockless t (hist w)" using I(2) same unfolding blockless_def same_totals_def by metis
  note A = A B
  show ?thesis
  proof (cases "holds (drainers w i)")
    case True
    then have h: "holder w = Some i" using I(5) by simp
    with H have D: "drain_inv (drainers w i) (mem w) (hist w) (drained w)" by simp
    show ?thesis
    proof (cases "\<exists>b c s. drainers w i = DRelease b c s")
      case True
      then obtain b c s where p: "drainers w i = DRelease b c s" by blast
      with D obtain n where n: "b = seqw n" "drained w \<le> n" "n \<le> length (hist w)"
        "based (mem w) n (hist w)" "exact (hist w) (drained w, n, c, s)" by (auto simp: snap_at_def)
      have u: "unat b div 2 = n" using n N by (simp add: unat_seqw)
      have "based t n (hist w)" using st p n(4) by (auto simp: based_def)
      then show ?thesis using st p n u A I h windows_snoc[OF I(6) n(2)]
        by (auto simp: world_inv_def claimed_def reported_def)
    next
      case False
      then have r: "reported (drainers w i) (drained w) = []"
        "(case drainers w i of DRelease b c s \<Rightarrow> unat b div 2 | _ \<Rightarrow> drained w) = drained w"
        by (auto simp: reported_def split: dpc.splits)
      have c: "claimed (drainers w i) d i (holder w) = holder w"
        using True False by (auto simp: claimed_def split: dpc.splits)
      have "drain_inv d t (hist w) (drained w) \<and> holds d \<and> lastSeq t = lastSeq (mem w)"
        using False by (intro drain_step_inv[OF W N I(3,1,2,4) D True _ st]) auto
      then show ?thesis unfolding r c using A I L h by (simp add: world_inv_def)
    qed
  next
    case False
    then have h: "holder w \<noteq> Some i" using I(5) by simp
    have r: "reported (drainers w i) (drained w) = []"
        "(case drainers w i of DRelease b c s \<Rightarrow> unat b div 2 | _ \<Rightarrow> drained w) = drained w"
      using False by (auto simp: reported_def split: dpc.splits)
    show ?thesis
    proof (cases "holds d")
      case True
      with st False obtain prev where p: "drainers w i = DTry prev" "prev AND kInFlight = 0"
        "lastSeq (mem w) = prev" "d = DClaimed prev" "t = (mem w)\<lparr>lastSeq := prev OR kInFlight\<rparr>"
        using claim_step by blast
      have hn: "holder w = None" using p(2,3) L seqw_and(3)[of "drained w"] by metis
      with L p(3) have "prev = seqw (drained w)" by simp
      moreover have "based t (drained w) (hist w)" using H hn p(5) by (simp add: based_def)
      moreover have "claimed (drainers w i) d i (holder w) = Some i" using p by (simp add: claimed_def)
      moreover have "lastSeq t = prev OR kInFlight" using p(5) by simp
      ultimately show ?thesis unfolding r using A I(3-7) hn p(4)
        by (simp add: world_inv_def)
    next
      case dn: False
      with st False have t: "t = mem w" using idle_step by blast
      have c: "claimed (drainers w i) d i (holder w) = holder w"
        using False dn by (auto simp: claimed_def split: dpc.splits)
      show ?thesis unfolding r c t using A I L H h dn
        by (auto simp: world_inv_def t split: option.splits)
    qed
  qed
qed

lemma world_inv_step:
  fixes w :: "'a::len word world"
  assumes W: "8 \<le> LENGTH('a)" "LENGTH('a) \<le> 64"
    and st: "sl_step w w'" and inv: "world_inv w" and N: "Suc (length (hist w)) < 2 ^ 63"
  shows "world_inv w'"
  using st
proof cases
  case (call_add ok v k a t)
  have a: "adder_inv (adder w) (mem w) (hist w)" and b: "blockless (mem w) (hist w)"
    and c: "bounded LENGTH('a) (hist w)" using inv by (simp_all add: world_inv_def)
  have "blockless t (hist w)" using b call_add(3)
    by (auto simp: blockless_def add_begin_def makeSurplus_def Let_def split: if_splits)
  then show ?thesis
    using world_inv_adder[OF inv, of a t "[]"] add_begin_inv[OF a[unfolded call_add(2)] call_add(3)]
      add_begin_undisturbed[OF call_add(3)] c by (simp add: call_add(1))
next
  case (run_add a t)
  have a: "adder_inv (adder w) (mem w) (hist w)" and b: "blockless (mem w) (hist w)"
    and c: "bounded LENGTH('a) (hist w)" using inv by (simp_all add: world_inv_def)
  have "bounded LENGTH('a) (hist w @ published (adder w))"
    using c published_bounded[of "adder w"] by (auto simp: bounded_def)
  then show ?thesis unfolding run_add(1)
    by (rule world_inv_adder[OF inv adder_step_inv[OF a run_add(2)] adder_step_blockless[OF a b run_add(2)]
          _ adder_step_undisturbed[OF a run_add(2) N]])
next
  case (run_reset fail i d t)
  show ?thesis
    unfolding run_reset(1) by (rule world_inv_reset[OF W inv _ run_reset(2)]) (use N in simp)
next
  case (recall_reset i c s)
  have "holder w \<noteq> Some i" using inv recall_reset(2) unfolding world_inv_def by (metis holds.simps(5))
  then show ?thesis using inv recall_reset
    by (auto simp: world_inv_def split: option.splits)
qed


lemma hist_grows: "sl_step w w' \<Longrightarrow> length (hist w) \<le> length (hist w')"
  by (induction rule: sl_step.induct) simp_all

lemma reach_inv:
  fixes w :: "'a::len word world"
  assumes "sl_reach w" "8 \<le> LENGTH('a)" "LENGTH('a) \<le> 64" "Suc (length (hist w)) < 2 ^ 63"
  shows "world_inv w"
  using assms(1,4)
proof induction
  case start
  show ?case by (rule world_inv_start)
next
  case (step w w')
  then have "Suc (length (hist w)) < 2 ^ 63" using hist_grows[OF step(2)] by linarith
  with step show ?case using world_inv_step[OF assms(2,3) step(2)] by blast
qed


section \<open>Results\<close>

lemma snapshot_eta: "\<lparr>lo = lo p, hi = hi p\<rparr> = (p :: 'w snapshot)"
  by simp

text \<open>A schedule: which thread runs next.\<close>

datatype 'w action = CallAdd bool 'w 'w | RunAdd | RunReset bool nat

definition sl_exec :: "'a::len word action \<Rightarrow> 'a word world \<Rightarrow> 'a word world" where
  "sl_exec x w =
     (case x of
        CallAdd ok v k \<Rightarrow>
          (if adder w = AIdle
           then (let (a, t) = add_begin ok v k (mem w) in w\<lparr>mem := t, adder := a\<rparr>) else w)
      | RunAdd \<Rightarrow>
          (let (a, t) = adder_step (adder w) (mem w)
           in w\<lparr>mem := t, adder := a, hist := hist w @ published (adder w)\<rparr>)
      | RunReset fail i \<Rightarrow>
          (let (d, t) = drain_step fail (drainers w i) (mem w)
           in w\<lparr>mem := t, drainers := (drainers w)(i := d),
                 holder := claimed (drainers w i) d i (holder w),
                 drained := (case drainers w i of DRelease b c s \<Rightarrow> unat b div 2 | _ \<Rightarrow> drained w),
                 outs := outs w @ reported (drainers w i) (drained w)\<rparr>))"

lemma sl_exec_reach: "sl_reach w \<Longrightarrow> sl_reach (fold sl_exec xs w)"
proof (induction xs arbitrary: w)
  case (Cons x xs)
  have "sl_exec x w = w \<or> sl_step w (sl_exec x w)"
    by (cases x) (auto simp: sl_exec_def split: prod.splits intro: sl_step.intros)
  with Cons show ?case by (auto intro: sl_reach.step)
qed simp

definition schedule :: "8 word action list" where
  "schedule = [CallAdd True 100 3, RunAdd, RunReset False 0, RunAdd, RunReset False 0, RunReset False 0,
     RunReset False 0, RunReset False 0, RunReset False 0, RunAdd, RunAdd, RunAdd] @
     replicate 10 (RunReset False 0)"

fun adder_run :: "nat \<Rightarrow> 'a::len word apc \<times> 'a word series \<Rightarrow> 'a word apc \<times> 'a word series" where
  "adder_run 0 p = p"
| "adder_run (Suc n) p = adder_run n (adder_step (fst p) (snd p))"

fun drain_run :: "nat \<Rightarrow> 'a::len word dpc \<times> 'a word series \<Rightarrow> 'a word dpc \<times> 'a word series" where
  "drain_run 0 p = p"
| "drain_run (Suc n) p = drain_run n (drain_step False (fst p) (snd p))"

lemma schedule_outs:
  shows "outs (fold sl_exec schedule world0) = [(0, 1, 3, 100)]" "hist (fold sl_exec schedule world0) = [(3, 100)]"
    "length (hist (fold sl_exec (take 8 schedule) world0)) = 0"
    "holds (drainers (fold sl_exec (take 8 schedule) world0) 0)"
    "drained (fold sl_exec schedule world0) = 1"
  by code_simp+

text \<open>
  C1: Nothing is lost, double counted or torn. In every interleaving of the adder with any number of
  concurrent \<open>reset\<close> calls, the windows reported are consecutive segments of the sequence of
  published updates, starting at the first one, and every reported pair is the exact count and sum of
  its segment, clamped once to the signed type.
\<close>
theorem seqlock_windows_exact:
  fixes w :: "'a::len word world"
  assumes "sl_reach w" "8 \<le> LENGTH('a)" "LENGTH('a) \<le> 64" "length (hist w) < 2 ^ 63 - 1"
  shows "windows 0 (outs w) (drained w) \<and> drained w \<le> length (hist w) \<and>
         (\<forall>r \<in> set (outs w). exact (hist w) r)"
  using reach_inv[OF assms(1-3)] assms(4) by (simp add: world_inv_def)

theorem seqlock_windows_exact_witness:
  "windows 0 [(0, 1, 3 :: 8 word, 100)] 1 \<and> exact [(3, 100)] (0, 1, 3 :: 8 word, 100)"
  using seqlock_windows_exact[OF sl_exec_reach[OF sl_reach.start], of schedule]
  by (simp add: schedule_outs)

text \<open>
  The claim bit of \<open>lastSeq_\<close> is a mutual exclusion: in every reachable state at most one thread is
  between taking and releasing the claim, and \<open>lastSeq_\<close> is odd exactly while there is one.
\<close>
theorem drain_claim_exclusive:
  fixes w :: "'a::len word world"
  assumes "sl_reach w" "8 \<le> LENGTH('a)" "LENGTH('a) \<le> 64" "length (hist w) < 2 ^ 63 - 1"
  shows "(holds (drainers w i) \<and> holds (drainers w j) \<longrightarrow> i = j) \<and>
         ((\<exists>i. holds (drainers w i)) \<longleftrightarrow> lastSeq (mem w) AND kInFlight \<noteq> 0)"
proof -
  have "world_inv w" using reach_inv[OF assms(1-3)] assms(4) by simp
  then have "\<forall>i. holds (drainers w i) \<longleftrightarrow> holder w = Some i"
    and "lastSeq (mem w) = (if holder w = None then seqw (drained w) else seqw (drained w) OR kInFlight)"
    by (simp_all add: world_inv_def)
  moreover have "kInFlight \<noteq> 0" by (simp add: kInFlight_def)
  ultimately show ?thesis by (cases "holder w") simp_all
qed

theorem drain_claim_exclusive_witness:
  "\<not> holds (drainers (fold sl_exec (take 8 schedule) world0) 1) \<and>
   lastSeq (mem (fold sl_exec (take 8 schedule) world0)) AND kInFlight \<noteq> 0"
  using drain_claim_exclusive[OF sl_exec_reach[OF sl_reach.start], of "take 8 schedule" 0 1]
    schedule_outs(3,4) by auto




end
