(* ===== verification/TLStats.thy ===== *)
theory TLStats
  imports LockTraits
begin

unbundle bit_operations_syntax

text \<open>
  Registration and aggregation of thread-local stats: \<open>TLStatLinkPtr\<close>, \<open>TLStatLink\<close>, \<open>TLStatT\<close> and
  \<open>ThreadLocalStatsT\<close> of \<^verbatim>\<open>fb303/ThreadLocalStats.h\<close> and \<^verbatim>\<open>fb303/ThreadLocalStats-inl.h\<close>. The heap holds
  the link objects by address and the stats by identity; an operation is one call, with the outcome of
  its \<open>try_lock\<close> as an argument. A stat's payload is abstract here, its virtual \<open>aggregate\<close> is the
  parameter \<open>agg\<close> of the operations that call it, and the payloads of \<open>TLCounterT\<close>,
  \<open>TLTimeseriesT\<close> and \<open>TLHistogramT\<close> instantiate it below. The interleavings of the registry are in the
  theory \<open>RegistryRace\<close>.
\<close>

section \<open>TLStatLinkPtr\<close>

type_synonym addr = uint64
type_synonym sid = nat

definition kLinked :: uint64 where
  "kLinked = 1"

definition lp_get :: "uint64 \<Rightarrow> addr" where
  "lp_get p = p AND NOT kLinked"

definition isLinked :: "uint64 \<Rightarrow> bool" where
  "isLinked p \<longleftrightarrow> p AND kLinked \<noteq> 0"

definition setLinked :: "bool \<Rightarrow> uint64 \<Rightarrow> uint64" where
  "setLinked linked p = (if linked then p OR kLinked else p AND NOT kLinked)"

section \<open>The heap\<close>

text \<open>
  A \<open>TLStatLink\<close> with the container it points to: \<open>container\<close> says whether \<open>container_\<close> is non-null, and
  \<open>tlStats\<close>, \<open>linkPending\<close> and \<open>tlStatsEmpty\<close> are the fields of that container.
\<close>

record link_obj =
  refCount :: nat
  container :: bool
  updateGlobalStatsOnRead :: bool
  tlStats :: "sid list"
  linkPending :: "sid list"
  tlStatsEmpty :: bool

record 'p tlstat =
  link_ptr :: uint64
  stat_name :: name
  payload :: 'p

record ('p, 'g) heap =
  links :: "addr \<rightharpoonup> link_obj"
  stats :: "sid \<rightharpoonup> 'p tlstat"
  globals :: 'g

type_synonym ('p, 'g) agg_fn = "bool \<Rightarrow> name \<Rightarrow> 'p \<Rightarrow> 'g \<Rightarrow> 'p \<times> 'g"

text \<open>\<open>UseAfterFree\<close> is a dereference of a link or stat that is not there.\<close>

datatype tl_error = UseAfterFree | CheckTwice | CheckNotRegistered | ContainerDestroyed name

type_synonym ('p, 'g) result = "tl_error + ('p, 'g) heap"

definition get_link :: "addr \<Rightarrow> ('p, 'g) heap \<Rightarrow> tl_error + link_obj" where
  "get_link a h = (case links h a of None \<Rightarrow> Inl UseAfterFree | Some l \<Rightarrow> Inr l)"

definition get_stat :: "sid \<Rightarrow> ('p, 'g) heap \<Rightarrow> tl_error + 'p tlstat" where
  "get_stat s h = (case stats h s of None \<Rightarrow> Inl UseAfterFree | Some x \<Rightarrow> Inr x)"

definition bindE :: "'e + 'a \<Rightarrow> ('a \<Rightarrow> 'e + 'b) \<Rightarrow> 'e + 'b" where
  "bindE m f = (case m of Inl e \<Rightarrow> Inl e | Inr x \<Rightarrow> f x)"

definition put_link :: "addr \<Rightarrow> link_obj \<Rightarrow> ('p, 'g) heap \<Rightarrow> ('p, 'g) heap" where
  "put_link a l h = h\<lparr>links := (links h)(a \<mapsto> l)\<rparr>"

definition put_stat :: "sid \<Rightarrow> 'p tlstat \<Rightarrow> ('p, 'g) heap \<Rightarrow> ('p, 'g) heap" where
  "put_stat s x h = h\<lparr>stats := (stats h)(s \<mapsto> x)\<rparr>"

section \<open>TLStatLink\<close>

definition incRef :: "addr \<Rightarrow> ('p, 'g) heap \<Rightarrow> ('p, 'g) result" where
  "incRef a h = bindE (get_link a h) (\<lambda>l. Inr (put_link a (l\<lparr>refCount := refCount l + 1\<rparr>) h))"

definition decRef :: "addr \<Rightarrow> ('p, 'g) heap \<Rightarrow> ('p, 'g) result" where
  "decRef a h = bindE (get_link a h) (\<lambda>l.
     if refCount l = 1 then Inr (h\<lparr>links := (links h)(a := None)\<rparr>)
     else Inr (put_link a (l\<lparr>refCount := refCount l - 1\<rparr>) h))"

text \<open>The loop of \<open>completePendingLink\<close> over the list it has swapped out.\<close>

fun insert_pending :: "sid list \<Rightarrow> link_obj \<Rightarrow> tl_error + link_obj" where
  "insert_pending [] l = Inr l"
| "insert_pending (s # rest) l =
     (if s \<in> set (tlStats l) then Inl CheckTwice
      else insert_pending rest
             (l\<lparr>tlStats := tlStats l @ [s],
                tlStatsEmpty := (if length (tlStats l @ [s]) = 1 then False else tlStatsEmpty l)\<rparr>))"

definition completePendingLink :: "link_obj \<Rightarrow> tl_error + link_obj" where
  "completePendingLink l = insert_pending (linkPending l) (l\<lparr>linkPending := []\<rparr>)"

definition link_lock :: "link_obj \<Rightarrow> tl_error + link_obj" where
  "link_lock l = (if container l then completePendingLink l else Inr l)"

section \<open>TLStatT\<close>

text \<open>\<open>got\<close> is the outcome of \<open>try_lock\<close>.\<close>

definition push_pending :: "sid \<Rightarrow> link_obj \<Rightarrow> link_obj" where
  "push_pending s l =
     (let p = linkPending l @ [s]
      in l\<lparr>linkPending := p, tlStatsEmpty := (if length p = 1 then False else tlStatsEmpty l)\<rparr>)"

definition register_stat :: "sid \<Rightarrow> link_obj \<Rightarrow> tl_error + link_obj" where
  "register_stat s l =
     (if s \<in> set (tlStats l) then Inl CheckTwice
      else Inr (l\<lparr>tlStats := tlStats l @ [s],
                  tlStatsEmpty := (if length (tlStats l @ [s]) = 1 then False else tlStatsEmpty l)\<rparr>))"

definition set_linked :: "bool \<Rightarrow> sid \<Rightarrow> ('p, 'g) heap \<Rightarrow> ('p, 'g) result" where
  "set_linked b s h = bindE (get_stat s h) (\<lambda>x. Inr (put_stat s (x\<lparr>link_ptr := setLinked b (link_ptr x)\<rparr>) h))"

definition link :: "bool \<Rightarrow> sid \<Rightarrow> ('p, 'g) heap \<Rightarrow> ('p, 'g) result" where
  "link got s h = bindE (get_stat s h) (\<lambda>x.
     if isLinked (link_ptr x) then Inr h
     else
       (let a = lp_get (link_ptr x) in
        bindE (get_link a h) (\<lambda>l.
          if \<not> got then
            set_linked True s (if container l then put_link a (push_pending s l) h else h)
          else
            bindE (link_lock l) (\<lambda>l1.
              if container l1
              then bindE (register_stat s l1) (\<lambda>l2. set_linked True s (put_link a l2 h))
              else set_linked True s (put_link a l1 h)))))"

definition agg_stat :: "('p, 'g) agg_fn \<Rightarrow> sid \<Rightarrow> ('p, 'g) heap \<Rightarrow> ('p, 'g) result" where
  "agg_stat agg s h = bindE (get_stat s h) (\<lambda>x.
     bindE (get_link (lp_get (link_ptr x)) h) (\<lambda>l.
       let (p, g) = agg (updateGlobalStatsOnRead l) (stat_name x) (payload x) (globals h)
       in Inr ((put_stat s (x\<lparr>payload := p\<rparr>) h)\<lparr>globals := g\<rparr>)))"

definition unregister_stat :: "sid \<Rightarrow> link_obj \<Rightarrow> tl_error + link_obj" where
  "unregister_stat s l =
     (if s \<notin> set (tlStats l) then Inl CheckNotRegistered
      else let t = filter (\<lambda>x. x \<noteq> s) (tlStats l)
           in Inr (l\<lparr>tlStats := t, tlStatsEmpty := (if length t = 0 then True else tlStatsEmpty l)\<rparr>))"

definition unlink :: "('p, 'g) agg_fn \<Rightarrow> sid \<Rightarrow> ('p, 'g) heap \<Rightarrow> ('p, 'g) result" where
  "unlink agg s h = bindE (get_stat s h) (\<lambda>x.
     if \<not> isLinked (link_ptr x) then Inr h
     else
       bindE (agg_stat agg s h) (\<lambda>h1.
         (let a = lp_get (link_ptr x) in
          bindE (get_link a h1) (\<lambda>l.
            bindE (link_lock l) (\<lambda>l1.
              if container l1
              then bindE (unregister_stat s l1) (\<lambda>l2. set_linked False s (put_link a l2 h1))
              else set_linked False s (put_link a l1 h1))))))"

text \<open>
  Construction of a stat of the container whose link is at \<open>a\<close>, with its \<open>postInit\<close>; destruction, which
  is \<open>preDestroy\<close> followed by the destructor of the link pointer.
\<close>

definition new_stat :: "bool \<Rightarrow> sid \<Rightarrow> addr \<Rightarrow> name \<Rightarrow> 'p \<Rightarrow> ('p, 'g) heap \<Rightarrow> ('p, 'g) result" where
  "new_stat got s a n p h =
     bindE (incRef a h) (\<lambda>h1.
       link got s (put_stat s \<lparr>link_ptr = a AND NOT kLinked, stat_name = n, payload = p\<rparr> h1))"

definition destroy_stat :: "('p, 'g) agg_fn \<Rightarrow> sid \<Rightarrow> ('p, 'g) heap \<Rightarrow> ('p, 'g) result" where
  "destroy_stat agg s h =
     bindE (unlink agg s h) (\<lambda>h1.
       bindE (get_stat s h1) (\<lambda>x.
         bindE (decRef (lp_get (link_ptr x)) h1) (\<lambda>h2. Inr (h2\<lparr>stats := (stats h2)(s := None)\<rparr>))))"

text \<open>
  Move construction of \<open>s\<close> from \<open>other\<close>; \<open>mv\<close> is the member initialisers of the subclass, from the
  payload of the moved-from stat to the payloads of both.
\<close>

definition move_construct ::
  "('p, 'g) agg_fn \<Rightarrow> ('p \<Rightarrow> 'p \<times> 'p) \<Rightarrow> bool \<Rightarrow> sid \<Rightarrow> sid \<Rightarrow> ('p, 'g) heap \<Rightarrow> ('p, 'g) result" where
  "move_construct agg mv got s other h =
     bindE (get_stat other h) (\<lambda>x.
       bindE (incRef (lp_get (link_ptr x)) h) (\<lambda>h1.
         bindE (unlink agg other h1) (\<lambda>h2.
           bindE (get_stat other h2) (\<lambda>y.
             let (p, q) = mv (payload y) in
             link got s
               (put_stat s \<lparr>link_ptr = link_ptr x AND NOT kLinked, stat_name = stat_name y, payload = p\<rparr>
                  (put_stat other (y\<lparr>stat_name := [], payload := q\<rparr>) h2))))))"

definition replaceFromOther :: "sid \<Rightarrow> sid \<Rightarrow> ('p, 'g) heap \<Rightarrow> ('p, 'g) result" where
  "replaceFromOther s other h =
     bindE (get_stat s h) (\<lambda>x. bindE (get_stat other h) (\<lambda>y.
       bindE (decRef (lp_get (link_ptr x)) h) (\<lambda>h1.
         incRef (lp_get (link_ptr y AND NOT kLinked))
           (put_stat s (x\<lparr>link_ptr := link_ptr y AND NOT kLinked\<rparr>) h1))))"

text \<open>\<open>moveAssignment\<close>; \<open>mv\<close> is the lambda \<open>moveContents\<close> on the two payloads.\<close>

definition moveAssignment ::
  "('p, 'g) agg_fn \<Rightarrow> ('p \<Rightarrow> 'p \<Rightarrow> 'p \<times> 'p) \<Rightarrow> bool \<Rightarrow> sid \<Rightarrow> sid \<Rightarrow> ('p, 'g) heap \<Rightarrow> ('p, 'g) result" where
  "moveAssignment agg mv got s other h =
     (if other = s then Inr h
      else
        bindE (unlink agg s h) (\<lambda>h1.
          bindE (unlink agg other h1) (\<lambda>h2.
            bindE (replaceFromOther s other h2) (\<lambda>h3.
              bindE (get_stat s h3) (\<lambda>x. bindE (get_stat other h3) (\<lambda>y.
                let (p, q) = mv (payload x) (payload y) in
                link got s
                  (put_stat other (y\<lparr>stat_name := [], payload := q\<rparr>)
                    (put_stat s (x\<lparr>stat_name := stat_name y, payload := p\<rparr>) h3))))))))"

definition withContainerChecked ::
  "sid \<Rightarrow> ('p, 'g) heap \<Rightarrow> ('p, 'g) result" where
  "withContainerChecked s h =
     bindE (get_stat s h) (\<lambda>x.
       let a = lp_get (link_ptr x) in
       bindE (get_link a h) (\<lambda>l.
         bindE (link_lock l) (\<lambda>l1.
           if \<not> container l1 then Inl (ContainerDestroyed (stat_name x)) else Inr (put_link a l1 h))))"

section \<open>ThreadLocalStatsT\<close>

definition new_container :: "bool \<Rightarrow> addr \<Rightarrow> ('p, 'g) heap \<Rightarrow> ('p, 'g) heap" where
  "new_container upd a h =
     put_link a \<lparr>refCount = 1, container = True, updateGlobalStatsOnRead = upd, tlStats = [],
                 linkPending = [], tlStatsEmpty = True\<rparr> h"

definition destroy_container :: "addr \<Rightarrow> ('p, 'g) heap \<Rightarrow> ('p, 'g) result" where
  "destroy_container a h =
     bindE (get_link a h) (\<lambda>l.
       bindE (link_lock l) (\<lambda>l1.
         decRef a (put_link a (l1\<lparr>container := False, tlStats := [], tlStatsEmpty := True\<rparr>) h)))"

fun agg_all :: "('p, 'g) agg_fn \<Rightarrow> sid list \<Rightarrow> ('p, 'g) heap \<Rightarrow> ('p, 'g) result" where
  "agg_all agg [] h = Inr h"
| "agg_all agg (s # ss) h = bindE (agg_stat agg s h) (agg_all agg ss)"

definition aggregate :: "('p, 'g) agg_fn \<Rightarrow> addr \<Rightarrow> ('p, 'g) heap \<Rightarrow> tl_error + (nat \<times> ('p, 'g) heap)" where
  "aggregate agg a h =
     bindE (get_link a h) (\<lambda>l.
       if tlStatsEmpty l then Inr (0, h)
       else
         bindE (link_lock l) (\<lambda>l1.
           bindE (agg_all agg (tlStats l1) (put_link a l1 h)) (\<lambda>h2. Inr (length (tlStats l1), h2))))"

section \<open>The tagged pointer\<close>

lemma isLinked_bit: "isLinked p \<longleftrightarrow> bit p 0"
proof -
  have "bit (p AND kLinked) n \<longleftrightarrow> bit p 0 \<and> n = 0" for n
    by (auto simp: kLinked_def bit_simps)
  then show ?thesis unfolding isLinked_def by (metis bit_0_eq bot_apply bot_bool_def bit_eqI)
qed

lemma linkptr_simps [simp]:
  "lp_get (setLinked b p) = lp_get p" "isLinked (setLinked b p) = b"
  "lp_get (p AND NOT kLinked) = lp_get p" "\<not> isLinked (p AND NOT kLinked)" "lp_get (lp_get p) = lp_get p"
  "\<not> bit (lp_get p) 0"
  by (auto simp: isLinked_bit lp_get_def setLinked_def kLinked_def bit_simps intro!: bit_word_eqI)

lemma lp_get_aligned [simp]: "\<not> bit a 0 \<Longrightarrow> lp_get a = a"
  by (auto simp: lp_get_def kLinked_def bit_simps intro!: bit_word_eqI gr0I)

lemma bindE_simps [simp]: "bindE (Inr x) f = f x" "bindE (Inl e) f = Inl e"
  by (simp_all add: bindE_def)

lemma bindE_Inr_iff: "bindE m f = Inr y \<longleftrightarrow> (\<exists>x. m = Inr x \<and> f x = Inr y)"
  by (cases m) simp_all

lemma get_simps [simp]:
  "links h a = Some l \<Longrightarrow> get_link a h = Inr l" "stats h s = Some x \<Longrightarrow> get_stat s h = Inr x"
  by (simp_all add: get_link_def get_stat_def)

lemma put_simps [simp]:
  "links (put_link a l h) = (links h)(a \<mapsto> l)" "stats (put_link a l h) = stats h"
  "globals (put_link a l h) = globals h"
  "links (put_stat s x h) = links h" "stats (put_stat s x h) = (stats h)(s \<mapsto> x)"
  "globals (put_stat s x h) = globals h"
  by (simp_all add: put_link_def put_stat_def)

section \<open>Well-formed heaps\<close>

definition link_ok :: "link_obj \<Rightarrow> bool" where
  "link_ok l \<longleftrightarrow> distinct (tlStats l @ linkPending l) \<and>
     (tlStatsEmpty l \<longleftrightarrow> tlStats l @ linkPending l = []) \<and>
     (\<not> container l \<longrightarrow> tlStats l @ linkPending l = [])"

definition refs :: "('p, 'g) heap \<Rightarrow> addr \<Rightarrow> sid set" where
  "refs h a = {s. \<exists>x. stats h s = Some x \<and> lp_get (link_ptr x) = a}"

definition regd :: "('p, 'g) heap \<Rightarrow> addr \<Rightarrow> sid set" where
  "regd h a = {s. \<exists>x. stats h s = Some x \<and> lp_get (link_ptr x) = a \<and> isLinked (link_ptr x)}"

definition link_wf :: "('p, 'g) heap \<Rightarrow> addr \<Rightarrow> link_obj \<Rightarrow> bool" where
  "link_wf h a l \<longleftrightarrow> link_ok l \<and> \<not> bit a 0 \<and> 0 < refCount l \<and>
     refCount l = card (refs h a) + (if container l then 1 else 0) \<and>
     (container l \<longrightarrow> set (tlStats l @ linkPending l) = regd h a)"

definition heap_wf :: "('p, 'g) heap \<Rightarrow> bool" where
  "heap_wf h \<longleftrightarrow> finite (dom (stats h)) \<and> (\<forall>a l. links h a = Some l \<longrightarrow> link_wf h a l) \<and>
     (\<forall>s x. stats h s = Some x \<longrightarrow> links h (lp_get (link_ptr x)) \<noteq> None)"

definition locked :: "link_obj \<Rightarrow> link_obj" where
  "locked l = l\<lparr>tlStats := tlStats l @ linkPending l, linkPending := []\<rparr>"

lemma insert_pending_ok:
  "distinct (tlStats l @ ps) \<Longrightarrow>
   insert_pending ps l = Inr (l\<lparr>tlStats := tlStats l @ ps,
     tlStatsEmpty := (if tlStats l = [] \<and> ps \<noteq> [] then False else tlStatsEmpty l)\<rparr>)"
proof (induction ps arbitrary: l)
  case (Cons s ps)
  then show ?case using Cons.IH[of "l\<lparr>tlStats := tlStats l @ [s],
                tlStatsEmpty := (if length (tlStats l @ [s]) = 1 then False else tlStatsEmpty l)\<rparr>"]
    by auto
qed simp

lemma link_lock_ok: "link_ok l \<Longrightarrow> link_lock l = Inr (locked l)"
  by (auto simp: link_lock_def completePendingLink_def insert_pending_ok locked_def link_ok_def)

lemma locked_ok [simp]: "link_ok (locked l) = link_ok l" "container (locked l) = container l"
  "refCount (locked l) = refCount l" "set (tlStats (locked l)) = set (tlStats l @ linkPending l)"
  "linkPending (locked l) = []"
  "updateGlobalStatsOnRead (locked l) = updateGlobalStatsOnRead l"
  by (simp_all add: link_ok_def locked_def)

text \<open>Replacing one stat's record and its link.\<close>

lemma refs_upd: "refs (put_stat s x h) a = (if lp_get (link_ptr x) = a then insert s (refs h a) else refs h a - {s})"
  by (auto simp: refs_def)

lemma regd_upd: "regd (put_stat s x h) a =
  (if lp_get (link_ptr x) = a \<and> isLinked (link_ptr x) then insert s (regd h a) else regd h a - {s})"
  by (auto simp: regd_def)

lemma refs_link [simp]: "refs (put_link a l h) = refs h" "regd (put_link a l h) = regd h"
  by (auto simp: refs_def regd_def fun_eq_iff)

lemma link_wf_cong: "refs h' a = refs h a \<Longrightarrow> regd h' a = regd h a \<Longrightarrow> link_wf h' a l = link_wf h a l"
  by (simp add: link_wf_def)

text \<open>Changing the tag of a stat together with the registry of its link.\<close>

lemma heap_wf_relink:
  assumes wf: "heap_wf h" and x: "stats h s = Some x" and l: "links h (lp_get (link_ptr x)) = Some l"
    and x': "lp_get (link_ptr x') = lp_get (link_ptr x)"
    and l': "link_ok l'" "refCount l' = refCount l" "container l' = container l"
    and reg: "container l \<Longrightarrow> set (tlStats l' @ linkPending l') =
      (if isLinked (link_ptr x') then insert s (regd h (lp_get (link_ptr x)))
       else regd h (lp_get (link_ptr x)) - {s})"
  shows "heap_wf (put_stat s x' (put_link (lp_get (link_ptr x)) l' h))"
proof -
  let ?a = "lp_get (link_ptr x)" and ?h = "put_stat s x' (put_link (lp_get (link_ptr x)) l' h)"
  have r: "refs ?h b = refs h b" for b using x x' by (auto simp: refs_upd) (auto simp: refs_def)
  have g: "b \<noteq> ?a \<Longrightarrow> regd ?h b = regd h b" for b using x x' by (auto simp: regd_upd) (auto simp: regd_def)
  have wl: "link_wf h ?a l" using wf l by (simp add: heap_wf_def)
  have "link_wf ?h ?a l'" using wl l' reg x' r by (auto simp: link_wf_def regd_upd)
  moreover have "b \<noteq> ?a \<Longrightarrow> links h b = Some k \<Longrightarrow> link_wf ?h b k" for b k
    using wf by (simp add: heap_wf_def link_wf_cong[OF r g])
  ultimately show ?thesis using wf x' by (auto simp: heap_wf_def)
qed


text \<open>What a client sees of the stats: link, registration, name and payload.\<close>

definition view :: "('p, 'g) heap \<Rightarrow> sid \<rightharpoonup> addr \<times> bool \<times> name \<times> 'p" where
  "view h s = map_option (\<lambda>x. (lp_get (link_ptr x), isLinked (link_ptr x), stat_name x, payload x)) (stats h s)"

lemma view_simps [simp]:
  "view (put_link a l h) = view h" "view (h\<lparr>globals := g\<rparr>) = view h"
  "view (put_stat s x h) = (view h)(s \<mapsto> (lp_get (link_ptr x), isLinked (link_ptr x), stat_name x, payload x))"
  "stats h s = Some x \<Longrightarrow> view h s = Some (lp_get (link_ptr x), isLinked (link_ptr x), stat_name x, payload x)"
  "view h s = None \<longleftrightarrow> stats h s = None"
  by (auto simp: view_def fun_eq_iff)

lemma view_Some: "view h s = Some (a, b, n, p) \<Longrightarrow>
  \<exists>x. stats h s = Some x \<and> lp_get (link_ptr x) = a \<and> isLinked (link_ptr x) = b \<and> stat_name x = n \<and> payload x = p"
  by (auto simp: view_def)

lemma set_linked_put:
  "stats h s = Some x \<Longrightarrow> set_linked b s (put_link a l h) =
     Inr (put_stat s (x\<lparr>link_ptr := setLinked b (link_ptr x)\<rparr>) (put_link a l h))"
  by (simp add: set_linked_def)

lemma put_link_same: "links h a = Some l \<Longrightarrow> put_link a l h = h"
  by (simp add: put_link_def map_upd_triv)

lemma push_pending_ok:
  assumes "link_ok l" "container l" "s \<notin> set (tlStats l @ linkPending l)"
  shows "link_ok (push_pending s l)" "refCount (push_pending s l) = refCount l"
    "container (push_pending s l) = container l"
    "set (tlStats (push_pending s l) @ linkPending (push_pending s l)) = insert s (set (tlStats l @ linkPending l))"
  using assms by (auto simp: link_ok_def push_pending_def Let_def)

definition registered :: "sid \<Rightarrow> link_obj \<Rightarrow> link_obj" where
  "registered s l = l\<lparr>tlStats := tlStats l @ [s], tlStatsEmpty := False\<rparr>"

lemma register_stat_ok:
  assumes "link_ok l" "container l" "s \<notin> set (tlStats l)" "linkPending l = []"
  shows "register_stat s l = Inr (registered s l)" "link_ok (registered s l)"
    "refCount (registered s l) = refCount l" "container (registered s l) = container l"
    "set (tlStats (registered s l) @ linkPending (registered s l)) = insert s (set (tlStats l))"
  using assms by (auto simp: link_ok_def register_stat_def registered_def)

definition unregistered :: "sid \<Rightarrow> link_obj \<Rightarrow> link_obj" where
  "unregistered s l = (let t = filter (\<lambda>x. x \<noteq> s) (tlStats l) in l\<lparr>tlStats := t, tlStatsEmpty := (t = [])\<rparr>)"

lemma unregister_stat_ok:
  assumes "link_ok l" "container l" "s \<in> set (tlStats l)" "linkPending l = []"
  shows "unregister_stat s l = Inr (unregistered s l)" "link_ok (unregistered s l)"
    "refCount (unregistered s l) = refCount l" "container (unregistered s l) = container l"
    "set (tlStats (unregistered s l) @ linkPending (unregistered s l)) = set (tlStats l) - {s}"
proof -
  have "\<not> tlStatsEmpty l" using assms by (auto simp: link_ok_def)
  then show "unregister_stat s l = Inr (unregistered s l)"
    using assms by (simp add: unregister_stat_def unregistered_def Let_def)
qed (use assms in \<open>auto simp: link_ok_def unregistered_def Let_def\<close>)

lemma wf_stat_link:
  assumes "heap_wf h" "stats h s = Some x"
  obtains l where "links h (lp_get (link_ptr x)) = Some l" "link_wf h (lp_get (link_ptr x)) l" "link_ok l"
proof -
  obtain l where l: "links h (lp_get (link_ptr x)) = Some l" using assms unfolding heap_wf_def by fastforce
  then have "link_wf h (lp_get (link_ptr x)) l" using assms by (simp add: heap_wf_def)
  moreover from this have "link_ok l" by (simp add: link_wf_def)
  ultimately show thesis using that l by blast
qed

lemma link_safe:
  assumes wf: "heap_wf h" and x: "stats h s = Some x"
  shows "\<exists>h'. link got s h = Inr h' \<and> heap_wf h' \<and> globals h' = globals h \<and>
     view h' = (view h)(s \<mapsto> (lp_get (link_ptr x), True, stat_name x, payload x))"
proof (cases "isLinked (link_ptr x)")
  case True
  with assms show ?thesis by (simp add: link_def map_upd_triv)
next
  case False
  let ?a = "lp_get (link_ptr x)" and ?x = "x\<lparr>link_ptr := setLinked True (link_ptr x)\<rparr>"
  obtain l where l: "links h ?a = Some l" "link_wf h ?a l" "link_ok l" using wf_stat_link[OF wf x] .
  have ns: "container l \<Longrightarrow> s \<notin> set (tlStats l @ linkPending l)"
    using l(2) x False by (auto simp: link_wf_def regd_def)
  have put: "heap_wf (put_stat s ?x (put_link ?a l' h))"
    if "link_ok l'" "refCount l' = refCount l" "container l' = container l"
      "container l \<Longrightarrow> set (tlStats l' @ linkPending l') = insert s (set (tlStats l @ linkPending l))" for l'
    using that l(2) by (intro heap_wf_relink[OF wf x l(1)]) (auto simp: link_wf_def)
  have goal: ?thesis if "link got s h = Inr (put_stat s ?x (put_link ?a l' h))"
    "link_ok l'" "refCount l' = refCount l" "container l' = container l"
      "container l \<Longrightarrow> set (tlStats l' @ linkPending l') = insert s (set (tlStats l @ linkPending l))" for l'
    using that put[OF that(2-5)] by (intro exI[of _ "put_stat s ?x (put_link ?a l' h)"]) simp
  show ?thesis
  proof (cases "container l")
    case c: True
    show ?thesis
    proof (cases got)
      case True
      note R = register_stat_ok[of "locked l" s]
      show ?thesis
        by (rule goal[of "registered s (locked l)"])
          (use x l c True False ns R in \<open>simp_all add: link_def link_lock_ok set_linked_put\<close>)
    next
      case got: False
      note R = push_pending_ok[OF l(3) c ns[OF c]]
      show ?thesis
        by (rule goal[of "push_pending s l"])
          (use x l c got False R in \<open>simp_all add: link_def set_linked_put\<close>)
    qed
  next
    case c: False
    have lk: "locked l = l" using l(3) c by (simp add: link_ok_def locked_def)
    show ?thesis
      by (rule goal[of l])
        (use x l c False lk in \<open>simp_all add: link_def link_lock_ok put_link_same set_linked_def Let_def\<close>)
  qed
qed


lemma heap_wf_payload:
  assumes "heap_wf h" "stats h s = Some x" "link_ptr x' = link_ptr x"
  shows "heap_wf ((put_stat s x' h)\<lparr>globals := g\<rparr>)"
proof -
  let ?h = "(put_stat s x' h)\<lparr>globals := g\<rparr>"
  have "refs ?h a = refs h a" "regd ?h a = regd h a" for a
    using assms(2,3) by (auto simp: refs_def regd_def)
  then have "link_wf ?h a l = link_wf h a l" for a l by (rule link_wf_cong)
  then show ?thesis using assms by (auto simp: heap_wf_def)
qed

lemma agg_stat_ok:
  assumes "heap_wf h" "stats h s = Some x" "links h (lp_get (link_ptr x)) = Some l"
    "agg (updateGlobalStatsOnRead l) (stat_name x) (payload x) (globals h) = (p, g)"
  shows "agg_stat agg s h = Inr ((put_stat s (x\<lparr>payload := p\<rparr>) h)\<lparr>globals := g\<rparr>)"
    and "heap_wf ((put_stat s (x\<lparr>payload := p\<rparr>) h)\<lparr>globals := g\<rparr>)"
  using assms heap_wf_payload[OF assms(1,2), of "x\<lparr>payload := p\<rparr>" g] by (simp_all add: agg_stat_def)

lemma unlink_safe:
  assumes wf: "heap_wf h" and x: "stats h s = Some x"
  shows "\<exists>u h'. unlink agg s h = Inr h' \<and> heap_wf h' \<and>
     (if isLinked (link_ptr x)
      then (let (p, g) = agg u (stat_name x) (payload x) (globals h)
            in view h' = (view h)(s \<mapsto> (lp_get (link_ptr x), False, stat_name x, p)) \<and> globals h' = g)
      else h' = h)"
proof (cases "isLinked (link_ptr x)")
  case False
  with assms show ?thesis by (auto simp: unlink_def)
next
  case True
  let ?a = "lp_get (link_ptr x)"
  obtain l where l: "links h ?a = Some l" "link_wf h ?a l" "link_ok l" using wf_stat_link[OF wf x] .
  obtain p g where pg: "agg (updateGlobalStatsOnRead l) (stat_name x) (payload x) (globals h) = (p, g)"
    by (cases "agg (updateGlobalStatsOnRead l) (stat_name x) (payload x) (globals h)")
  let ?x = "x\<lparr>payload := p\<rparr>" and ?h = "(put_stat s (x\<lparr>payload := p\<rparr>) h)\<lparr>globals := g\<rparr>"
  let ?y = "?x\<lparr>link_ptr := setLinked False (link_ptr x)\<rparr>"
  note A = agg_stat_ok[where agg = agg, OF wf x l(1) pg]
  have x1: "stats ?h s = Some ?x" and l1: "links ?h (lp_get (link_ptr ?x)) = Some l" using l(1) by simp_all
  have wl: "link_wf ?h ?a l" using A(2) l1 by (auto simp: heap_wf_def)
  have put: "heap_wf (put_stat s ?y (put_link ?a l' ?h))"
    if "link_ok l'" "refCount l' = refCount l" "container l' = container l"
      "container l \<Longrightarrow> set (tlStats l' @ linkPending l') = set (tlStats l @ linkPending l) - {s}" for l'
    using that wl heap_wf_relink[OF A(2) x1 l1, of ?y l'] by (auto simp: link_wf_def)
  have goal: ?thesis if "unlink agg s h = Inr (put_stat s ?y (put_link ?a l' ?h))"
    "link_ok l'" "refCount l' = refCount l" "container l' = container l"
      "container l \<Longrightarrow> set (tlStats l' @ linkPending l') = set (tlStats l @ linkPending l) - {s}" for l'
    using that put[OF that(2-5)] A(1) True pg
    by (intro exI[of _ "updateGlobalStatsOnRead l"] exI[of _ "put_stat s ?y (put_link ?a l' ?h)"]) simp
  have st: "set_linked False s (put_link ?a l' ?h) = Inr (put_stat s ?y (put_link ?a l' ?h))" for l'
    using set_linked_put[OF x1, of False ?a l'] by simp
  show ?thesis
  proof (cases "container l")
    case c: True
    have "s \<in> set (tlStats (locked l))" using l(2) c x True by (auto simp: link_wf_def regd_def)
    note R = unregister_stat_ok[of "locked l" s, OF _ _ this]
    show ?thesis
      by (rule goal[of "unregistered s (locked l)"])
        (use x l l1 c True R st A(1) in \<open>simp_all add: unlink_def link_lock_ok Let_def\<close>)
  next
    case c: False
    have lk: "locked l = l" using l(3) c by (simp add: link_ok_def locked_def)
    show ?thesis
      by (rule goal[of l]) (use x l l1 c True st A(1) lk in \<open>simp_all add: unlink_def link_lock_ok Let_def\<close>)
  qed
qed


text \<open>Reference counts.\<close>

lemma finite_refs: "heap_wf h \<Longrightarrow> finite (refs h a)"
  unfolding heap_wf_def refs_def by (rule finite_subset[of _ "dom (stats h)"]) auto

lemma wf_linkD:
  assumes "heap_wf h" "links h a = Some l"
  shows "link_ok l" "\<not> bit a 0" "0 < refCount l"
    "refCount l = card (refs h a) + (if container l then 1 else 0)"
    "container l \<Longrightarrow> set (tlStats l @ linkPending l) = regd h a"
  using assms unfolding heap_wf_def link_wf_def by blast+

lemma heap_wfI:
  assumes "finite (dom (stats h))" "\<And>a l. links h a = Some l \<Longrightarrow> link_wf h a l"
    "\<And>s x. stats h s = Some x \<Longrightarrow> links h (lp_get (link_ptr x)) \<noteq> None"
  shows "heap_wf h"
  using assms by (simp add: heap_wf_def)

lemma link_ok_ref [simp]: "link_ok (l\<lparr>refCount := n\<rparr>) = link_ok l"
  by (simp add: link_ok_def)

lemma heap_wf_new:
  assumes wf: "heap_wf h" and l: "links h a = Some l" and s: "stats h s = None"
    and x: "lp_get (link_ptr x) = a" "\<not> isLinked (link_ptr x)"
  shows "heap_wf (put_stat s x (put_link a (l\<lparr>refCount := refCount l + 1\<rparr>) h))"
proof -
  define h1 where "h1 = put_stat s x (put_link a (l\<lparr>refCount := refCount l + 1\<rparr>) h)"
  have ns: "s \<notin> refs h b" "s \<notin> regd h b" for b using s by (auto simp: refs_def regd_def)
  have g: "regd h1 b = regd h b" "b \<noteq> a \<Longrightarrow> refs h1 b = refs h b" for b
    using ns x by (simp_all add: h1_def regd_upd refs_upd)
  have c: "card (refs h1 a) = card (refs h a) + 1"
    using ns finite_refs[OF wf] x by (simp add: h1_def refs_upd)
  have e: "links h1 = (links h)(a \<mapsto> l\<lparr>refCount := refCount l + 1\<rparr>)" "stats h1 = (stats h)(s \<mapsto> x)"
    by (simp_all add: h1_def)
  have "link_wf h1 a (l\<lparr>refCount := refCount l + 1\<rparr>)"
    unfolding link_wf_def c g(1) using wf_linkD[OF wf l] by simp
  moreover have "links h b = Some k \<Longrightarrow> b \<noteq> a \<Longrightarrow> link_wf h1 b k" for b k
    using wf g link_wf_cong[of h1 b h k] by (simp add: heap_wf_def)
  ultimately have "heap_wf h1"
    using wf x unfolding e by (intro heap_wfI) (auto simp: e heap_wf_def split: if_splits)
  then show ?thesis by (simp add: h1_def)
qed

definition drop_stat :: "sid \<Rightarrow> ('p, 'g) heap \<Rightarrow> ('p, 'g) heap" where
  "drop_stat s h = h\<lparr>stats := (stats h)(s := None)\<rparr>"

lemma drop_stat_simps [simp]: "links (drop_stat s h) = links h" "stats (drop_stat s h) = (stats h)(s := None)"
  "globals (drop_stat s h) = globals h"
  by (simp_all add: drop_stat_def)

lemma refs_drop [simp]: "refs (drop_stat s h) a = refs h a - {s}" "regd (drop_stat s h) a = regd h a - {s}"
  by (auto simp: refs_def regd_def)

lemma decRef_simps:
  assumes "links h a = Some l"
  shows "decRef a h = Inr (h\<lparr>links := (links h)(a := if refCount l = 1 then None else Some (l\<lparr>refCount := refCount l - 1\<rparr>))\<rparr>)"
  using assms by (simp add: decRef_def put_link_def)

lemma heap_wf_drop:
  assumes wf: "heap_wf h" and x: "stats h s = Some x" "\<not> isLinked (link_ptr x)"
  obtains h2 where "decRef (lp_get (link_ptr x)) h = Inr h2" "heap_wf (drop_stat s h2)"
     "stats h2 = stats h" "globals h2 = globals h"
     "\<And>b. refs h b - {s} \<noteq> {} \<Longrightarrow> links h b \<noteq> None \<Longrightarrow> links h2 b \<noteq> None"
proof -
  define a where "a = lp_get (link_ptr x)"
  obtain l where l: "links h a = Some l" using wf_stat_link[OF wf x(1)] unfolding a_def by blast
  note L = wf_linkD[OF wf l]
  define l2 where "l2 = (if refCount l = 1 then None else Some (l\<lparr>refCount := refCount l - 1\<rparr>))"
  define h2 where "h2 = h\<lparr>links := (links h)(a := l2)\<rparr>"
  have e: "links h2 = (links h)(a := l2)" "stats h2 = stats h" "globals h2 = globals h"
    by (simp_all add: h2_def)
  have rf: "refs (drop_stat s h2) b = refs h b - {s}" "regd (drop_stat s h2) b = regd h b - {s}" for b
    using e(2) by (auto simp: refs_def regd_def)
  have sr: "s \<in> refs h a" using x by (auto simp: refs_def a_def)
  have ns: "b \<noteq> a \<Longrightarrow> refs h b - {s} = refs h b" "regd h b - {s} = regd h b" for b
    using x by (auto simp: refs_def regd_def a_def)
  have card: "card (refs h a - {s}) = card (refs h a) - 1" "0 < card (refs h a)"
    using sr finite_refs[OF wf, of a] by (auto simp: card_gt_0_iff)
  have one: "\<not> container l \<and> refs h a - {s} = {}" if "refCount l = 1"
  proof -
    have "\<not> container l" "card (refs h a) = 1" using that L(4) card(2) by (auto split: if_splits)
    moreover from this(2) sr have "refs h a = {s}" by (auto simp: card_Suc_eq One_nat_def)
    ultimately show ?thesis by simp
  qed
  have wl: "link_wf (drop_stat s h2) b k" if k: "links h2 b = Some k" for b k
  proof (cases "b = a")
    case True
    with k have k': "k = l\<lparr>refCount := refCount l - 1\<rparr>" "refCount l \<noteq> 1"
      by (auto simp: e l2_def split: if_splits)
    have "link_ok k" "\<not> bit b 0" "0 < refCount k" using k' L(1-3) True by simp_all
    moreover have "refCount k = card (refs h b - {s}) + (if container k then 1 else 0)"
      unfolding True card(1) using k' L(4) card(2) by simp
    moreover have "container k \<Longrightarrow> set (tlStats k @ linkPending k) = regd h b - {s}"
      using k' L(5) True ns(2) by simp
    ultimately show ?thesis unfolding link_wf_def rf by blast
  next
    case False
    with k have "link_wf h b k" using wf by (simp add: e heap_wf_def)
    then show ?thesis unfolding link_wf_def rf ns(1)[OF False] ns(2) .
  qed
  have keep: "links h2 b \<noteq> None" if "refs h b - {s} \<noteq> {}" "links h b \<noteq> None" for b
    using that one by (cases "b = a") (auto simp: e l2_def)
  have "heap_wf (drop_stat s h2)"
  proof (rule heap_wfI)
    show "finite (dom (stats (drop_stat s h2)))" using wf by (simp add: e heap_wf_def)
    show "links (drop_stat s h2) b = Some k \<Longrightarrow> link_wf (drop_stat s h2) b k" for b k using wl by simp
    fix r y assume y: "stats (drop_stat s h2) r = Some y"
    then have "r \<noteq> s" "stats h r = Some y" by (auto simp: e split: if_splits)
    then have "r \<in> refs h (lp_get (link_ptr y)) - {s}" "links h (lp_get (link_ptr y)) \<noteq> None"
      using wf unfolding refs_def heap_wf_def by blast+
    with keep show "links (drop_stat s h2) (lp_get (link_ptr y)) \<noteq> None" by auto
  qed
  moreover have "decRef (lp_get (link_ptr x)) h = Inr h2"
    using decRef_simps[OF l] unfolding a_def[symmetric] h2_def l2_def .
  ultimately show thesis using that e(2,3) keep by blast
qed


lemma replace_safe:
  assumes wf: "heap_wf h" and x: "stats h s = Some x" "\<not> isLinked (link_ptr x)"
    and y: "stats h t = Some y" "t \<noteq> s"
  obtains h' where "replaceFromOther s t h = Inr h'" "heap_wf h'" "globals h' = globals h"
    "stats h' = (stats h)(s \<mapsto> x\<lparr>link_ptr := link_ptr y AND NOT kLinked\<rparr>)"
proof -
  let ?x = "x\<lparr>link_ptr := link_ptr y AND NOT kLinked\<rparr>" and ?b = "lp_get (link_ptr y)"
  obtain h2 where h2: "decRef (lp_get (link_ptr x)) h = Inr h2" "heap_wf (drop_stat s h2)"
     "stats h2 = stats h" "globals h2 = globals h"
     "\<And>b. refs h b - {s} \<noteq> {} \<Longrightarrow> links h b \<noteq> None \<Longrightarrow> links h2 b \<noteq> None"
    using heap_wf_drop[OF wf x] by blast
  have "t \<in> refs h ?b - {s}" using y by (auto simp: refs_def)
  moreover have "links h ?b \<noteq> None" using wf y by (auto simp: heap_wf_def)
  ultimately obtain l where l: "links h2 ?b = Some l" using h2(5) by blast
  let ?h = "put_stat s ?x (put_link ?b (l\<lparr>refCount := refCount l + 1\<rparr>) (drop_stat s h2))"
  have "heap_wf ?h" using heap_wf_new[OF h2(2), of ?b l s ?x] l by simp
  moreover have "replaceFromOther s t h = Inr ?h"
    using x y h2(1,3) l
    by (simp add: replaceFromOther_def incRef_def put_stat_def put_link_def drop_stat_def)
  ultimately show thesis using that h2(3,4) by simp
qed

lemma new_container_safe:
  assumes wf: "heap_wf h" and "links h a = None" "\<not> bit a 0"
  shows "heap_wf (new_container upd a h)"
proof -
  have n: "refs h a = {}" "regd h a = {}"
    using wf assms(2) unfolding refs_def regd_def heap_wf_def by blast+
  define h1 where "h1 = new_container upd a h"
  have r: "refs h1 = refs h" "regd h1 = regd h" "stats h1 = stats h" by (simp_all add: h1_def new_container_def)
  have "links h b = Some k \<Longrightarrow> b \<noteq> a \<Longrightarrow> link_wf h1 b k" for b k
    using wf link_wf_cong[of h1 b h k] by (simp add: heap_wf_def r)
  moreover have "links h1 a = Some k \<Longrightarrow> link_wf h1 a k" for k
    using assms(3) n by (auto simp: h1_def new_container_def link_wf_def link_ok_def)
  ultimately have "heap_wf h1"
    using wf assms(2) by (intro heap_wfI) (auto simp: r heap_wf_def h1_def new_container_def split: if_splits)
  then show ?thesis by (simp add: h1_def)
qed

lemma destroy_container_safe:
  assumes wf: "heap_wf h" and l: "links h a = Some l" "container l"
  obtains h' where "destroy_container a h = Inr h'" "heap_wf h'" "stats h' = stats h" "globals h' = globals h"
    "links h' a = None \<longleftrightarrow> refs h a = {}"
proof -
  note L = wf_linkD[OF wf l(1)]
  define l1 where "l1 = (locked l)\<lparr>container := False, tlStats := [], tlStatsEmpty := True\<rparr>"
  define l2 where "l2 = (if refCount l = 1 then None else Some (l1\<lparr>refCount := refCount l - 1\<rparr>))"
  define h1 where "h1 = h\<lparr>links := (links h)(a := l2)\<rparr>"
  have e: "links h1 = (links h)(a := l2)" "stats h1 = stats h" "globals h1 = globals h"
    by (simp_all add: h1_def)
  have r: "refs h1 = refs h" "regd h1 = regd h" using e(2) by (auto simp: refs_def regd_def fun_eq_iff)
  have c: "refCount l = card (refs h a) + 1" using L(4) l(2) by simp
  have z: "refCount l = 1 \<longleftrightarrow> refs h a = {}" using c finite_refs[OF wf, of a] by simp
  have d: "destroy_container a h = Inr h1"
    using l by (simp add: destroy_container_def link_lock_ok[OF L(1)] decRef_def l2_def h1_def l1_def put_link_def)
  have w: "heap_wf h1"
  proof (rule heap_wfI)
    show "finite (dom (stats h1))" using wf by (simp add: e heap_wf_def)
    show "link_wf h1 b k" if "links h1 b = Some k" for b k
    proof (cases "b = a")
      case True
      with that have "k = l1\<lparr>refCount := refCount l - 1\<rparr>" "refCount l \<noteq> 1"
        by (auto simp: e l2_def split: if_splits)
      then show ?thesis using L(2) c True by (simp add: link_wf_def r link_ok_def l1_def)
    next
      case False
      with that wf show ?thesis using link_wf_cong[of h1 b h k] by (simp add: e r heap_wf_def)
    qed
    show "links h1 (lp_get (link_ptr y)) \<noteq> None" if "stats h1 t = Some y" for t y
    proof -
      have "t \<in> refs h (lp_get (link_ptr y))" "links h (lp_get (link_ptr y)) \<noteq> None"
        using that wf unfolding e refs_def heap_wf_def by auto
      then show ?thesis unfolding e l2_def using z by (cases "lp_get (link_ptr y) = a") auto
    qed
  qed
  have "links h1 a = None \<longleftrightarrow> refs h a = {}" using z by (simp add: e l2_def)
  then show thesis by (rule that[OF d w e(2,3)])
qed

lemma heap_wf_locked:
  assumes "heap_wf h" "links h a = Some l"
  shows "heap_wf (put_link a (locked l) h)"
proof -
  define h1 where "h1 = put_link a (locked l) h"
  have r: "refs h1 = refs h" "regd h1 = regd h" "stats h1 = stats h" by (simp_all add: h1_def)
  have "links h b = Some k \<Longrightarrow> b \<noteq> a \<Longrightarrow> link_wf h1 b k" for b k
    using assms(1) link_wf_cong[of h1 b h k] by (simp add: heap_wf_def r)
  moreover have "link_wf h1 a (locked l)"
    using wf_linkD[OF assms] by (simp add: link_wf_def r)
  ultimately have "heap_wf h1"
    using assms by (intro heap_wfI) (auto simp: r heap_wf_def h1_def split: if_splits)
  then show ?thesis by (simp add: h1_def)
qed

lemma agg_all_safe:
  assumes "heap_wf h" "set ss \<subseteq> dom (stats h)"
  shows "\<exists>h'. agg_all agg ss h = Inr h' \<and> heap_wf h' \<and> links h' = links h \<and> dom (stats h') = dom (stats h)"
  using assms
proof (induction ss arbitrary: h)
  case (Cons s ss)
  then obtain x where x: "stats h s = Some x" by auto
  obtain l where l: "links h (lp_get (link_ptr x)) = Some l" using wf_stat_link[OF Cons.prems(1) x] by blast
  obtain p g where pg: "agg (updateGlobalStatsOnRead l) (stat_name x) (payload x) (globals h) = (p, g)"
    by (cases "agg (updateGlobalStatsOnRead l) (stat_name x) (payload x) (globals h)")
  note A = agg_stat_ok[where agg = agg, OF Cons.prems(1) x l pg]
  let ?h = "(put_stat s (x\<lparr>payload := p\<rparr>) h)\<lparr>globals := g\<rparr>"
  have d: "dom (stats ?h) = dom (stats h)" "links ?h = links h" using x by auto
  have "set ss \<subseteq> dom (stats ?h)" using Cons.prems(2) unfolding d by simp
  from Cons.IH[OF A(2) this] show ?case unfolding d by (simp add: A(1))
qed simp


section \<open>Whole operations\<close>

datatype 'p tl_op =
    NewContainer bool addr
  | DestroyContainer addr
  | NewStat bool sid addr name 'p
  | DestroyStat sid
  | MoveConstruct bool sid sid
  | MoveAssign bool sid sid
  | Update sid "'p \<Rightarrow> 'p"
  | Aggregate addr
  | WithContainer sid

text \<open>What the caller owes: objects are alive, identities are fresh, new links are aligned.\<close>

fun valid :: "'p tl_op \<Rightarrow> ('p, 'g) heap \<Rightarrow> bool" where
  "valid (NewContainer u a) h \<longleftrightarrow> links h a = None \<and> \<not> bit a 0"
| "valid (DestroyContainer a) h \<longleftrightarrow> (\<exists>l. links h a = Some l \<and> container l)"
| "valid (NewStat got s a n p) h \<longleftrightarrow> stats h s = None \<and> (\<exists>l. links h a = Some l \<and> container l)"
| "valid (DestroyStat s) h \<longleftrightarrow> stats h s \<noteq> None"
| "valid (MoveConstruct got s t) h \<longleftrightarrow> stats h s = None \<and> stats h t \<noteq> None"
| "valid (MoveAssign got s t) h \<longleftrightarrow> stats h s \<noteq> None \<and> stats h t \<noteq> None"
| "valid (Update s f) h \<longleftrightarrow> stats h s \<noteq> None"
| "valid (Aggregate a) h \<longleftrightarrow> (\<exists>l. links h a = Some l \<and> container l)"
| "valid (WithContainer s) h \<longleftrightarrow>
     (\<exists>x l. stats h s = Some x \<and> links h (lp_get (link_ptr x)) = Some l \<and> container l)"

definition update_stat :: "sid \<Rightarrow> ('p \<Rightarrow> 'p) \<Rightarrow> ('p, 'g) heap \<Rightarrow> ('p, 'g) result" where
  "update_stat s f h = bindE (get_stat s h) (\<lambda>x. Inr (put_stat s (x\<lparr>payload := f (payload x)\<rparr>) h))"

fun exec ::
  "('p, 'g) agg_fn \<Rightarrow> ('p \<Rightarrow> 'p \<times> 'p) \<Rightarrow> ('p \<Rightarrow> 'p \<Rightarrow> 'p \<times> 'p) \<Rightarrow> 'p tl_op \<Rightarrow> ('p, 'g) heap \<Rightarrow> ('p, 'g) result"
where
  "exec agg mc ma (NewContainer u a) h = Inr (new_container u a h)"
| "exec agg mc ma (DestroyContainer a) h = destroy_container a h"
| "exec agg mc ma (NewStat got s a n p) h = new_stat got s a n p h"
| "exec agg mc ma (DestroyStat s) h = destroy_stat agg s h"
| "exec agg mc ma (MoveConstruct got s t) h = move_construct agg mc got s t h"
| "exec agg mc ma (MoveAssign got s t) h = moveAssignment agg ma got s t h"
| "exec agg mc ma (Update s f) h = update_stat s f h"
| "exec agg mc ma (Aggregate a) h = bindE (aggregate agg a h) (\<lambda>r. Inr (snd r))"
| "exec agg mc ma (WithContainer s) h = withContainerChecked s h"


lemma link_view:
  assumes "heap_wf h" "view h s = Some (a, b, n, p)"
  obtains h' where "link got s h = Inr h'" "heap_wf h'" "globals h' = globals h"
    "view h' = (view h)(s \<mapsto> (a, True, n, p))"
proof -
  obtain x where "stats h s = Some x" "lp_get (link_ptr x) = a" "stat_name x = n" "payload x = p"
    using view_Some[OF assms(2)] by blast
  with link_safe[OF assms(1), of s x got] that show thesis by blast
qed

text \<open>The effect of \<open>unlink\<close> on a stat: the last aggregation, then off the registry.\<close>

definition unlinked :: "('p, 'g) agg_fn \<Rightarrow> bool \<Rightarrow> bool \<times> name \<times> 'p \<Rightarrow> 'g \<Rightarrow> 'p \<times> 'g" where
  "unlinked agg u x g = (case x of (b, n, p) \<Rightarrow> if b then agg u n p g else (p, g))"

lemma unlink_view:
  assumes "heap_wf h" "view h s = Some (a, b, n, p)"
  obtains h' u q g where "unlink agg s h = Inr h'" "heap_wf h'" "unlinked agg u (b, n, p) (globals h) = (q, g)"
    "globals h' = g" "view h' = (view h)(s \<mapsto> (a, False, n, q))"
proof -
  obtain x where x: "stats h s = Some x" "lp_get (link_ptr x) = a" "isLinked (link_ptr x) = b"
    "stat_name x = n" "payload x = p"
    using view_Some[OF assms(2)] by blast
  obtain u h' where h': "unlink agg s h = Inr h'" "heap_wf h'"
    "if b then (let (p, g) = agg u n p (globals h)
            in view h' = (view h)(s \<mapsto> (a, False, n, p)) \<and> globals h' = g) else h' = h"
    using unlink_safe[OF assms(1) x(1), of agg] x by blast
  show thesis
  proof (cases b)
    case True
    then show thesis
      using h' that[OF h'(1,2), of u "fst (agg u n p (globals h))" "snd (agg u n p (globals h))"]
      by (simp add: unlinked_def case_prod_beta Let_def)
  next
    case False
    then show thesis using h' assms(2) that[OF h'(1,2), of u p "globals h"]
      by (simp add: unlinked_def map_upd_triv)
  qed
qed

lemma new_stat_view:
  assumes wf: "heap_wf h" and l: "links h a = Some l" and s: "stats h s = None"
  obtains h' where "new_stat got s a n p h = Inr h'" "heap_wf h'" "globals h' = globals h"
    "view h' = (view h)(s \<mapsto> (a, True, n, p))"
proof -
  let ?x = "\<lparr>link_ptr = a AND NOT kLinked, stat_name = n, payload = p\<rparr>"
  let ?h = "put_stat s ?x (put_link a (l\<lparr>refCount := refCount l + 1\<rparr>) h)"
  have a: "lp_get a = a" using wf_linkD(2)[OF wf l] by simp
  have w: "heap_wf ?h" using a by (intro heap_wf_new[OF wf l s]) simp_all
  have v: "view ?h s = Some (a, False, n, p)" using a by simp
  obtain h' where "link got s ?h = Inr h'" "heap_wf h'" "globals h' = globals ?h" "view h' = (view ?h)(s \<mapsto> (a, True, n, p))"
    using link_view[OF w v] by blast
  with l that[of h'] show thesis by (simp add: new_stat_def incRef_def)
qed

lemma destroy_stat_view:
  assumes wf: "heap_wf h" and v: "view h s = Some (a, b, n, p)"
  obtains h' u q g where "destroy_stat agg s h = Inr h'" "heap_wf h'"
    "unlinked agg u (b, n, p) (globals h) = (q, g)" "globals h' = g" "view h' = (view h)(s := None)"
proof -
  obtain h1 u q g where h1: "unlink agg s h = Inr h1" "heap_wf h1" "unlinked agg u (b, n, p) (globals h) = (q, g)"
    "globals h1 = g" "view h1 = (view h)(s \<mapsto> (a, False, n, q))" using unlink_view[OF wf v] by blast
  then have "view h1 s = Some (a, False, n, q)" by simp
  from view_Some[OF this] obtain x where x: "stats h1 s = Some x" "\<not> isLinked (link_ptr x)" by auto
  obtain h2 where h2: "decRef (lp_get (link_ptr x)) h1 = Inr h2" "heap_wf (drop_stat s h2)"
     "stats h2 = stats h1" "globals h2 = globals h1"
    using heap_wf_drop[OF h1(2) x] by blast
  have "view (drop_stat s h2) = (view h)(s := None)"
    using h2(3) h1(5) by (auto simp: view_def fun_eq_iff split: if_splits)
  then show thesis using that[of "drop_stat s h2" u q g] h1 h2 x
    by (simp add: destroy_stat_def drop_stat_def)
qed

lemma heap_wf_rename:
  assumes "heap_wf h" "stats h s = Some x" "link_ptr x' = link_ptr x"
  shows "heap_wf (put_stat s x' h)"
  using heap_wf_payload[OF assms, of "globals h"] by (simp add: put_stat_def)

text \<open>\<open>unlink\<close> does not look at other stats.\<close>

lemma put_stat_comm: "s \<noteq> t \<Longrightarrow> put_stat t y (put_stat s x h) = put_stat s x (put_stat t y h)"
  "put_link a l (put_stat s x h) = put_stat s x (put_link a l h)"
  "(put_stat s x h)\<lparr>globals := g\<rparr> = put_stat s x (h\<lparr>globals := g\<rparr>)"
  by (simp_all add: put_stat_def put_link_def fun_upd_twist)

lemma get_put_other: "s \<noteq> t \<Longrightarrow> get_stat t (put_stat s x h) = get_stat t h"
  "get_link a (put_stat s x h) = get_link a h" "get_link a (h\<lparr>globals := g\<rparr>) = get_link a h"
  "get_stat t (put_link a l h) = get_stat t h" "get_stat t (h\<lparr>globals := g\<rparr>) = get_stat t h"
  by (simp_all add: get_stat_def get_link_def)

lemma agg_stat_frame:
  "s \<noteq> t \<Longrightarrow> agg_stat agg t (put_stat s x h) = bindE (agg_stat agg t h) (\<lambda>h2. Inr (put_stat s x h2))"
  by (simp add: agg_stat_def bindE_def get_put_other put_stat_comm split: sum.splits prod.splits)

lemma set_linked_frame:
  "s \<noteq> t \<Longrightarrow> set_linked b t (put_stat s x h) = bindE (set_linked b t h) (\<lambda>h2. Inr (put_stat s x h2))"
  by (simp add: set_linked_def bindE_def get_put_other put_stat_comm split: sum.splits)

lemma unlink_frame:
  assumes "s \<noteq> t"
  shows "unlink agg t (put_stat s x h) = bindE (unlink agg t h) (\<lambda>h2. Inr (put_stat s x h2))"
  using assms unfolding unlink_def
  by (simp add: bindE_def get_put_other put_stat_comm agg_stat_frame set_linked_frame Let_def split: sum.splits)

lemma move_construct_view:
  assumes wf: "heap_wf h" and s: "stats h s = None" and v: "view h t = Some (a, b, n, p)"
  obtains h' u q g p1 q1 where "move_construct agg mc got s t h = Inr h'" "heap_wf h'"
    "unlinked agg u (b, n, p) (globals h) = (q, g)" "mc q = (p1, q1)" "globals h' = g"
    "view h' = (view h)(t \<mapsto> (a, False, [], q1), s \<mapsto> (a, True, n, p1))"
proof -
  obtain x where x: "stats h t = Some x" "lp_get (link_ptr x) = a" using view_Some[OF v] by blast
  obtain l where l: "links h a = Some l" using wf_stat_link[OF wf x(1)] x(2) by metis
  have ne: "s \<noteq> t" using s x by auto
  let ?x0 = "\<lparr>link_ptr = link_ptr x AND NOT kLinked, stat_name = n, payload = p\<rparr>"
  let ?h1 = "put_link a (l\<lparr>refCount := refCount l + 1\<rparr>) h"
  have w0: "heap_wf (put_stat s ?x0 ?h1)" using x by (intro heap_wf_new[OF wf l s]) simp_all
  have "view (put_stat s ?x0 ?h1) t = Some (a, b, n, p)" using v ne by simp
  from unlink_view[OF w0 this, of agg]
  obtain h2' u q g where h2': "unlink agg t (put_stat s ?x0 ?h1) = Inr h2'" "heap_wf h2'" and
    un: "unlinked agg u (b, n, p) (globals (put_stat s ?x0 ?h1)) = (q, g)" and g: "globals h2' = g"
    and v2: "view h2' = (view (put_stat s ?x0 ?h1))(t \<mapsto> (a, False, n, q))" by blast
  obtain h2 where h2: "unlink agg t ?h1 = Inr h2" "h2' = put_stat s ?x0 h2"
    using h2'(1) unfolding unlink_frame[OF ne] bindE_Inr_iff by auto
  have "view h2' t = Some (a, False, n, q)" using v2 by simp
  from view_Some[OF this] obtain y where y: "stats h2 t = Some y" "lp_get (link_ptr y) = a"
    "stat_name y = n" "payload y = q" "\<not> isLinked (link_ptr y)" using h2(2) ne by auto
  obtain p1 q1 where m: "mc q = (p1, q1)" by (cases "mc q")
  let ?x1 = "?x0\<lparr>payload := p1\<rparr>" and ?y1 = "y\<lparr>stat_name := [], payload := q1\<rparr>"
  let ?h = "put_stat s ?x1 (put_stat t ?y1 h2)"
  have e: "?h = put_stat t ?y1 (put_stat s ?x1 h2')"
    using ne by (simp add: h2(2) put_stat_def fun_upd_twist)
  have w: "heap_wf ?h" unfolding e
    using h2'(2) h2(2) y(1) ne by (intro heap_wf_rename[of _ t y] heap_wf_rename[of _ s ?x0]) simp_all
  have vh: "view ?h s = Some (a, False, n, p1)" using x by simp
  obtain h' where h': "link got s ?h = Inr h'" "heap_wf h'" "globals h' = globals ?h"
    "view h' = (view ?h)(s \<mapsto> (a, True, n, p1))" using link_view[OF w vh] by blast
  have "view h' = (view h)(t \<mapsto> (a, False, [], q1), s \<mapsto> (a, True, n, p1))"
  proof
    fix r
    have "r \<noteq> s \<Longrightarrow> r \<noteq> t \<Longrightarrow> view h2 r = view h r" using fun_cong[OF v2, of r] h2(2) by simp
    then show "view h' r = ((view h)(t \<mapsto> (a, False, [], q1), s \<mapsto> (a, True, n, p1))) r"
      using h'(4) y ne by simp
  qed
  then show thesis
    using that[of h' u q g p1 q1] h2 h2' un g h' m x y l by (simp add: move_construct_def incRef_def)
qed

lemma moveAssignment_view:
  assumes wf: "heap_wf h" and ne: "t \<noteq> s" and v: "view h s = Some (a, b, n, p)" "view h t = Some (a', b', n', p')"
  obtains h' u u' q q' g g' p1 q1 where "moveAssignment agg ma got s t h = Inr h'" "heap_wf h'"
    "unlinked agg u (b, n, p) (globals h) = (q, g)" "unlinked agg u' (b', n', p') g = (q', g')"
    "ma q q' = (p1, q1)" "globals h' = g'"
    "view h' = (view h)(t \<mapsto> (a', False, [], q1), s \<mapsto> (a', True, n', p1))"
proof -
  obtain h1 u q g where h1: "unlink agg s h = Inr h1" "heap_wf h1" "unlinked agg u (b, n, p) (globals h) = (q, g)"
    "globals h1 = g" "view h1 = (view h)(s \<mapsto> (a, False, n, q))" using unlink_view[OF wf v(1)] by blast
  have "view h1 t = Some (a', b', n', p')" using h1(5) v(2) ne by simp
  from unlink_view[OF h1(2) this, of agg] h1(4)
  obtain h2 u' q' g' where h2: "unlink agg t h1 = Inr h2" "heap_wf h2"
    "unlinked agg u' (b', n', p') g = (q', g')" "globals h2 = g'"
    "view h2 = (view h1)(t \<mapsto> (a', False, n', q'))" by blast
  have "view h2 s = Some (a, False, n, q)" "view h2 t = Some (a', False, n', q')" using h2(5) h1(5) ne by simp_all
  then obtain x y where x: "stats h2 s = Some x" "\<not> isLinked (link_ptr x)" "stat_name x = n" "payload x = q"
    and y: "stats h2 t = Some y" "lp_get (link_ptr y) = a'" "stat_name y = n'" "payload y = q'" "\<not> isLinked (link_ptr y)"
    by (fastforce dest!: view_Some)
  let ?x = "x\<lparr>link_ptr := link_ptr y AND NOT kLinked\<rparr>"
  obtain h3 where h3: "replaceFromOther s t h2 = Inr h3" "heap_wf h3" "globals h3 = globals h2"
    "stats h3 = (stats h2)(s \<mapsto> ?x)" using replace_safe[OF h2(2) x(1,2) y(1) ne] by blast
  obtain p1 q1 where m: "ma q q' = (p1, q1)" by (cases "ma q q'")
  let ?x1 = "?x\<lparr>stat_name := n', payload := p1\<rparr>" and ?y1 = "y\<lparr>stat_name := [], payload := q1\<rparr>"
  let ?h = "put_stat t ?y1 (put_stat s ?x1 h3)"
  have w: "heap_wf ?h"
    using h3 y(1) ne by (intro heap_wf_rename[of _ t y] heap_wf_rename[of _ s ?x]) simp_all
  have vh: "view ?h s = Some (a', False, n', p1)" using ne y by simp
  obtain h' where h': "link got s ?h = Inr h'" "heap_wf h'" "globals h' = globals ?h"
    "view h' = (view ?h)(s \<mapsto> (a', True, n', p1))" using link_view[OF w vh] by blast
  have "view h3 = (view h2)(s \<mapsto> (a', False, n, q))"
    using h3(4) x y by (auto simp: view_def fun_eq_iff)
  then have "view h' = (view h)(t \<mapsto> (a', False, [], q1), s \<mapsto> (a', True, n', p1))"
    using h'(4) h2(5) h1(5) y ne by (auto simp: fun_eq_iff)
  then show thesis
    using that[of h' u q g u' q' g' p1 q1] h1 h2 h3 h' m x y ne by (simp add: moveAssignment_def)
qed


text \<open>The aggregation loop on the view.\<close>

fun agg_view ::
  "('p, 'g) agg_fn \<Rightarrow> bool \<Rightarrow> sid list \<Rightarrow> (sid \<rightharpoonup> addr \<times> bool \<times> name \<times> 'p) \<times> 'g \<Rightarrow> (sid \<rightharpoonup> addr \<times> bool \<times> name \<times> 'p) \<times> 'g"
where
  "agg_view agg u [] m = m"
| "agg_view agg u (s # ss) (v, g) =
     (case v s of
        None \<Rightarrow> agg_view agg u ss (v, g)
      | Some (a, b, n, p) \<Rightarrow>
          (let (q, g') = agg u n p g in agg_view agg u ss (v(s \<mapsto> (a, b, n, q)), g')))"

lemma agg_all_view:
  assumes "heap_wf h" "set ss \<subseteq> regd h a" "links h a = Some l"
  shows "\<exists>h'. agg_all agg ss h = Inr h' \<and> heap_wf h' \<and> links h' = links h \<and>
     (view h', globals h') = agg_view agg (updateGlobalStatsOnRead l) ss (view h, globals h)"
  using assms
proof (induction ss arbitrary: h)
  case (Cons s ss)
  then obtain x where x: "stats h s = Some x" "lp_get (link_ptr x) = a" by (auto simp: regd_def)
  let ?u = "updateGlobalStatsOnRead l"
  obtain p g where pg: "agg ?u (stat_name x) (payload x) (globals h) = (p, g)"
    by (cases "agg ?u (stat_name x) (payload x) (globals h)")
  note A = agg_stat_ok[where agg = agg, OF Cons.prems(1) x(1) _ pg]
  let ?h = "(put_stat s (x\<lparr>payload := p\<rparr>) h)\<lparr>globals := g\<rparr>"
  have "regd ?h a = regd h a" using x by (auto simp: regd_def)
  then have "set ss \<subseteq> regd ?h a" "links ?h a = Some l" using Cons.prems by auto
  from Cons.IH[OF _ this] A x Cons.prems(3) pg show ?case by (simp add: fun_upd_def)
qed simp

lemma aggregate_view:
  assumes wf: "heap_wf h" and l: "links h a = Some l" "container l"
  obtains h' ss where "aggregate agg a h = Inr (length ss, h')" "heap_wf h'" "distinct ss"
    "set ss = regd h a"
    "(view h', globals h') = agg_view agg (updateGlobalStatsOnRead l) ss (view h, globals h)"
proof (cases "tlStatsEmpty l")
  case True
  with wf_linkD(1,5)[OF wf l(1)] l(2) have "regd h a = {}" by (simp add: link_ok_def)
  then show thesis using that[of "[]" h] True l wf by (simp add: aggregate_def)
next
  case False
  let ?h = "put_link a (locked l) h"
  note L = wf_linkD[OF wf l(1)]
  have ss: "distinct (tlStats (locked l))" "set (tlStats (locked l)) = regd h a"
    using L(1) L(5)[OF l(2)] by (simp_all add: link_ok_def locked_def)
  have "\<exists>h'. agg_all agg (tlStats (locked l)) ?h = Inr h' \<and> heap_wf h' \<and> links h' = links ?h \<and>
     (view h', globals h') = agg_view agg (updateGlobalStatsOnRead (locked l)) (tlStats (locked l)) (view ?h, globals ?h)"
    using ss(2) by (intro agg_all_view[of _ _ a] heap_wf_locked[OF wf l(1)]) simp_all
  then obtain h' where "agg_all agg (tlStats (locked l)) ?h = Inr h'" "heap_wf h'"
     "(view h', globals h') = agg_view agg (updateGlobalStatsOnRead l) (tlStats (locked l)) (view h, globals h)"
    by auto
  then show thesis using that[of "tlStats (locked l)" h'] ss l False
    by (simp add: aggregate_def link_lock_ok[OF L(1)])
qed

lemma exec_safe:
  assumes "heap_wf h" "valid op h"
  shows "\<exists>h'. exec agg mc ma op h = Inr h' \<and> heap_wf h'"
proof (cases op)
  case (NewContainer u a)
  with assms show ?thesis using new_container_safe by auto
next
  case (DestroyContainer a)
  with assms show ?thesis by (auto elim: destroy_container_safe)
next
  case (NewStat got s a n p)
  with assms show ?thesis by (auto elim: new_stat_view)
next
  case (DestroyStat s)
  with assms obtain x where "stats h s = Some x" by auto
  then show ?thesis using DestroyStat assms(1) destroy_stat_view[of h s _ _ _ _ agg] view_simps(4)
    by (metis exec.simps(4))
next
  case (MoveConstruct got s t)
  with assms obtain x where "stats h t = Some x" "stats h s = None" by auto
  then show ?thesis using MoveConstruct assms(1) move_construct_view[of h s t _ _ _ _ agg mc got] view_simps(4)
    by (metis exec.simps(5))
next
  case (MoveAssign got s t)
  with assms obtain x y where "stats h t = Some x" "stats h s = Some y" by auto
  then have v: "view h s = Some (lp_get (link_ptr y), isLinked (link_ptr y), stat_name y, payload y)"
    "view h t = Some (lp_get (link_ptr x), isLinked (link_ptr x), stat_name x, payload x)" by simp_all
  show ?thesis
  proof (cases "t = s")
    case True
    with MoveAssign assms(1) show ?thesis by (simp add: moveAssignment_def)
  next
    case False
    obtain h' where "moveAssignment agg ma got s t h = Inr h'" "heap_wf h'"
      by (rule moveAssignment_view[OF assms(1) False v, of agg ma got])
    with MoveAssign show ?thesis by simp
  qed
next
  case (Update s f)
  with assms obtain x where "stats h s = Some x" by auto
  with Update show ?thesis
    using heap_wf_rename[OF assms(1), of s x "x\<lparr>payload := f (payload x)\<rparr>"] by (simp add: update_stat_def)
next
  case (Aggregate a)
  with assms obtain l where l: "links h a = Some l" "container l" by auto
  obtain h' and ss :: "sid list" where "aggregate agg a h = Inr (length ss, h')" "heap_wf h'"
    by (rule aggregate_view[OF assms(1) l, where agg = agg])
  then show ?thesis using Aggregate by simp
next
  case (WithContainer s)
  with assms obtain x l where x: "stats h s = Some x" "links h (lp_get (link_ptr x)) = Some l" "container l" by auto
  then show ?thesis using WithContainer heap_wf_locked[OF assms(1) x(2)] wf_linkD(1)[OF assms(1) x(2)]
    by (simp add: withContainerChecked_def link_lock_ok Let_def)
qed

section \<open>Reachable heaps\<close>

definition heap0 :: "'g \<Rightarrow> ('p, 'g) heap" where
  "heap0 g = \<lparr>links = Map.empty, stats = Map.empty, globals = g\<rparr>"

inductive tl_reach ::
  "('p, 'g) agg_fn \<Rightarrow> ('p \<Rightarrow> 'p \<times> 'p) \<Rightarrow> ('p \<Rightarrow> 'p \<Rightarrow> 'p \<times> 'p) \<Rightarrow> 'g \<Rightarrow> ('p, 'g) heap \<Rightarrow> bool"
  for agg mc ma g where
  tl_start: "tl_reach agg mc ma g (heap0 g)"
| tl_step: "tl_reach agg mc ma g h \<Longrightarrow> valid op h \<Longrightarrow> exec agg mc ma op h = Inr h' \<Longrightarrow> tl_reach agg mc ma g h'"

lemma heap0_wf: "heap_wf (heap0 g)"
  by (simp add: heap_wf_def heap0_def)

lemma tl_reach_wf: "tl_reach agg mc ma g h \<Longrightarrow> heap_wf h"
proof (induction rule: tl_reach.induct)
  case (tl_step h op h')
  then show ?case using exec_safe[of h op agg mc ma] by auto
qed (rule heap0_wf)

text \<open>
  C2: The registry never faults. From any state that valid calls can reach, every valid call succeeds: no
  \<open>CHECK\<close> of a double or missing registration fires and no freed link is dereferenced, whatever the
  outcome of \<open>try_lock\<close>, in any order of constructing, moving, aggregating and destroying stats and
  containers.
\<close>
theorem registry_never_faults:
  assumes "tl_reach agg mc ma g h" and "valid op h"
  shows "\<exists>h'. exec agg mc ma op h = Inr h' \<and> heap_wf h'"
  by (rule exec_safe[OF tl_reach_wf[OF assms(1)] assms(2)])

theorem registry_never_faults_witness:
  "\<exists>h'. exec (\<lambda>u n p g. (p, g)) (\<lambda>p. (p, p)) (\<lambda>p q. (p, q)) (NewContainer True 2) (heap0 () :: (nat, unit) heap) = Inr h' \<and> heap_wf h'"
  by (rule registry_never_faults[OF tl_reach.tl_start]) (simp add: heap0_def bit_simps)

text \<open>
  Reference counts are exact. In every reachable state a link object is alive exactly as long as its
  container is alive or some stat still points to it, its count is the number of those, and the stats a
  live container has registered or pending are, without repetition, the ones whose pointer carries the
  linked tag.
\<close>
theorem link_lifetime_exact:
  assumes "tl_reach agg mc ma g h" and "links h a = Some l"
  shows "refCount l = card (refs h a) + (if container l then 1 else 0) \<and>
    (container l \<or> refs h a \<noteq> {}) \<and>
    (container l \<longrightarrow> distinct (tlStats l @ linkPending l) \<and> set (tlStats l @ linkPending l) = regd h a)"
  using wf_linkD[OF tl_reach_wf[OF assms(1)] assms(2)] by (auto simp: link_ok_def split: if_splits)

definition demo_heap :: "(nat, unit) heap" where
  "demo_heap = new_container True 2 (heap0 ())"

lemma demo_reach: "tl_reach (\<lambda>u n p g. (0, g)) (\<lambda>p. (p, p)) (\<lambda>p q. (p, q)) () demo_heap"
  unfolding demo_heap_def
  by (rule tl_reach.tl_step[OF tl_reach.tl_start, of "NewContainer True 2"]) (simp_all add: heap0_def bit_simps)

theorem link_lifetime_exact_witness:
  "refCount (the (links demo_heap 2)) = card (refs demo_heap 2) + 1"
  using link_lifetime_exact[OF demo_reach, of 2]
  by (simp add: demo_heap_def new_container_def)

text \<open>
  \<open>ThreadLocalStatsT::aggregate\<close> skips nothing. On a live container of a reachable state it returns
  the number of stats registered with it and has called \<open>aggregate\<close> once on each of them, the ones
  whose registration was still pending included.
\<close>
theorem aggregate_visits_every_stat:
  assumes "tl_reach agg mc ma g h" and "links h a = Some l" and "container l"
  shows "\<exists>h' ss. aggregate agg a h = Inr (length ss, h') \<and> distinct ss \<and> set ss = regd h a \<and>
     (view h', globals h') = agg_view agg (updateGlobalStatsOnRead l) ss (view h, globals h)"
  by (rule aggregate_view[OF tl_reach_wf[OF assms(1)] assms(2,3), where agg = agg]) blast

theorem aggregate_visits_every_stat_witness:
  "\<exists>h' ss. aggregate (\<lambda>u n p g. (0, g)) 2 demo_heap = Inr (length (ss :: nat list), h') \<and> set ss = regd demo_heap 2"
  using aggregate_visits_every_stat[OF demo_reach, of 2]
  by (auto simp: demo_heap_def new_container_def)

end
