(* ===== verification/RegistryRace.thy ===== *)
theory RegistryRace
  imports TLStats
begin

text \<open>
  The interleavings of \<open>TLStatT::link\<close>, \<open>TLStatT::unlink\<close> and \<open>ThreadLocalStatsT::aggregate\<close>
  (\<^verbatim>\<open>fb303/ThreadLocalStats-inl.h\<close>) on one live container. A step is the code between two accesses that
  another thread can observe: taking the registry mutex, taking the lock of \<open>linkPending_\<close>, and the stores
  to \<open>tlStatsEmpty_\<close>, which link's deferred path makes without the registry mutex. What only the
  mutex holder touches is merged into the neighbouring step. The caller's obligation that one stat is not
  linked or unlinked by two threads at once is a guard of the calls.
\<close>

section \<open>Steps\<close>

datatype rpc =
    RIdle
  | LDefer sid          \<comment> \<open>\<open>link\<close>: \<open>try_lock\<close> failed\<close>
  | LPushed sid bool    \<comment> \<open>\<open>link\<close>: pushed, the pending lock is held; was it the first?\<close>
  | LGot sid            \<comment> \<open>\<open>link\<close>: mutex taken, pending stats not completed yet\<close>
  | LIns sid            \<comment> \<open>\<open>link\<close>: mutex held, about to insert\<close>
  | UWait sid           \<comment> \<open>\<open>unlink\<close>: aggregated one final time, waiting for the mutex\<close>
  | UGot sid
  | UErase sid          \<comment> \<open>\<open>unlink\<close>: mutex held, about to erase\<close>
  | AWait               \<comment> \<open>\<open>aggregate\<close>: \<open>tlStatsEmpty_\<close> was false\<close>
  | AGot
  | ARun                \<comment> \<open>\<open>aggregate\<close>: mutex held, about to visit\<close>

record race =
  reg :: link_obj
  mutex :: "nat option"
  plock :: "nat option"
  pcs :: "nat \<Rightarrow> rpc"
  tagged :: "sid set"
  failed :: bool

definition race0 :: race where
  "race0 = \<lparr>reg = \<lparr>refCount = 1, container = True, updateGlobalStatsOnRead = True, tlStats = [],
                    linkPending = [], tlStatsEmpty = True\<rparr>,
            mutex = None, plock = None, pcs = (\<lambda>_. RIdle), tagged = {}, failed = False\<rparr>"

fun subject :: "rpc \<Rightarrow> sid option" where
  "subject (LDefer s) = Some s" | "subject (LPushed s b) = Some s" | "subject (LGot s) = Some s"
| "subject (LIns s) = Some s" | "subject (UWait s) = Some s" | "subject (UGot s) = Some s"
| "subject (UErase s) = Some s" | "subject _ = None"

definition push_only :: "sid \<Rightarrow> link_obj \<Rightarrow> link_obj" where
  "push_only s l = l\<lparr>linkPending := linkPending l @ [s]\<rparr>"

definition finish :: "tl_error + link_obj \<Rightarrow> race \<Rightarrow> race" where
  "finish r w = (case r of Inl e \<Rightarrow> w\<lparr>failed := True\<rparr> | Inr l \<Rightarrow> w\<lparr>reg := l\<rparr>)"

text \<open>The calls, then one step of the thread \<open>i\<close>.\<close>

inductive race_step :: "race \<Rightarrow> race \<Rightarrow> bool" where
  link_locked: "pcs w i = RIdle \<Longrightarrow> s \<notin> tagged w \<Longrightarrow> (\<forall>j. subject (pcs w j) \<noteq> Some s) \<Longrightarrow> mutex w = None \<Longrightarrow>
    race_step w (w\<lparr>mutex := Some i, pcs := (pcs w)(i := LGot s)\<rparr>)"
| link_deferred: "pcs w i = RIdle \<Longrightarrow> s \<notin> tagged w \<Longrightarrow> (\<forall>j. subject (pcs w j) \<noteq> Some s) \<Longrightarrow> mutex w \<noteq> None \<Longrightarrow>
    race_step w (w\<lparr>pcs := (pcs w)(i := LDefer s)\<rparr>)"
| link_push: "pcs w i = LDefer s \<Longrightarrow> plock w = None \<Longrightarrow>
    race_step w (w\<lparr>plock := Some i, reg := push_only s (reg w),
                   pcs := (pcs w)(i := LPushed s (length (linkPending (push_only s (reg w))) = 1))\<rparr>)"
| link_flag: "pcs w i = LPushed s one \<Longrightarrow>
    race_step w (w\<lparr>plock := None, tagged := insert s (tagged w),
                   reg := (if one then (reg w)\<lparr>tlStatsEmpty := False\<rparr> else reg w),
                   pcs := (pcs w)(i := RIdle)\<rparr>)"
| link_complete: "pcs w i = LGot s \<Longrightarrow> plock w = None \<Longrightarrow>
    race_step w (finish (completePendingLink (reg w)) (w\<lparr>pcs := (pcs w)(i := LIns s)\<rparr>))"
| link_insert: "pcs w i = LIns s \<Longrightarrow>
    race_step w (finish (register_stat s (reg w))
                   (w\<lparr>mutex := None, tagged := insert s (tagged w), pcs := (pcs w)(i := RIdle)\<rparr>))"
| unlink_call: "pcs w i = RIdle \<Longrightarrow> s \<in> tagged w \<Longrightarrow> (\<forall>j. subject (pcs w j) \<noteq> Some s) \<Longrightarrow>
    race_step w (w\<lparr>pcs := (pcs w)(i := UWait s)\<rparr>)"
| unlink_locked: "pcs w i = UWait s \<Longrightarrow> mutex w = None \<Longrightarrow>
    race_step w (w\<lparr>mutex := Some i, pcs := (pcs w)(i := UGot s)\<rparr>)"
| unlink_complete: "pcs w i = UGot s \<Longrightarrow> plock w = None \<Longrightarrow>
    race_step w (finish (completePendingLink (reg w)) (w\<lparr>pcs := (pcs w)(i := UErase s)\<rparr>))"
| unlink_erase: "pcs w i = UErase s \<Longrightarrow>
    race_step w (finish (unregister_stat s (reg w))
                   (w\<lparr>mutex := None, tagged := tagged w - {s}, pcs := (pcs w)(i := RIdle)\<rparr>))"
| agg_call: "pcs w i = RIdle \<Longrightarrow> \<not> tlStatsEmpty (reg w) \<Longrightarrow>
    race_step w (w\<lparr>pcs := (pcs w)(i := AWait)\<rparr>)"
| agg_locked: "pcs w i = AWait \<Longrightarrow> mutex w = None \<Longrightarrow>
    race_step w (w\<lparr>mutex := Some i, pcs := (pcs w)(i := AGot)\<rparr>)"
| agg_complete: "pcs w i = AGot \<Longrightarrow> plock w = None \<Longrightarrow>
    race_step w (finish (completePendingLink (reg w)) (w\<lparr>pcs := (pcs w)(i := ARun)\<rparr>))"
| agg_done: "pcs w i = ARun \<Longrightarrow> race_step w (w\<lparr>mutex := None, pcs := (pcs w)(i := RIdle)\<rparr>)"

inductive race_reach :: "race \<Rightarrow> bool" where
  race_start: "race_reach race0"
| race_next: "race_reach w \<Longrightarrow> race_step w w' \<Longrightarrow> race_reach w'"

section \<open>Safety\<close>

fun holdsM :: "rpc \<Rightarrow> bool" where
  "holdsM (LGot s) = True" | "holdsM (LIns s) = True" | "holdsM (UGot s) = True"
| "holdsM (UErase s) = True" | "holdsM AGot = True" | "holdsM ARun = True" | "holdsM _ = False"

fun linking :: "rpc \<Rightarrow> sid option" where
  "linking (LDefer s) = Some s" | "linking (LPushed s b) = Some s" | "linking (LGot s) = Some s"
| "linking (LIns s) = Some s" | "linking _ = None"

fun unlinking :: "rpc \<Rightarrow> sid option" where
  "unlinking (UWait s) = Some s" | "unlinking (UGot s) = Some s" | "unlinking (UErase s) = Some s"
| "unlinking _ = None"

fun pushed :: "rpc \<Rightarrow> sid option" where
  "pushed (LPushed s b) = Some s" | "pushed _ = None"

definition members :: "race \<Rightarrow> sid list" where
  "members w = tlStats (reg w) @ linkPending (reg w)"

definition race_inv :: "race \<Rightarrow> bool" where
  "race_inv w \<longleftrightarrow>
     \<not> failed w \<and>
     (\<forall>i. holdsM (pcs w i) \<longleftrightarrow> mutex w = Some i) \<and>
     (\<forall>i. pushed (pcs w i) \<noteq> None \<longleftrightarrow> plock w = Some i) \<and>
     (\<forall>i j s. subject (pcs w i) = Some s \<longrightarrow> subject (pcs w j) = Some s \<longrightarrow> i = j) \<and>
     (\<forall>i s. linking (pcs w i) = Some s \<longrightarrow> s \<notin> tagged w) \<and>
     (\<forall>i s. unlinking (pcs w i) = Some s \<longrightarrow> s \<in> tagged w) \<and>
     distinct (members w) \<and>
     set (members w) = tagged w \<union> {s. \<exists>i. pushed (pcs w i) = Some s} \<and>
     (\<forall>i s. pcs w i = UErase s \<longrightarrow> s \<in> set (tlStats (reg w))) \<and>
     (tlStatsEmpty (reg w) \<longrightarrow> tlStats (reg w) = [])"

lemma complete_ok:
  "distinct (tlStats l @ linkPending l) \<Longrightarrow>
   completePendingLink l = Inr (l\<lparr>tlStats := tlStats l @ linkPending l, linkPending := [],
     tlStatsEmpty := (if tlStats l = [] \<and> linkPending l \<noteq> [] then False else tlStatsEmpty l)\<rparr>)"
  by (simp add: completePendingLink_def insert_pending_ok)

lemma race_invD:
  assumes "race_inv w"
  shows "\<not> failed w" "\<And>i. holdsM (pcs w i) \<longleftrightarrow> mutex w = Some i"
    "\<And>i. pushed (pcs w i) \<noteq> None \<longleftrightarrow> plock w = Some i"
    "\<And>i j s. subject (pcs w i) = Some s \<Longrightarrow> subject (pcs w j) = Some s \<Longrightarrow> i = j"
    "\<And>i s. linking (pcs w i) = Some s \<Longrightarrow> s \<notin> tagged w"
    "\<And>i s. unlinking (pcs w i) = Some s \<Longrightarrow> s \<in> tagged w"
    "distinct (members w)" "set (members w) = tagged w \<union> {s. \<exists>i. pushed (pcs w i) = Some s}"
    "\<And>i s. pcs w i = UErase s \<Longrightarrow> s \<in> set (tlStats (reg w))"
    "tlStatsEmpty (reg w) \<Longrightarrow> tlStats (reg w) = []"
  using assms unfolding race_inv_def by blast+

lemma race_invI:
  assumes "\<not> failed w" "\<And>i. holdsM (pcs w i) \<longleftrightarrow> mutex w = Some i"
    "\<And>i. pushed (pcs w i) \<noteq> None \<longleftrightarrow> plock w = Some i"
    "\<And>i j s. subject (pcs w i) = Some s \<Longrightarrow> subject (pcs w j) = Some s \<Longrightarrow> i = j"
    "\<And>i s. linking (pcs w i) = Some s \<Longrightarrow> s \<notin> tagged w"
    "\<And>i s. unlinking (pcs w i) = Some s \<Longrightarrow> s \<in> tagged w"
    "distinct (members w)" "set (members w) = tagged w \<union> {s. \<exists>i. pushed (pcs w i) = Some s}"
    "\<And>i s. pcs w i = UErase s \<Longrightarrow> s \<in> set (tlStats (reg w))"
    "tlStatsEmpty (reg w) \<Longrightarrow> tlStats (reg w) = []"
  shows "race_inv w"
  using assms unfolding race_inv_def by blast

lemma linking_subject: "linking p = Some s \<Longrightarrow> subject p = Some s"
  "unlinking p = Some s \<Longrightarrow> subject p = Some s" "pushed p = Some s \<Longrightarrow> linking p = Some s"
  by (cases p; simp)+

text \<open>Changing the program counter of one thread without touching the registry.\<close>

lemma race_inv_pc:
  assumes I: "race_inv w"
    and s: "\<And>s. subject p = Some s \<Longrightarrow> subject (pcs w i) = Some s \<or> (\<forall>j. subject (pcs w j) \<noteq> Some s)"
    and l: "\<And>s. linking p = Some s \<Longrightarrow> s \<notin> tagged w" and u: "\<And>s. unlinking p = Some s \<Longrightarrow> s \<in> tagged w"
    and p: "pushed p = None" "pushed (pcs w i) = None" and e: "\<And>s. p = UErase s \<Longrightarrow> s \<in> set (tlStats (reg w))"
    and m: "\<And>j. j \<noteq> i \<Longrightarrow> mutex w = Some j \<longleftrightarrow> m = Some j" "holdsM p \<longleftrightarrow> m = Some i"
  shows "race_inv (w\<lparr>mutex := m, pcs := (pcs w)(i := p)\<rparr>)"
proof (rule race_invI)
  note D = race_invD[OF I]
  let ?w = "w\<lparr>mutex := m, pcs := (pcs w)(i := p)\<rparr>"
  show "\<not> failed ?w" using D(1) by simp
  show "holdsM (pcs ?w j) \<longleftrightarrow> mutex ?w = Some j" for j using D(2)[of j] m by simp
  show "pushed (pcs ?w j) \<noteq> None \<longleftrightarrow> plock ?w = Some j" for j using D(3)[of j] D(3)[of i] p by simp
  show "j = k" if "subject (pcs ?w j) = Some t" "subject (pcs ?w k) = Some t" for j k t
    using that s[of t] D(4)[of j t k] D(4)[of i t k] D(4)[of j t i] by (auto split: if_splits)
  show "t \<notin> tagged ?w" if "linking (pcs ?w j) = Some t" for j t
    using that l D(5)[of j t] by (auto split: if_splits)
  show "t \<in> tagged ?w" if "unlinking (pcs ?w j) = Some t" for j t
    using that u D(6)[of j t] by (auto split: if_splits)
  show "distinct (members ?w)" using D(7) by (simp add: members_def)
  have "(\<exists>j. pushed (pcs ?w j) = Some t) \<longleftrightarrow> (\<exists>j. pushed (pcs w j) = Some t)" for t
    using p by (auto split: if_splits) (metis option.discI)
  then show "set (members ?w) = tagged ?w \<union> {s. \<exists>i. pushed (pcs ?w i) = Some s}"
    using D(8) by (simp add: members_def)
  show "t \<in> set (tlStats (reg ?w))" if "pcs ?w j = UErase t" for j t
    using that e D(9)[of j t] by (auto split: if_splits)
  show "tlStatsEmpty (reg ?w) \<Longrightarrow> tlStats (reg ?w) = []" using D(10) by simp
qed


lemma race_inv_completed:
  assumes I: "race_inv w" and l: "completePendingLink (reg w) = Inr l"
  shows "race_inv (w\<lparr>reg := l\<rparr>)" "set (tlStats l) = set (members w)"
proof -
  note D = race_invD[OF I]
  have d: "distinct (tlStats (reg w) @ linkPending (reg w))" using D(7) by (simp add: members_def)
  have L: "tlStats l = tlStats (reg w) @ linkPending (reg w)" "linkPending l = []"
    "tlStatsEmpty l = (if tlStats (reg w) = [] \<and> linkPending (reg w) \<noteq> [] then False else tlStatsEmpty (reg w))"
    using complete_ok[OF d] l by simp_all
  let ?w = "w\<lparr>reg := l\<rparr>"
  have m: "members ?w = members w" "set (tlStats (reg w)) \<subseteq> set (tlStats l)"
    using L by (auto simp: members_def)
  have m3: "tlStatsEmpty l \<Longrightarrow> tlStats l = []"
    unfolding L using D(10) by (cases "linkPending (reg w)") (auto split: if_splits)
  show "race_inv ?w"
  proof (rule race_invI)
    show "distinct (members ?w)" "set (members ?w) = tagged ?w \<union> {s. \<exists>i. pushed (pcs ?w i) = Some s}"
      unfolding m(1) using D(7,8) by simp_all
    show "j = k" if "subject (pcs ?w j) = Some t" "subject (pcs ?w k) = Some t" for j k t
      using that D(4) by simp
    show "t \<in> set (tlStats (reg ?w))" if "pcs ?w j = UErase t" for j t
      using that D(9)[of j t] m(2) by auto
  qed (use D(1-3,5,6) m3 in simp_all)
  show "set (tlStats l) = set (members w)" using L by (simp add: members_def)
qed

lemma complete_total:
  assumes "race_inv w" obtains l where "completePendingLink (reg w) = Inr l"
  using race_invD(7)[OF assms] complete_ok[of "reg w"] that by (simp add: members_def)

lemma race_inv_complete_step:
  assumes I: "race_inv w" and h: "mutex w = Some i" "holdsM p" and pl: "plock w = None"
    and s: "subject p = subject (pcs w i)" "linking p = linking (pcs w i)" "unlinking p = unlinking (pcs w i)"
    and p: "pushed p = None"
  shows "race_inv (finish (completePendingLink (reg w)) (w\<lparr>pcs := (pcs w)(i := p)\<rparr>))"
proof -
  obtain l where l: "completePendingLink (reg w) = Inr l" using complete_total[OF I] .
  note C = race_inv_completed[OF I l] and D = race_invD[OF I]
  have np: "pushed (pcs w j) = None" for j using D(3)[of j] pl by simp
  have m: "set (tlStats l) = tagged w" using C(2) D(8) np by simp
  have "race_inv ((w\<lparr>reg := l\<rparr>)\<lparr>mutex := Some i, pcs := (pcs (w\<lparr>reg := l\<rparr>))(i := p)\<rparr>)"
  proof (rule race_inv_pc[OF C(1)])
    show "t \<in> set (tlStats (reg (w\<lparr>reg := l\<rparr>)))" if "p = UErase t" for t
      using that s(3) D(6)[of i t] m by simp
  qed (use s D(5,6)[of i] p np h in auto)
  moreover have "(w\<lparr>reg := l\<rparr>)\<lparr>mutex := Some i, pcs := (pcs (w\<lparr>reg := l\<rparr>))(i := p)\<rparr> =
      finish (completePendingLink (reg w)) (w\<lparr>pcs := (pcs w)(i := p)\<rparr>)"
    using h(1) l by (simp add: finish_def)
  ultimately show ?thesis by simp
qed

lemma race_inv_push:
  assumes I: "race_inv w" and i: "pcs w i = LDefer s" "plock w = None"
  shows "race_inv (w\<lparr>plock := Some i, reg := push_only s (reg w), pcs := (pcs w)(i := LPushed s b)\<rparr>)"
proof (rule race_invI)
  note D = race_invD[OF I]
  let ?w = "w\<lparr>plock := Some i, reg := push_only s (reg w), pcs := (pcs w)(i := LPushed s b)\<rparr>"
  have np: "pushed (pcs w j) = None" for j using D(3)[of j] i by simp
  have s: "s \<notin> tagged w" using D(5)[of i s] i by simp
  have m: "set (members w) = tagged w" using D(8) np by simp
  show "\<not> failed ?w" using D(1) by simp
  show "holdsM (pcs ?w j) \<longleftrightarrow> mutex ?w = Some j" for j using D(2)[of j] i by (auto split: if_splits)
  show "pushed (pcs ?w j) \<noteq> None \<longleftrightarrow> plock ?w = Some j" for j using np by auto
  show "j = k" if "subject (pcs ?w j) = Some t" "subject (pcs ?w k) = Some t" for j k t
  proof -
    have "subject (pcs ?w x) = subject (pcs w x)" for x using i by simp
    with that show ?thesis using D(4)[of j t k] by metis
  qed
  show "t \<notin> tagged ?w" if "linking (pcs ?w j) = Some t" for j t
    using that s D(5)[of j t] by (auto split: if_splits)
  show "t \<in> tagged ?w" if "unlinking (pcs ?w j) = Some t" for j t
    using that D(6)[of j t] by (auto split: if_splits)
  show "distinct (members ?w)" using D(7) m s by (auto simp: members_def push_only_def)
  have "(\<exists>j. pushed (pcs ?w j) = Some t) \<longleftrightarrow> t = s" for t using np by auto
  then show "set (members ?w) = tagged ?w \<union> {s. \<exists>i. pushed (pcs ?w i) = Some s}"
    using m by (auto simp: members_def push_only_def)
  show "t \<in> set (tlStats (reg ?w))" if "pcs ?w j = UErase t" for j t
    using that D(9)[of j t] by (auto simp: push_only_def split: if_splits)
  show "tlStatsEmpty (reg ?w) \<Longrightarrow> tlStats (reg ?w) = []" using D(10) by (simp add: push_only_def)
qed

lemma race_inv_flag:
  assumes I: "race_inv w" and i: "pcs w i = LPushed s b"
  shows "race_inv (w\<lparr>plock := None, tagged := insert s (tagged w),
           reg := (if b then (reg w)\<lparr>tlStatsEmpty := False\<rparr> else reg w), pcs := (pcs w)(i := RIdle)\<rparr>)"
proof (rule race_invI)
  note D = race_invD[OF I]
  let ?w = "w\<lparr>plock := None, tagged := insert s (tagged w),
           reg := (if b then (reg w)\<lparr>tlStatsEmpty := False\<rparr> else reg w), pcs := (pcs w)(i := RIdle)\<rparr>"
  have pl: "plock w = Some i" using D(3)[of i] i by simp
  have np: "j \<noteq> i \<Longrightarrow> pushed (pcs w j) = None" for j using D(3)[of j] pl by auto
  have u: "subject (pcs w j) = Some s \<Longrightarrow> j = i" for j using D(4)[of j s i] i by simp
  have m: "set (members w) = insert s (tagged w)"
  proof -
    have "{t. \<exists>j. pushed (pcs w j) = Some t} = {s}"
      using i np by (auto, metis option.discI option.sel pushed.simps(1), metis pushed.simps(1))
    then show ?thesis using D(8) by simp
  qed
  show "\<not> failed ?w" using D(1) by simp
  show "holdsM (pcs ?w j) \<longleftrightarrow> mutex ?w = Some j" for j using D(2)[of j] i by (auto split: if_splits)
  show "pushed (pcs ?w j) \<noteq> None \<longleftrightarrow> plock ?w = Some j" for j using np by auto
  show "j = k" if "subject (pcs ?w j) = Some t" "subject (pcs ?w k) = Some t" for j k t
    using that D(4)[of j t k] by (auto split: if_splits)
  show "t \<notin> tagged ?w" if "linking (pcs ?w j) = Some t" for j t
    using that u[of j] linking_subject(1)[of "pcs w j" t] D(5)[of j t] by (auto split: if_splits)
  show "t \<in> tagged ?w" if "unlinking (pcs ?w j) = Some t" for j t
    using that D(6)[of j t] by (auto split: if_splits)
  show "distinct (members ?w)" using D(7) by (simp add: members_def)
  have "{t. \<exists>j. pushed (pcs ?w j) = Some t} = {}" using np by auto
  then show "set (members ?w) = tagged ?w \<union> {s. \<exists>i. pushed (pcs ?w i) = Some s}"
    using m by (simp add: members_def)
  show "t \<in> set (tlStats (reg ?w))" if "pcs ?w j = UErase t" for j t
    using that D(9)[of j t] by (auto split: if_splits)
  show "tlStatsEmpty (reg ?w) \<Longrightarrow> tlStats (reg ?w) = []" using D(10) by (auto split: if_splits)
qed


lemma finish_registry:
  "finish (Inr l) (w\<lparr>mutex := m, tagged := T, pcs := p\<rparr>) = w\<lparr>reg := l, mutex := m, tagged := T, pcs := p\<rparr>"
  by (simp add: finish_def)

lemma race_inv_registry:
  assumes I: "race_inv w" and h: "mutex w = Some i"
    and T: "\<And>j t. j \<noteq> i \<Longrightarrow> linking (pcs w j) = Some t \<Longrightarrow> t \<notin> T"
      "\<And>j t. j \<noteq> i \<Longrightarrow> unlinking (pcs w j) = Some t \<Longrightarrow> t \<in> T"
    and l: "distinct (tlStats l @ linkPending l)"
      "set (tlStats l @ linkPending l) = T \<union> {s. \<exists>i. pushed (pcs w i) = Some s}"
      "tlStatsEmpty l \<Longrightarrow> tlStats l = []"
  shows "race_inv (w\<lparr>reg := l, mutex := None, tagged := T, pcs := (pcs w)(i := RIdle)\<rparr>)"
proof (rule race_invI)
  note D = race_invD[OF I]
  let ?w = "w\<lparr>reg := l, mutex := None, tagged := T, pcs := (pcs w)(i := RIdle)\<rparr>"
  have hi: "holdsM (pcs w i)" "\<And>j. j \<noteq> i \<Longrightarrow> \<not> holdsM (pcs w j)" using D(2) h by auto
  then have pi: "pushed (pcs w i) = None" by (cases "pcs w i") simp_all
  show "\<not> failed ?w" using D(1) by simp
  show "holdsM (pcs ?w j) \<longleftrightarrow> mutex ?w = Some j" for j using hi(2) by simp
  show "pushed (pcs ?w j) \<noteq> None \<longleftrightarrow> plock ?w = Some j" for j using D(3)[of j] pi by (cases "j = i") auto
  show "j = k" if "subject (pcs ?w j) = Some t" "subject (pcs ?w k) = Some t" for j k t
    using that D(4)[of j t k] by (auto split: if_splits)
  show "t \<notin> tagged ?w" if "linking (pcs ?w j) = Some t" for j t
    using that T(1)[of j t] by (auto split: if_splits)
  show "t \<in> tagged ?w" if "unlinking (pcs ?w j) = Some t" for j t
    using that T(2)[of j t] by (auto split: if_splits)
  show "distinct (members ?w)" using l(1) by (simp add: members_def)
  have "{t. \<exists>j. pushed (pcs ?w j) = Some t} = {t. \<exists>j. pushed (pcs w j) = Some t}"
    using pi by (auto split: if_splits) (metis option.discI)
  then show "set (members ?w) = tagged ?w \<union> {s. \<exists>i. pushed (pcs ?w i) = Some s}"
    using l(2) by (simp add: members_def)
  show "t \<in> set (tlStats (reg ?w))" if "pcs ?w j = UErase t" for j t
    using that hi(2)[of j] by (auto split: if_splits)
  show "tlStatsEmpty (reg ?w) \<Longrightarrow> tlStats (reg ?w) = []" using l(3) by simp
qed

lemma other_subject:
  assumes "race_inv w" "subject (pcs w i) = Some s" "j \<noteq> i"
  shows "linking (pcs w j) \<noteq> Some s" "unlinking (pcs w j) \<noteq> Some s" "pushed (pcs w j) \<noteq> Some s"
  using assms race_invD(4)[OF assms(1), of i s j] linking_subject by metis+

lemma race_inv_insert:
  assumes I: "race_inv w" and i: "pcs w i = LIns s"
  shows "race_inv (finish (register_stat s (reg w))
           (w\<lparr>mutex := None, tagged := insert s (tagged w), pcs := (pcs w)(i := RIdle)\<rparr>))"
proof -
  note D = race_invD[OF I]
  have h: "mutex w = Some i" using D(2)[of i] i by simp
  have s: "s \<notin> tagged w" using D(5)[of i s] i by simp
  have o: "subject (pcs w i) = Some s" using i by simp
  have np: "pushed (pcs w j) \<noteq> Some s" for j using other_subject(3)[OF I o, of j] i by (cases "j = i") auto
  have ns: "s \<notin> set (members w)" using D(8) s np by auto
  let ?l = "(reg w)\<lparr>tlStats := tlStats (reg w) @ [s],
     tlStatsEmpty := (if length (tlStats (reg w) @ [s]) = 1 then False else tlStatsEmpty (reg w))\<rparr>"
  have "register_stat s (reg w) = Inr ?l" using ns by (simp add: register_stat_def members_def)
  moreover have "race_inv (w\<lparr>reg := ?l, mutex := None, tagged := insert s (tagged w), pcs := (pcs w)(i := RIdle)\<rparr>)"
  proof (rule race_inv_registry[OF I h])
    show "t \<notin> insert s (tagged w)" if "j \<noteq> i" "linking (pcs w j) = Some t" for j t
      using that D(5)[of j t] other_subject(1)[OF I o, of j] by auto
    show "t \<in> insert s (tagged w)" if "j \<noteq> i" "unlinking (pcs w j) = Some t" for j t
      using that D(6)[of j t] by auto
    show "distinct (tlStats ?l @ linkPending ?l)" using D(7) ns by (auto simp: members_def)
    show "set (tlStats ?l @ linkPending ?l) = insert s (tagged w) \<union> {s. \<exists>i. pushed (pcs w i) = Some s}"
      using D(8) by (simp add: members_def)
    show "tlStatsEmpty ?l \<Longrightarrow> tlStats ?l = []" using D(10) by (auto split: if_splits)
  qed
  ultimately show ?thesis by (simp only: finish_registry)
qed

lemma race_inv_erase:
  assumes I: "race_inv w" and i: "pcs w i = UErase s"
  shows "race_inv (finish (unregister_stat s (reg w))
           (w\<lparr>mutex := None, tagged := tagged w - {s}, pcs := (pcs w)(i := RIdle)\<rparr>))"
proof -
  note D = race_invD[OF I]
  have h: "mutex w = Some i" using D(2)[of i] i by simp
  have s: "s \<in> set (tlStats (reg w))" using D(9)[OF i] .
  have o: "subject (pcs w i) = Some s" using i by simp
  have np: "pushed (pcs w j) \<noteq> Some s" for j using other_subject(3)[OF I o, of j] i by (cases "j = i") auto
  let ?t = "filter (\<lambda>x. x \<noteq> s) (tlStats (reg w))"
  let ?l = "(reg w)\<lparr>tlStats := ?t, tlStatsEmpty := (if length ?t = 0 then True else tlStatsEmpty (reg w))\<rparr>"
  have "unregister_stat s (reg w) = Inr ?l" using s by (simp add: unregister_stat_def Let_def)
  moreover have "race_inv (w\<lparr>reg := ?l, mutex := None, tagged := tagged w - {s}, pcs := (pcs w)(i := RIdle)\<rparr>)"
  proof (rule race_inv_registry[OF I h])
    show "t \<notin> tagged w - {s}" if "j \<noteq> i" "linking (pcs w j) = Some t" for j t
      using that D(5)[of j t] by auto
    show "t \<in> tagged w - {s}" if "j \<noteq> i" "unlinking (pcs w j) = Some t" for j t
      using that D(6)[of j t] other_subject(2)[OF I o, of j] by auto
    show "distinct (tlStats ?l @ linkPending ?l)" using D(7) by (auto simp: members_def)
    have "s \<notin> set (linkPending (reg w))" using D(7) s by (auto simp: members_def)
    then have "set (tlStats ?l @ linkPending ?l) = set (members w) - {s}" by (auto simp: members_def)
    also have "\<dots> = (tagged w - {s}) \<union> {s. \<exists>i. pushed (pcs w i) = Some s}" using D(8) np by auto
    finally show "set (tlStats ?l @ linkPending ?l) = (tagged w - {s}) \<union> {s. \<exists>i. pushed (pcs w i) = Some s}" .
    have "\<not> tlStatsEmpty (reg w)" using D(10) s by force
    then show "tlStatsEmpty ?l \<Longrightarrow> tlStats ?l = []" by (simp split: if_splits)
  qed
  ultimately show ?thesis by (simp only: finish_registry)
qed

lemma race_inv_pc_only:
  assumes "race_inv w" "pcs w i = q" "pushed q = None" "pushed p = None" "holdsM p = holdsM q" "\<And>s. p \<noteq> UErase s"
    "\<And>s. subject p = Some s \<Longrightarrow> subject q = Some s \<or> (\<forall>j. subject (pcs w j) \<noteq> Some s)"
    "\<And>s. linking p = Some s \<Longrightarrow> s \<notin> tagged w" "\<And>s. unlinking p = Some s \<Longrightarrow> s \<in> tagged w"
  shows "race_inv (w\<lparr>pcs := (pcs w)(i := p)\<rparr>)"
proof -
  have "race_inv (w\<lparr>mutex := mutex w, pcs := (pcs w)(i := p)\<rparr>)"
    by (rule race_inv_pc[OF assms(1)]) (use assms(2-9) race_invD(2)[OF assms(1), of i] in auto)
  then show ?thesis by simp
qed

lemma race_step_inv: "race_step w w' \<Longrightarrow> race_inv w \<Longrightarrow> race_inv w'"
proof (induction rule: race_step.induct)
  case (link_locked w i s)
  then show ?case by (intro race_inv_pc) auto
next
  case (link_deferred w i s)
  then show ?case by (intro race_inv_pc_only[of w i RIdle]) auto
next
  case (link_push w i s)
  then show ?case by (intro race_inv_push)
next
  case (link_flag w i s one)
  then show ?case by (intro race_inv_flag)
next
  case (link_complete w i s)
  then show ?case using race_invD(2)[OF link_complete(3), of i] by (intro race_inv_complete_step) auto
next
  case (link_insert w i s)
  then show ?case by (intro race_inv_insert)
next
  case (unlink_call w i s)
  then show ?case by (intro race_inv_pc_only[of w i RIdle]) auto
next
  case (unlink_locked w i s)
  then show ?case using race_invD(6)[OF unlink_locked(3), of i s] by (intro race_inv_pc) auto
next
  case (unlink_complete w i s)
  then show ?case using race_invD(2)[OF unlink_complete(3), of i] by (intro race_inv_complete_step) auto
next
  case (unlink_erase w i s)
  then show ?case by (intro race_inv_erase)
next
  case (agg_call w i)
  then show ?case by (intro race_inv_pc_only[of w i RIdle]) auto
next
  case (agg_locked w i)
  then show ?case by (intro race_inv_pc) auto
next
  case (agg_complete w i)
  then show ?case using race_invD(2)[OF agg_complete(3), of i] by (intro race_inv_complete_step) auto
next
  case (agg_done w i)
  then show ?case using race_invD(2)[OF agg_done(2), of i] by (intro race_inv_pc) auto
qed

lemma race_reach_inv: "race_reach w \<Longrightarrow> race_inv w"
proof (induction rule: race_reach.induct)
  case race_start
  show ?case by (rule race_invI) (auto simp: race0_def members_def)
qed (rule race_step_inv)


definition quiescent :: "race \<Rightarrow> bool" where
  "quiescent w \<longleftrightarrow> (\<forall>i. pcs w i = RIdle)"

text \<open>
  C16: Every interleaving of \<open>link\<close>, \<open>unlink\<close> and \<open>aggregate\<close> is safe: no registration \<open>CHECK\<close> ever fails, no
  stat is registered or pending twice, the registry mutex has one holder, a container that says it is
  empty has no registered stat, and when all calls have returned the registered and pending stats are
  exactly the linked ones.
\<close>
theorem registry_race_safe:
  assumes "race_reach w"
  shows "\<not> failed w \<and> distinct (tlStats (reg w) @ linkPending (reg w)) \<and>
    (\<forall>i j. holdsM (pcs w i) \<and> holdsM (pcs w j) \<longrightarrow> i = j) \<and>
    (tlStatsEmpty (reg w) \<longrightarrow> tlStats (reg w) = []) \<and>
    (quiescent w \<longrightarrow> set (tlStats (reg w) @ linkPending (reg w)) = tagged w)"
proof -
  note D = race_invD[OF race_reach_inv[OF assms]]
  have "set (members w) = tagged w" if "quiescent w" using that D(8) by (simp add: quiescent_def)
  moreover have "holdsM (pcs w i) \<Longrightarrow> holdsM (pcs w j) \<Longrightarrow> i = j" for i j using D(2)[of i] D(2)[of j] by simp
  ultimately show ?thesis using D(1,7,10) unfolding members_def by blast
qed

text \<open>Two threads, for the schedule below.\<close>

definition pc2 :: "rpc \<Rightarrow> rpc \<Rightarrow> nat \<Rightarrow> rpc" where
  "pc2 p q i = (if i = 0 then p else if i = 1 then q else RIdle)"

lemma pc2_simps [simp]: "(pc2 p q)(0 := r) = pc2 r q" "(pc2 p q)(1 := r) = pc2 p r" "(pc2 p q)(Suc 0 := r) = pc2 p r"
  "pc2 p q 0 = p" "pc2 p q 1 = q" "pc2 p q (Suc 0) = q"
  by (auto simp: pc2_def fun_eq_iff)

lemma pc2_fresh: "subject p \<noteq> Some s \<Longrightarrow> subject q \<noteq> Some s \<Longrightarrow> subject (pc2 p q j) \<noteq> Some s"
  by (simp add: pc2_def)

definition two :: "sid list \<Rightarrow> sid list \<Rightarrow> bool \<Rightarrow> nat option \<Rightarrow> nat option \<Rightarrow> rpc \<Rightarrow> rpc \<Rightarrow> sid set \<Rightarrow> race" where
  "two ts pend flag m pl p q T = \<lparr>reg = \<lparr>refCount = 1, container = True, updateGlobalStatsOnRead = True,
     tlStats = ts, linkPending = pend, tlStatsEmpty = flag\<rparr>, mutex = m, plock = pl, pcs = pc2 p q,
     tagged = T, failed = False\<rparr>"

lemma two_start: "race0 = two [] [] True None None RIdle RIdle {}"
  by (simp add: race0_def two_def pc2_def fun_eq_iff)

lemma stale_schedule: "race_reach (two [] [2] True None None RIdle RIdle {2})"
proof -
  note R = race_reach.race_next
  have "race_reach (two [] [] True None None RIdle RIdle {})" using race_start unfolding two_start .
  from R[OF this link_locked[of _ 0 1]] have "race_reach (two [] [] True (Some 0) None (LGot 1) RIdle {})"
    by (simp add: two_def pc2_def)
  from R[OF this link_complete[of _ 0 1]] have "race_reach (two [] [] True (Some 0) None (LIns 1) RIdle {})"
    by (simp add: two_def completePendingLink_def finish_def)
  from R[OF this link_insert[of _ 0 1]] have "race_reach (two [1] [] False None None RIdle RIdle {1})"
    by (simp add: two_def register_stat_def finish_def)
  from R[OF this unlink_call[of _ 0 1]] have "race_reach (two [1] [] False None None (UWait 1) RIdle {1})"
    by (simp add: two_def pc2_def)
  from R[OF this unlink_locked[of _ 0 1]] have "race_reach (two [1] [] False (Some 0) None (UGot 1) RIdle {1})"
    by (simp add: two_def)
  from R[OF this unlink_complete[of _ 0 1]] have "race_reach (two [1] [] False (Some 0) None (UErase 1) RIdle {1})"
    by (simp add: two_def completePendingLink_def finish_def)
  from R[OF this link_deferred[of _ 1 2]] have "race_reach (two [1] [] False (Some 0) None (UErase 1) (LDefer 2) {1})"
    by (simp add: two_def pc2_def)
  from R[OF this link_push[of _ 1 2]]
  have "race_reach (two [1] [2] False (Some 0) (Some 1) (UErase 1) (LPushed 2 True) {1})"
    by (simp add: two_def push_only_def)
  from R[OF this link_flag[of _ 1 2 True]] have "race_reach (two [1] [2] False (Some 0) None (UErase 1) RIdle {1, 2})"
    by (simp add: two_def insert_commute)
  from R[OF this unlink_erase[of _ 0 1]] show "race_reach (two [] [2] True None None RIdle RIdle {2})"
    by (simp add: two_def unregister_stat_def finish_def insert_Diff_if)
qed

theorem registry_race_safe_witness:
  "\<not> failed (two [] [2] True None None RIdle RIdle {2}) \<and>
   set (linkPending (reg (two [] [2] True None None RIdle RIdle {2}))) = {2}"
  using registry_race_safe[OF stale_schedule] by (simp add: two_def quiescent_def pc2_def)

text \<open>
  But the emptiness flag can go stale. There is a reachable state in which every call has returned, a
  linked stat waits in the pending list, and \<open>tlStatsEmpty_\<close> is true: \<open>unlink\<close> of the last registered
  stat stores true after a deferred \<open>link\<close> has stored false. In that state \<open>aggregate\<close> returns
  zero without visiting the stat.
\<close>
theorem stale_empty_flag_reachable:
  "\<exists>w. race_reach w \<and> quiescent w \<and> tlStatsEmpty (reg w) \<and> linkPending (reg w) = [2] \<and> tagged w = {2} \<and>
     aggregate (\<lambda>u n p g. ((), g)) 2 \<lparr>links = [2 \<mapsto> reg w], stats = Map.empty, globals = ()\<rparr> =
       Inr (0, \<lparr>links = [2 \<mapsto> reg w], stats = Map.empty, globals = ()\<rparr>)"
  by (rule exI[of _ "two [] [2] True None None RIdle RIdle {2}"])
    (use stale_schedule in \<open>simp add: quiescent_def two_def pc2_def aggregate_def get_link_def\<close>)

end
