(* ===== verification/NameSet.thy ===== *)
theory NameSet
  imports Fb303_Prelude
begin

unbundle bit_operations_syntax

text \<open>
  The set of interned stat names, \<open>TLStatNameSet::Impl\<close> of \<^verbatim>\<open>fb303/ThreadLocalStats.cpp\<close>: a vector of
  locked hash sets of weak pointers, whose keys are read through the raw object pointer of a weak pointer
  that may have expired. Every action below is the code of one thread between two points where another
  thread can interfere: one section under a set's lock, one change of a strong count, one \<open>delete\<close>. Strings
  live at addresses, which the allocator may hand out again after a \<open>delete\<close>; control blocks are numbered in
  the order of their creation and are kept, as a weak pointer keeps the block that it observes.
\<close>

section \<open>Strings, control blocks and sets\<close>

record ctl_block =
  cobj :: nat      \<comment> \<open>the address of the managed string\<close>
  strong :: nat    \<comment> \<open>how many \<open>shared_ptr\<close>s there are\<close>

record key =
  object :: nat
  control :: nat

record name_set =
  strs :: "nat \<rightharpoonup> string"
  ctls :: "ctl_block list"
  sets :: "key list list"
  dying :: "nat list"     \<comment> \<open>the deleter runs and has not entered \<open>clean\<close> yet\<close>
  cleaned :: "nat list"   \<comment> \<open>\<open>clean\<close> has returned, \<open>delete\<close> is to come\<close>

datatype ns_error = ReadAfterFree | AssertionFailed | DoubleFree

definition name_set0 :: "nat \<Rightarrow> name_set" where
  "name_set0 n = \<lparr>strs = Map.empty, ctls = [], sets = replicate n [], dying = [], cleaned = []\<rparr>"

definition set_index :: "(string \<Rightarrow> uint64) \<Rightarrow> name_set \<Rightarrow> string \<Rightarrow> nat" where
  "set_index hash s name = unat (hash name AND (of_nat (length (sets s)) - 1))"

text \<open>
  \<open>Set::find\<close>. Which keys a hash set compares with, and whether it hashes all of them again, is up to the set:
  every key of it must be readable.
\<close>

fun find_key :: "(nat \<rightharpoonup> string) \<Rightarrow> string \<Rightarrow> key list \<Rightarrow> ns_error + key option" where
  "find_key h name [] = Inr None"
| "find_key h name (e # es) =
     (case h (object e) of
        None \<Rightarrow> Inl ReadAfterFree
      | Some k \<Rightarrow>
          (case find_key h name es of
             Inl err \<Rightarrow> Inl err
           | Inr r \<Rightarrow> Inr (if k = name then Some e else r)))"

definition set_strong :: "nat \<Rightarrow> nat \<Rightarrow> name_set \<Rightarrow> name_set" where
  "set_strong c k s = s\<lparr>ctls := (ctls s)[c := (ctls s ! c)\<lparr>strong := k\<rparr>]\<rparr>"

definition weak_lock :: "nat \<Rightarrow> name_set \<Rightarrow> name_set option" where
  "weak_lock c s = (let k = strong (ctls s ! c) in if k = 0 then None else Some (set_strong c (Suc k) s))"

section \<open>Operations\<close>

definition clean :: "(string \<Rightarrow> uint64) \<Rightarrow> nat \<Rightarrow> name_set \<Rightarrow> ns_error + name_set" where
  "clean hash p s =
     (case strs s p of
        None \<Rightarrow> Inl ReadAfterFree
      | Some name \<Rightarrow>
          let i = set_index hash s name in
          (case find_key (strs s) name (sets s ! i) of
             Inl err \<Rightarrow> Inl err
           | Inr None \<Rightarrow> Inr s
           | Inr (Some e) \<Rightarrow>
               if object e = p
               then if weak_lock (control e) s \<noteq> None then Inl AssertionFailed
                    else Inr (s\<lparr>sets := (sets s)[i := remove1 e (sets s ! i)]\<rparr>)
               else Inr s))"

definition add_string :: "nat \<Rightarrow> string \<Rightarrow> nat \<Rightarrow> key list \<Rightarrow> name_set \<Rightarrow> nat \<times> name_set" where
  "add_string p name i es s =
     (let c = length (ctls s) in
      (c, s\<lparr>strs := (strs s)(p \<mapsto> name), ctls := ctls s @ [\<lparr>cobj = p, strong = 1\<rparr>],
            sets := (sets s)[i := \<lparr>object = p, control = c\<rparr> # es]\<rparr>))"

definition getSlow :: "(string \<Rightarrow> uint64) \<Rightarrow> nat \<Rightarrow> string \<Rightarrow> name_set \<Rightarrow> ns_error + (nat \<times> name_set)" where
  "getSlow hash p name s =
     (let i = set_index hash s name; es = sets s ! i in
      case find_key (strs s) name es of
        Inl err \<Rightarrow> Inl err
      | Inr None \<Rightarrow> Inr (add_string p name i es s)
      | Inr (Some e) \<Rightarrow>
          (case weak_lock (control e) s of
             Some s' \<Rightarrow> Inr (control e, s')
           | None \<Rightarrow> Inr (add_string p name i (remove1 e es) s)))"

definition getFast :: "(string \<Rightarrow> uint64) \<Rightarrow> string \<Rightarrow> name_set \<Rightarrow> ns_error + (nat option \<times> name_set)" where
  "getFast hash name s =
     (case find_key (strs s) name (sets s ! set_index hash s name) of
        Inl err \<Rightarrow> Inl err
      | Inr None \<Rightarrow> Inr (None, s)
      | Inr (Some e) \<Rightarrow>
          (case weak_lock (control e) s of
             Some s' \<Rightarrow> Inr (Some (control e), s')
           | None \<Rightarrow> Inr (None, s)))"

text \<open>\<open>get\<close> with no other thread between its two halves; \<open>p\<close> is where the allocator would put a new string.\<close>

definition get_name :: "(string \<Rightarrow> uint64) \<Rightarrow> nat \<Rightarrow> string \<Rightarrow> name_set \<Rightarrow> ns_error + (nat \<times> name_set)" where
  "get_name hash p name s =
     (case getFast hash name s of
        Inl err \<Rightarrow> Inl err
      | Inr (Some c, s') \<Rightarrow> Inr (c, s')
      | Inr (None, s') \<Rightarrow> getSlow hash p name s')"

text \<open>What the users of the returned \<open>shared_ptr\<close>s do with them, and the two halves of \<open>SpDeleter\<close>.\<close>

definition sp_copy :: "nat \<Rightarrow> name_set \<Rightarrow> name_set" where
  "sp_copy c s = set_strong c (Suc (strong (ctls s ! c))) s"

definition sp_release :: "nat \<Rightarrow> name_set \<Rightarrow> name_set" where
  "sp_release c s =
     (let k = strong (ctls s ! c) - 1; s' = set_strong c k s in
      if k = 0 then s'\<lparr>dying := c # dying s'\<rparr> else s')"

definition deleter_clean :: "(string \<Rightarrow> uint64) \<Rightarrow> nat \<Rightarrow> name_set \<Rightarrow> ns_error + name_set" where
  "deleter_clean hash c s =
     (case clean hash (cobj (ctls s ! c)) s of
        Inl err \<Rightarrow> Inl err
      | Inr s' \<Rightarrow> Inr (s'\<lparr>dying := remove1 c (dying s'), cleaned := c # cleaned s'\<rparr>))"

definition deleter_delete :: "nat \<Rightarrow> name_set \<Rightarrow> ns_error + name_set" where
  "deleter_delete c s =
     (case strs s (cobj (ctls s ! c)) of
        None \<Rightarrow> Inl DoubleFree
      | Some name \<Rightarrow> Inr (s\<lparr>strs := (strs s)(cobj (ctls s ! c) := None), cleaned := remove1 c (cleaned s)\<rparr>))"

section \<open>Runs\<close>

datatype ns_act =
    GetFast string
  | GetSlow nat string
  | Copy nat
  | Release nat
  | Clean nat
  | Delete nat

text \<open>
  An action another thread can take now: the allocator returns free addresses, a pointer is copied or
  dropped by somebody who holds it, and the deleter runs once for each string.
\<close>

fun ns_enabled :: "ns_act \<Rightarrow> name_set \<Rightarrow> bool" where
  "ns_enabled (GetFast name) s = True"
| "ns_enabled (GetSlow p name) s = (strs s p = None)"
| "ns_enabled (Copy c) s = (c < length (ctls s) \<and> 0 < strong (ctls s ! c))"
| "ns_enabled (Release c) s = (c < length (ctls s) \<and> 0 < strong (ctls s ! c))"
| "ns_enabled (Clean c) s = (c \<in> set (dying s))"
| "ns_enabled (Delete c) s = (c \<in> set (cleaned s))"

fun ns_exec :: "(string \<Rightarrow> uint64) \<Rightarrow> ns_act \<Rightarrow> name_set \<Rightarrow> ns_error + name_set" where
  "ns_exec hash (GetFast name) s = map_sum id snd (getFast hash name s)"
| "ns_exec hash (GetSlow p name) s = map_sum id snd (getSlow hash p name s)"
| "ns_exec hash (Copy c) s = Inr (sp_copy c s)"
| "ns_exec hash (Release c) s = Inr (sp_release c s)"
| "ns_exec hash (Clean c) s = deleter_clean hash c s"
| "ns_exec hash (Delete c) s = deleter_delete c s"

fun ns_run :: "(string \<Rightarrow> uint64) \<Rightarrow> ns_act list \<Rightarrow> name_set \<Rightarrow> ns_error + name_set" where
  "ns_run hash [] s = Inr s"
| "ns_run hash (a # as) s =
     (if ns_enabled a s then (case ns_exec hash a s of Inl err \<Rightarrow> Inl err | Inr s' \<Rightarrow> ns_run hash as s') else ns_run hash as s)"

inductive ns_reach :: "(string \<Rightarrow> uint64) \<Rightarrow> nat \<Rightarrow> name_set \<Rightarrow> bool" for hash n where
  ns_start: "ns_reach hash n (name_set0 n)"
| ns_next: "ns_reach hash n s \<Longrightarrow> ns_enabled a s \<Longrightarrow> ns_exec hash a s = Inr s' \<Longrightarrow> ns_reach hash n s'"

section \<open>The invariant\<close>

definition sp_owned :: "name_set \<Rightarrow> nat \<Rightarrow> bool" where
  "sp_owned s c \<longleftrightarrow> c < length (ctls s) \<and> (0 < strong (ctls s ! c) \<or> c \<in> set (dying s) \<union> set (cleaned s))"

definition key_ok :: "(string \<Rightarrow> uint64) \<Rightarrow> name_set \<Rightarrow> nat \<Rightarrow> key \<Rightarrow> bool" where
  "key_ok hash s i e \<longleftrightarrow>
     control e < length (ctls s) \<and> object e = cobj (ctls s ! control e) \<and>
     (0 < strong (ctls s ! control e) \<or> control e \<in> set (dying s)) \<and>
     (\<exists>name. strs s (object e) = Some name \<and> set_index hash s name = i)"

definition keys_ok :: "(string \<Rightarrow> uint64) \<Rightarrow> name_set \<Rightarrow> nat \<Rightarrow> bool" where
  "keys_ok hash s i \<longleftrightarrow>
     distinct (map (\<lambda>e. strs s (object e)) (sets s ! i)) \<and> (\<forall>e \<in> set (sets s ! i). key_ok hash s i e)"

definition listed :: "(string \<Rightarrow> uint64) \<Rightarrow> name_set \<Rightarrow> nat \<Rightarrow> bool" where
  "listed hash s c \<longleftrightarrow>
     (\<exists>name. strs s (cobj (ctls s ! c)) = Some name \<and>
             \<lparr>object = cobj (ctls s ! c), control = c\<rparr> \<in> set (sets s ! set_index hash s name))"

definition ns_inv :: "(string \<Rightarrow> uint64) \<Rightarrow> name_set \<Rightarrow> bool" where
  "ns_inv hash s \<longleftrightarrow>
     sets s \<noteq> [] \<and> length (sets s) < 2 ^ 64 \<and>
     (\<forall>i < length (sets s). keys_ok hash s i) \<and>
     (\<forall>c < length (ctls s). 0 < strong (ctls s ! c) \<longrightarrow> listed hash s c) \<and>
     distinct (dying s @ cleaned s) \<and>
     (\<forall>c \<in> set (dying s @ cleaned s).
        c < length (ctls s) \<and> strong (ctls s ! c) = 0 \<and> strs s (cobj (ctls s ! c)) \<noteq> None) \<and>
     (\<forall>c c'. sp_owned s c \<longrightarrow> sp_owned s c' \<longrightarrow> cobj (ctls s ! c) = cobj (ctls s ! c') \<longrightarrow> c = c') \<and>
     (\<forall>p. strs s p \<noteq> None \<longrightarrow> (\<exists>c. sp_owned s c \<and> cobj (ctls s ! c) = p))"

lemma set_index_less:
  assumes "sets s \<noteq> []" "length (sets s) < 2 ^ 64"
  shows "set_index hash s name < length (sets s)"
proof -
  let ?n = "of_nat (length (sets s)) :: uint64"
  have n: "unat ?n = length (sets s)" using assms(2) by (simp add: unat_of_nat)
  have "unat (hash name AND (?n - 1)) \<le> unat (?n - 1)"
    using word_and_le1 word_le_nat_alt by blast
  also have "unat (?n - 1) = length (sets s) - 1"
    using assms n by (metis unat_minus_one length_0_conv unat_eq_zero)
  finally show ?thesis using assms(1) by (cases "sets s") (auto simp: set_index_def)
qed

lemma find_key_ok:
  "(\<forall>e \<in> set es. h (object e) \<noteq> None) \<Longrightarrow>
   find_key h name es = Inr (List.find (\<lambda>e. h (object e) = Some name) es)"
  by (induction es) (auto split: option.splits)

lemma nth_update_if: "xs[c := x] ! j = (if c < length xs \<and> j = c then x else xs ! j)"
  by (cases "c < length xs") (auto simp: nth_list_update list_update_beyond)

lemma set_strong_sel [simp]:
  "strs (set_strong c k s) = strs s" "sets (set_strong c k s) = sets s"
  "dying (set_strong c k s) = dying s" "cleaned (set_strong c k s) = cleaned s"
  "length (ctls (set_strong c k s)) = length (ctls s)"
  "set_index hash (set_strong c k s) = set_index hash s"
  by (simp_all add: set_strong_def set_index_def fun_eq_iff)

lemma set_strong_block [simp]:
  "cobj (ctls (set_strong c k s) ! j) = cobj (ctls s ! j)"
  "c < length (ctls s) \<Longrightarrow> strong (ctls (set_strong c k s) ! j) = (if j = c then k else strong (ctls s ! j))"
  by (simp_all add: set_strong_def nth_update_if)

lemma ns_invD:
  assumes "ns_inv hash s"
  shows "\<And>name. set_index hash s name < length (sets s)"
    "\<And>i. i < length (sets s) \<Longrightarrow> keys_ok hash s i"
    "\<And>c. c < length (ctls s) \<Longrightarrow> 0 < strong (ctls s ! c) \<Longrightarrow> listed hash s c"
    "distinct (dying s @ cleaned s)"
    "\<And>c. c \<in> set (dying s @ cleaned s) \<Longrightarrow>
       c < length (ctls s) \<and> strong (ctls s ! c) = 0 \<and> strs s (cobj (ctls s ! c)) \<noteq> None"
    "\<And>c c'. sp_owned s c \<Longrightarrow> sp_owned s c' \<Longrightarrow> cobj (ctls s ! c) = cobj (ctls s ! c') \<Longrightarrow> c = c'"
    "\<And>p. strs s p \<noteq> None \<Longrightarrow> \<exists>c. sp_owned s c \<and> cobj (ctls s ! c) = p"
  using assms set_index_less unfolding ns_inv_def by blast+

lemma keys_okD:
  assumes "ns_inv hash s" "e \<in> set (sets s ! i)" "i < length (sets s)"
  shows "control e < length (ctls s)" "object e = cobj (ctls s ! control e)"
    "0 < strong (ctls s ! control e) \<or> control e \<in> set (dying s)"
    "\<exists>name. strs s (object e) = Some name \<and> set_index hash s name = i" "sp_owned s (control e)"
  using ns_invD(2)[OF assms(1,3)] assms(2) unfolding keys_ok_def key_ok_def sp_owned_def by blast+

lemma find_ns:
  assumes "ns_inv hash s" "es = sets s ! set_index hash s name"
  obtains (absent) "find_key (strs s) name es = Inr None" "\<forall>e \<in> set es. strs s (object e) \<noteq> Some name"
  | (found) e where "find_key (strs s) name es = Inr (Some e)" "e \<in> set es" "strs s (object e) = Some name"
proof -
  let ?P = "\<lambda>e. strs s (object e) = Some name"
  have f: "find_key (strs s) name es = Inr (List.find ?P es)"
    using keys_okD(4)[OF assms(1) _ ns_invD(1)[OF assms(1)]] assms(2) by (intro find_key_ok) fastforce
  show ?thesis
  proof (cases "List.find ?P es")
    case None
    with f show ?thesis by (intro absent) (auto simp: find_None_iff)
  next
    case (Some e)
    then have "e \<in> set es \<and> ?P e" by (metis (mono_tags, lifting) find_Some_iff nth_mem)
    with f Some show ?thesis by (intro found[of e]) auto
  qed
qed

lemma ns_inv_strong:
  assumes "ns_inv hash s" "c < length (ctls s)" "0 < strong (ctls s ! c)" "0 < k"
  shows "ns_inv hash (set_strong c k s)"
proof -
  let ?s = "set_strong c k s"
  have pos: "0 < strong (ctls ?s ! j) \<longleftrightarrow> 0 < strong (ctls s ! j)" for j using assms by auto
  have "sp_owned ?s = sp_owned s" unfolding sp_owned_def pos by simp
  moreover have "keys_ok hash ?s = keys_ok hash s" unfolding keys_ok_def key_ok_def pos by simp
  moreover have "listed hash ?s = listed hash s" unfolding listed_def by simp
  moreover have "c \<notin> set (dying s @ cleaned s)" using ns_invD(5)[OF assms(1)] assms(3) by fastforce
  ultimately show ?thesis using assms(1) unfolding ns_inv_def pos using assms(2) by auto
qed

lemma ns_inv_expire:
  assumes "ns_inv hash s" "c < length (ctls s)" "0 < strong (ctls s ! c)"
  shows "ns_inv hash ((set_strong c 0 s)\<lparr>dying := c # dying s\<rparr>)"
proof -
  let ?s = "(set_strong c 0 s)\<lparr>dying := c # dying s\<rparr>"
  note inv = ns_invD[OF assms(1)]
  have own: "sp_owned ?s = sp_owned s" using assms(2,3) by (auto simp: sp_owned_def fun_eq_iff)
  have "keys_ok hash ?s i" if "i < length (sets s)" for i
    using inv(2)[OF that] assms(2,3) by (auto simp: keys_ok_def key_ok_def set_index_def)
  moreover have "listed hash ?s j" if "j < length (ctls s)" "j \<noteq> c" "0 < strong (ctls s ! j)" for j
    using inv(3)[OF that(1,3)] by (simp add: listed_def set_index_def)
  moreover have "c \<notin> set (dying s @ cleaned s)" using inv(5) assms(3) by fastforce
  moreover have "strs s (cobj (ctls s ! c)) \<noteq> None" using inv(3)[OF assms(2,3)] by (auto simp: listed_def)
  ultimately show ?thesis using assms(1,2) unfolding ns_inv_def own by auto
qed

lemma owned_str: "ns_inv hash s \<Longrightarrow> sp_owned s c \<Longrightarrow> strs s (cobj (ctls s ! c)) \<noteq> None"
  using ns_invD(3,5)[of hash s c] unfolding sp_owned_def listed_def by fastforce

lemma names_distinct: "ns_inv hash s \<Longrightarrow> i < length (sets s) \<Longrightarrow> distinct (map (\<lambda>e. strs s (object e)) (sets s ! i))"
  using ns_invD(2) unfolding keys_ok_def by blast

lemma erase_key:
  assumes "ns_inv hash s" "i < length (sets s)"
  shows "set (remove1 e (sets s ! i)) = set (sets s ! i) - {e}"
    "distinct (map (\<lambda>e. strs s (object e)) (remove1 e (sets s ! i)))"
proof -
  from names_distinct[OF assms] have d: "distinct (map (\<lambda>e. strs s (object e)) (sets s ! i))" .
  then have "distinct (sets s ! i)" by (simp add: distinct_map)
  then show "set (remove1 e (sets s ! i)) = set (sets s ! i) - {e}" by simp
  with d \<open>distinct (sets s ! i)\<close> show "distinct (map (\<lambda>e. strs s (object e)) (remove1 e (sets s ! i)))"
    by (auto simp: distinct_map intro: inj_on_subset)
qed

lemma ns_inv_add:
  assumes "ns_inv hash s" "strs s p = None" "i = set_index hash s name"
    and es: "distinct (map (\<lambda>e. strs s (object e)) es)" "set es \<subseteq> set (sets s ! i)"
    and fresh: "\<forall>e \<in> set es. strs s (object e) \<noteq> Some name"
    and live: "\<forall>e \<in> set (sets s ! i). 0 < strong (ctls s ! control e) \<longrightarrow> e \<in> set es"
  shows "ns_inv hash (snd (add_string p name i es s))"
proof -
  let ?s = "snd (add_string p name i es s)" and ?n = "length (ctls s)"
  note inv = ns_invD[OF assms(1)]
  have sel: "strs ?s = (strs s)(p \<mapsto> name)" "ctls ?s = ctls s @ [\<lparr>cobj = p, strong = 1\<rparr>]"
    "sets ?s = (sets s)[i := \<lparr>object = p, control = ?n\<rparr> # es]" "dying ?s = dying s" "cleaned ?s = cleaned s"
    "set_index hash ?s = set_index hash s"
    by (simp_all add: add_string_def set_index_def fun_eq_iff Let_def)
  have i: "i < length (sets s)" using inv(1) assms(3) by simp
  have notp: "cobj (ctls s ! c) \<noteq> p" if "sp_owned s c" for c
    using owned_str[OF assms(1) that] assms(2) by auto
  have own: "sp_owned ?s c \<longleftrightarrow> sp_owned s c \<or> c = ?n" for c
    using inv(5) by (auto simp: sp_owned_def sel nth_append)
  have less: "sp_owned s c \<Longrightarrow> c < ?n" for c by (simp add: sp_owned_def)
  have old: "strs ?s (object e) = strs s (object e)" "control e < ?n" if "e \<in> set (sets s ! j)" "j < length (sets s)" for e j
    using keys_okD[OF assms(1) that] notp[of "control e"] by (auto simp: sel)
  have key: "key_ok hash ?s j e" if "e \<in> set (sets s ! j)" "j < length (sets s)" for e j
    using keys_okD[OF assms(1) that] old[OF that] unfolding key_ok_def by (simp add: sel nth_append)
  have keys: "keys_ok hash ?s j" if j: "j < length (sets s)" for j
  proof (cases "j = i")
    case False
    have m: "map (\<lambda>e. strs ?s (object e)) (sets s ! j) = map (\<lambda>e. strs s (object e)) (sets s ! j)"
      using old(1)[OF _ j] by simp
    have "distinct (map (\<lambda>e. strs ?s (object e)) (sets s ! j))"
      unfolding m by (rule names_distinct[OF assms(1) j])
    with False key[OF _ j] show ?thesis unfolding keys_ok_def by (simp add: sel(3))
  next
    case True
    have sub: "e \<in> set (sets s ! i)" if "e \<in> set es" for e using that es(2) by blast
    have m: "map (\<lambda>e. strs ?s (object e)) es = map (\<lambda>e. strs s (object e)) es"
      using old(1)[OF sub i] by simp
    have "Some name \<notin> set (map (\<lambda>e. strs s (object e)) es)" using fresh by auto
    with es(1) have "distinct (Some name # map (\<lambda>e. strs ?s (object e)) es)" unfolding m by simp
    moreover have "strs ?s p = Some name" by (simp add: sel(1))
    ultimately have "distinct (map (\<lambda>e. strs ?s (object e)) (sets ?s ! i))" using i by (simp add: sel(3))
    moreover have "key_ok hash ?s i \<lparr>object = p, control = ?n\<rparr>"
      unfolding key_ok_def by (simp add: sel assms(3)[symmetric])
    ultimately show ?thesis
      using True i key[OF sub i] unfolding keys_ok_def by (simp add: sel(3))
  qed
  have lst: "listed hash ?s c" if "c < ?n" "0 < strong (ctls s ! c)" for c
  proof -
    from inv(3)[OF that] obtain nm where nm: "strs s (cobj (ctls s ! c)) = Some nm"
      "\<lparr>object = cobj (ctls s ! c), control = c\<rparr> \<in> set (sets s ! set_index hash s nm)"
      unfolding listed_def by blast
    have "cobj (ctls s ! c) \<noteq> p" using notp that by (simp add: sp_owned_def)
    with nm live that show ?thesis unfolding listed_def
      by (auto simp: sel nth_append nth_update_if)
  qed
  have "listed hash ?s ?n" using i unfolding listed_def by (simp add: sel assms(3)[symmetric])
  with lst have "\<forall>c < length (ctls ?s). 0 < strong (ctls ?s ! c) \<longrightarrow> listed hash ?s c"
    by (auto simp: sel nth_append less_Suc_eq)
  moreover have "\<forall>c c'. sp_owned ?s c \<longrightarrow> sp_owned ?s c' \<longrightarrow> cobj (ctls ?s ! c) = cobj (ctls ?s ! c') \<longrightarrow> c = c'"
    using inv(6) notp less unfolding own by (auto simp: sel nth_append)
  moreover have "\<forall>q. strs ?s q \<noteq> None \<longrightarrow> (\<exists>c. sp_owned ?s c \<and> cobj (ctls ?s ! c) = q)"
  proof (intro allI impI)
    fix q assume q: "strs ?s q \<noteq> None"
    show "\<exists>c. sp_owned ?s c \<and> cobj (ctls ?s ! c) = q"
    proof (cases "q = p")
      case True
      then show ?thesis by (intro exI[of _ ?n]) (simp add: own sel)
    next
      case False
      with q inv(7)[of q] less show ?thesis unfolding own by (fastforce simp: sel nth_append)
    qed
  qed
  moreover have "\<forall>c \<in> set (dying s @ cleaned s).
      c < length (ctls ?s) \<and> strong (ctls ?s ! c) = 0 \<and> strs ?s (cobj (ctls ?s ! c)) \<noteq> None"
    using inv(5) by (fastforce simp: sel nth_append)
  ultimately show ?thesis using assms(1) keys unfolding ns_inv_def by (simp add: sel)
qed

lemma ns_inv_erase:
  assumes "ns_inv hash s" "i < length (sets s)" "strong (ctls s ! control e) = 0"
  shows "ns_inv hash (s\<lparr>sets := (sets s)[i := remove1 e (sets s ! i)]\<rparr>)"
proof -
  let ?s = "s\<lparr>sets := (sets s)[i := remove1 e (sets s ! i)]\<rparr>"
  note inv = ns_invD[OF assms(1)] and er = erase_key[OF assms(1,2)]
  have ix: "set_index hash ?s = set_index hash s" by (simp add: set_index_def fun_eq_iff)
  have key: "key_ok hash ?s = key_ok hash s" by (simp add: key_ok_def ix fun_eq_iff)
  have "keys_ok hash ?s j" if "j < length (sets s)" for j
    using inv(2)[OF that] er(2) that assms(2) unfolding keys_ok_def key
    by (cases "j = i") (simp_all add: er(1))
  moreover have "listed hash ?s c" if "c < length (ctls s)" "0 < strong (ctls s ! c)" for c
    using inv(3)[OF that] that assms(3) er(1) unfolding listed_def ix by (auto simp: nth_update_if)
  moreover have "sp_owned ?s = sp_owned s" by (simp add: sp_owned_def fun_eq_iff)
  ultimately show ?thesis using assms(1) unfolding ns_inv_def by simp
qed

lemma ns_inv_move:
  assumes "ns_inv hash s" "c \<in> set (dying s)"
    and unlisted: "\<And>i e. i < length (sets s) \<Longrightarrow> e \<in> set (sets s ! i) \<Longrightarrow> control e \<noteq> c"
  shows "ns_inv hash (s\<lparr>dying := remove1 c (dying s), cleaned := c # cleaned s\<rparr>)"
proof -
  let ?s = "s\<lparr>dying := remove1 c (dying s), cleaned := c # cleaned s\<rparr>"
  note inv = ns_invD[OF assms(1)]
  have d: "set (remove1 c (dying s)) = set (dying s) - {c}" "distinct (remove1 c (dying s))"
    using inv(4) by simp_all
  have ix: "set_index hash ?s = set_index hash s" by (simp add: set_index_def fun_eq_iff)
  have "sp_owned ?s = sp_owned s" using assms(2) d(1) by (auto simp: sp_owned_def fun_eq_iff)
  moreover have "keys_ok hash ?s i" if "i < length (sets s)" for i
    using inv(2)[OF that] unlisted[OF that] d(1) unfolding keys_ok_def key_ok_def ix by auto
  moreover have "listed hash ?s = listed hash s" unfolding listed_def ix by (simp add: fun_eq_iff)
  moreover have "distinct (dying ?s @ cleaned ?s)" using inv(4) assms(2) d by auto
  moreover have "set (dying ?s @ cleaned ?s) = set (dying s @ cleaned s)" using assms(2) d by auto
  ultimately show ?thesis using assms(1) unfolding ns_inv_def by auto
qed

lemma ns_inv_delete:
  assumes "ns_inv hash s" "c \<in> set (cleaned s)"
  shows "ns_inv hash (s\<lparr>strs := (strs s)(cobj (ctls s ! c) := None), cleaned := remove1 c (cleaned s)\<rparr>)"
proof -
  let ?p = "cobj (ctls s ! c)"
  let ?s = "s\<lparr>strs := (strs s)(?p := None), cleaned := remove1 c (cleaned s)\<rparr>"
  note inv = ns_invD[OF assms(1)]
  have ix: "set_index hash ?s = set_index hash s" by (simp add: set_index_def fun_eq_iff)
  have d: "set (remove1 c (cleaned s)) = set (cleaned s) - {c}" "distinct (remove1 c (cleaned s))" "c \<notin> set (dying s)"
    using inv(4) assms(2) by auto
  have c: "c < length (ctls s)" "strong (ctls s ! c) = 0" "sp_owned s c"
    using inv(5)[of c] assms(2) by (auto simp: sp_owned_def)
  have own: "sp_owned ?s j \<longleftrightarrow> sp_owned s j \<and> j \<noteq> c" for j
    using c(2) d(1,3) by (cases "j = c") (simp_all add: sp_owned_def)
  have other: "cobj (ctls s ! j) \<noteq> ?p" if "sp_owned s j" "j \<noteq> c" for j using inv(6)[OF that(1) c(3)] that(2) by blast
  have key: "object e \<noteq> ?p" if "e \<in> set (sets s ! i)" "i < length (sets s)" for e i
  proof
    assume p: "object e = ?p"
    note k = keys_okD[OF assms(1) that]
    from k(2,5) p other[of "control e"] have "control e = c" by auto
    with k(3) c(2) d(3) show False by simp
  qed
  have "keys_ok hash ?s i" if "i < length (sets s)" for i
    using inv(2)[OF that] key[OF _ that] unfolding keys_ok_def key_ok_def ix by (auto cong: map_cong)
  moreover have "listed hash ?s j" if "j < length (ctls s)" "0 < strong (ctls s ! j)" for j
  proof -
    have "cobj (ctls s ! j) \<noteq> ?p" using other[of j] that c(2) by (cases "j = c") (auto simp: sp_owned_def)
    with inv(3)[OF that] show ?thesis unfolding listed_def ix by simp
  qed
  moreover have "strs s (cobj (ctls s ! j)) \<noteq> None \<and> cobj (ctls s ! j) \<noteq> ?p \<and> j < length (ctls s) \<and> strong (ctls s ! j) = 0"
    if "j \<in> set (dying s @ remove1 c (cleaned s))" for j
    using inv(5)[of j] other[of j] that d by (auto simp: sp_owned_def)
  moreover have "\<exists>j. sp_owned ?s j \<and> cobj (ctls s ! j) = q" if "strs ?s q \<noteq> None" for q
    using inv(7)[of q] that unfolding own by (auto split: if_splits)
  ultimately show ?thesis using assms(1) d inv(6) unfolding ns_inv_def own by auto
qed

lemma ns_inv0: "n \<noteq> 0 \<Longrightarrow> n < 2 ^ 64 \<Longrightarrow> ns_inv hash (name_set0 n)"
  by (simp add: ns_inv_def name_set0_def keys_ok_def sp_owned_def)

section \<open>Every action is safe and keeps the invariant\<close>

lemma weak_lock_inv:
  "ns_inv hash s \<Longrightarrow> c < length (ctls s) \<Longrightarrow> weak_lock c s = Some s' \<Longrightarrow> ns_inv hash s'"
  by (auto simp: weak_lock_def Let_def split: if_splits intro: ns_inv_strong)

lemma getFast_inv:
  assumes "ns_inv hash s"
  shows "\<exists>r s'. getFast hash name s = Inr (r, s') \<and> ns_inv hash s'"
proof (cases rule: find_ns[OF assms refl, of name, case_names absent found])
  case absent
  with assms show ?thesis by (simp add: getFast_def)
next
  case (found e)
  with keys_okD(1)[OF assms found(2) ns_invD(1)[OF assms]] assms show ?thesis
    by (auto simp: getFast_def split: option.split intro: weak_lock_inv)
qed

lemma getSlow_inv:
  assumes "ns_inv hash s" "strs s p = None"
  shows "\<exists>c s'. getSlow hash p name s = Inr (c, s') \<and> ns_inv hash s'"
proof -
  let ?i = "set_index hash s name" and ?es = "sets s ! set_index hash s name"
  note i = ns_invD(1)[OF assms(1), of name]
  show ?thesis
  proof (cases rule: find_ns[OF assms(1) refl, of name, case_names absent found])
    case absent
    then have "ns_inv hash (snd (add_string p name ?i ?es s))"
      using assms by (intro ns_inv_add) (auto intro: names_distinct i)
    with absent show ?thesis by (simp add: getSlow_def) (metis prod.collapse)
  next
    case (found e)
    note k = keys_okD[OF assms(1) found(2) i]
    show ?thesis
    proof (cases "weak_lock (control e) s")
      case (Some s')
      with found weak_lock_inv[OF assms(1) k(1) Some] show ?thesis by (simp add: getSlow_def)
    next
      case None
      then have z: "strong (ctls s ! control e) = 0" by (auto simp: weak_lock_def Let_def split: if_splits)
      have "\<forall>e' \<in> set (remove1 e ?es). strs s (object e') \<noteq> Some name"
        using found names_distinct[OF assms(1) i] erase_key(1)[OF assms(1) i]
        by (metis (no_types, lifting) Diff_iff distinct_map_eqD insertI1)
      then have "ns_inv hash (snd (add_string p name ?i (remove1 e ?es) s))"
        using assms z by (intro ns_inv_add) (auto simp: erase_key[OF assms(1) i])
      with found None show ?thesis by (simp add: getSlow_def) (metis prod.collapse)
    qed
  qed
qed

lemma clean_inv:
  assumes "ns_inv hash s" "c \<in> set (dying s)"
  shows "\<exists>s'. deleter_clean hash c s = Inr s' \<and> ns_inv hash s'"
proof -
  let ?p = "cobj (ctls s ! c)"
  note inv = ns_invD[OF assms(1)]
  have c: "c < length (ctls s)" "strong (ctls s ! c) = 0" "sp_owned s c"
    using inv(5)[of c] assms(2) by (auto simp: sp_owned_def)
  obtain name where name: "strs s ?p = Some name" using owned_str[OF assms(1) c(3)] by blast
  let ?i = "set_index hash s name"
  have own: "i = ?i \<and> object e = ?p \<and> strs s (object e) = Some name"
    if "i < length (sets s)" "e \<in> set (sets s ! i)" "control e = c" for i e
    using keys_okD[OF assms(1) that(2,1)] that(3) name by auto
  show ?thesis
  proof (cases rule: find_ns[OF assms(1) refl, of name, case_names absent found])
    case absent
    with own have "ns_inv hash (s\<lparr>dying := remove1 c (dying s), cleaned := c # cleaned s\<rparr>)"
      by (intro ns_inv_move assms) blast
    with absent name show ?thesis by (simp add: deleter_clean_def clean_def)
  next
    case (found e)
    note k = keys_okD[OF assms(1) found(2) inv(1)]
    show ?thesis
    proof (cases "object e = ?p")
      case True
      with k(2,5) c(3) inv(6) have ec: "control e = c" by metis
      let ?s = "s\<lparr>sets := (sets s)[?i := remove1 e (sets s ! ?i)]\<rparr>"
      have "ns_inv hash ?s" using assms(1) inv(1) c ec by (intro ns_inv_erase) simp_all
      moreover have "control e' \<noteq> c" if "i < length (sets ?s)" "e' \<in> set (sets ?s ! i)" for i e'
      proof
        assume c': "control e' = c"
        from that have "i < length (sets s)" "e' \<in> set (sets s ! i)" and n: "i = ?i \<Longrightarrow> e' \<noteq> e"
          using erase_key(1)[OF assms(1) inv(1)] by (auto simp: nth_update_if split: if_splits)
        then have "i = ?i" "strs s (object e') = strs s (object e)" "e' \<in> set (sets s ! ?i)"
          using own[of i e'] c' found by auto
        with found(2) names_distinct[OF assms(1) inv(1)] n show False by (metis (no_types, lifting) distinct_map_eqD)
      qed
      ultimately have "ns_inv hash (?s\<lparr>dying := remove1 c (dying ?s), cleaned := c # cleaned ?s\<rparr>)"
        using assms(2) by (intro ns_inv_move) simp_all
      with True found name ec c show ?thesis by (simp add: deleter_clean_def clean_def weak_lock_def Let_def)
    next
      case False
      have "control e' \<noteq> c" if "i < length (sets s)" "e' \<in> set (sets s ! i)" for i e'
        using own[OF that] that(2) found False names_distinct[OF assms(1) inv(1)]
        by (metis (no_types, lifting) distinct_map_eqD)
      then have "ns_inv hash (s\<lparr>dying := remove1 c (dying s), cleaned := c # cleaned s\<rparr>)"
        by (intro ns_inv_move assms) blast
      with found False name show ?thesis by (simp add: deleter_clean_def clean_def)
    qed
  qed
qed

lemma delete_inv:
  assumes "ns_inv hash s" "c \<in> set (cleaned s)"
  shows "\<exists>s'. deleter_delete c s = Inr s' \<and> ns_inv hash s'"
  using ns_inv_delete[OF assms] ns_invD(5)[OF assms(1), of c] assms(2) by (auto simp: deleter_delete_def)

lemma release_inv:
  assumes "ns_inv hash s" "c < length (ctls s)" "0 < strong (ctls s ! c)"
  shows "ns_inv hash (sp_release c s)"
  using ns_inv_expire[OF assms] ns_inv_strong[OF assms] by (auto simp: sp_release_def Let_def)

lemma ns_exec_inv:
  assumes "ns_inv hash s" "ns_enabled a s"
  shows "\<exists>s'. ns_exec hash a s = Inr s' \<and> ns_inv hash s'"
proof (cases a)
  case (GetFast name)
  with getFast_inv[OF assms(1), of name] show ?thesis by auto
next
  case (GetSlow p name)
  with getSlow_inv[OF assms(1), of p name] assms(2) show ?thesis by auto
next
  case (Copy c)
  with assms ns_inv_strong[of hash s c] show ?thesis by (simp add: sp_copy_def)
next
  case (Release c)
  with assms release_inv show ?thesis by simp
next
  case (Clean c)
  with assms clean_inv show ?thesis by simp
next
  case (Delete c)
  with assms delete_inv show ?thesis by simp
qed

lemma ns_reach_inv: "ns_reach hash n s \<Longrightarrow> n \<noteq> 0 \<Longrightarrow> n < 2 ^ 64 \<Longrightarrow> ns_inv hash s"
  by (induction rule: ns_reach.induct) (auto simp: ns_inv0 dest: ns_exec_inv)

section \<open>The set it appears to be\<close>

text \<open>
  What the class promises: a set of \<open>shared_ptr<string>\<close> indexed by the strings, that is the number of
  pointers to each name in use. \<open>clean\<close> and \<open>delete\<close> do nothing to it.
\<close>

definition live_refs :: "name_set \<Rightarrow> string \<rightharpoonup> nat" where
  "live_refs s =
     map_of (map (\<lambda>c. (the (strs s (cobj (ctls s ! c))), strong (ctls s ! c)))
                 (filter (\<lambda>c. 0 < strong (ctls s ! c)) [0..<length (ctls s)]))"

datatype ns_spec_op = SpecGet string | SpecTry string | SpecDrop string | SpecTau

fun ns_spec :: "ns_spec_op \<Rightarrow> (string \<rightharpoonup> nat) \<Rightarrow> (string \<rightharpoonup> nat)" where
  "ns_spec (SpecGet name) m = m(name \<mapsto> (case m name of None \<Rightarrow> 1 | Some k \<Rightarrow> Suc k))"
| "ns_spec (SpecTry name) m = (case m name of None \<Rightarrow> m | Some k \<Rightarrow> m(name \<mapsto> Suc k))"
| "ns_spec (SpecDrop name) m =
     (case m name of None \<Rightarrow> m | Some k \<Rightarrow> m(name := if k = 1 then None else Some (k - 1)))"
| "ns_spec SpecTau m = m"

definition on_name :: "(string \<Rightarrow> ns_spec_op) \<Rightarrow> nat \<Rightarrow> name_set \<Rightarrow> ns_spec_op" where
  "on_name f c s = (case strs s (cobj (ctls s ! c)) of None \<Rightarrow> SpecTau | Some name \<Rightarrow> f name)"

fun ns_label :: "name_set \<Rightarrow> ns_act \<Rightarrow> ns_spec_op" where
  "ns_label s (GetFast name) = SpecTry name"
| "ns_label s (GetSlow p name) = SpecGet name"
| "ns_label s (Copy c) = on_name SpecTry c s"
| "ns_label s (Release c) = on_name SpecDrop c s"
| "ns_label s (Clean c) = SpecTau"
| "ns_label s (Delete c) = SpecTau"

definition live_as :: "name_set \<Rightarrow> string \<Rightarrow> nat \<Rightarrow> nat \<Rightarrow> bool" where
  "live_as s name k c \<longleftrightarrow> c < length (ctls s) \<and> strong (ctls s ! c) = k \<and> 0 < k \<and> strs s (cobj (ctls s ! c)) = Some name"

lemma live_listed:
  assumes "ns_inv hash s" "live_as s name k c"
  shows "\<lparr>object = cobj (ctls s ! c), control = c\<rparr> \<in> set (sets s ! set_index hash s name)"
  using ns_invD(3)[OF assms(1), of c] assms(2) by (auto simp: live_as_def listed_def)

lemma same_name_same_key:
  assumes "ns_inv hash s" "e \<in> set (sets s ! set_index hash s name)" "e' \<in> set (sets s ! set_index hash s name)"
    "strs s (object e) = strs s (object e')"
  shows "e = e'"
  using distinct_map_eqD[OF names_distinct[OF assms(1) ns_invD(1)[OF assms(1)]] assms(2,3)] assms(4) .

lemma live_unique:
  assumes "ns_inv hash s" "live_as s name k c" "live_as s name k' c'"
  shows "c = c' \<and> k = k'"
  using same_name_same_key[OF assms(1) live_listed[OF assms(1,2)] live_listed[OF assms(1,3)]] assms(2,3)
  by (auto simp: live_as_def)

lemma live_has_name:
  assumes "ns_inv hash s" "c < length (ctls s)" "0 < strong (ctls s ! c)"
  obtains name where "live_as s name (strong (ctls s ! c)) c"
  using ns_invD(3)[OF assms] assms(2,3) by (auto simp: live_as_def listed_def)

lemma live_refs_iff:
  assumes "ns_inv hash s"
  shows "live_refs s name = Some k \<longleftrightarrow> (\<exists>c. live_as s name k c)"
proof -
  let ?f = "\<lambda>c. (the (strs s (cobj (ctls s ! c))), strong (ctls s ! c))"
  let ?cs = "filter (\<lambda>c. 0 < strong (ctls s ! c)) [0..<length (ctls s)]"
  have at: "fst (?f c) = nm \<longleftrightarrow> live_as s nm (strong (ctls s ! c)) c" if "c \<in> set ?cs" for c nm
    using that by (auto simp: live_as_def elim!: live_has_name[OF assms, of c])
  have "inj_on (\<lambda>c. fst (?f c)) (set ?cs)"
  proof (rule inj_onI)
    fix c c' assume "c \<in> set ?cs" "c' \<in> set ?cs" "fst (?f c) = fst (?f c')"
    with at[of c "fst (?f c')"] at[of c' "fst (?f c')"] show "c = c'" using live_unique[OF assms] by blast
  qed
  then have "distinct (map fst (map ?f ?cs))" by (simp add: distinct_map o_def)
  then have "live_refs s name = Some k \<longleftrightarrow> (name, k) \<in> set (map ?f ?cs)"
    unfolding live_refs_def by (rule map_of_eq_Some_iff)
  also have "\<dots> \<longleftrightarrow> (\<exists>c \<in> set ?cs. fst (?f c) = name \<and> strong (ctls s ! c) = k)" by force
  also have "\<dots> \<longleftrightarrow> (\<exists>c. live_as s name k c)"
    using at by (auto simp: live_as_def)
  finally show ?thesis .
qed

lemma live_refs_eqI:
  assumes "ns_inv hash s" "\<And>name k. m name = Some k \<longleftrightarrow> (\<exists>c. live_as s name k c)"
  shows "live_refs s = m"
proof
  fix name
  show "live_refs s name = m name" by (rule option.expand[rule_format])
     (metis (no_types, lifting) live_refs_iff[OF assms(1)] assms(2) not_None_eq option.sel)+
qed

lemma live_refs_key:
  assumes "ns_inv hash s" "e \<in> set (sets s ! set_index hash s name)" "strs s (object e) = Some name"
  shows "live_refs s name = (let k = strong (ctls s ! control e) in if k = 0 then None else Some k)"
proof -
  note k = keys_okD[OF assms(1,2) ns_invD(1)[OF assms(1)]]
  have "live_as s name k c \<longleftrightarrow> c = control e \<and> k = strong (ctls s ! control e) \<and> 0 < k" for k c
    using same_name_same_key[OF assms(1) live_listed[OF assms(1)] assms(2)] k(1,2) assms(3)
    by (fastforce simp: live_as_def)
  then show ?thesis using live_refs_iff[OF assms(1), of name]
    by (cases "live_refs s name") (auto simp: Let_def)
qed

lemma live_refs_absent:
  assumes "ns_inv hash s" "\<forall>e \<in> set (sets s ! set_index hash s name). strs s (object e) \<noteq> Some name"
  shows "live_refs s name = None"
proof (rule ccontr)
  assume "live_refs s name \<noteq> None"
  then obtain k c where "live_as s name k c" using live_refs_iff[OF assms(1)] by blast
  with live_listed[OF assms(1) this] assms(2) show False by (auto simp: live_as_def)
qed

lemma live_refs_strong:
  assumes "ns_inv hash s" "live_as s name j c" "0 < k"
  shows "live_refs (set_strong c k s) = (live_refs s)(name \<mapsto> k)"
proof (rule live_refs_eqI)
  show "ns_inv hash (set_strong c k s)" using assms by (intro ns_inv_strong) (auto simp: live_as_def)
  fix nm i
  have "live_as (set_strong c k s) nm i d \<longleftrightarrow> (if d = c then nm = name \<and> i = k else live_as s nm i d)" for d
    using assms(2,3) by (auto simp: live_as_def)
  moreover have "\<not> live_as s name i d" if "d \<noteq> c" for d using live_unique[OF assms(1,2), of i d] that by blast
  moreover have "live_as s nm i c \<Longrightarrow> nm = name" using assms(2) by (simp add: live_as_def)
  ultimately show "((live_refs s)(name \<mapsto> k)) nm = Some i \<longleftrightarrow> (\<exists>d. live_as (set_strong c k s) nm i d)"
    by (auto simp: live_refs_iff[OF assms(1)]) metis+
qed

lemma live_refs_expire:
  assumes "ns_inv hash s" "live_as s name j c"
  shows "live_refs ((set_strong c 0 s)\<lparr>dying := c # dying s\<rparr>) = (live_refs s)(name := None)"
proof (rule live_refs_eqI)
  let ?s = "(set_strong c 0 s)\<lparr>dying := c # dying s\<rparr>"
  show "ns_inv hash ?s" using assms by (intro ns_inv_expire) (auto simp: live_as_def)
  fix nm i
  have "live_as ?s nm i d \<longleftrightarrow> d \<noteq> c \<and> live_as s nm i d" for d
    using assms(2) by (auto simp: live_as_def)
  moreover have "\<not> live_as s name i d" if "d \<noteq> c" for d using live_unique[OF assms, of i d] that by blast
  moreover have "live_as s nm i c \<Longrightarrow> nm = name" using assms(2) by (simp add: live_as_def)
  ultimately show "((live_refs s)(name := None)) nm = Some i \<longleftrightarrow> (\<exists>d. live_as ?s nm i d)"
    by (auto simp: live_refs_iff[OF assms(1)]) metis+
qed

lemma live_refs_add:
  assumes "ns_inv hash s" "strs s p = None" "live_refs s name = None"
    and "ns_inv hash (snd (add_string p name i es s))"
  shows "live_refs (snd (add_string p name i es s)) = (live_refs s)(name \<mapsto> 1)"
proof (rule live_refs_eqI[OF assms(4)])
  let ?s = "snd (add_string p name i es s)"
  fix nm j
  have "live_as ?s nm j d \<longleftrightarrow> (if d = length (ctls s) then nm = name \<and> j = 1 else live_as s nm j d)" for d
    using owned_str[OF assms(1), of d] assms(2)
    by (cases "d < length (ctls s)") (auto simp: live_as_def add_string_def Let_def nth_append sp_owned_def)
  moreover have "\<not> live_as s nm j (length (ctls s))" by (simp add: live_as_def)
  moreover have "\<not> live_as s name j d" for d using assms(3) live_refs_iff[OF assms(1), of name j] by auto
  ultimately show "((live_refs s)(name \<mapsto> 1)) nm = Some j \<longleftrightarrow> (\<exists>d. live_as ?s nm j d)"
    by (auto simp: live_refs_iff[OF assms(1)]) metis+
qed

lemma live_refs_delete:
  assumes "ns_inv hash s" "c \<in> set (cleaned s)"
  shows "live_refs (s\<lparr>strs := (strs s)(cobj (ctls s ! c) := None), cleaned := remove1 c (cleaned s)\<rparr>) = live_refs s"
proof (rule live_refs_eqI[OF ns_inv_delete[OF assms]])
  fix nm j
  have own: "sp_owned s c" "strong (ctls s ! c) = 0"
    using ns_invD(5)[OF assms(1), of c] assms(2) by (auto simp: sp_owned_def)
  then have "0 < strong (ctls s ! d) \<Longrightarrow> d < length (ctls s) \<Longrightarrow> cobj (ctls s ! d) \<noteq> cobj (ctls s ! c)" for d
    using ns_invD(6)[OF assms(1), of d c] by (auto simp: sp_owned_def)
  then show "live_refs s nm = Some j \<longleftrightarrow>
      (\<exists>d. live_as (s\<lparr>strs := (strs s)(cobj (ctls s ! c) := None), cleaned := remove1 c (cleaned s)\<rparr>) nm j d)"
    by (auto simp: live_refs_iff[OF assms(1)] live_as_def)
qed

lemma getFast_refines:
  assumes "ns_inv hash s" "getFast hash name s = Inr (r, s')"
  shows "live_refs s' = ns_spec (SpecTry name) (live_refs s)"
proof (cases rule: find_ns[OF assms(1) refl, of name, case_names absent found])
  case absent
  with assms live_refs_absent[OF assms(1) absent(2)] show ?thesis by (simp add: getFast_def)
next
  case (found e)
  note k = keys_okD[OF assms(1) found(2) ns_invD(1)[OF assms(1)]]
  have "0 < strong (ctls s ! control e) \<Longrightarrow> live_as s name (strong (ctls s ! control e)) (control e)"
    using k found(3) by (simp add: live_as_def)
  with live_refs_strong[OF assms(1), of name "strong (ctls s ! control e)" "control e"]
    assms(2) found(1) live_refs_key[OF assms(1) found(2,3)]
  show ?thesis by (auto simp: getFast_def weak_lock_def Let_def split: if_splits)
qed

lemma getFast_live:
  assumes "ns_inv hash s" "getFast hash name s = Inr (Some c, s')"
  shows "live_refs s name \<noteq> None"
proof (cases rule: find_ns[OF assms(1) refl, of name, case_names absent found])
  case absent
  with assms(2) show ?thesis by (simp add: getFast_def)
next
  case (found e)
  with assms(2) live_refs_key[OF assms(1) found(2,3)] show ?thesis
    by (auto simp: getFast_def weak_lock_def Let_def split: if_splits)
qed

lemma getSlow_refines:
  assumes "ns_inv hash s" "strs s p = None" "getSlow hash p name s = Inr (c, s')"
  shows "live_refs s' = ns_spec (SpecGet name) (live_refs s)"
proof -
  have inv': "ns_inv hash s'" using getSlow_inv[OF assms(1,2), of name] assms(3) by auto
  show ?thesis
  proof (cases rule: find_ns[OF assms(1) refl, of name, case_names absent found])
    case absent
    with assms live_refs_absent[OF assms(1) absent(2)] inv' live_refs_add[OF assms(1,2)] show ?thesis
      by (auto simp: getSlow_def Let_def) (metis prod.sel(2))
  next
    case (found e)
    note k = keys_okD[OF assms(1) found(2) ns_invD(1)[OF assms(1)]] and key = live_refs_key[OF assms(1) found(2,3)]
    show ?thesis
    proof (cases "strong (ctls s ! control e) = 0")
      case True
      then have "add_string p name (set_index hash s name) (remove1 e (sets s ! set_index hash s name)) s = (c, s')"
        using assms(3) found(1) by (simp add: getSlow_def weak_lock_def Let_def)
      with live_refs_add[OF assms(1,2), of name] inv' True key show ?thesis by (auto simp: Let_def) (metis prod.sel(2))
    next
      case False
      with live_refs_strong[OF assms(1), of name "strong (ctls s ! control e)" "control e"] k found assms(3) key
      show ?thesis by (auto simp: getSlow_def weak_lock_def Let_def live_as_def)
    qed
  qed
qed

lemma ns_exec_refines:
  assumes "ns_inv hash s" "ns_enabled a s" "ns_exec hash a s = Inr s'"
  shows "live_refs s' = ns_spec (ns_label s a) (live_refs s)"
proof (cases a)
  case (GetFast name)
  then obtain r where "getFast hash name s = Inr (r, s')"
    using assms(3) by (cases "getFast hash name s") auto
  with GetFast getFast_refines[OF assms(1)] show ?thesis by simp
next
  case (GetSlow p name)
  then obtain c where "getSlow hash p name s = Inr (c, s')"
    using assms(3) by (cases "getSlow hash p name s") auto
  with GetSlow assms(2) getSlow_refines[OF assms(1)] show ?thesis by simp
next
  case (Copy c)
  with assms(1,2) obtain name where n: "live_as s name (strong (ctls s ! c)) c" by (auto elim: live_has_name)
  then have "live_refs s name = Some (strong (ctls s ! c))" using live_refs_iff[OF assms(1)] by blast
  with Copy assms(3) n live_refs_strong[OF assms(1) n] show ?thesis
    by (auto simp: sp_copy_def on_name_def live_as_def)
next
  case (Release c)
  with assms(1,2) obtain name where n: "live_as s name (strong (ctls s ! c)) c" by (auto elim: live_has_name)
  then have "live_refs s name = Some (strong (ctls s ! c))" using live_refs_iff[OF assms(1)] by blast
  with Release assms(3) n live_refs_strong[OF assms(1) n, of "strong (ctls s ! c) - 1"] live_refs_expire[OF assms(1) n]
  show ?thesis by (auto simp: sp_release_def Let_def on_name_def live_as_def)
next
  case (Clean c)
  with assms(3) show ?thesis
    by (auto simp: deleter_clean_def clean_def Let_def live_refs_def split: sum.splits option.splits if_splits)
next
  case (Delete c)
  with assms(2,3) live_refs_delete[OF assms(1), of c] show ?thesis
    by (auto simp: deleter_delete_def split: option.splits)
qed

section \<open>Properties\<close>

lemma get_name_ok:
  assumes "ns_inv hash s" "strs s p = None"
  shows "\<exists>c s'. get_name hash p name s = Inr (c, s') \<and> ns_inv hash s' \<and>
           live_refs s' = ns_spec (SpecGet name) (live_refs s)"
proof -
  obtain r s1 where f: "getFast hash name s = Inr (r, s1)" "ns_inv hash s1" using getFast_inv[OF assms(1)] by blast
  show ?thesis
  proof (cases r)
    case None
    with f(1) have "s1 = s" by (auto simp: getFast_def split: sum.splits option.splits)
    with f None getSlow_inv[OF assms, of name] getSlow_refines[OF assms] show ?thesis
      by (auto simp: get_name_def)
  next
    case (Some c)
    with f(1) have "live_refs s name \<noteq> None"
      using getFast_live[OF assms(1)] by blast
    with Some f getFast_refines[OF assms(1) f(1)] show ?thesis by (auto simp: get_name_def)
  qed
qed

lemma ns_run_reach: "ns_reach hash n s \<Longrightarrow> ns_run hash as s = Inr s' \<Longrightarrow> ns_reach hash n s'"
  by (induction as arbitrary: s) (auto split: if_splits sum.splits intro: ns_next)

text \<open>
  A run in which \<open>getSlow\<close> meets a key whose string has lost its last pointer and has not been cleaned yet: it
  replaces the key, and the late \<open>clean\<close> leaves the new one alone.
\<close>

definition demo_hash :: "string \<Rightarrow> uint64" where
  "demo_hash name = of_nat (length name)"

definition demo_race :: "ns_act list" where
  "demo_race = [GetSlow 5 ''abc'', GetFast ''abc'', Release 0, Release 0, GetSlow 7 ''abc'', Clean 0]"

definition demo_names :: name_set where
  "demo_names = (case ns_run demo_hash demo_race (name_set0 4) of Inl e \<Rightarrow> name_set0 4 | Inr s \<Rightarrow> s)"

lemma demo_names_eq:
  "ns_run demo_hash demo_race (name_set0 4) =
   Inr \<lparr>strs = (\<lambda>p. if p = 7 then Some ''abc'' else if p = 5 then Some ''abc'' else None),
        ctls = [\<lparr>cobj = 5, strong = 0\<rparr>, \<lparr>cobj = 7, strong = 1\<rparr>],
        sets = [[], [], [], [\<lparr>object = 7, control = 1\<rparr>]], dying = [], cleaned = [0]\<rparr>"
  by (simp add: demo_race_def demo_hash_def name_set0_def getSlow_def getFast_def set_index_def add_string_def
      Let_def weak_lock_def set_strong_def sp_release_def deleter_clean_def clean_def fun_eq_iff)
    (simp add: eval_nat_numeral)

lemma demo_names_reach: "ns_reach demo_hash 4 demo_names"
  using ns_run_reach[OF ns_start demo_names_eq] by (simp add: demo_names_def demo_names_eq)

lemma demo_names_sel:
  "dying demo_names = []" "cleaned demo_names = [0]" "ctls demo_names = [\<lparr>cobj = 5, strong = 0\<rparr>, \<lparr>cobj = 7, strong = 1\<rparr>]"
  "strs demo_names 7 = Some ''abc''" "strs demo_names 5 = Some ''abc''"
  by (simp_all add: demo_names_def demo_names_eq)

definition demo_freed :: name_set where
  "demo_freed =
     (case ns_run demo_hash [Delete 0, Release 1, Clean 1, Delete 1] demo_names of Inl e \<Rightarrow> demo_names | Inr s \<Rightarrow> s)"

lemma demo_freed_run:
  "ns_run demo_hash [Delete 0, Release 1, Clean 1, Delete 1] demo_names =
   Inr \<lparr>strs = Map.empty, ctls = [\<lparr>cobj = 5, strong = 0\<rparr>, \<lparr>cobj = 7, strong = 0\<rparr>],
        sets = [[], [], [], []], dying = [], cleaned = []\<rparr>"
  by (simp add: demo_names_def demo_names_eq demo_hash_def deleter_delete_def set_index_def Let_def weak_lock_def
      set_strong_def sp_release_def deleter_clean_def clean_def fun_eq_iff)

lemma demo_freed_eq:
  "demo_freed = \<lparr>strs = Map.empty, ctls = [\<lparr>cobj = 5, strong = 0\<rparr>, \<lparr>cobj = 7, strong = 0\<rparr>],
                 sets = [[], [], [], []], dying = [], cleaned = []\<rparr>"
  unfolding demo_freed_def demo_freed_run by simp

lemma demo_freed_reach: "ns_reach demo_hash 4 demo_freed"
  using ns_run_reach[OF demo_names_reach demo_freed_run] by (simp add: demo_freed_eq)

text \<open>
  C19: In every interleaving of lookups, copies and releases of the returned pointers, and deleters, nothing
  reads a string that was deleted, the assertion in \<open>clean\<close> holds, and no string is deleted twice.
\<close>
theorem interned_names_safe:
  assumes "ns_reach hash n s" "0 < n" "n < 2 ^ 64" "ns_enabled a s"
  shows "\<exists>s'. ns_exec hash a s = Inr s'"
  using ns_exec_inv[OF ns_reach_inv[OF assms(1)] assms(4)] assms(2,3) by auto

theorem interned_names_safe_witness:
  "(\<exists>s'. ns_exec demo_hash (Delete 0) demo_names = Inr s') \<and> dying demo_names = []"
  using interned_names_safe[OF demo_names_reach, of "Delete 0"] by (simp add: demo_names_sel)

text \<open>
  The name set is the set of shared names that it appears to be: every action changes the number of pointers
  to each name as the specification does, and cleaning and deleting expired strings is invisible.
\<close>
theorem interned_names_refine:
  assumes "ns_reach hash n s" "0 < n" "n < 2 ^ 64" "ns_enabled a s" "ns_exec hash a s = Inr s'"
  shows "live_refs s' = ns_spec (ns_label s a) (live_refs s)"
  using ns_exec_refines[OF ns_reach_inv[OF assms(1)] assms(4,5)] assms(2,3) by simp

theorem interned_names_refine_witness:
  "live_refs (sp_copy 1 demo_names) = ns_spec (SpecTry ''abc'') (live_refs demo_names)"
  using interned_names_refine[OF demo_names_reach, of "Copy 1"] by (simp add: demo_names_sel on_name_def)

text \<open>
  At any moment one string object at most is in use for a name: two \<open>shared_ptr\<close>s with equal names share the
  object and the control block.
\<close>
theorem interned_names_unique:
  assumes "ns_reach hash n s" "0 < n" "n < 2 ^ 64"
    and "live_as s name k c" "live_as s name k' c'"
  shows "c = c' \<and> k = k'"
  using live_unique[OF ns_reach_inv[OF assms(1)] assms(4,5)] assms(2,3) by simp

theorem interned_names_unique_witness:
  "live_as demo_names ''abc'' 1 1 \<and> (1::nat) = 1 \<and> (1::nat) = 1"
  using interned_names_unique[OF demo_names_reach, of "''abc''" 1 1 1 1] by (simp add: live_as_def demo_names_sel)

text \<open>
  Nothing leaks: once no pointer is left and every deleter has finished, no string is allocated and every
  set is empty.
\<close>
theorem interned_names_freed:
  assumes "ns_reach hash n s" "0 < n" "n < 2 ^ 64"
    and "live_refs s = Map.empty" "dying s = []" "cleaned s = []"
  shows "strs s = Map.empty \<and> concat (sets s) = []"
proof -
  have inv: "ns_inv hash s" using ns_reach_inv assms(1-3) by blast
  have none: "\<not> sp_owned s c" for c
    using live_refs_iff[OF inv] live_has_name[OF inv, of c] assms(4-6) by (fastforce simp: sp_owned_def)
  then have "strs s p = None" for p using ns_invD(7)[OF inv, of p] by blast
  moreover have "sets s ! i = []" if "i < length (sets s)" for i
    using keys_okD(5)[OF inv _ that] none by (cases "sets s ! i") auto
  ultimately show ?thesis by (auto simp: in_set_conv_nth)
qed

theorem interned_names_freed_witness:
  "strs demo_freed = Map.empty \<and> concat (sets demo_freed) = [] \<and> length (ctls demo_freed) = 2"
  using interned_names_freed[OF demo_freed_reach] by (simp add: demo_freed_eq live_refs_def)

end
