(* ===== verification/RegexUtil.thy ===== *)
theory RegexUtil
  imports Fb303_Prelude
begin

text \<open>
  A string-keyed map paired with a \<open>folly::RegexMatchCache\<close> of its keys (\<^verbatim>\<open>fb303/detail/RegexUtil.h\<close>,
  \<^verbatim>\<open>fb303/detail/RegexUtil.cpp\<close>). The cache is folly's and is a parameter, the record \<open>cache_ops\<close> of its
  methods, with its documented behaviour as the predicate \<open>regex_cache\<close>. The cache holds pointers to the
  keys of the map, which are unique, so a pointer is the key itself here. A method that can throw
  returns whether it completed.
\<close>

type_synonym regex = string
type_synonym time_point = nat

section \<open>folly::RegexMatchCache\<close>

record ('c, 'h, 'r) cache_ops =
  addString :: "name \<Rightarrow> 'c \<Rightarrow> bool \<times> 'c"
  eraseString :: "name \<Rightarrow> 'c \<Rightarrow> 'c"
  hasString :: "name \<Rightarrow> 'c \<Rightarrow> bool"
  clearStrings :: "'c \<Rightarrow> 'c"
  isReadyToFindMatches :: "regex \<Rightarrow> 'c \<Rightarrow> bool"
  prepareToFindMatches :: "regex \<Rightarrow> 'c \<Rightarrow> bool \<times> 'c"
  findMatchesUnsafe :: "regex \<Rightarrow> time_point \<Rightarrow> 'c \<Rightarrow> name list"
  compile :: "regex \<Rightarrow> bool"
  initPrepareToFindMatches :: "regex \<Rightarrow> time_point \<Rightarrow> 'c \<Rightarrow> 'h \<times> 'c"
  evaluate :: "'h \<Rightarrow> 'r option"
  finiPrepareToFindMatches :: "'r \<Rightarrow> 'c \<Rightarrow> 'c"
  eraseRegex :: "regex \<Rightarrow> 'c \<Rightarrow> 'c"
  hasItemsToPurge :: "time_point \<Rightarrow> 'c \<Rightarrow> bool"
  purge :: "time_point \<Rightarrow> 'c \<Rightarrow> 'c"

text \<open>
  The documented behaviour: \<open>strings\<close> is the universe of strings a cache holds, \<open>ok\<close> its own invariant,
  and \<open>rx\<close> the match relation of the regex library.
\<close>

definition regex_cache ::
  "('c, 'h, 'r) cache_ops \<Rightarrow> (regex \<Rightarrow> name \<Rightarrow> bool) \<Rightarrow> ('c \<Rightarrow> name set) \<Rightarrow> ('c \<Rightarrow> bool) \<Rightarrow> bool"
where
  "regex_cache ops rx strings ok \<longleftrightarrow>
     (\<forall>c s b c'. ok c \<longrightarrow> addString ops s c = (b, c') \<longrightarrow>
        ok c' \<and> (strings c' = insert s (strings c) \<or> \<not> b \<and> strings c' = strings c)) \<and>
     (\<forall>c s. ok c \<longrightarrow> ok (eraseString ops s c) \<and> strings (eraseString ops s c) = strings c - {s}) \<and>
     (\<forall>c s. ok c \<longrightarrow> hasString ops s c = (s \<in> strings c)) \<and>
     (\<forall>c. ok c \<longrightarrow> ok (clearStrings ops c) \<and> strings (clearStrings ops c) = {}) \<and>
     (\<forall>c r b c'. ok c \<longrightarrow> prepareToFindMatches ops r c = (b, c') \<longrightarrow>
        ok c' \<and> strings c' = strings c \<and> (b \<longrightarrow> isReadyToFindMatches ops r c')) \<and>
     (\<forall>c r t. ok c \<longrightarrow> isReadyToFindMatches ops r c \<longrightarrow>
        distinct (findMatchesUnsafe ops r t c) \<and>
        set (findMatchesUnsafe ops r t c) = {s \<in> strings c. rx r s}) \<and>
     (\<forall>c r t h c'. ok c \<longrightarrow> initPrepareToFindMatches ops r t c = (h, c') \<longrightarrow> ok c' \<and> strings c' = strings c) \<and>
     (\<forall>c v. ok c \<longrightarrow> ok (finiPrepareToFindMatches ops v c) \<and>
        strings (finiPrepareToFindMatches ops v c) = strings c) \<and>
     (\<forall>c r. ok c \<longrightarrow> ok (eraseRegex ops r c) \<and> strings (eraseRegex ops r c) = strings c) \<and>
     (\<forall>c t. ok c \<longrightarrow> ok (purge ops t c) \<and> strings (purge ops t c) = strings c)"

text \<open>A cache that does not run out of memory.\<close>

definition reliable :: "('c, 'h, 'r) cache_ops \<Rightarrow> ('c \<Rightarrow> bool) \<Rightarrow> bool" where
  "reliable ops ok \<longleftrightarrow> (\<forall>c s. ok c \<longrightarrow> fst (addString ops s c))"

section \<open>The map and its cache\<close>

record ('v, 'c) cached_map =
  cm_map :: "(name \<times> 'v) list"
  cm_matches :: 'c

datatype rx_error = BadAlloc | BadRegex

definition cm_find :: "name \<Rightarrow> ('v, 'c) cached_map \<Rightarrow> 'v option" where
  "cm_find k m = map_of (cm_map m) k"

definition cm_keys :: "('v, 'c) cached_map \<Rightarrow> name list" where
  "cm_keys m = map fst (cm_map m)"

definition cm_erase :: "name \<Rightarrow> (name \<times> 'v) list \<Rightarrow> (name \<times> 'v) list" where
  "cm_erase k xs = filter (\<lambda>e. fst e \<noteq> k) xs"

text \<open>
  \<open>cachedAddString\<close> with its helper: the map emplaces unless the key is there; a throwing \<open>addString\<close>
  is rolled back unless the cache has kept the string.
\<close>

definition cachedAddString ::
  "('c, 'h, 'r) cache_ops \<Rightarrow> name \<Rightarrow> 'v \<Rightarrow> ('v, 'c) cached_map \<Rightarrow> (rx_error + bool) \<times> ('v, 'c) cached_map" where
  "cachedAddString ops k v m =
     (if cm_find k m \<noteq> None then (Inr False, m)
      else
        (let m1 = m\<lparr>cm_map := cm_map m @ [(k, v)]\<rparr>;
             (done, c) = addString ops k (cm_matches m1)
         in if done then (Inr True, m1\<lparr>cm_matches := c\<rparr>)
            else if \<not> hasString ops k c
            then (Inl BadAlloc, m1\<lparr>cm_matches := c, cm_map := cm_erase k (cm_map m1)\<rparr>)
            else (Inl BadAlloc, m1\<lparr>cm_matches := c\<rparr>)))"

definition cachedEraseString :: "('c, 'h, 'r) cache_ops \<Rightarrow> name \<Rightarrow> ('v, 'c) cached_map \<Rightarrow> ('v, 'c) cached_map" where
  "cachedEraseString ops k m =
     m\<lparr>cm_matches := eraseString ops k (cm_matches m), cm_map := cm_erase k (cm_map m)\<rparr>"

definition cachedClearStrings :: "('c, 'h, 'r) cache_ops \<Rightarrow> ('v, 'c) cached_map \<Rightarrow> ('v, 'c) cached_map" where
  "cachedClearStrings ops m = m\<lparr>cm_matches := clearStrings ops (cm_matches m), cm_map := []\<rparr>"

definition cachedFindMatchesCopyUnderSharedLock ::
  "('c, 'h, 'r) cache_ops \<Rightarrow> name list \<Rightarrow> 'c \<Rightarrow> regex \<Rightarrow> time_point \<Rightarrow> name list" where
  "cachedFindMatchesCopyUnderSharedLock ops out cache r now = out @ findMatchesUnsafe ops r now cache"

definition cachedFindMatches ::
  "('c, 'h, 'r) cache_ops \<Rightarrow> name list \<Rightarrow> regex \<Rightarrow> time_point \<Rightarrow> ('v, 'c) cached_map \<Rightarrow>
   (rx_error + name list) \<times> ('v, 'c) cached_map" where
  "cachedFindMatches ops out r now m =
     (if isReadyToFindMatches ops r (cm_matches m)
      then (Inr (cachedFindMatchesCopyUnderSharedLock ops out (cm_matches m) r now), m)
      else
        (let (done, c) = prepareToFindMatches ops r (cm_matches m); m1 = m\<lparr>cm_matches := c\<rparr>
         in if done
            then (Inr (cachedFindMatchesCopyUnderSharedLock ops out (cm_matches m1) r now), m1)
            else (Inl BadRegex, m1)))"

text \<open>
  \<open>cachedFindMatchesSnapshot\<close>. What other threads do to the map while no lock is held is a
  parameter: \<open>env0\<close> between the shared and the exclusive lock, \<open>env1\<close> during the scan.
\<close>

definition cachedFindMatchesSnapshot ::
  "('c, 'h, 'r) cache_ops \<Rightarrow> (('v, 'c) cached_map \<Rightarrow> ('v, 'c) cached_map) \<Rightarrow>
   (('v, 'c) cached_map \<Rightarrow> ('v, 'c) cached_map) \<Rightarrow> name list \<Rightarrow> regex \<Rightarrow> time_point \<Rightarrow> ('v, 'c) cached_map \<Rightarrow>
   (rx_error + name list) \<times> ('v, 'c) cached_map" where
  "cachedFindMatchesSnapshot ops env0 env1 out r now m =
     (if isReadyToFindMatches ops r (cm_matches m)
      then (Inr (cachedFindMatchesCopyUnderSharedLock ops out (cm_matches m) r now), m)
      else if cm_map m = [] then cachedFindMatches ops out r now (env0 m)
      else if \<not> compile ops r then (Inl BadRegex, m)
      else
        (let m1 = env0 m
         in if isReadyToFindMatches ops r (cm_matches m1)
            then (Inr (cachedFindMatchesCopyUnderSharedLock ops out (cm_matches m1) r now), m1)
            else
              (let (h, c) = initPrepareToFindMatches ops r now (cm_matches m1);
                   m2 = env1 (m1\<lparr>cm_matches := c\<rparr>)
               in case evaluate ops h of
                    None \<Rightarrow>
                      (Inl BadRegex,
                       if \<not> isReadyToFindMatches ops r (cm_matches m2)
                       then m2\<lparr>cm_matches := eraseRegex ops r (cm_matches m2)\<rparr> else m2)
                  | Some v \<Rightarrow>
                      (let m3 = m2\<lparr>cm_matches := finiPrepareToFindMatches ops v (cm_matches m2)\<rparr>
                       in if \<not> isReadyToFindMatches ops r (cm_matches m3)
                          then
                            (let (done, c4) = prepareToFindMatches ops r (cm_matches m3);
                                 m4 = m3\<lparr>cm_matches := c4\<rparr>
                             in if done
                                then (Inr (cachedFindMatchesCopyUnderSharedLock ops out (cm_matches m4) r now), m4)
                                else (Inl BadRegex, m4))
                          else (Inr (cachedFindMatchesCopyUnderSharedLock ops out (cm_matches m3) r now), m3)))))"

definition cachedTrimStale :: "('c, 'h, 'r) cache_ops \<Rightarrow> time_point \<Rightarrow> ('v, 'c) cached_map \<Rightarrow> ('v, 'c) cached_map" where
  "cachedTrimStale ops expiry m =
     (if hasItemsToPurge ops expiry (cm_matches m)
      then m\<lparr>cm_matches := purge ops expiry (cm_matches m)\<rparr> else m)"

section \<open>Lockstep\<close>

definition lockstep :: "('c \<Rightarrow> name set) \<Rightarrow> ('c \<Rightarrow> bool) \<Rightarrow> ('v, 'c) cached_map \<Rightarrow> bool" where
  "lockstep strings ok m \<longleftrightarrow>
     distinct (cm_keys m) \<and> ok (cm_matches m) \<and> strings (cm_matches m) = set (cm_keys m)"

lemma cm_erase_keys: "map fst (cm_erase k xs) = filter (\<lambda>x. x \<noteq> k) (map fst xs)"
  by (simp add: cm_erase_def filter_map comp_def)

lemma cm_find_None: "cm_find k m = None \<longleftrightarrow> k \<notin> set (cm_keys m)"
  by (simp add: cm_find_def cm_keys_def map_of_eq_None_iff)

lemma regex_cacheD:
  assumes "regex_cache ops rx strings ok"
  shows "\<forall>c s b c'. ok c \<longrightarrow> addString ops s c = (b, c') \<longrightarrow>
        ok c' \<and> (strings c' = insert s (strings c) \<or> \<not> b \<and> strings c' = strings c)"
    and "\<forall>c s. ok c \<longrightarrow> ok (eraseString ops s c) \<and> strings (eraseString ops s c) = strings c - {s}"
    and "\<forall>c s. ok c \<longrightarrow> hasString ops s c = (s \<in> strings c)"
    and "\<forall>c. ok c \<longrightarrow> ok (clearStrings ops c) \<and> strings (clearStrings ops c) = {}"
    and "\<forall>c r b c'. ok c \<longrightarrow> prepareToFindMatches ops r c = (b, c') \<longrightarrow>
        ok c' \<and> strings c' = strings c \<and> (b \<longrightarrow> isReadyToFindMatches ops r c')"
    and "\<forall>c r t. ok c \<longrightarrow> isReadyToFindMatches ops r c \<longrightarrow>
        distinct (findMatchesUnsafe ops r t c) \<and>
        set (findMatchesUnsafe ops r t c) = {s \<in> strings c. rx r s}"
    and "\<forall>c r t h c'. ok c \<longrightarrow> initPrepareToFindMatches ops r t c = (h, c') \<longrightarrow> ok c' \<and> strings c' = strings c"
    and "\<forall>c v. ok c \<longrightarrow> ok (finiPrepareToFindMatches ops v c) \<and>
        strings (finiPrepareToFindMatches ops v c) = strings c"
    and "\<forall>c r. ok c \<longrightarrow> ok (eraseRegex ops r c) \<and> strings (eraseRegex ops r c) = strings c"
    and "\<forall>c t. ok c \<longrightarrow> ok (purge ops t c) \<and> strings (purge ops t c) = strings c"
  by (insert assms, unfold regex_cache_def) (elim conjE, assumption)+

lemma lockstep_cache:
  "lockstep strings ok m \<Longrightarrow> ok c \<Longrightarrow> strings c = strings (cm_matches m) \<Longrightarrow>
   lockstep strings ok (m\<lparr>cm_matches := c\<rparr>)"
  by (simp add: lockstep_def cm_keys_def)

lemma lockstep_add:
  assumes L: "regex_cache ops rx strings ok" and l: "lockstep strings ok m"
  shows "lockstep strings ok (snd (cachedAddString ops k v m))"
proof (cases "cm_find k m")
  case None
  then have nk: "k \<notin> set (cm_keys m)" by (simp add: cm_find_None)
  obtain b c where bc: "addString ops k (cm_matches m) = (b, c)" by (cases "addString ops k (cm_matches m)")
  have ok: "ok (cm_matches m)" "strings (cm_matches m) = set (cm_keys m)" "distinct (cm_keys m)"
    using l by (auto simp: lockstep_def)
  have c: "ok c" "strings c = insert k (strings (cm_matches m)) \<or> \<not> b \<and> strings c = strings (cm_matches m)"
    using regex_cacheD(1)[OF L] ok(1) bc by blast+
  have h: "hasString ops k c = (k \<in> strings c)" using regex_cacheD(3)[OF L] c(1) by blast
  have f: "cm_erase k (cm_map m @ [(k, v)]) = cm_map m"
    using nk by (auto simp: cm_erase_def cm_keys_def filter_neq_id)
  show ?thesis using None bc c h nk ok f
    by (auto simp: cachedAddString_def lockstep_def cm_keys_def Let_def)
next
  case (Some x)
  then show ?thesis using l by (simp add: cachedAddString_def)
qed

lemma lockstep_erase:
  assumes "regex_cache ops rx strings ok" "lockstep strings ok m"
  shows "lockstep strings ok (cachedEraseString ops k m)"
  using regex_cacheD(2)[OF assms(1)] assms(2)
  by (auto simp: lockstep_def cachedEraseString_def cm_keys_def cm_erase_keys)

lemma lockstep_clear:
  assumes "regex_cache ops rx strings ok" "lockstep strings ok m"
  shows "lockstep strings ok (cachedClearStrings ops m)"
  using regex_cacheD(4)[OF assms(1)] assms(2)
  by (auto simp: lockstep_def cachedClearStrings_def cm_keys_def)

lemma lockstep_trim:
  assumes "regex_cache ops rx strings ok" "lockstep strings ok m"
  shows "lockstep strings ok (cachedTrimStale ops t m)"
  using regex_cacheD(10)[OF assms(1)] assms(2)
  by (auto simp: cachedTrimStale_def lockstep_def cm_keys_def)

definition matching :: "(regex \<Rightarrow> name \<Rightarrow> bool) \<Rightarrow> regex \<Rightarrow> ('v, 'c) cached_map \<Rightarrow> name set" where
  "matching rx r m = {k \<in> set (cm_keys m). rx r k}"

text \<open>A result of a search: on success, what was appended is the matching keys of the resulting map.\<close>

definition found ::
  "(regex \<Rightarrow> name \<Rightarrow> bool) \<Rightarrow> regex \<Rightarrow> name list \<Rightarrow> (rx_error + name list) \<times> ('v, 'c) cached_map \<Rightarrow> bool" where
  "found rx r out res \<longleftrightarrow>
     (\<forall>out' m'. res = (Inr out', m') \<longrightarrow> (\<exists>ms. out' = out @ ms \<and> distinct ms \<and> set ms = matching rx r m'))"

lemma ready_found:
  assumes "regex_cache ops rx strings ok" "lockstep strings ok m" "isReadyToFindMatches ops r (cm_matches m)"
  shows "found rx r out (Inr (cachedFindMatchesCopyUnderSharedLock ops out (cm_matches m) r now), m)"
  using regex_cacheD(6)[OF assms(1)] assms(2,3)
  by (auto simp: found_def cachedFindMatchesCopyUnderSharedLock_def matching_def lockstep_def)

lemma prepare_found:
  assumes L: "regex_cache ops rx strings ok" and l: "lockstep strings ok m"
    and p: "prepareToFindMatches ops r (cm_matches m) = (b, c)"
  shows "lockstep strings ok (m\<lparr>cm_matches := c\<rparr>)"
    and "b \<Longrightarrow> found rx r out (Inr (cachedFindMatchesCopyUnderSharedLock ops out c r now), m\<lparr>cm_matches := c\<rparr>)"
proof -
  have o: "ok (cm_matches m)" using l by (simp add: lockstep_def)
  have c: "ok c" "strings c = strings (cm_matches m)" "b \<Longrightarrow> isReadyToFindMatches ops r c"
    using regex_cacheD(5)[OF L] o p by blast+
  show l': "lockstep strings ok (m\<lparr>cm_matches := c\<rparr>)" by (rule lockstep_cache[OF l c(1,2)])
  show "b \<Longrightarrow> found rx r out (Inr (cachedFindMatchesCopyUnderSharedLock ops out c r now), m\<lparr>cm_matches := c\<rparr>)"
    using ready_found[OF L l'] c(3) by simp
qed

lemma cachedFindMatches_ok:
  assumes L: "regex_cache ops rx strings ok" and l: "lockstep strings ok m"
  shows "lockstep strings ok (snd (cachedFindMatches ops out r now m))"
    and "found rx r out (cachedFindMatches ops out r now m)"
proof -
  obtain b c where p: "prepareToFindMatches ops r (cm_matches m) = (b, c)"
    by (cases "prepareToFindMatches ops r (cm_matches m)")
  note P = prepare_found[OF L l p]
  show "lockstep strings ok (snd (cachedFindMatches ops out r now m))"
    using l P(1) by (simp add: cachedFindMatches_def p Let_def)
  show "found rx r out (cachedFindMatches ops out r now m)"
    using ready_found[OF L l] P(2) by (simp add: cachedFindMatches_def p Let_def) (simp add: found_def)
qed

lemma snapshot_ok:
  fixes m :: "('v, 'c) cached_map"
  assumes L: "regex_cache ops rx strings ok" and l: "lockstep strings ok m"
    and e0: "\<And>x :: ('v, 'c) cached_map. lockstep strings ok x \<Longrightarrow> lockstep strings ok (env0 x)"
    and e1: "\<And>x :: ('v, 'c) cached_map. lockstep strings ok x \<Longrightarrow> lockstep strings ok (env1 x)"
  shows "lockstep strings ok (snd (cachedFindMatchesSnapshot ops env0 env1 out r now m)) \<and>
    found rx r out (cachedFindMatchesSnapshot ops env0 env1 out r now m)"
proof -
  let ?snap = "cachedFindMatchesSnapshot ops env0 env1 out r now m"
  define m1 where "m1 = env0 m"
  have l1: "lockstep strings ok m1" using e0[OF l] by (simp add: m1_def)
  obtain h c where hc: "initPrepareToFindMatches ops r now (cm_matches m1) = (h, c)"
    by (cases "initPrepareToFindMatches ops r now (cm_matches m1)")
  define m2 where "m2 = env1 (m1\<lparr>cm_matches := c\<rparr>)"
  have o1: "ok (cm_matches m1)" using l1 by (simp add: lockstep_def)
  have "ok c" "strings c = strings (cm_matches m1)" using regex_cacheD(7)[OF L] o1 hc by blast+
  then have l2: "lockstep strings ok m2" unfolding m2_def by (intro e1 lockstep_cache[OF l1])
  have o2: "ok (cm_matches m2)" using l2 by (simp add: lockstep_def)
  have lf: "lockstep strings ok (m2\<lparr>cm_matches := finiPrepareToFindMatches ops v (cm_matches m2)\<rparr>)" for v
    using regex_cacheD(8)[OF L] o2 by (intro lockstep_cache[OF l2]) simp_all
  have le: "lockstep strings ok (m2\<lparr>cm_matches := eraseRegex ops r (cm_matches m2)\<rparr>)"
    using regex_cacheD(9)[OF L] o2 by (intro lockstep_cache[OF l2]) simp_all
  have err: "found rx r out (Inl e, x)" for e and x :: "('v, 'c) cached_map" by (simp add: found_def)
  consider (ready) "isReadyToFindMatches ops r (cm_matches m)"
    | (empty) "\<not> isReadyToFindMatches ops r (cm_matches m)" "cm_map m = []"
    | (bad) "\<not> isReadyToFindMatches ops r (cm_matches m)" "cm_map m \<noteq> []" "\<not> compile ops r"
    | (again) "\<not> isReadyToFindMatches ops r (cm_matches m)" "cm_map m \<noteq> []" "compile ops r"
        "isReadyToFindMatches ops r (cm_matches m1)"
    | (scan) "\<not> isReadyToFindMatches ops r (cm_matches m)" "cm_map m \<noteq> []" "compile ops r"
        "\<not> isReadyToFindMatches ops r (cm_matches m1)" by blast
  then show ?thesis
  proof cases
    case ready
    then show ?thesis using l ready_found[OF L l] by (simp add: cachedFindMatchesSnapshot_def)
  next
    case empty
    then show ?thesis using cachedFindMatches_ok[OF L l1] by (simp add: cachedFindMatchesSnapshot_def m1_def Let_def)
  next
    case bad
    then show ?thesis using l err by (simp add: cachedFindMatchesSnapshot_def)
  next
    case again
    then show ?thesis using l1 ready_found[OF L l1] by (simp add: cachedFindMatchesSnapshot_def m1_def Let_def)
  next
    case scan
    show ?thesis
    proof (cases "evaluate ops h")
      case None
      then have "?snap = (Inl BadRegex, if \<not> isReadyToFindMatches ops r (cm_matches m2)
                       then m2\<lparr>cm_matches := eraseRegex ops r (cm_matches m2)\<rparr> else m2)"
        using scan hc by (simp add: cachedFindMatchesSnapshot_def m1_def[symmetric] m2_def[symmetric] Let_def)
      then show ?thesis using l2 le err by simp
    next
      case (Some v)
      define m3 where "m3 = m2\<lparr>cm_matches := finiPrepareToFindMatches ops v (cm_matches m2)\<rparr>"
      have l3: "lockstep strings ok m3" using lf by (simp add: m3_def)
      obtain b c4 where p: "prepareToFindMatches ops r (cm_matches m3) = (b, c4)"
        by (cases "prepareToFindMatches ops r (cm_matches m3)")
      have "?snap = (if \<not> isReadyToFindMatches ops r (cm_matches m3)
           then (if b then (Inr (cachedFindMatchesCopyUnderSharedLock ops out c4 r now), m3\<lparr>cm_matches := c4\<rparr>)
                 else (Inl BadRegex, m3\<lparr>cm_matches := c4\<rparr>))
           else (Inr (cachedFindMatchesCopyUnderSharedLock ops out (cm_matches m3) r now), m3))"
        using scan hc Some p
        by (simp add: cachedFindMatchesSnapshot_def m1_def[symmetric] m2_def[symmetric] m3_def Let_def)
      then show ?thesis using l3 prepare_found[OF L l3 p] ready_found[OF L l3] err by simp
    qed
  qed
qed

section \<open>Results\<close>

text \<open>A cache without caching, for the instances: every regex is ready, a search scans the strings.\<close>

definition scan_cache :: "(regex \<Rightarrow> name \<Rightarrow> bool) \<Rightarrow> (name list, unit, unit) cache_ops" where
  "scan_cache rx =
     \<lparr>addString = (\<lambda>s c. (True, if s \<in> set c then c else c @ [s])),
      eraseString = (\<lambda>s c. filter (\<lambda>x. x \<noteq> s) c), hasString = (\<lambda>s c. s \<in> set c), clearStrings = (\<lambda>c. []),
      isReadyToFindMatches = (\<lambda>r c. False), prepareToFindMatches = (\<lambda>r c. (False, c)),
      findMatchesUnsafe = (\<lambda>r t c. filter (rx r) c), compile = (\<lambda>r. True),
      initPrepareToFindMatches = (\<lambda>r t c. ((), c)), evaluate = (\<lambda>h. Some ()),
      finiPrepareToFindMatches = (\<lambda>v c. c), eraseRegex = (\<lambda>r c. c), hasItemsToPurge = (\<lambda>t c. False),
      purge = (\<lambda>t c. c)\<rparr>"

definition ready_cache :: "(regex \<Rightarrow> name \<Rightarrow> bool) \<Rightarrow> (name list, unit, unit) cache_ops" where
  "ready_cache rx = (scan_cache rx)\<lparr>isReadyToFindMatches := (\<lambda>r c. True),
     prepareToFindMatches := (\<lambda>r c. (True, c))\<rparr>"

lemma ready_cache_laws: "regex_cache (ready_cache rx) rx set distinct"
  unfolding regex_cache_def ready_cache_def scan_cache_def by auto

datatype 'v cm_op = CmAdd name 'v | CmErase name | CmClear | CmTrim time_point

fun cm_exec :: "('c, 'h, 'r) cache_ops \<Rightarrow> 'v cm_op \<Rightarrow> ('v, 'c) cached_map \<Rightarrow> ('v, 'c) cached_map" where
  "cm_exec ops (CmAdd k v) m = snd (cachedAddString ops k v m)"
| "cm_exec ops (CmErase k) m = cachedEraseString ops k m"
| "cm_exec ops CmClear m = cachedClearStrings ops m"
| "cm_exec ops (CmTrim t) m = cachedTrimStale ops t m"

lemma cm_exec_lockstep:
  assumes "regex_cache ops rx strings ok" "lockstep strings ok m"
  shows "lockstep strings ok (fold (cm_exec ops) xs m)"
  using assms(2)
proof (induction xs arbitrary: m)
  case (Cons x xs)
  have "lockstep strings ok (cm_exec ops x m)"
    using assms(1) Cons.prems by (cases x) (simp_all add: lockstep_add lockstep_erase lockstep_clear lockstep_trim)
  with Cons.IH show ?case by simp
qed simp

text \<open>
  The map and its match cache stay in lockstep. For a cache that behaves as documented, after any sequence
  of adding, erasing, clearing and trimming, the adds whose cache insertion throws included, the cache
  holds exactly the keys of the map.
\<close>
theorem cached_map_lockstep:
  assumes "regex_cache ops rx strings ok" "ok c" "strings c = {}"
  shows "lockstep strings ok (fold (cm_exec ops) xs \<lparr>cm_map = [], cm_matches = c\<rparr>)"
  using assms by (intro cm_exec_lockstep[OF assms(1)]) (simp add: lockstep_def cm_keys_def)

theorem cached_map_lockstep_witness:
  "lockstep set distinct (fold (cm_exec (ready_cache (\<lambda>r s. r = s)))
     [CmAdd ''a'' (1::nat), CmAdd ''b'' 2, CmErase ''a'', CmTrim 7] \<lparr>cm_map = [], cm_matches = []\<rparr>)"
  by (rule cached_map_lockstep[OF ready_cache_laws]) simp_all



end
