(* ===== verification/CallbackValues.thy ===== *)
theory CallbackValues
  imports RegexUtil "HOL-Library.List_Lexorder" "HOL-Library.Char_ord" "HOL-Library.Multiset"
begin

text \<open>
  \<open>CallbackValuesMap\<close> (\<^verbatim>\<open>fb303/CallbackValuesMap.h\<close>, \<^verbatim>\<open>fb303/CallbackValuesMap-inl.h\<close>) and \<open>DynamicCounters\<close>
  (\<^verbatim>\<open>fb303/DynamicCounters.h\<close>): callbacks by name in 128 shards, each a set of shared entries with its
  regex cache. Entries live in a heap of their own, since a thread that copied an entry's pointer may
  use it after it left the map. A callback is a function of the environment it reads when it is invoked.
  The hash is folly's and a parameter.
\<close>

section \<open>State\<close>

record 'cb centry =
  ce_name :: name
  ce_callback :: "'cb option"

type_synonym eid = nat

record ('cb, 'c) cvm =
  callbackMaps :: "(eid, 'c) cached_map list"
  entries_of :: "eid \<rightharpoonup> 'cb centry"
  next_entry :: eid

definition kNumShards :: nat where
  "kNumShards = 128"

definition getShard :: "(name \<Rightarrow> uint64) \<Rightarrow> name \<Rightarrow> nat" where
  "getShard hash n = unat (hash n) mod kNumShards"

definition shard_of :: "(name \<Rightarrow> uint64) \<Rightarrow> name \<Rightarrow> ('cb, 'c) cvm \<Rightarrow> (eid, 'c) cached_map" where
  "shard_of hash n t = callbackMaps t ! getShard hash n"

definition put_shard :: "(name \<Rightarrow> uint64) \<Rightarrow> name \<Rightarrow> (eid, 'c) cached_map \<Rightarrow> ('cb, 'c) cvm \<Rightarrow> ('cb, 'c) cvm" where
  "put_shard hash n m t = t\<lparr>callbackMaps := (callbackMaps t)[getShard hash n := m]\<rparr>"

definition new_cvm :: "'c \<Rightarrow> ('cb, 'c) cvm" where
  "new_cvm c = \<lparr>callbackMaps = replicate kNumShards \<lparr>cm_map = [], cm_matches = c\<rparr>,
                entries_of = Map.empty, next_entry = 0\<rparr>"

section \<open>CallbackEntry\<close>

definition entry_clear :: "eid \<Rightarrow> ('cb, 'c) cvm \<Rightarrow> ('cb, 'c) cvm" where
  "entry_clear e t = t\<lparr>entries_of := (entries_of t)(e := map_option (\<lambda>x. x\<lparr>ce_callback := None\<rparr>) (entries_of t e))\<rparr>"

definition entry_getValue :: "'env \<Rightarrow> eid \<Rightarrow> ('env \<Rightarrow> 'v, 'c) cvm \<Rightarrow> 'v option" where
  "entry_getValue env e t =
     (case entries_of t e of
        None \<Rightarrow> None
      | Some x \<Rightarrow> (case ce_callback x of None \<Rightarrow> None | Some cb \<Rightarrow> Some (cb env)))"

section \<open>Operations\<close>

definition contains :: "(name \<Rightarrow> uint64) \<Rightarrow> name \<Rightarrow> ('cb, 'c) cvm \<Rightarrow> bool" where
  "contains hash n t \<longleftrightarrow> cm_find n (shard_of hash n t) \<noteq> None"

definition getCallback :: "(name \<Rightarrow> uint64) \<Rightarrow> name \<Rightarrow> ('cb, 'c) cvm \<Rightarrow> eid option" where
  "getCallback hash n t = cm_find n (shard_of hash n t)"

definition getValue :: "(name \<Rightarrow> uint64) \<Rightarrow> 'env \<Rightarrow> name \<Rightarrow> ('env \<Rightarrow> 'v, 'c) cvm \<Rightarrow> 'v option" where
  "getValue hash env n t =
     (case getCallback hash n t of None \<Rightarrow> None | Some e \<Rightarrow> entry_getValue env e t)"

definition getKeys :: "name list \<Rightarrow> ('cb, 'c) cvm \<Rightarrow> name list" where
  "getKeys keys t = foldl (\<lambda>ks m. ks @ cm_keys m) keys (callbackMaps t)"

definition getNumKeys :: "('cb, 'c) cvm \<Rightarrow> nat" where
  "getNumKeys t = foldl (\<lambda>n m. n + length (cm_map m)) 0 (callbackMaps t)"

definition registerCallback ::
  "('c, 'h, 'r) cache_ops \<Rightarrow> (name \<Rightarrow> uint64) \<Rightarrow> name \<Rightarrow> 'cb \<Rightarrow> bool \<Rightarrow> ('cb, 'c) cvm \<Rightarrow>
   (rx_error + unit) \<times> ('cb, 'c) cvm" where
  "registerCallback ops hash n cob overwrite t =
     (if \<not> overwrite \<and> contains hash n t then (Inr (), t)
      else
        (let e = next_entry t;
             t1 = t\<lparr>entries_of := (entries_of t)(e \<mapsto> \<lparr>ce_name = n, ce_callback = Some cob\<rparr>),
                    next_entry := e + 1\<rparr>;
             m = shard_of hash n t1;
             m1 = (if cm_find n m \<noteq> None then cachedEraseString ops n m else m);
             (r, m2) = cachedAddString ops n e m1
         in (case r of Inl err \<Rightarrow> Inl err | Inr _ \<Rightarrow> Inr (), put_shard hash n m2 t1)))"

definition unregisterCallback ::
  "('c, 'h, 'r) cache_ops \<Rightarrow> (name \<Rightarrow> uint64) \<Rightarrow> name \<Rightarrow> ('cb, 'c) cvm \<Rightarrow> bool \<times> ('cb, 'c) cvm" where
  "unregisterCallback ops hash n t =
     (let m = shard_of hash n t
      in case cm_find n m of
           None \<Rightarrow> (False, t)
         | Some e \<Rightarrow> (True, entry_clear e (put_shard hash n (cachedEraseString ops n m) t)))"

definition cvm_clear :: "('c, 'h, 'r) cache_ops \<Rightarrow> ('cb, 'c) cvm \<Rightarrow> ('cb, 'c) cvm" where
  "cvm_clear ops t =
     (let t1 = foldl (\<lambda>t m. foldl (\<lambda>t e. entry_clear (snd e) t) t (cm_map m)) t (callbackMaps t)
      in t1\<lparr>callbackMaps := map (cachedClearStrings ops) (callbackMaps t)\<rparr>)"

definition trimRegexCache :: "('c, 'h, 'r) cache_ops \<Rightarrow> time_point \<Rightarrow> ('cb, 'c) cvm \<Rightarrow> ('cb, 'c) cvm" where
  "trimRegexCache ops expiry t = t\<lparr>callbackMaps := map (cachedTrimStale ops expiry) (callbackMaps t)\<rparr>"

text \<open>\<open>getRegexKeys\<close> searches shard after shard; an exception ends it.\<close>

fun regex_shards ::
  "('c, 'h, 'r) cache_ops \<Rightarrow> regex \<Rightarrow> time_point \<Rightarrow> name list \<Rightarrow> (eid, 'c) cached_map list \<Rightarrow>
   (rx_error + name list) \<times> (eid, 'c) cached_map list" where
  "regex_shards ops r now keys [] = (Inr keys, [])"
| "regex_shards ops r now keys (m # ms) =
     (case cachedFindMatchesSnapshot ops id id keys r now m of
        (Inl e, m') \<Rightarrow> (Inl e, m' # ms)
      | (Inr keys', m') \<Rightarrow> (let (res, ms') = regex_shards ops r now keys' ms in (res, m' # ms')))"

definition getRegexKeys ::
  "('c, 'h, 'r) cache_ops \<Rightarrow> regex \<Rightarrow> time_point \<Rightarrow> name list \<Rightarrow> ('cb, 'c) cvm \<Rightarrow>
   (rx_error + name list) \<times> ('cb, 'c) cvm" where
  "getRegexKeys ops r now keys t =
     (let (res, ms) = regex_shards ops r now keys (callbackMaps t) in (res, t\<lparr>callbackMaps := ms\<rparr>))"

subsection \<open>getValues\<close>

text \<open>
  The merge of \<open>invokeAndMergeInto\<close>. The heap is kept as the list of the non-empty runs in order of
  their first name, which is what \<open>make_heap\<close> and \<open>down_heap\<close> provide of it: the front is the run with
  the least name.
\<close>

type_synonym run = "(name \<times> eid) list"

definition push_run :: "run \<Rightarrow> run list \<Rightarrow> run list" where
  "push_run r heap = insort_key (\<lambda>r. fst (hd r)) r heap"

definition make_heap :: "run list \<Rightarrow> run list" where
  "make_heap rs = foldr push_run (filter (\<lambda>r. r \<noteq> []) rs) []"

function merge_loop :: "run list \<Rightarrow> run" where
  "merge_loop [] = []"
| "merge_loop ([] # heap) = merge_loop heap"
| "merge_loop ((x # xs) # heap) = x # merge_loop (if xs = [] then heap else push_run xs heap)"
  by pat_completeness auto
termination
proof (relation "measure (\<lambda>rs. sum_list (map length rs) + length rs)")
  have "sum_list (map length (push_run r h)) = length r + sum_list (map length h)" for r h
    by (induction h) (auto simp: push_run_def)
  moreover have "length (push_run r h) = Suc (length h)" for r h by (simp add: push_run_def)
  ultimately show "(if xs = [] then heap else push_run xs heap, (x # xs) # heap) \<in>
      measure (\<lambda>rs. sum_list (map length rs) + length rs)" for x :: "name \<times> eid" and xs heap
    by simp
qed simp_all

definition invokeAndMergeInto ::
  "(eid \<Rightarrow> 'v option) \<Rightarrow> run list \<Rightarrow> (name \<rightharpoonup> 'v) \<Rightarrow> name \<rightharpoonup> 'v" where
  "invokeAndMergeInto getv runs output =
     fold (\<lambda>(n, e) out. case getv e of None \<Rightarrow> out | Some v \<Rightarrow> out(n \<mapsto> v)) (merge_loop (make_heap runs)) output"

definition getValues :: "'env \<Rightarrow> ('env \<Rightarrow> 'v, 'c) cvm \<Rightarrow> (name \<rightharpoonup> 'v) \<Rightarrow> name \<rightharpoonup> 'v" where
  "getValues env t output =
     invokeAndMergeInto (\<lambda>e. entry_getValue env e t) (map (\<lambda>m. sort_key fst (cm_map m)) (callbackMaps t)) output"

section \<open>The merge\<close>

lemma mset_push_run [simp]: "mset (concat (push_run r h)) = mset r + mset (concat h)"
  by (induction h) (auto simp: push_run_def ac_simps)

lemma set_push_run [simp]: "set (push_run r h) = insert r (set h)"
  by (simp add: push_run_def set_insort_key)

lemma mset_merge_loop: "mset (merge_loop rs) = mset (concat rs)"
  by (induction rs rule: merge_loop.induct) auto

definition heap_ok :: "run list \<Rightarrow> bool" where
  "heap_ok h \<longleftrightarrow> sorted (map (\<lambda>r. fst (hd r)) h) \<and> (\<forall>r \<in> set h. r \<noteq> [] \<and> sorted (map fst r))"

lemma heap_ok_push: "heap_ok h \<Longrightarrow> r \<noteq> [] \<Longrightarrow> sorted (map fst r) \<Longrightarrow> heap_ok (push_run r h)"
  by (auto simp: heap_ok_def push_run_def sorted_insort_key set_insort_key)

lemma heap_ok_front:
  assumes "heap_ok ((x # xs) # h)" "y \<in> set (concat ((x # xs) # h))"
  shows "fst x \<le> fst y"
proof -
  from assms(2) consider "y = x" | "y \<in> set xs" | r where "r \<in> set h" "y \<in> set r" by auto
  then show ?thesis
  proof cases
    case 3
    then have "fst x \<le> fst (hd r)" "sorted (map fst r)" using assms(1) by (auto simp: heap_ok_def)
    moreover have "fst (hd r) \<le> fst y" using 3(2) \<open>sorted (map fst r)\<close> by (cases r) auto
    ultimately show ?thesis by simp
  qed (use assms(1) in \<open>auto simp: heap_ok_def\<close>)
qed

lemma sorted_merge_loop: "heap_ok rs \<Longrightarrow> sorted (map fst (merge_loop rs))"
proof (induction rs rule: merge_loop.induct)
  case (3 x xs h)
  let ?h = "if xs = [] then h else push_run xs h"
  have ok: "heap_ok ?h" using 3(2) heap_ok_push[of h xs] by (auto simp: heap_ok_def)
  have "set (merge_loop ?h) \<subseteq> set (concat ((x # xs) # h))"
    using mset_merge_loop[of ?h] by (auto dest!: arg_cong[of _ _ set_mset])
  then have "\<forall>y \<in> set (merge_loop ?h). fst x \<le> fst y" using heap_ok_front[OF 3(2)] by blast
  with 3(1)[OF ok] show ?case by simp
qed (auto simp: heap_ok_def)

lemma heap_ok_make: "(\<forall>r \<in> set rs. sorted (map fst r)) \<Longrightarrow> heap_ok (make_heap rs)"
  unfolding make_heap_def by (induction rs) (auto simp: heap_ok_push, simp add: heap_ok_def)

lemma mset_make_heap: "mset (concat (make_heap rs)) = mset (concat rs)"
  unfolding make_heap_def by (induction rs) auto

lemma merge_sorted_runs:
  assumes "\<forall>r \<in> set rs. sorted (map fst r)"
  shows "sorted (map fst (merge_loop (make_heap rs))) \<and> mset (merge_loop (make_heap rs)) = mset (concat rs)"
  using sorted_merge_loop[OF heap_ok_make[OF assms]] by (simp add: mset_merge_loop mset_make_heap)

lemma fold_assign:
  assumes "distinct (map fst xs)"
  shows "fold (\<lambda>(n, e) out. case getv e of None \<Rightarrow> out | Some v \<Rightarrow> out(n \<mapsto> v)) xs acc =
     acc ++ (\<lambda>n. Option.bind (map_of xs n) getv)"
  using assms
proof (induction xs arbitrary: acc)
  case (Cons x xs)
  obtain n e where x: "x = (n, e)" by (cases x)
  have "map_of xs n = None" using Cons.prems x by (auto simp: map_of_eq_None_iff)
  then have "(case getv e of None \<Rightarrow> acc | Some v \<Rightarrow> acc(n \<mapsto> v)) ++ (\<lambda>n. Option.bind (map_of xs n) getv) =
    acc ++ (\<lambda>k. Option.bind (map_of (x # xs) k) getv)"
    by (auto simp: x map_add_def fun_eq_iff split: option.splits)
  with Cons x show ?case by simp
qed (simp add: map_add_def)

section \<open>Invariant and abstraction\<close>

definition all_entries :: "('cb, 'c) cvm \<Rightarrow> (name \<times> eid) list" where
  "all_entries t = concat (map cm_map (callbackMaps t))"

definition cvm_inv ::
  "(name \<Rightarrow> uint64) \<Rightarrow> ('c \<Rightarrow> name set) \<Rightarrow> ('c \<Rightarrow> bool) \<Rightarrow> ('cb, 'c) cvm \<Rightarrow> bool" where
  "cvm_inv hash strings ok t \<longleftrightarrow>
     length (callbackMaps t) = kNumShards \<and>
     (\<forall>i < kNumShards. lockstep strings ok (callbackMaps t ! i)) \<and>
     (\<forall>i < kNumShards. \<forall>(n, e) \<in> set (cm_map (callbackMaps t ! i)).
        getShard hash n = i \<and> e < next_entry t \<and>
        (\<exists>cb. entries_of t e = Some \<lparr>ce_name = n, ce_callback = Some cb\<rparr>))"

definition lookup :: "(name \<Rightarrow> uint64) \<Rightarrow> ('cb, 'c) cvm \<Rightarrow> name \<rightharpoonup> 'cb" where
  "lookup hash t n =
     (case cm_find n (shard_of hash n t) of
        None \<Rightarrow> None
      | Some e \<Rightarrow> (case entries_of t e of None \<Rightarrow> None | Some x \<Rightarrow> ce_callback x))"


lemma getShard_bound [simp]: "getShard hash n < kNumShards"
  by (simp add: getShard_def kNumShards_def)

lemma cvm_invD:
  assumes "cvm_inv hash strings ok t"
  shows "length (callbackMaps t) = kNumShards"
    and "i < kNumShards \<Longrightarrow> lockstep strings ok (callbackMaps t ! i)"
    and "i < kNumShards \<Longrightarrow> (n, e) \<in> set (cm_map (callbackMaps t ! i)) \<Longrightarrow>
      getShard hash n = i \<and> e < next_entry t \<and> (\<exists>cb. entries_of t e = Some \<lparr>ce_name = n, ce_callback = Some cb\<rparr>)"
  using assms unfolding cvm_inv_def by (simp, blast, fast)

lemma shard_lockstep: "cvm_inv hash strings ok t \<Longrightarrow> lockstep strings ok (shard_of hash n t)"
  by (simp add: shard_of_def cvm_invD(2))

lemma cm_find_mem: "lockstep strings ok m \<Longrightarrow> cm_find n m = Some e \<longleftrightarrow> (n, e) \<in> set (cm_map m)"
  by (simp add: lockstep_def cm_find_def cm_keys_def)

lemma find_entry:
  assumes I: "cvm_inv hash strings ok t" and f: "cm_find n (shard_of hash n t) = Some e"
  obtains cb where "entries_of t e = Some \<lparr>ce_name = n, ce_callback = Some cb\<rparr>" "e < next_entry t"
    "lookup hash t n = Some cb"
proof -
  have "(n, e) \<in> set (cm_map (callbackMaps t ! getShard hash n))"
    using f cm_find_mem[OF shard_lockstep[OF I]] by (simp add: shard_of_def)
  from cvm_invD(3)[OF I getShard_bound this] obtain cb
    where "entries_of t e = Some \<lparr>ce_name = n, ce_callback = Some cb\<rparr>" "e < next_entry t" by blast
  with f that show thesis by (simp add: lookup_def)
qed

lemma lookup_None: "cvm_inv hash strings ok t \<Longrightarrow> lookup hash t n = None \<longleftrightarrow> cm_find n (shard_of hash n t) = None"
  by (cases "cm_find n (shard_of hash n t)") (auto simp: lookup_def elim: find_entry)

lemma contains_lookup: "cvm_inv hash strings ok t \<Longrightarrow> contains hash n t \<longleftrightarrow> lookup hash t n \<noteq> None"
  by (simp add: contains_def lookup_None)

lemma getValue_lookup: "cvm_inv hash strings ok t \<Longrightarrow> getValue hash env n t = map_option (\<lambda>cb. cb env) (lookup hash t n)"
  by (cases "cm_find n (shard_of hash n t)")
    (auto simp: getValue_def getCallback_def entry_getValue_def lookup_def elim: find_entry)

lemma lookup_other_shard:
  assumes "getShard hash k \<noteq> getShard hash n"
  shows "shard_of hash k (put_shard hash n m t) = shard_of hash k t"
  using assms by (simp add: shard_of_def put_shard_def)

lemma shard_put: "length (callbackMaps t) = kNumShards \<Longrightarrow> getShard hash k = getShard hash n \<Longrightarrow>
  shard_of hash k (put_shard hash n m t) = m"
  by (simp add: shard_of_def put_shard_def)

text \<open>Replacing a shard and extending the entries.\<close>

lemma cvm_inv_put:
  assumes I: "cvm_inv hash strings ok t" and m: "lockstep strings ok m"
    and ne: "next_entry t \<le> next_entry t'" and cm: "callbackMaps t' = (callbackMaps t)[getShard hash n := m]"
    and old: "\<And>k e. (k, e) \<in> set (cm_map m) \<Longrightarrow> (k, e) \<in> set (cm_map (shard_of hash n t)) \<and> entries_of t' e = entries_of t e \<or>
        getShard hash k = getShard hash n \<and> e < next_entry t' \<and> (\<exists>cb. entries_of t' e = Some \<lparr>ce_name = k, ce_callback = Some cb\<rparr>)"
    and other: "\<And>k e. getShard hash k \<noteq> getShard hash n \<Longrightarrow> (k, e) \<in> set (cm_map (shard_of hash k t)) \<Longrightarrow> entries_of t' e = entries_of t e"
  shows "cvm_inv hash strings ok t'"
proof -
  note D = cvm_invD[OF I]
  have len: "length (callbackMaps t') = kNumShards" using D(1) cm by simp
  have sh: "callbackMaps t' ! i = (if i = getShard hash n then m else callbackMaps t ! i)" if "i < kNumShards" for i
    using cm D(1) that by (simp add: nth_list_update)
  have ls: "\<forall>i < kNumShards. lockstep strings ok (callbackMaps t' ! i)" using sh D(2) m by simp
  have "getShard hash k = i \<and> e < next_entry t' \<and> (\<exists>cb. entries_of t' e = Some \<lparr>ce_name = k, ce_callback = Some cb\<rparr>)"
    if i: "i < kNumShards" and ke: "(k, e) \<in> set (cm_map (callbackMaps t' ! i))" for i k e
  proof (cases "i = getShard hash n")
    case True
    then have "(k, e) \<in> set (cm_map m)" using ke sh[OF i] by simp
    from old[OF this] show ?thesis
    proof
      assume a: "(k, e) \<in> set (cm_map (shard_of hash n t)) \<and> entries_of t' e = entries_of t e"
      then show ?thesis using D(3)[of "getShard hash n" k e] True ne by (auto simp: shard_of_def)
    qed (use True in simp)
  next
    case False
    then have ke': "(k, e) \<in> set (cm_map (callbackMaps t ! i))" using ke sh[OF i] by simp
    from D(3)[OF i this] have d: "getShard hash k = i" "e < next_entry t"
      "\<exists>cb. entries_of t e = Some \<lparr>ce_name = k, ce_callback = Some cb\<rparr>" by blast+
    have "entries_of t' e = entries_of t e" using other[of k e] d(1) False ke' by (simp add: shard_of_def)
    with d ne show ?thesis by auto
  qed
  then show ?thesis unfolding cvm_inv_def using len ls by blast
qed


lemma add_cases:
  assumes "cm_find k m = None" "cachedAddString ops k v m = (r, m2)"
  shows "cm_map m2 = cm_map m @ [(k, v)] \<or> r = Inl BadAlloc \<and> cm_map m2 = cm_map m"
proof -
  have "cm_erase k (cm_map m @ [(k, v)]) = cm_map m"
    using assms(1) by (auto simp: cm_erase_def cm_find_def map_of_eq_None_iff filter_neq_id)
  with assms show ?thesis
    by (auto simp: cachedAddString_def Let_def split: if_splits prod.splits)
qed

lemma cm_map_erase: "cm_map (cachedEraseString ops k m) = cm_erase k (cm_map m)"
  by (simp add: cachedEraseString_def)

lemma cm_find_erase: "cm_find j (cachedEraseString ops k m) = (if j = k then None else cm_find j m)"
proof -
  have "map_of (filter (\<lambda>e. fst e \<noteq> k) xs) j = (if j = k then None else map_of xs j)" for xs :: "(name \<times> 'a) list"
    by (induction xs) auto
  then show ?thesis by (simp add: cm_find_def cm_map_erase cm_erase_def)
qed

lemma erased_lockstep:
  assumes "regex_cache ops rx strings ok" "lockstep strings ok m"
  shows "lockstep strings ok (if cm_find n m \<noteq> None then cachedEraseString ops n m else m)"
  using assms by (simp add: lockstep_erase)

lemma register_ok:
  assumes L: "regex_cache ops rx strings ok" and I: "cvm_inv hash strings ok t"
    and r: "registerCallback ops hash n cob overwrite t = (res, t')"
  shows "cvm_inv hash strings ok t'"
    and "k \<noteq> n \<Longrightarrow> lookup hash t' k = lookup hash t k"
    and "res = Inr () \<Longrightarrow> lookup hash t' n = (if \<not> overwrite \<and> lookup hash t n \<noteq> None then lookup hash t n else Some cob)"
proof -
  have "cvm_inv hash strings ok t' \<and> (\<forall>k. k \<noteq> n \<longrightarrow> lookup hash t' k = lookup hash t k) \<and>
    (res = Inr () \<longrightarrow> lookup hash t' n = (if \<not> overwrite \<and> lookup hash t n \<noteq> None then lookup hash t n else Some cob))"
  proof (cases "\<not> overwrite \<and> contains hash n t")
    case True
    with r have "t' = t" by (simp add: registerCallback_def)
    with I True show ?thesis by (simp add: contains_lookup)
  next
    case False
    note D = cvm_invD[OF I]
    define e where "e = next_entry t"
    define E where "E = (entries_of t)(e \<mapsto> \<lparr>ce_name = n, ce_callback = Some cob\<rparr>)"
    define m where "m = shard_of hash n t"
    define m1 where "m1 = (if cm_find n m \<noteq> None then cachedEraseString ops n m else m)"
    obtain rr m2 where m2: "cachedAddString ops n e m1 = (rr, m2)" by (cases "cachedAddString ops n e m1")
    have lm: "lockstep strings ok m" unfolding m_def by (rule shard_lockstep[OF I])
    have l1: "lockstep strings ok m1" unfolding m1_def by (rule erased_lockstep[OF L lm])
    have f1: "cm_find n m1 = None" by (simp add: m1_def cm_find_erase)
    have l2: "lockstep strings ok m2" using lockstep_add[OF L l1, of n e] m2 by simp
    have c2: "cm_map m2 = cm_map m1 @ [(n, e)] \<or> rr = Inl BadAlloc \<and> cm_map m2 = cm_map m1"
      by (rule add_cases[OF f1 m2])
    have sh: "shard_of hash n (t\<lparr>entries_of := E, next_entry := e + 1\<rparr>) = m" by (simp add: shard_of_def m_def)
    have eq: "registerCallback ops hash n cob overwrite t =
        (case rr of Inl err \<Rightarrow> Inl err | Inr _ \<Rightarrow> Inr (), put_shard hash n m2 (t\<lparr>entries_of := E, next_entry := e + 1\<rparr>))"
      unfolding registerCallback_def Let_def e_def[symmetric] E_def[symmetric] sh m1_def[symmetric] m2 prod.case
      using False by auto
    have t': "callbackMaps t' = (callbackMaps t)[getShard hash n := m2]" "entries_of t' = E" "next_entry t' = e + 1"
      and res: "res = (case rr of Inl err \<Rightarrow> Inl err | Inr _ \<Rightarrow> Inr ())"
      using r unfolding eq by (auto simp: put_shard_def)
    have sub: "set (cm_map m1) \<subseteq> set (cm_map m)" by (auto simp: m1_def cm_map_erase cm_erase_def)
    have olde: "(k, x) \<in> set (cm_map (shard_of hash k' t)) \<Longrightarrow> E x = entries_of t x" for k k' x
      using D(3)[of "getShard hash k'" k x] by (auto simp: E_def e_def shard_of_def)
    have inv: "cvm_inv hash strings ok t'"
    proof (rule cvm_inv_put[OF I l2 _ t'(1)])
      show "next_entry t \<le> next_entry t'" by (simp add: t'(3) e_def)
      show "(k, x) \<in> set (cm_map (shard_of hash n t)) \<and> entries_of t' x = entries_of t x \<or>
        getShard hash k = getShard hash n \<and> x < next_entry t' \<and> (\<exists>cb. entries_of t' x = Some \<lparr>ce_name = k, ce_callback = Some cb\<rparr>)"
        if "(k, x) \<in> set (cm_map m2)" for k x
        using that c2 sub olde[of k x n] by (auto simp: t' E_def m_def)
      show "entries_of t' x = entries_of t x" if "(k, x) \<in> set (cm_map (shard_of hash k t))" for k x
        using that olde by (simp add: t')
    qed
    have other: "lookup hash t' k = lookup hash t k" if "k \<noteq> n" for k
    proof (cases "getShard hash k = getShard hash n")
      case True
      then have "shard_of hash k t' = m2" "shard_of hash k t = m" using D(1) by (simp_all add: shard_of_def t' m_def)
      moreover have "cm_find k m2 = cm_find k m1" using c2 that by (auto simp: cm_find_def map_add_def split: option.splits)
      moreover have "cm_find k m1 = cm_find k m" using that by (simp add: m1_def cm_find_erase)
      moreover have "cm_find k m = Some x \<Longrightarrow> E x = entries_of t x" for x
        using olde[of k x n] cm_find_mem[OF lm] by (simp add: m_def)
      ultimately show ?thesis by (auto simp: lookup_def t' split: option.splits)
    next
      case False
      then have "shard_of hash k t' = shard_of hash k t" by (simp add: shard_of_def t')
      moreover have "cm_find k (shard_of hash k t) = Some x \<Longrightarrow> E x = entries_of t x" for x
        using olde[of k x k] cm_find_mem[OF shard_lockstep[OF I]] by simp
      ultimately show ?thesis by (auto simp: lookup_def t' split: option.splits)
    qed
    have new: "lookup hash t' n = Some cob" if "res = Inr ()"
    proof -
      have "cm_map m2 = cm_map m1 @ [(n, e)]" using c2 res that by auto
      then have "cm_find n m2 = Some e" using f1 by (auto simp: cm_find_def map_add_def)
      moreover have "shard_of hash n t' = m2" using D(1) by (simp add: shard_of_def t')
      ultimately show ?thesis by (simp add: lookup_def t' E_def)
    qed
    have "overwrite \<or> lookup hash t n = None" using False contains_lookup[OF I] by auto
    with inv other new show ?thesis by auto
  qed
  then show "cvm_inv hash strings ok t'"
    and "k \<noteq> n \<Longrightarrow> lookup hash t' k = lookup hash t k"
    and "res = Inr () \<Longrightarrow> lookup hash t' n = (if \<not> overwrite \<and> lookup hash t n \<noteq> None then lookup hash t n else Some cob)"
    by blast+
qed


lemma unregister_ok:
  assumes L: "regex_cache ops rx strings ok" and I: "cvm_inv hash strings ok t"
    and r: "unregisterCallback ops hash n t = (b, t')"
  shows "cvm_inv hash strings ok t'" and "lookup hash t' = (lookup hash t)(n := None)"
    and "b \<longleftrightarrow> lookup hash t n \<noteq> None"
    and "getCallback hash n t = Some e \<Longrightarrow> \<exists>x. entries_of t' e = Some x \<and> ce_callback x = None"
proof -
  have "cvm_inv hash strings ok t' \<and> lookup hash t' = (lookup hash t)(n := None) \<and> (b \<longleftrightarrow> lookup hash t n \<noteq> None) \<and>
    (\<forall>e. getCallback hash n t = Some e \<longrightarrow> (\<exists>x. entries_of t' e = Some x \<and> ce_callback x = None))"
  proof (cases "cm_find n (shard_of hash n t)")
    case None
    with r have "t' = t" "\<not> b" by (simp_all add: unregisterCallback_def Let_def)
    moreover have "lookup hash t n = None" using None lookup_None[OF I] by simp
    ultimately show ?thesis using I None by (auto simp: fun_eq_iff getCallback_def)
  next
    case (Some x)
    note D = cvm_invD[OF I]
    define m where "m = shard_of hash n t"
    have lm: "lockstep strings ok m" unfolding m_def by (rule shard_lockstep[OF I])
    obtain cb where cb: "entries_of t x = Some \<lparr>ce_name = n, ce_callback = Some cb\<rparr>" "lookup hash t n = Some cb"
      by (rule find_entry[OF I Some])
    have t': "callbackMaps t' = (callbackMaps t)[getShard hash n := cachedEraseString ops n m]"
      "entries_of t' = (entries_of t)(x \<mapsto> \<lparr>ce_name = n, ce_callback = None\<rparr>)" "next_entry t' = next_entry t" "b"
      using r Some cb by (auto simp: unregisterCallback_def Let_def entry_clear_def put_shard_def m_def)
    have ne: "k \<noteq> n \<Longrightarrow> (k, y) \<in> set (cm_map (shard_of hash k' t)) \<Longrightarrow> entries_of t' y = entries_of t y" for k k' y
      using D(3)[of "getShard hash k'" k y] cb(1) by (auto simp: t' shard_of_def)
    have "cvm_inv hash strings ok t'"
    proof (rule cvm_inv_put[OF I lockstep_erase[OF L lm] _ t'(1)])
      show "next_entry t \<le> next_entry t'" by (simp add: t')
      show "(k, y) \<in> set (cm_map (shard_of hash n t)) \<and> entries_of t' y = entries_of t y \<or>
        getShard hash k = getShard hash n \<and> y < next_entry t' \<and> (\<exists>cb. entries_of t' y = Some \<lparr>ce_name = k, ce_callback = Some cb\<rparr>)"
        if "(k, y) \<in> set (cm_map (cachedEraseString ops n m))" for k y
        using that ne[of k y n] by (auto simp: cm_map_erase cm_erase_def m_def)
      show "entries_of t' y = entries_of t y"
        if "getShard hash k \<noteq> getShard hash n" "(k, y) \<in> set (cm_map (shard_of hash k t))" for k y
        using ne[of k y k] that by auto
    qed
    moreover have "lookup hash t' k = ((lookup hash t)(n := None)) k" for k
    proof (cases "getShard hash k = getShard hash n")
      case True
      then have "shard_of hash k t' = cachedEraseString ops n m" "shard_of hash k t = m"
        using D(1) by (simp_all add: shard_of_def t' m_def)
      moreover have "k \<noteq> n \<Longrightarrow> cm_find k m = Some y \<Longrightarrow> entries_of t' y = entries_of t y" for y
        using ne[of k y n] cm_find_mem[OF lm] by (simp add: m_def)
      ultimately show ?thesis by (auto simp: lookup_def cm_find_erase split: option.splits)
    next
      case False
      then have "shard_of hash k t' = shard_of hash k t" "k \<noteq> n" by (auto simp: shard_of_def t')
      moreover have "cm_find k (shard_of hash k t) = Some y \<Longrightarrow> entries_of t' y = entries_of t y" for y
        using ne[of k y k] \<open>k \<noteq> n\<close> cm_find_mem[OF shard_lockstep[OF I]] by simp
      ultimately show ?thesis by (auto simp: lookup_def split: option.splits)
    qed
    ultimately show ?thesis using cb Some t'(2,4) by (auto simp: fun_eq_iff getCallback_def)
  qed
  then show "cvm_inv hash strings ok t'" "lookup hash t' = (lookup hash t)(n := None)" "b \<longleftrightarrow> lookup hash t n \<noteq> None"
    "getCallback hash n t = Some e \<Longrightarrow> \<exists>x. entries_of t' e = Some x \<and> ce_callback x = None"
    by auto
qed

lemma concat_lookup:
  assumes I: "cvm_inv hash strings ok t"
  shows "(n, e) \<in> set (all_entries t) \<longleftrightarrow> cm_find n (shard_of hash n t) = Some e"
proof -
  note D = cvm_invD[OF I]
  have "(n, e) \<in> set (all_entries t) \<longleftrightarrow> (\<exists>i < kNumShards. (n, e) \<in> set (cm_map (callbackMaps t ! i)))"
    using D(1) by (simp add: all_entries_def) (metis in_set_conv_nth)
  also have "\<dots> \<longleftrightarrow> (n, e) \<in> set (cm_map (shard_of hash n t))"
    using D(3) getShard_bound[of hash n] unfolding shard_of_def by blast
  finally show ?thesis using cm_find_mem[OF shard_lockstep[OF I]] by simp
qed

lemma distinct_concat_shards:
  assumes "\<And>i. i < length xs \<Longrightarrow> distinct (f (xs ! i))"
    and "\<And>i x. i < length xs \<Longrightarrow> x \<in> set (f (xs ! i)) \<Longrightarrow> g x = i + d"
  shows "distinct (concat (map f xs))"
  using assms
proof (induction xs arbitrary: d)
  case (Cons y ys)
  have "distinct (concat (map f ys))"
  proof (rule Cons.IH[of "Suc d"])
    show "i < length ys \<Longrightarrow> distinct (f (ys ! i))" for i using Cons.prems(1)[of "Suc i"] by simp
    show "i < length ys \<Longrightarrow> x \<in> set (f (ys ! i)) \<Longrightarrow> g x = i + Suc d" for i x
      using Cons.prems(2)[of "Suc i" x] by simp
  qed
  moreover have "distinct (f y)" using Cons.prems(1)[of 0] by simp
  moreover have "set (f y) \<inter> set (concat (map f ys)) = {}"
  proof -
    have "g x = d" if "x \<in> set (f y)" for x using Cons.prems(2)[of 0 x] that by simp
    moreover have "g x \<noteq> d" if "x \<in> set (concat (map f ys))" for x
    proof -
      from that obtain z where "z \<in> set ys" "x \<in> set (f z)" by auto
      then obtain i where "i < length ys" "x \<in> set (f (ys ! i))" by (metis in_set_conv_nth)
      then show ?thesis using Cons.prems(2)[of "Suc i" x] by simp
    qed
    ultimately show ?thesis by blast
  qed
  ultimately show ?case by simp
qed simp

lemma distinct_names:
  assumes I: "cvm_inv hash strings ok t"
  shows "distinct (map fst (all_entries t))"
proof -
  note D = cvm_invD[OF I]
  have "distinct (concat (map cm_keys (callbackMaps t)))"
  proof (rule distinct_concat_shards[where g = "getShard hash" and d = 0])
    show "i < length (callbackMaps t) \<Longrightarrow> distinct (cm_keys (callbackMaps t ! i))" for i
      using D(1,2) by (simp add: lockstep_def)
    show "i < length (callbackMaps t) \<Longrightarrow> x \<in> set (cm_keys (callbackMaps t ! i)) \<Longrightarrow> getShard hash x = i + 0" for i x
      using D(1) D(3)[of i x] by (auto simp: cm_keys_def)
  qed
  moreover have "map fst (all_entries t) = concat (map cm_keys (callbackMaps t))"
    by (simp add: all_entries_def map_concat comp_def cm_keys_def[abs_def])
  ultimately show ?thesis by simp
qed

lemma dom_lookup: "cvm_inv hash strings ok t \<Longrightarrow> dom (lookup hash t) = set (map fst (all_entries t))"
  using concat_lookup[of hash strings ok t] lookup_None[of hash strings ok t] by (force simp: dom_def)

lemma getKeys_concat: "getKeys ks t = ks @ map fst (all_entries t)"
proof -
  have "foldl (\<lambda>ks m. ks @ cm_keys m) ks ms = ks @ concat (map cm_keys ms)" for ms :: "(eid, 'b) cached_map list"
    by (induction ms arbitrary: ks) simp_all
  then show ?thesis by (simp add: getKeys_def all_entries_def map_concat comp_def cm_keys_def[abs_def])
qed

lemma getNumKeys_length: "getNumKeys t = length (all_entries t)"
proof -
  have "foldl (\<lambda>n m. n + length (cm_map m)) k ms = k + length (concat (map cm_map ms))" for k and ms :: "(eid, 'b) cached_map list"
    by (induction ms arbitrary: k) simp_all
  then show ?thesis by (simp add: getNumKeys_def all_entries_def)
qed


lemma all_entries_map_of:
  assumes I: "cvm_inv hash strings ok t"
  shows "map_of (all_entries t) n = cm_find n (shard_of hash n t)"
  using concat_lookup[OF I] map_of_eq_Some_iff[OF distinct_names[OF I]]
  by (metis not_Some_eq)

lemma getValues_lookup:
  fixes t :: "('env \<Rightarrow> 'v, 'c) cvm"
  assumes I: "cvm_inv hash strings ok t"
  shows "getValues env t out = out ++ (\<lambda>n. map_option (\<lambda>cb. cb env) (lookup hash t n))"
    and "sorted_wrt (<) (map fst (merge_loop (make_heap (map (\<lambda>m. sort_key fst (cm_map m)) (callbackMaps t)))))"
    and "set (map fst (merge_loop (make_heap (map (\<lambda>m. sort_key fst (cm_map m)) (callbackMaps t))))) = dom (lookup hash t)"
proof -
  let ?runs = "map (\<lambda>m. sort_key fst (cm_map m)) (callbackMaps t)"
  let ?l = "merge_loop (make_heap ?runs)"
  have M: "sorted (map fst ?l)" "mset ?l = mset (concat ?runs)" using merge_sorted_runs[of ?runs] by auto
  have ms: "mset ?l = mset (all_entries t)"
  proof -
    have "mset (concat (map (\<lambda>m. sort_key fst (cm_map m)) xs)) = mset (concat (map cm_map xs))"
      for xs :: "(eid, 'c) cached_map list" by (induction xs) simp_all
    then show ?thesis using M(2) by (simp add: all_entries_def)
  qed
  have dist: "distinct (map fst ?l)"
    using distinct_names[OF I] ms by (metis mset_eq_imp_distinct_iff mset_map)
  show "sorted_wrt (<) (map fst ?l)" using M(1) dist strict_sorted_iff by blast
  have se: "set ?l = set (all_entries t)" using ms by (metis set_mset_mset)
  then show "set (map fst ?l) = dom (lookup hash t)" using dom_lookup[OF I] by simp
  have mo: "map_of ?l n = cm_find n (shard_of hash n t)" for n
    using se dist all_entries_map_of[OF I] distinct_names[OF I] by (metis map_of_eqI map_of_eq_Some_iff not_Some_eq)
  have "Option.bind (map_of ?l n) (\<lambda>e. entry_getValue env e t) = map_option (\<lambda>cb. cb env) (lookup hash t n)" for n
    unfolding mo using getValue_lookup[OF I, of env n]
    by (cases "cm_find n (shard_of hash n t)") (simp_all add: getValue_def getCallback_def)
  then show "getValues env t out = out ++ (\<lambda>n. map_option (\<lambda>cb. cb env) (lookup hash t n))"
    using fold_assign[OF dist, of "\<lambda>e. entry_getValue env e t" out]
    by (simp add: getValues_def invokeAndMergeInto_def)
qed

lemma clear_entries:
  "callbackMaps (foldl (\<lambda>t e. entry_clear (snd e) t) t es) = callbackMaps t"
  "next_entry (foldl (\<lambda>t e. entry_clear (snd e) t) t es) = next_entry t"
  by (induction es arbitrary: t) (simp_all add: entry_clear_def)

lemma clear_ok:
  assumes L: "regex_cache ops rx strings ok" and I: "cvm_inv hash strings ok t"
  shows "cvm_inv hash strings ok (cvm_clear ops t)" and "lookup hash (cvm_clear ops t) = Map.empty"
proof -
  note D = cvm_invD[OF I]
  have m: "callbackMaps (cvm_clear ops t) = map (cachedClearStrings ops) (callbackMaps t)"
    by (simp add: cvm_clear_def Let_def)
  have "i < kNumShards \<Longrightarrow> cm_map (callbackMaps (cvm_clear ops t) ! i) = []" for i
    using D(1) by (simp add: m cachedClearStrings_def)
  moreover have "i < kNumShards \<Longrightarrow> lockstep strings ok (callbackMaps (cvm_clear ops t) ! i)" for i
    using D(1) lockstep_clear[OF L D(2)[of i]] by (simp add: m)
  ultimately show "cvm_inv hash strings ok (cvm_clear ops t)" "lookup hash (cvm_clear ops t) = Map.empty"
    using D(1) by (simp_all add: cvm_inv_def m lookup_def shard_of_def cm_find_def fun_eq_iff)
qed


section \<open>The registry as seen by its clients\<close>

text \<open>
  What the exporters rely on: a registration that does not fail, and what lookups return afterwards. The
  loops of the exporters register or unregister a list of names, the former stopping at an exception.
\<close>

fun register_all ::
  "(name \<Rightarrow> 'cb \<Rightarrow> 's \<Rightarrow> (rx_error + unit) \<times> 's) \<Rightarrow> (name \<times> 'cb) list \<Rightarrow> 's \<Rightarrow> (rx_error + unit) \<times> 's" where
  "register_all reg [] s = (Inr (), s)"
| "register_all reg ((n, cb) # xs) s =
     (case reg n cb s of
        (Inl e, s1) \<Rightarrow> (Inl e, s1)
      | (Inr _, s1) \<Rightarrow> register_all reg xs s1)"

definition unregister_all :: "(name \<Rightarrow> 's \<Rightarrow> bool \<times> 's) \<Rightarrow> name list \<Rightarrow> 's \<Rightarrow> 's" where
  "unregister_all unreg ns s = fold (\<lambda>n s. snd (unreg n s)) ns s"

locale callback_registry =
  fixes reg :: "bool \<Rightarrow> name \<Rightarrow> 'cb \<Rightarrow> 's \<Rightarrow> (rx_error + unit) \<times> 's" and unreg :: "name \<Rightarrow> 's \<Rightarrow> bool \<times> 's"
    and look :: "'s \<Rightarrow> name \<rightharpoonup> 'cb" and inv :: "'s \<Rightarrow> bool"
  assumes reg_law: "inv s \<Longrightarrow> \<exists>s'. reg ow n cb s = (Inr (), s') \<and> inv s' \<and>
      look s' = (if \<not> ow \<and> look s n \<noteq> None then look s else (look s)(n \<mapsto> cb))"
    and unreg_law: "inv s \<Longrightarrow> inv (snd (unreg n s)) \<and> look (snd (unreg n s)) = (look s)(n := None)"
begin

lemma register_new:
  "inv s \<Longrightarrow> \<exists>s'. register_all (reg False) xs s = (Inr (), s') \<and> inv s' \<and> look s' = map_of xs ++ look s"
proof (induction xs arbitrary: s)
  case (Cons x xs)
  obtain n cb where x: "x = (n, cb)" by (cases x)
  obtain s1 where s1: "reg False n cb s = (Inr (), s1)" "inv s1"
    "look s1 = (if look s n \<noteq> None then look s else (look s)(n \<mapsto> cb))"
    using reg_law[OF Cons.prems, of False n cb] by auto
  obtain s' where s': "register_all (reg False) xs s1 = (Inr (), s')" "inv s'" "look s' = map_of xs ++ look s1"
    using Cons.IH[OF s1(2)] by auto
  have "map_of xs ++ look s1 = map_of (x # xs) ++ look s"
    unfolding s1(3) x by (auto simp: map_add_def fun_eq_iff split: option.splits)
  then have "look s' = map_of (x # xs) ++ look s" using s'(3) by simp
  with x s1(1) s'(1,2) show ?case by (auto simp del: map_of.simps)
qed simp

lemma register_over:
  "inv s \<Longrightarrow> \<exists>s'. register_all (reg True) xs s = (Inr (), s') \<and> inv s' \<and> look s' = look s ++ map_of (rev xs)"
proof (induction xs arbitrary: s)
  case (Cons x xs)
  obtain n cb where x: "x = (n, cb)" by (cases x)
  obtain s1 where s1: "reg True n cb s = (Inr (), s1)" "inv s1" "look s1 = (look s)(n \<mapsto> cb)"
    using reg_law[OF Cons.prems, of True n cb] by auto
  obtain s' where s': "register_all (reg True) xs s1 = (Inr (), s')" "inv s'" "look s' = look s1 ++ map_of (rev xs)"
    using Cons.IH[OF s1(2)] by auto
  have "look s1 ++ map_of (rev xs) = look s ++ map_of (rev (x # xs))"
    unfolding s1(3) x by (auto simp: map_add_def fun_eq_iff split: option.splits)
  with x s1 s' show ?case by simp
qed simp

lemma unregister_names:
  "inv s \<Longrightarrow> inv (unregister_all unreg ns s) \<and> look (unregister_all unreg ns s) = look s |` (- set ns)"
  unfolding unregister_all_def
  by (induction ns arbitrary: s) (auto simp: unreg_law restrict_map_def fun_eq_iff)

end

definition cvm_good ::
  "('c, 'h, 'r) cache_ops \<Rightarrow> (regex \<Rightarrow> name \<Rightarrow> bool) \<Rightarrow> (name \<Rightarrow> uint64) \<Rightarrow> ('c \<Rightarrow> name set) \<Rightarrow> ('c \<Rightarrow> bool) \<Rightarrow> ('cb, 'c) cvm \<Rightarrow> bool"
where
  "cvm_good ops rx hash strings ok t \<longleftrightarrow>
     regex_cache ops rx strings ok \<and> reliable ops ok \<and> cvm_inv hash strings ok t"

lemma register_reliable:
  assumes L: "regex_cache ops rx strings ok" and R: "reliable ops ok" and I: "cvm_inv hash strings ok t"
  shows "fst (registerCallback ops hash n cb overwrite t) = Inr ()"
proof -
  have A: "(case fst (cachedAddString ops n e m) of Inl x \<Rightarrow> Inl x | Inr x \<Rightarrow> Inr ()) = Inr ()"
    if l: "lockstep strings ok m" for e and m :: "(eid, 'a) cached_map"
  proof -
    obtain b c where bc: "addString ops n (cm_matches m) = (b, c)" by (cases "addString ops n (cm_matches m)")
    have "fst (addString ops n (cm_matches m))" using R l by (simp add: reliable_def lockstep_def)
    with bc show ?thesis by (cases "cm_find n m") (auto simp: cachedAddString_def Let_def)
  qed
  have B: "lockstep strings ok (shard_of hash n (t\<lparr>entries_of := E, next_entry := x\<rparr>))" for E x
    using shard_lockstep[OF I, of n] by (simp add: shard_of_def)
  show ?thesis
    unfolding registerCallback_def Let_def case_prod_beta
    by (simp only: fst_conv A[OF erased_lockstep[OF L B]] if_cancel split: if_split) simp
qed

interpretation cbs: callback_registry
  "\<lambda>ow n (cb :: 'cb). registerCallback ops hash n cb ow" "unregisterCallback ops hash" "lookup hash"
  "cvm_good ops rx hash strings ok"
  for ops :: "('c, 'h, 'r) cache_ops" and rx hash strings ok
proof
  fix s :: "('cb, 'c) cvm" and ow n cb
  assume G: "cvm_good ops rx hash strings ok s"
  then have L: "regex_cache ops rx strings ok" and R: "reliable ops ok" and I: "cvm_inv hash strings ok s"
    by (simp_all add: cvm_good_def)
  obtain t where r: "registerCallback ops hash n cb ow s = (Inr (), t)"
    using register_reliable[OF L R I, of n cb ow] by (metis prod.collapse)
  have "lookup hash t = (if \<not> ow \<and> lookup hash s n \<noteq> None then lookup hash s else (lookup hash s)(n \<mapsto> cb))"
  proof
    fix k
    show "lookup hash t k = (if \<not> ow \<and> lookup hash s n \<noteq> None then lookup hash s else (lookup hash s)(n \<mapsto> cb)) k"
      using register_ok(2,3)[OF L I r] by (cases "k = n") auto
  qed
  with L R register_ok(1)[OF L I r] r
  show "\<exists>s'. registerCallback ops hash n cb ow s = (Inr (), s') \<and> cvm_good ops rx hash strings ok s' \<and>
      lookup hash s' = (if \<not> ow \<and> lookup hash s n \<noteq> None then lookup hash s else (lookup hash s)(n \<mapsto> cb))"
    by (simp add: cvm_good_def)
  obtain b u where un: "unregisterCallback ops hash n s = (b, u)" by (cases "unregisterCallback ops hash n s")
  show "cvm_good ops rx hash strings ok (snd (unregisterCallback ops hash n s)) \<and>
      lookup hash (snd (unregisterCallback ops hash n s)) = (lookup hash s)(n := None)"
    using L R unregister_ok(1,2)[OF L I un] by (simp add: cvm_good_def un)
qed

lemma new_cvm_inv: "ok c \<Longrightarrow> strings c = {} \<Longrightarrow> cvm_inv hash strings ok (new_cvm c)"
  by (simp add: cvm_inv_def new_cvm_def lockstep_def cm_keys_def)

lemma new_cvm_lookup: "lookup hash (new_cvm c) = Map.empty"
  by (simp add: lookup_def new_cvm_def shard_of_def cm_find_def fun_eq_iff)


section \<open>Results\<close>

datatype 'cb cvm_op = Register name 'cb bool | Unregister name | ClearAll

fun cvm_exec :: "('c, 'h, 'r) cache_ops \<Rightarrow> (name \<Rightarrow> uint64) \<Rightarrow> 'cb cvm_op \<Rightarrow> ('cb, 'c) cvm \<Rightarrow> ('cb, 'c) cvm" where
  "cvm_exec ops hash (Register n cb ow) t = snd (registerCallback ops hash n cb ow t)"
| "cvm_exec ops hash (Unregister n) t = snd (unregisterCallback ops hash n t)"
| "cvm_exec ops hash ClearAll t = cvm_clear ops t"

fun spec_cvm :: "'cb cvm_op \<Rightarrow> (name \<rightharpoonup> 'cb) \<Rightarrow> name \<rightharpoonup> 'cb" where
  "spec_cvm (Register n cb ow) m = (if \<not> ow \<and> n \<in> dom m then m else m(n \<mapsto> cb))"
| "spec_cvm (Unregister n) m = m(n := None)"
| "spec_cvm ClearAll m = Map.empty"

lemma cvm_exec_step:
  assumes G: "cvm_good ops rx hash strings ok t"
  shows "cvm_good ops rx hash strings ok (cvm_exec ops hash x t) \<and>
    lookup hash (cvm_exec ops hash x t) = spec_cvm x (lookup hash t)"
proof -
  have L: "regex_cache ops rx strings ok" and R: "reliable ops ok" and I: "cvm_inv hash strings ok t"
    using G by (simp_all add: cvm_good_def)
  show ?thesis
  proof (cases x)
    case (Register n cb ow)
    obtain u where r: "registerCallback ops hash n cb ow t = (Inr (), u)"
      using register_reliable[OF L R I, of n cb ow] by (metis prod.collapse)
    have "lookup hash u = spec_cvm x (lookup hash t)"
    proof
      fix k
      show "lookup hash u k = spec_cvm x (lookup hash t) k"
        using register_ok(2,3)[OF L I r] by (cases "k = n") (auto simp: Register)
    qed
    then show ?thesis using register_ok(1)[OF L I r] L R by (simp add: Register r cvm_good_def)
  next
    case (Unregister n)
    obtain b u where un: "unregisterCallback ops hash n t = (b, u)" by (cases "unregisterCallback ops hash n t")
    then show ?thesis using unregister_ok(1,2)[OF L I un] L R by (simp add: Unregister cvm_good_def)
  next
    case ClearAll
    then show ?thesis using clear_ok[OF L I] L R by (simp add: cvm_good_def)
  qed
qed

lemma cvm_exec_run:
  "cvm_good ops rx hash strings ok t \<Longrightarrow>
   cvm_good ops rx hash strings ok (fold (cvm_exec ops hash) xs t) \<and>
   lookup hash (fold (cvm_exec ops hash) xs t) = fold spec_cvm xs (lookup hash t)"
  by (induction xs arbitrary: t) (simp_all add: cvm_exec_step)

text \<open>
  C12: The sharded callback map is a map. Under any sequence of registrations, with and without overwriting,
  unregistrations and clears, the 128 shards with their regex caches hold exactly what a single map from
  names to callbacks would, every reader agrees with it, and the keys are listed once each.
\<close>
theorem callback_map_refines:
  fixes xs :: "('env \<Rightarrow> 'v) cvm_op list"
  assumes "regex_cache ops rx strings ok" "reliable ops ok" "ok c" "strings c = {}"
    and "t = fold (cvm_exec ops hash) xs (new_cvm c)" and "m = fold spec_cvm xs Map.empty"
  shows "(\<forall>n. getValue hash env n t = map_option (\<lambda>cb. cb env) (m n)) \<and>
    (\<forall>n. contains hash n t \<longleftrightarrow> n \<in> dom m) \<and>
    distinct (getKeys [] t) \<and> set (getKeys [] t) = dom m \<and> getNumKeys t = card (dom m)"
proof -
  have "cvm_good ops rx hash strings ok (new_cvm c :: ('env \<Rightarrow> 'v, 'a) cvm)"
    using assms(1-4) new_cvm_inv by (simp add: cvm_good_def)
  from cvm_exec_run[OF this, of xs] assms(5,6)
  have I: "cvm_inv hash strings ok t" and m: "lookup hash t = m" by (simp_all add: cvm_good_def new_cvm_lookup)
  have k: "distinct (getKeys [] t)" "set (getKeys [] t) = dom m" "getNumKeys t = length (getKeys [] t)"
    using distinct_names[OF I] dom_lookup[OF I] m by (simp_all add: getKeys_concat getNumKeys_length)
  show ?thesis using k getValue_lookup[OF I] contains_lookup[OF I] m distinct_card[OF k(1)]
    by (simp add: domIff)
qed

definition demo_cvm :: "(nat \<Rightarrow> nat, name list) cvm" where
  "demo_cvm = fold (cvm_exec (ready_cache (\<lambda>r s. r = s)) (\<lambda>n. word_of_nat (length n)))
     [Register ''b'' (\<lambda>e. e + 1) True, Register ''a'' (\<lambda>e. e) True, Register ''b'' (\<lambda>e. 0) False] (new_cvm [])"

lemma demo_reliable: "reliable (ready_cache rx) distinct"
  by (simp add: reliable_def ready_cache_def scan_cache_def)

theorem callback_map_refines_witness:
  "getValue (\<lambda>n. word_of_nat (length n)) 7 ''b'' demo_cvm = Some 8 \<and> getNumKeys demo_cvm = 2"
  using callback_map_refines[OF ready_cache_laws demo_reliable _ _ demo_cvm_def refl, where env = 7]
  by simp

text \<open>
  \<open>getValues\<close> invokes the callbacks of all shards in strictly ascending order of their names, each
  registered name once, and its results override same-named entries of the output and nothing else.
\<close>
theorem getValues_ordered_complete:
  fixes t :: "('env \<Rightarrow> 'v, 'c) cvm"
  assumes "cvm_good ops rx hash strings ok t"
  shows "getValues env t out = out ++ (\<lambda>n. map_option (\<lambda>cb. cb env) (lookup hash t n)) \<and>
    (let visited = map fst (merge_loop (make_heap (map (\<lambda>m. sort_key fst (cm_map m)) (callbackMaps t))))
     in sorted_wrt (<) visited \<and> set visited = dom (lookup hash t))"
proof -
  have I: "cvm_inv hash strings ok t" using assms by (simp add: cvm_good_def)
  show ?thesis using getValues_lookup[OF I] by (simp add: Let_def)
qed

lemma demo_good: "cvm_good (ready_cache (\<lambda>r s. r = s)) (\<lambda>r s. r = s) (\<lambda>n. word_of_nat (length n)) set distinct demo_cvm"
  unfolding demo_cvm_def
  by (rule cvm_exec_run[THEN conjunct1]) (simp add: cvm_good_def ready_cache_laws demo_reliable new_cvm_inv)

theorem getValues_ordered_complete_witness:
  "getValues 7 demo_cvm [''c'' \<mapsto> 5] = [''c'' \<mapsto> 5] ++
     (\<lambda>n. map_option (\<lambda>cb. cb 7) (lookup (\<lambda>n. word_of_nat (length n)) demo_cvm n))"
  using getValues_ordered_complete[OF demo_good, of 7 "[''c'' \<mapsto> 5]"] by simp

text \<open>
  After \<open>unregisterCallback\<close> has returned, the callback is never invoked again: an entry pointer that
  another thread copied out of the map before answers that the value is gone.
\<close>
theorem unregistered_entry_is_dead:
  assumes "regex_cache ops rx strings ok" "cvm_inv hash strings ok t"
    and "getCallback hash n t = Some e" and "unregisterCallback ops hash n t = (b, t')"
  shows "b \<and> entry_getValue env e t' = None \<and> getValue hash env n t' = None"
proof -
  note U = unregister_ok[OF assms(1,2,4)]
  have "lookup hash t n \<noteq> None" using assms(3) lookup_None[OF assms(2)] by (simp add: getCallback_def)
  moreover have "getValue hash env n t' = None" using getValue_lookup[OF U(1)] U(2) by simp
  ultimately show ?thesis using U(3) U(4)[OF assms(3)] by (auto simp: entry_getValue_def)
qed

theorem unregistered_entry_is_dead_witness:
  "entry_getValue 7 0 (snd (unregisterCallback (ready_cache (\<lambda>r s. r = s)) (\<lambda>n. word_of_nat (length n)) ''b'' demo_cvm)) = None"
proof -
  have "getCallback (\<lambda>n. word_of_nat (length n)) ''b'' demo_cvm = Some 0" by code_simp
  then show ?thesis
    using unregistered_entry_is_dead[OF ready_cache_laws, where t = demo_cvm and n = "''b''" and e = 0]
      demo_good by (metis cvm_good_def prod.collapse)
qed

end
