(* ===== verification/StatNames.thy ===== *)
theory StatNames
  imports Fb303_Prelude
begin

text \<open>
  The names under which stats are exported: \<open>ExportType\<close> (\<^verbatim>\<open>fb303/ExportType.h\<close>), the counter names of
  \<open>TimeseriesExporter\<close> (\<^verbatim>\<open>fb303/TimeseriesExporter.h\<close>, \<^verbatim>\<open>fb303/TimeseriesExporter.cpp\<close>), of \<open>HistogramExporter\<close>
  (\<^verbatim>\<open>fb303/HistogramExporter.cpp\<close>) and of \<open>QuantileStatMap\<close> (\<^verbatim>\<open>fb303/detail/QuantileStatMap-inl.h\<close>). A level of a
  timeseries is \<open>None\<close> when it covers all time and its duration in seconds otherwise.
\<close>

section \<open>Export types\<close>

datatype export_type = ESUM | COUNT | AVG | RATE | PERCENT

definition kExportTypes :: "export_type list" where
  "kExportTypes = [ESUM, COUNT, AVG, RATE, PERCENT]"

fun export_index :: "export_type \<Rightarrow> nat" where
  "export_index ESUM = 0"
| "export_index COUNT = 1"
| "export_index AVG = 2"
| "export_index RATE = 3"
| "export_index PERCENT = 4"

definition kTypeString :: "string list" where
  "kTypeString = [''sum'', ''count'', ''avg'', ''rate'', ''pct'']"

definition getTypeString :: "export_type \<Rightarrow> string" where
  "getTypeString t = kTypeString ! export_index t"

type_synonym level = "int option"

section \<open>Decimal numbers\<close>

definition digit :: "nat \<Rightarrow> char" where
  "digit n = char_of (48 + n)"

fun dec :: "nat \<Rightarrow> string" where
  "dec n = (if n < 10 then [digit n] else dec (n div 10) @ [digit (n mod 10)])"

declare dec.simps [simp del]

definition show_int :: "int \<Rightarrow> string" where
  "show_int i = (if i < 0 then CHR ''-'' # dec (nat (- i)) else dec (nat i))"

section \<open>Names\<close>

text \<open>\<open>snprintf\<close> into a buffer of \<open>size\<close> bytes; \<open>%.*s\<close> prints a string up to its first null byte.\<close>

definition c_str :: "string \<Rightarrow> string" where
  "c_str s = takeWhile (\<lambda>c. c \<noteq> CHR 0x00) s"

definition snprintf :: "nat \<Rightarrow> string \<Rightarrow> string" where
  "snprintf sz s = take (sz - 1) s"

definition getCounterName :: "nat \<Rightarrow> string \<Rightarrow> export_type \<Rightarrow> level \<Rightarrow> string" where
  "getCounterName sz statName type lev =
     (case lev of
        None \<Rightarrow> snprintf sz (c_str statName @ ''.'' @ getTypeString type)
      | Some d \<Rightarrow> snprintf sz (c_str statName @ ''.'' @ getTypeString type @ ''.'' @ show_int d))"

definition kNameSize :: "string \<Rightarrow> nat" where
  "kNameSize statName = length statName + 50"

definition stat_counter :: "string \<Rightarrow> export_type \<Rightarrow> level \<Rightarrow> string" where
  "stat_counter statName type lev = getCounterName (kNameSize statName) statName type lev"

definition bucket_name :: "string \<Rightarrow> level \<Rightarrow> string" where
  "bucket_name nm lev =
     (case lev of None \<Rightarrow> nm @ ''.hist'' | Some d \<Rightarrow> nm @ ''.hist.'' @ show_int d)"

definition percentile_name :: "string \<Rightarrow> int \<Rightarrow> level \<Rightarrow> string" where
  "percentile_name nm percentile lev =
     (case lev of
        None \<Rightarrow> nm @ ''.p'' @ show_int percentile
      | Some d \<Rightarrow> nm @ ''.p'' @ show_int percentile @ ''.'' @ show_int d)"

text \<open>\<open>fmt_g\<close> prints a percentage with \<open>{:g}\<close>, a matter of the formatting library.\<close>

definition makeKey :: "('q \<Rightarrow> string) \<Rightarrow> string \<Rightarrow> export_type \<Rightarrow> 'q \<Rightarrow> level \<Rightarrow> string" where
  "makeKey fmt_g nm type quantile lev =
     (let dot = (case lev of None \<Rightarrow> '''' | Some d \<Rightarrow> ''.'');
          window = (case lev of None \<Rightarrow> '''' | Some d \<Rightarrow> show_int d)
      in case type of
           PERCENT \<Rightarrow> nm @ ''.p'' @ fmt_g quantile @ dot @ window
         | ESUM \<Rightarrow> nm @ ''.sum'' @ dot @ window
         | COUNT \<Rightarrow> nm @ ''.count'' @ dot @ window
         | AVG \<Rightarrow> nm @ ''.avg'' @ dot @ window
         | RATE \<Rightarrow> nm @ ''.rate'' @ dot @ window)"

section \<open>Reading names back\<close>

definition is_digit :: "char \<Rightarrow> bool" where
  "is_digit c \<longleftrightarrow> 48 \<le> (of_char c :: nat) \<and> (of_char c :: nat) < 58"

definition val :: "string \<Rightarrow> nat" where
  "val s = foldl (\<lambda>n c. 10 * n + (of_char c - 48)) 0 s"

definition parse_int :: "string \<Rightarrow> int option" where
  "parse_int s =
     (case s of
        [] \<Rightarrow> None
      | c # r \<Rightarrow>
          if c = CHR ''-'' then (if r \<noteq> [] \<and> list_all is_digit r then Some (- int (val r)) else None)
          else if list_all is_digit s then Some (int (val s)) else None)"

definition rsplit :: "string \<Rightarrow> (string \<times> string) option" where
  "rsplit s =
     (case dropWhile (\<lambda>c. c \<noteq> CHR ''.'') (rev s) of
        [] \<Rightarrow> None
      | _ # p \<Rightarrow> Some (rev p, rev (takeWhile (\<lambda>c. c \<noteq> CHR ''.'') (rev s))))"

definition type_of :: "string \<Rightarrow> export_type option" where
  "type_of s = List.find (\<lambda>t. getTypeString t = s) kExportTypes"

definition parse_counter :: "string \<Rightarrow> (string \<times> export_type \<times> level) option" where
  "parse_counter s =
     (case rsplit s of
        None \<Rightarrow> None
      | Some (pre, suf) \<Rightarrow>
          (case type_of suf of
             Some t \<Rightarrow> Some (pre, t, None)
           | None \<Rightarrow>
               (case parse_int suf of
                  None \<Rightarrow> None
                | Some d \<Rightarrow>
                    (case rsplit pre of
                       None \<Rightarrow> None
                     | Some (pre2, t) \<Rightarrow> map_option (\<lambda>t. (pre2, t, Some d)) (type_of t)))))"

text \<open>A duration printed with \<open>%ld\<close> is a \<open>long\<close>.\<close>

definition long_level :: "level \<Rightarrow> bool" where
  "long_level lev = (case lev of None \<Rightarrow> True | Some d \<Rightarrow> - (2 ^ 63) \<le> d \<and> d < 2 ^ 63)"

section \<open>Digits\<close>

lemma of_char_digit [simp]: "n < 10 \<Longrightarrow> of_char (digit n) = 48 + n"
  by (simp add: digit_def)

lemma digit_is_digit: "n < 10 \<Longrightarrow> is_digit (digit n)"
  by (simp add: is_digit_def)

lemma dec_digits: "list_all is_digit (dec n) \<and> dec n \<noteq> []"
proof (induction n rule: dec.induct)
  case (1 n)
  then show ?case by (cases "n < 10") (simp_all add: dec.simps[of n] digit_is_digit)
qed

lemma val_snoc: "val (s @ [c]) = 10 * val s + (of_char c - 48)"
  by (simp add: val_def)

lemma val_dec: "val (dec n) = n"
proof (induction n rule: dec.induct)
  case (1 n)
  show ?case
  proof (cases "n < 10")
    case True
    then show ?thesis by (subst dec.simps) (simp add: val_def)
  next
    case False
    with 1 show ?thesis by (subst dec.simps) (simp add: val_snoc)
  qed
qed

lemma minus_not_digit: "\<not> is_digit CHR ''-''"
  by (simp add: is_digit_def)

lemma parse_show_int: "parse_int (show_int i) = Some i"
proof -
  obtain c r where cr: "dec (nat i) = c # r" using dec_digits[of "nat i"] by (cases "dec (nat i)") auto
  have "is_digit c" using dec_digits[of "nat i"] cr by simp
  then have "c \<noteq> CHR ''-''" using minus_not_digit by auto
  then show ?thesis using dec_digits[of "nat i"] dec_digits[of "nat (- i)"] val_dec[of "nat i"] cr
    by (auto simp: parse_int_def show_int_def val_dec)
qed

lemma dec_length: "n < 10 ^ k \<Longrightarrow> 0 < k \<Longrightarrow> length (dec n) \<le> k"
proof (induction k arbitrary: n)
  case (Suc k)
  show ?case
  proof (cases "n < 10")
    case True
    then show ?thesis by (subst dec.simps) simp
  next
    case False
    with Suc.prems have "0 < k" by (cases k) auto
    moreover have "n div 10 < 10 ^ k" using Suc.prems(1) by auto
    ultimately show ?thesis using Suc.IH[of "n div 10"] False by (subst dec.simps) simp
  qed
qed simp

lemma show_int_length:
  assumes "- (2 ^ 63) \<le> d" "d < 2 ^ 63"
  shows "length (show_int d) \<le> 20"
proof -
  have "nat d < 10 ^ 19" "nat (- d) < 10 ^ 19" using assms by auto
  then show ?thesis using dec_length[of "nat d" 19] dec_length[of "nat (- d)" 19] by (simp add: show_int_def)
qed

section \<open>Names and their parts\<close>

lemma no_dot_int: "CHR ''.'' \<notin> set (show_int d)"
  using dec_digits[of "nat d"] dec_digits[of "nat (- d)"]
  by (auto simp: show_int_def list_all_iff is_digit_def dest!: bspec)

lemma no_dot_type: "CHR ''.'' \<notin> set (getTypeString t)"
  by (cases t) (simp_all add: getTypeString_def kTypeString_def)

lemma type_of_string [simp]: "type_of (getTypeString t) = Some t"
  by (cases t) (simp_all add: type_of_def kExportTypes_def getTypeString_def kTypeString_def)

lemma type_of_int [simp]: "type_of (show_int d) = None"
proof -
  have "hd (show_int d) = CHR ''-'' \<or> is_digit (hd (show_int d))"
    using dec_digits[of "nat d"] by (cases "dec (nat d)") (auto simp: show_int_def)
  moreover have "hd (getTypeString t) \<noteq> CHR ''-'' \<and> \<not> is_digit (hd (getTypeString t))" for t
    by (cases t) (simp_all add: getTypeString_def kTypeString_def is_digit_def)
  ultimately have "getTypeString t \<noteq> show_int d" for t by metis
  then show ?thesis by (simp add: type_of_def kExportTypes_def)
qed

lemma rsplit_dot:
  assumes b: "CHR ''.'' \<notin> set b"
  shows "rsplit (a @ CHR ''.'' # b) = Some (a, b)"
proof -
  have "dropWhile (\<lambda>c. c \<noteq> CHR ''.'') (rev b @ CHR ''.'' # rev a) = CHR ''.'' # rev a"
    using b by (subst dropWhile_append2) auto
  moreover have "takeWhile (\<lambda>c. c \<noteq> CHR ''.'') (rev b @ CHR ''.'' # rev a) = rev b"
    using b by (subst takeWhile_append2) auto
  ultimately show ?thesis by (simp add: rsplit_def)
qed

lemma c_str_id: "CHR 0x00 \<notin> set s \<Longrightarrow> c_str s = s"
  unfolding c_str_def by (induction s) auto

lemma stat_counter_full:
  assumes "long_level lev"
  shows "stat_counter s t lev =
    c_str s @ ''.'' @ getTypeString t @ (case lev of None \<Rightarrow> '''' | Some d \<Rightarrow> CHR ''.'' # show_int d)"
proof -
  have l: "length (c_str s) \<le> length s" by (simp add: c_str_def length_takeWhile_le)
  have t: "length (getTypeString t) \<le> 5" by (cases t) (simp_all add: getTypeString_def kTypeString_def)
  show ?thesis
  proof (cases lev)
    case (Some d)
    with assms have "length (show_int d) \<le> 20" by (intro show_int_length) (simp_all add: long_level_def)
    with Some l t show ?thesis by (simp add: stat_counter_def getCounterName_def snprintf_def kNameSize_def)
  qed (use l t in \<open>simp add: stat_counter_def getCounterName_def snprintf_def kNameSize_def\<close>)
qed

lemma parse_full:
  "parse_counter (s @ ''.'' @ getTypeString t @ (case lev of None \<Rightarrow> '''' | Some d \<Rightarrow> CHR ''.'' # show_int d)) = Some (s, t, lev)"
proof (cases lev)
  case None
  then show ?thesis by (simp add: parse_counter_def rsplit_dot no_dot_type)
next
  case (Some d)
  have "rsplit ((s @ CHR ''.'' # getTypeString t) @ CHR ''.'' # show_int d) = Some (s @ CHR ''.'' # getTypeString t, show_int d)"
    by (rule rsplit_dot) (rule no_dot_int)
  with Some show ?thesis by (simp add: parse_counter_def parse_show_int rsplit_dot no_dot_type)
qed

lemma parse_stat_counter:
  assumes "CHR 0x00 \<notin> set s" "long_level lev"
  shows "parse_counter (stat_counter s t lev) = Some (s, t, lev)"
  using stat_counter_full[OF assms(2)] parse_full[of s t lev] by (simp add: c_str_id[OF assms(1)])

lemma stat_counter_inj:
  assumes "stat_counter a t l = stat_counter b u m" "CHR 0x00 \<notin> set a" "CHR 0x00 \<notin> set b" "long_level l" "long_level m"
  shows "a = b \<and> t = u \<and> l = m"
  proof -
  have "Some (a, t, l) = Some (b, u, m)"
    unfolding parse_stat_counter[OF assms(2,4), symmetric] parse_stat_counter[OF assms(3,5), symmetric] assms(1) ..
  then show ?thesis by simp
qed

lemma p_suffix:
  assumes "CHR ''.'' \<notin> set x" "CHR ''p'' # x \<noteq> ''pct''"
  shows "type_of (CHR ''p'' # x) = None" "parse_int (CHR ''p'' # x) = None" "rsplit (s @ CHR ''.'' # CHR ''p'' # x) = Some (s, CHR ''p'' # x)"
  using assms rsplit_dot[of "CHR ''p'' # x" s]
  by (auto simp: type_of_def kExportTypes_def getTypeString_def kTypeString_def parse_int_def is_digit_def)

lemma parse_percentile: "parse_counter (percentile_name s p lev) = None"
proof -
  have d: "CHR ''.'' \<notin> set (show_int p)" by (rule no_dot_int)
  have "show_int p \<noteq> ''ct''" using parse_show_int[of p] by (auto simp: parse_int_def is_digit_def)
  then have n: "CHR ''p'' # show_int p \<noteq> ''pct''" by simp
  show ?thesis
  proof (cases lev)
    case None
    then show ?thesis using p_suffix[OF d n] by (simp add: percentile_name_def parse_counter_def)
  next
    case (Some e)
    have "rsplit ((s @ CHR ''.'' # CHR ''p'' # show_int p) @ CHR ''.'' # show_int e) = Some (s @ CHR ''.'' # CHR ''p'' # show_int p, show_int e)"
      by (rule rsplit_dot) (rule no_dot_int)
    then show ?thesis using p_suffix[OF d n] Some
      by (simp add: percentile_name_def parse_counter_def parse_show_int)
  qed
qed

section \<open>Results\<close>

text \<open>
  C32: Exported counter names are never truncated and can be read back. For every stat name without null bytes,
  export type and level whose duration is a \<open>long\<close>, the 50 spare bytes of the buffer suffice, and the name
  determines the stat, the type and the level: two stats never export the same counter.
\<close>
theorem counter_name_roundtrip:
  assumes "CHR 0x00 \<notin> set s" and "long_level lev"
  shows "parse_counter (stat_counter s t lev) = Some (s, t, lev)"
  using assms by (rule parse_stat_counter)

theorem counter_name_roundtrip_witness:
  "parse_counter ''ad_request.rate.600'' = Some (''ad_request'', RATE, Some 600)"
proof -
  have "parse_counter (stat_counter ''ad_request'' RATE (Some 600)) = Some (''ad_request'', RATE, Some 600)"
    by (rule counter_name_roundtrip) (simp_all add: long_level_def)
  moreover have "stat_counter ''ad_request'' RATE (Some 600) = ''ad_request.rate.600''" by code_simp
  ultimately show ?thesis by simp
qed

text \<open>
  The percentiles of a histogram never shadow the stats of a timeseries: whatever the two are called and
  whatever their levels, \<open>HistogramExporter\<close> and \<open>TimeseriesExporter\<close> register different names.
\<close>
theorem percentile_names_disjoint:
  assumes "CHR 0x00 \<notin> set s" and "long_level lev"
  shows "percentile_name h p lev' \<noteq> stat_counter s t lev"
  using parse_percentile[of h p lev'] stat_counter_full[OF assms(2), of s t] parse_full[of s t lev]
  by (auto simp: c_str_id[OF assms(1)])

theorem percentile_names_disjoint_witness: "''lat.p95.60'' \<noteq> stat_counter ''lat.p95'' PERCENT None"
proof -
  have "percentile_name ''lat'' 95 (Some 60) \<noteq> stat_counter ''lat.p95'' PERCENT None"
    by (rule percentile_names_disjoint) (simp_all add: long_level_def)
  moreover have "percentile_name ''lat'' 95 (Some 60) = ''lat.p95.60''" by code_simp
  ultimately show ?thesis by simp
qed

end
