(* ===== verification/FollyStats.thy ===== *)
theory FollyStats
  imports StatNames
begin

text \<open>
  What the sources use of folly's statistics classes, as parameters of the development: the operations of
  \<open>folly::MultiLevelTimeSeries\<close>, the base of \<open>ExportedStat\<close>, and of \<open>folly::TimeseriesHistogram\<close>, the base of
  \<open>ExportedHistogram\<close>. Levels are numbered; a level reports whether it covers all time or its duration.
\<close>

type_synonym secs = int
type_synonym ptr = nat

record 's series_ops =
  levels :: "'s \<Rightarrow> level list"
  addValue_ts :: "secs \<Rightarrow> int64 \<Rightarrow> int64 \<Rightarrow> 's \<Rightarrow> 's"
  addValueAggregated :: "secs \<Rightarrow> int64 \<Rightarrow> int64 \<Rightarrow> 's \<Rightarrow> 's"
  update :: "secs \<Rightarrow> 's \<Rightarrow> 's"
  flush_ts :: "'s \<Rightarrow> 's"
  clear_ts :: "'s \<Rightarrow> 's"
  ts_sum :: "nat \<Rightarrow> 's \<Rightarrow> int64"
  ts_avg :: "nat \<Rightarrow> 's \<Rightarrow> int64"
  ts_rate :: "nat \<Rightarrow> 's \<Rightarrow> int64"
  ts_pct :: "nat \<Rightarrow> 's \<Rightarrow> int64"            \<comment> \<open>\<open>100.0 * avg<double>\<close>, cast to the counter type\<close>
  ts_count :: "nat \<Rightarrow> 's \<Rightarrow> int64"
  ts_sumBy :: "nat \<Rightarrow> secs \<Rightarrow> 's \<Rightarrow> int64"
  ts_avgBy :: "nat \<Rightarrow> secs \<Rightarrow> 's \<Rightarrow> int64"
  ts_rateBy :: "nat \<Rightarrow> secs \<Rightarrow> 's \<Rightarrow> int64"
  ts_pctBy :: "nat \<Rightarrow> secs \<Rightarrow> 's \<Rightarrow> int64"
  ts_countBy :: "nat \<Rightarrow> secs \<Rightarrow> 's \<Rightarrow> int64"

text \<open>\<open>'l\<close> is the type of \<open>folly::Histogram\<close>, whose buckets are merged into the timeseries histogram.\<close>

record ('h, 's, 'l) histogram_ops =
  h_levels :: "'h \<Rightarrow> level list"           \<comment> \<open>of the first bucket\<close>
  h_numBuckets :: "'h \<Rightarrow> nat"
  h_params :: "'h \<Rightarrow> int64 \<times> int64 \<times> int64"  \<comment> \<open>bucket size, minimum, maximum\<close>
  h_make :: "int64 \<Rightarrow> int64 \<Rightarrow> int64 \<Rightarrow> 's \<Rightarrow> 'h"
  h_addValue :: "secs \<Rightarrow> int64 \<Rightarrow> int64 \<Rightarrow> 'h \<Rightarrow> 'h"
  h_addValues :: "secs \<Rightarrow> 'l \<Rightarrow> 'h \<Rightarrow> 'h"
  h_update :: "secs \<Rightarrow> 'h \<Rightarrow> 'h"
  h_clear :: "'h \<Rightarrow> 'h"
  h_sum :: "nat \<Rightarrow> 'h \<Rightarrow> int64"
  h_count :: "nat \<Rightarrow> 'h \<Rightarrow> int64"
  h_avg :: "nat \<Rightarrow> 'h \<Rightarrow> int64"
  h_rate :: "nat \<Rightarrow> 'h \<Rightarrow> int64"
  h_pct :: "nat \<Rightarrow> 'h \<Rightarrow> int64"
  h_percentile :: "int \<Rightarrow> nat \<Rightarrow> 'h \<Rightarrow> int64"
  h_string :: "nat \<Rightarrow> 'h \<Rightarrow> string"

text \<open>
  A series that keeps two numbers, the count and the sum of everything added, on one level that covers all
  time: the instance the examples use.
\<close>

definition pair_ops :: "(int64 \<times> int64) series_ops" where
  "pair_ops =
     \<lparr>levels = (\<lambda>st. [Some 60, None]),
      addValue_ts = (\<lambda>now v n st. (fst st + n, snd st + v * n)),
      addValueAggregated = (\<lambda>now s c st. (fst st + c, snd st + s)),
      update = (\<lambda>now st. st), flush_ts = (\<lambda>st. st), clear_ts = (\<lambda>st. (0, 0)),
      ts_sum = (\<lambda>i st. snd st), ts_avg = (\<lambda>i st. snd st div fst st), ts_rate = (\<lambda>i st. snd st),
      ts_pct = (\<lambda>i st. 100 * snd st div fst st), ts_count = (\<lambda>i st. fst st),
      ts_sumBy = (\<lambda>i now st. snd st), ts_avgBy = (\<lambda>i now st. snd st div fst st), ts_rateBy = (\<lambda>i now st. snd st),
      ts_pctBy = (\<lambda>i now st. 100 * snd st div fst st), ts_countBy = (\<lambda>i now st. fst st)\<rparr>"

text \<open>A histogram of two buckets that keeps its parameters and the count and sum of everything added.\<close>

definition pair_hist_ops :: "((int64 \<times> int64 \<times> int64) \<times> (int64 \<times> int64), int64 \<times> int64, int64 \<times> int64) histogram_ops" where
  "pair_hist_ops =
     \<lparr>h_levels = (\<lambda>h. [Some 60, None]), h_numBuckets = (\<lambda>h. 2), h_params = fst,
      h_make = (\<lambda>bs mn mx st. ((bs, mn, mx), (0, 0))),
      h_addValue = (\<lambda>now v n h. (fst h, (fst (snd h) + n, snd (snd h) + v * n))),
      h_addValues = (\<lambda>now l h. (fst h, (fst (snd h) + fst l, snd (snd h) + snd l))),
      h_update = (\<lambda>now h. h), h_clear = (\<lambda>h. (fst h, (0, 0))),
      h_sum = (\<lambda>i h. snd (snd h)), h_count = (\<lambda>i h. fst (snd h)), h_avg = (\<lambda>i h. snd (snd h) div fst (snd h)),
      h_rate = (\<lambda>i h. snd (snd h)), h_pct = (\<lambda>i h. 100 * snd (snd h) div fst (snd h)),
      h_percentile = (\<lambda>p i h. snd (snd h) div fst (snd h)), h_string = (\<lambda>i h. [])\<rparr>"

end
