(* ===== verification/StatExport.thy ===== *)
theory StatExport
  imports CallbackValues FollyStats
begin

text \<open>
  \<open>TimeseriesExporter\<close> (\<^verbatim>\<open>fb303/TimeseriesExporter.cpp\<close>) and \<open>ExportedStatMap\<close> (\<^verbatim>\<open>fb303/ExportedStatMap.h\<close>,
  \<^verbatim>\<open>fb303/ExportedStatMap.cpp\<close>, \<^verbatim>\<open>fb303/ExportedStatMapImpl.cpp\<close>): stats by name, each exported under one counter per
  export type and level. Stats are shared by pointer with the callbacks that read them, so they live in a
  heap of their own. Operations return an exception or their result, with the state; a registration can
  run out of memory.
\<close>

section \<open>State\<close>

record ('s, 'h) stat_world =
  stat_heap :: "ptr \<Rightarrow> 's"
  hist_heap :: "ptr \<Rightarrow> 'h"
  clock :: secs                     \<comment> \<open>\<open>get_legacy_stats_time()\<close>\<close>

record ('s, 'h, 'c) sdata =
  wld :: "('s, 'h) stat_world"
  next_ptr :: ptr
  dynamicCounters :: "(('s, 'h) stat_world \<Rightarrow> int64, 'c) cvm"
  dynamicStrings :: "(('s, 'h) stat_world \<Rightarrow> string, 'c) cvm"
  statMap :: "(name \<times> ptr) list"
  defaultTypes :: "export_type list"
  defaultStat :: 's
  histMap :: "(name \<times> ptr) list"
  defaultHist :: 'h
  histDefaultStat :: 's

record ('s, 'h, 'l, 'c, 'p, 'r) params =
  cops :: "('c, 'p, 'r) cache_ops"
  hashf :: "name \<Rightarrow> uint64"
  sops :: "'s series_ops"
  hops :: "('h, 's, 'l) histogram_ops"

type_synonym ('a, 's, 'h, 'c) outcome = "(rx_error + 'a) \<times> ('s, 'h, 'c) sdata"

definition mod_stat :: "ptr \<Rightarrow> ('s \<Rightarrow> 's) \<Rightarrow> ('s, 'h, 'c) sdata \<Rightarrow> ('s, 'h, 'c) sdata" where
  "mod_stat p f s = s\<lparr>wld := (wld s)\<lparr>stat_heap := (stat_heap (wld s))(p := f (stat_heap (wld s) p))\<rparr>\<rparr>"

section \<open>TimeseriesExporter\<close>

definition getStatValue :: "'s series_ops \<Rightarrow> secs \<Rightarrow> 's \<Rightarrow> export_type \<Rightarrow> nat \<Rightarrow> bool \<Rightarrow> int64" where
  "getStatValue so now stat type lev upd =
     (if upd
      then (case type of
              ESUM \<Rightarrow> ts_sumBy so lev now stat
            | AVG \<Rightarrow> ts_avgBy so lev now stat
            | RATE \<Rightarrow> ts_rateBy so lev now stat
            | PERCENT \<Rightarrow> ts_pctBy so lev now stat
            | COUNT \<Rightarrow> ts_countBy so lev now stat)
      else (case type of
              ESUM \<Rightarrow> ts_sum so lev stat
            | AVG \<Rightarrow> ts_avg so lev stat
            | RATE \<Rightarrow> ts_rate so lev stat
            | PERCENT \<Rightarrow> ts_pct so lev stat
            | COUNT \<Rightarrow> ts_count so lev stat))"

text \<open>The callback captures the shared pointer, the type, the level and \<open>updateOnRead\<close>.\<close>

definition stat_callback ::
  "'s series_ops \<Rightarrow> ptr \<Rightarrow> export_type \<Rightarrow> bool \<Rightarrow> nat \<Rightarrow> ('s, 'h) stat_world \<Rightarrow> int64" where
  "stat_callback so p type upd lev w = getStatValue so (clock w) (stat_heap w p) type lev upd"

definition stat_callbacks ::
  "'s series_ops \<Rightarrow> ptr \<Rightarrow> export_type \<Rightarrow> name \<Rightarrow> bool \<Rightarrow> 's \<Rightarrow> (name \<times> (('s, 'h) stat_world \<Rightarrow> int64)) list" where
  "stat_callbacks so p type nm upd st =
     map (\<lambda>(i, lev). (stat_counter nm type lev, stat_callback so p type upd i)) (enumerate 0 (levels so st))"

definition exportStat ::
  "('s, 'h, 'l, 'c, 'p, 'r) params \<Rightarrow> ptr \<Rightarrow> export_type \<Rightarrow> name \<Rightarrow> bool \<Rightarrow> ('s, 'h, 'c) sdata \<Rightarrow> (unit, 's, 'h, 'c) outcome"
where
  "exportStat P p type nm updateOnRead s =
     (let (r, dc) = register_all (\<lambda>n cb. registerCallback (cops P) (hashf P) n cb False)
                      (stat_callbacks (sops P) p type nm updateOnRead (stat_heap (wld s) p)) (dynamicCounters s)
      in (r, s\<lparr>dynamicCounters := dc\<rparr>))"

definition unExportStat ::
  "('s, 'h, 'l, 'c, 'p, 'r) params \<Rightarrow> ptr \<Rightarrow> export_type \<Rightarrow> name \<Rightarrow> ('s, 'h, 'c) sdata \<Rightarrow> ('s, 'h, 'c) sdata" where
  "unExportStat P p type nm s =
     s\<lparr>dynamicCounters := unregister_all (unregisterCallback (cops P) (hashf P))
         (map (stat_counter nm type) (levels (sops P) (stat_heap (wld s) p))) (dynamicCounters s)\<rparr>"

section \<open>ExportedStatMap\<close>

fun export_types ::
  "('s, 'h, 'l, 'c, 'p, 'r) params \<Rightarrow> ptr \<Rightarrow> name \<Rightarrow> bool \<Rightarrow> export_type list \<Rightarrow> ('s, 'h, 'c) sdata \<Rightarrow> (unit, 's, 'h, 'c) outcome"
where
  "export_types P p nm upd [] s = (Inr (), s)"
| "export_types P p nm upd (t # ts) s =
     (case exportStat P p t nm upd s of
        (Inl e, s1) \<Rightarrow> (Inl e, s1)
      | (Inr _, s1) \<Rightarrow> export_types P p nm upd ts s1)"

definition getStatPtrNoExport :: "name \<Rightarrow> 's option \<Rightarrow> ('s, 'h, 'c) sdata \<Rightarrow> (ptr \<times> bool) \<times> ('s, 'h, 'c) sdata" where
  "getStatPtrNoExport nm copyMe s =
     (case map_of (statMap s) nm of
        Some p \<Rightarrow> ((p, False), s)
      | None \<Rightarrow>
          (let p = next_ptr s;
               value = (case copyMe of Some c \<Rightarrow> c | None \<Rightarrow> defaultStat s)
           in ((p, True),
               (mod_stat p (\<lambda>_. value) s)\<lparr>next_ptr := p + 1, statMap := statMap s @ [(nm, p)]\<rparr>)))"

definition getStatPtr ::
  "('s, 'h, 'l, 'c, 'p, 'r) params \<Rightarrow> name \<Rightarrow> export_type list \<Rightarrow> ('s, 'h, 'c) sdata \<Rightarrow> (ptr, 's, 'h, 'c) outcome" where
  "getStatPtr P nm exportTypes s =
     (let ((p, created), s1) = getStatPtrNoExport nm None s
      in if created
         then (case export_types P p nm True exportTypes s1 of
                 (Inl e, s2) \<Rightarrow> (Inl e, s2)
               | (Inr _, s2) \<Rightarrow> (Inr p, s2))
         else (Inr p, s1))"

definition exportStats ::
  "('s, 'h, 'l, 'c, 'p, 'r) params \<Rightarrow> name \<Rightarrow> export_type list \<Rightarrow> 's option \<Rightarrow> bool \<Rightarrow> ('s, 'h, 'c) sdata \<Rightarrow> (unit, 's, 'h, 'c) outcome"
where
  "exportStats P nm types copyMe updateOnRead s =
     (let ((p, created), s1) = getStatPtrNoExport nm copyMe s
      in export_types P p nm updateOnRead types s1)"

definition with_stat ::
  "(ptr, 's, 'h, 'c) outcome \<Rightarrow> ('s \<Rightarrow> 's) \<Rightarrow> (unit, 's, 'h, 'c) outcome" where
  "with_stat o1 f = (case o1 of (Inl e, s1) \<Rightarrow> (Inl e, s1) | (Inr p, s1) \<Rightarrow> (Inr (), mod_stat p f s1))"

definition esm_addValue_types ::
  "('s, 'h, 'l, 'c, 'p, 'r) params \<Rightarrow> name \<Rightarrow> secs \<Rightarrow> int64 \<Rightarrow> export_type list \<Rightarrow> ('s, 'h, 'c) sdata \<Rightarrow> (unit, 's, 'h, 'c) outcome"
where
  "esm_addValue_types P nm now value types s =
     with_stat (getStatPtr P nm types s) (addValue_ts (sops P) now value 1)"

definition esm_addValue ::
  "('s, 'h, 'l, 'c, 'p, 'r) params \<Rightarrow> name \<Rightarrow> secs \<Rightarrow> int64 \<Rightarrow> int64 \<Rightarrow> ('s, 'h, 'c) sdata \<Rightarrow> (unit, 's, 'h, 'c) outcome"
where
  "esm_addValue P nm now value n s =
     with_stat (getStatPtr P nm (defaultTypes s) s) (addValue_ts (sops P) now value n)"

definition esm_addValueAggregated ::
  "('s, 'h, 'l, 'c, 'p, 'r) params \<Rightarrow> name \<Rightarrow> secs \<Rightarrow> int64 \<Rightarrow> int64 \<Rightarrow> ('s, 'h, 'c) sdata \<Rightarrow> (unit, 's, 'h, 'c) outcome"
where
  "esm_addValueAggregated P nm now sm nsamples s =
     with_stat (getStatPtr P nm (defaultTypes s) s) (addValueAggregated (sops P) now sm nsamples)"

definition esm_clearValue ::
  "('s, 'h, 'l, 'c, 'p, 'r) params \<Rightarrow> name \<Rightarrow> ('s, 'h, 'c) sdata \<Rightarrow> (unit, 's, 'h, 'c) outcome" where
  "esm_clearValue P nm s = with_stat (getStatPtr P nm (defaultTypes s) s) (clear_ts (sops P))"

definition getLockedStatPtr ::
  "('s, 'h, 'l, 'c, 'p, 'r) params \<Rightarrow> name \<Rightarrow> ('s, 'h, 'c) sdata \<Rightarrow> (unit, 's, 'h, 'c) outcome" where
  "getLockedStatPtr P nm s = with_stat (getStatPtr P nm (defaultTypes s) s) (flush_ts (sops P))"

definition esm_contains :: "name \<Rightarrow> ('s, 'h, 'c) sdata \<Rightarrow> bool" where
  "esm_contains nm s \<longleftrightarrow> map_of (statMap s) nm \<noteq> None"

definition unExportStatAll ::
  "('s, 'h, 'l, 'c, 'p, 'r) params \<Rightarrow> name \<Rightarrow> ('s, 'h, 'c) sdata \<Rightarrow> ('s, 'h, 'c) sdata" where
  "unExportStatAll P nm s =
     (case map_of (statMap s) nm of
        None \<Rightarrow> s
      | Some p \<Rightarrow>
          (fold (\<lambda>t. unExportStat P p t nm) kExportTypes s)\<lparr>statMap := filter (\<lambda>e. fst e \<noteq> nm) (statMap s)\<rparr>)"

definition forgetAllStats :: "('s, 'h, 'c) sdata \<Rightarrow> ('s, 'h, 'c) sdata" where
  "forgetAllStats s = s\<lparr>statMap := []\<rparr>"

definition forgetStatsFor :: "name \<Rightarrow> ('s, 'h, 'c) sdata \<Rightarrow> ('s, 'h, 'c) sdata" where
  "forgetStatsFor nm s = s\<lparr>statMap := filter (\<lambda>e. fst e \<noteq> nm) (statMap s)\<rparr>"

definition flushAllStats :: "('s, 'h, 'l, 'c, 'p, 'r) params \<Rightarrow> ('s, 'h, 'c) sdata \<Rightarrow> ('s, 'h, 'c) sdata" where
  "flushAllStats P s = fold (\<lambda>e. mod_stat (snd e) (flush_ts (sops P))) (statMap s) s"

definition clearAllStats :: "('s, 'h, 'l, 'c, 'p, 'r) params \<Rightarrow> ('s, 'h, 'c) sdata \<Rightarrow> ('s, 'h, 'c) sdata" where
  "clearAllStats P s = fold (\<lambda>e. mod_stat (snd e) (clear_ts (sops P))) (statMap s) s"

definition setDefaultStat :: "'s \<Rightarrow> ('s, 'h, 'c) sdata \<Rightarrow> ('s, 'h, 'c) sdata" where
  "setDefaultStat st s = s\<lparr>defaultStat := st\<rparr>"

definition setDefaultTypes :: "export_type list \<Rightarrow> ('s, 'h, 'c) sdata \<Rightarrow> ('s, 'h, 'c) sdata" where
  "setDefaultTypes ts s = s\<lparr>defaultTypes := ts\<rparr>"

section \<open>Exporting\<close>

text \<open>Both registries are in order; what a counter is bound to.\<close>

definition sdata_good ::
  "('s, 'h, 'l, 'c, 'p, 'r) params \<Rightarrow> (regex \<Rightarrow> name \<Rightarrow> bool) \<Rightarrow> ('c \<Rightarrow> name set) \<Rightarrow> ('c \<Rightarrow> bool) \<Rightarrow> ('s, 'h, 'c) sdata \<Rightarrow> bool"
where
  "sdata_good P rx strings ok s \<longleftrightarrow>
     cvm_good (cops P) rx (hashf P) strings ok (dynamicCounters s) \<and>
     cvm_good (cops P) rx (hashf P) strings ok (dynamicStrings s)"

definition bound :: "('s, 'h, 'l, 'c, 'p, 'r) params \<Rightarrow> ('s, 'h, 'c) sdata \<Rightarrow> name \<rightharpoonup> (('s, 'h) stat_world \<Rightarrow> int64)" where
  "bound P s = lookup (hashf P) (dynamicCounters s)"

lemma mod_stat_simps [simp]:
  "dynamicCounters (mod_stat p f s) = dynamicCounters s" "dynamicStrings (mod_stat p f s) = dynamicStrings s"
  "statMap (mod_stat p f s) = statMap s" "next_ptr (mod_stat p f s) = next_ptr s"
  "defaultTypes (mod_stat p f s) = defaultTypes s" "defaultStat (mod_stat p f s) = defaultStat s"
  "histMap (mod_stat p f s) = histMap s"
  "stat_heap (wld (mod_stat p f s)) = (stat_heap (wld s))(p := f (stat_heap (wld s) p))"
  "hist_heap (wld (mod_stat p f s)) = hist_heap (wld s)" "clock (wld (mod_stat p f s)) = clock (wld s)"
  by (simp_all add: mod_stat_def)

lemma good_mod_stat [simp]: "sdata_good P rx strings ok (mod_stat p f s) = sdata_good P rx strings ok s"
  by (simp add: sdata_good_def)

lemma bound_mod_stat [simp]: "bound P (mod_stat p f s) = bound P s"
  by (simp add: bound_def)

lemma exportStat_ok:
  assumes "sdata_good P rx strings ok s"
  shows "\<exists>dc. exportStat P p t nm upd s = (Inr (), s\<lparr>dynamicCounters := dc\<rparr>) \<and>
    sdata_good P rx strings ok (s\<lparr>dynamicCounters := dc\<rparr>) \<and>
    bound P (s\<lparr>dynamicCounters := dc\<rparr>) = map_of (stat_callbacks (sops P) p t nm upd (stat_heap (wld s) p)) ++ bound P s"
proof -
  have g: "cvm_good (cops P) rx (hashf P) strings ok (dynamicCounters s)" using assms by (simp add: sdata_good_def)
  obtain dc where "register_all (\<lambda>n cb. registerCallback (cops P) (hashf P) n cb False)
      (stat_callbacks (sops P) p t nm upd (stat_heap (wld s) p)) (dynamicCounters s) = (Inr (), dc)"
    "cvm_good (cops P) rx (hashf P) strings ok dc"
    "lookup (hashf P) dc = map_of (stat_callbacks (sops P) p t nm upd (stat_heap (wld s) p)) ++ lookup (hashf P) (dynamicCounters s)"
    using cbs.register_new[OF g] by blast
  then show ?thesis using assms by (auto simp: exportStat_def sdata_good_def bound_def)
qed

text \<open>The bindings that exporting a stat under some types offers; the first type offered wins.\<close>

definition offered ::
  "('s, 'h, 'l, 'c, 'p, 'r) params \<Rightarrow> ptr \<Rightarrow> name \<Rightarrow> bool \<Rightarrow> export_type list \<Rightarrow> 's \<Rightarrow> (name \<times> (('s, 'h) stat_world \<Rightarrow> int64)) list" where
  "offered P p nm upd ts st = concat (map (\<lambda>t. stat_callbacks (sops P) p t nm upd st) ts)"

lemma export_types_ok:
  assumes "sdata_good P rx strings ok s"
  shows "\<exists>dc. export_types P p nm upd ts s = (Inr (), s\<lparr>dynamicCounters := dc\<rparr>) \<and>
    sdata_good P rx strings ok (s\<lparr>dynamicCounters := dc\<rparr>) \<and>
    bound P (s\<lparr>dynamicCounters := dc\<rparr>) = map_of (offered P p nm upd ts (stat_heap (wld s) p)) ++ bound P s"
  using assms
proof (induction ts arbitrary: s)
  case Nil
  then show ?case by (auto intro!: exI[of _ "dynamicCounters s"] simp: offered_def)
next
  case (Cons t ts)
  let ?st = "stat_heap (wld s) p"
  obtain dc where dc: "exportStat P p t nm upd s = (Inr (), s\<lparr>dynamicCounters := dc\<rparr>)"
    "sdata_good P rx strings ok (s\<lparr>dynamicCounters := dc\<rparr>)"
    "bound P (s\<lparr>dynamicCounters := dc\<rparr>) = map_of (stat_callbacks (sops P) p t nm upd ?st) ++ bound P s"
    using exportStat_ok[OF Cons.prems] by blast
  obtain dc' where dc': "export_types P p nm upd ts (s\<lparr>dynamicCounters := dc\<rparr>) = (Inr (), s\<lparr>dynamicCounters := dc'\<rparr>)"
    "sdata_good P rx strings ok (s\<lparr>dynamicCounters := dc'\<rparr>)"
    "bound P (s\<lparr>dynamicCounters := dc'\<rparr>) = map_of (offered P p nm upd ts ?st) ++ bound P (s\<lparr>dynamicCounters := dc\<rparr>)"
    using Cons.IH[OF dc(2)] by auto
  have "map_of (offered P p nm upd (t # ts) ?st) ++ bound P s = map_of (offered P p nm upd ts ?st) ++ bound P (s\<lparr>dynamicCounters := dc\<rparr>)"
    by (simp add: dc(3) offered_def)
  with dc dc' show ?case by auto
qed

lemma map_of_unique: "(k, v) \<in> set xs \<Longrightarrow> (\<And>v'. (k, v') \<in> set xs \<Longrightarrow> v' = v) \<Longrightarrow> map_of xs k = Some v"
  by (metis map_of_SomeD weak_map_of_SomeI)

text \<open>Series whose levels are told apart by their durations, as the constructors of folly require.\<close>

definition proper_levels :: "'s series_ops \<Rightarrow> 's \<Rightarrow> bool" where
  "proper_levels so st \<longleftrightarrow> distinct (levels so st) \<and> list_all long_level (levels so st)"

lemma stat_callbacks_nth:
  "stat_callbacks so p t nm upd st =
     map (\<lambda>i. (stat_counter nm t (levels so st ! i), stat_callback so p t upd i)) [0..<length (levels so st)]"
  by (rule nth_equalityI) (simp_all add: stat_callbacks_def nth_enumerate_eq)

lemma offered_mem:
  "(k, cb) \<in> set (offered P p nm upd ts st) \<longleftrightarrow>
     (\<exists>t\<in>set ts. \<exists>i < length (levels (sops P) st).
        k = stat_counter nm t (levels (sops P) st ! i) \<and> cb = stat_callback (sops P) p t upd i)"
proof -
  have "(k, cb) \<in> set (stat_callbacks (sops P) p t nm upd st) \<longleftrightarrow> (\<exists>i < length (levels (sops P) st).
      k = stat_counter nm t (levels (sops P) st ! i) \<and> cb = stat_callback (sops P) p t upd i)" for t
    by (auto simp: stat_callbacks_nth)
  then show ?thesis by (simp add: offered_def)
qed

lemma offered_map:
  assumes "proper_levels (sops P) st" "CHR 0x00 \<notin> set nm" "t \<in> set ts" "i < length (levels (sops P) st)"
  shows "map_of (offered P p nm upd ts st) (stat_counter nm t (levels (sops P) st ! i)) = Some (stat_callback (sops P) p t upd i)"
proof (rule map_of_unique)
  let ?l = "levels (sops P) st"
  show "(stat_counter nm t (?l ! i), stat_callback (sops P) p t upd i) \<in> set (offered P p nm upd ts st)"
    using assms by (auto simp: offered_mem)
  fix cb assume "(stat_counter nm t (?l ! i), cb) \<in> set (offered P p nm upd ts st)"
  then obtain u j where u: "j < length ?l" "stat_counter nm t (?l ! i) = stat_counter nm u (?l ! j)"
    "cb = stat_callback (sops P) p u upd j" by (auto simp: offered_mem)
  have "long_level (?l ! i)" "long_level (?l ! j)" using assms(1,4) u(1) by (simp_all add: proper_levels_def list_all_length)
  then have "t = u \<and> ?l ! i = ?l ! j" using stat_counter_inj[OF u(2) assms(2,2)] by blast
  then show "cb = stat_callback (sops P) p t upd i"
    using assms(1,4) u by (auto simp: proper_levels_def nth_eq_iff_index_eq)
qed

lemma getStatPtr_old:
  "map_of (statMap s) nm = Some p \<Longrightarrow> getStatPtr P nm ts s = (Inr p, s)"
  by (simp add: getStatPtr_def getStatPtrNoExport_def)

lemma getStatPtr_new:
  assumes g: "sdata_good P rx strings ok s" and n: "map_of (statMap s) nm = None"
  obtains s' where "getStatPtr P nm ts s = (Inr (next_ptr s), s')" "sdata_good P rx strings ok s'"
    "statMap s' = statMap s @ [(nm, next_ptr s)]" "next_ptr s' = next_ptr s + 1"
    "stat_heap (wld s') = (stat_heap (wld s))(next_ptr s := defaultStat s)"
    "bound P s' = map_of (offered P (next_ptr s) nm True ts (defaultStat s)) ++ bound P s"
proof -
  define s1 where "s1 = (mod_stat (next_ptr s) (\<lambda>_. defaultStat s) s)\<lparr>next_ptr := next_ptr s + 1, statMap := statMap s @ [(nm, next_ptr s)]\<rparr>"
  have g1: "sdata_good P rx strings ok s1" using g by (simp add: s1_def sdata_good_def)
  have h1: "stat_heap (wld s1) = (stat_heap (wld s))(next_ptr s := defaultStat s)" "bound P s1 = bound P s"
    "statMap s1 = statMap s @ [(nm, next_ptr s)]" "next_ptr s1 = next_ptr s + 1" by (simp_all add: s1_def bound_def)
  obtain dc where dc: "export_types P (next_ptr s) nm True ts s1 = (Inr (), s1\<lparr>dynamicCounters := dc\<rparr>)"
    "sdata_good P rx strings ok (s1\<lparr>dynamicCounters := dc\<rparr>)"
    "bound P (s1\<lparr>dynamicCounters := dc\<rparr>) = map_of (offered P (next_ptr s) nm True ts (stat_heap (wld s1) (next_ptr s))) ++ bound P s1"
    using export_types_ok[OF g1] by blast
  have "getStatPtr P nm ts s = (Inr (next_ptr s), s1\<lparr>dynamicCounters := dc\<rparr>)"
    using n dc(1) by (simp add: getStatPtr_def getStatPtrNoExport_def Let_def s1_def)
  with that[of "s1\<lparr>dynamicCounters := dc\<rparr>"] dc(2,3) h1 show thesis by simp
qed

lemma bound_value:
  assumes "sdata_good P rx strings ok s" "bound P s k = Some cb"
  shows "getValue (hashf P) w k (dynamicCounters s) = Some (cb w)"
proof -
  have "cvm_inv (hashf P) strings ok (dynamicCounters s)" using assms(1) by (simp add: sdata_good_def cvm_good_def)
  from getValue_lookup[OF this] assms(2) show ?thesis by (simp add: bound_def)
qed

lemma unExportStat_ok:
  assumes "sdata_good P rx strings ok s"
  shows "sdata_good P rx strings ok (unExportStat P p t nm s)"
    and "bound P (unExportStat P p t nm s) = bound P s |` (- stat_counter nm t ` set (levels (sops P) (stat_heap (wld s) p)))"
    and "wld (unExportStat P p t nm s) = wld s" "statMap (unExportStat P p t nm s) = statMap s"
proof -
  have g: "cvm_good (cops P) rx (hashf P) strings ok (dynamicCounters s)" using assms by (simp add: sdata_good_def)
  note U = cbs.unregister_names[OF g, of "map (stat_counter nm t) (levels (sops P) (stat_heap (wld s) p))"]
  show "sdata_good P rx strings ok (unExportStat P p t nm s)" using U assms by (simp add: unExportStat_def sdata_good_def)
  show "bound P (unExportStat P p t nm s) = bound P s |` (- stat_counter nm t ` set (levels (sops P) (stat_heap (wld s) p)))"
    using U by (simp add: unExportStat_def bound_def)
qed (simp_all add: unExportStat_def)

lemma unExport_types_ok:
  assumes "sdata_good P rx strings ok s"
  shows "sdata_good P rx strings ok (fold (\<lambda>t. unExportStat P p t nm) ts s) \<and>
    bound P (fold (\<lambda>t. unExportStat P p t nm) ts s) =
      bound P s |` (- {stat_counter nm t l | t l. t \<in> set ts \<and> l \<in> set (levels (sops P) (stat_heap (wld s) p))}) \<and>
    wld (fold (\<lambda>t. unExportStat P p t nm) ts s) = wld s \<and> statMap (fold (\<lambda>t. unExportStat P p t nm) ts s) = statMap s"
  using assms
proof (induction ts arbitrary: s)
  case (Cons t ts)
  note U = unExportStat_ok[OF Cons.prems, of p t nm]
  note I = Cons.IH[OF U(1)]
  show ?case using I U by (auto simp: restrict_map_def fun_eq_iff)
qed (simp add: restrict_map_def)

section \<open>Results\<close>

text \<open>A small service for the examples: an exact-match regex engine and series that keep a count and a sum.\<close>

definition demo_params ::
  "(int64 \<times> int64, (int64 \<times> int64 \<times> int64) \<times> (int64 \<times> int64), int64 \<times> int64, name list, unit, unit) params" where
  "demo_params = \<lparr>cops = ready_cache (\<lambda>r s. r = s), hashf = (\<lambda>n. word_of_nat (length n)), sops = pair_ops, hops = pair_hist_ops\<rparr>"

definition demo_sdata :: "(int64 \<times> int64, (int64 \<times> int64 \<times> int64) \<times> (int64 \<times> int64), name list) sdata" where
  "demo_sdata =
     \<lparr>wld = \<lparr>stat_heap = (\<lambda>p. (0, 0)), hist_heap = (\<lambda>p. ((1, 0, 0), (0, 0))), clock = 0\<rparr>, next_ptr = 0,
      dynamicCounters = new_cvm [], dynamicStrings = new_cvm [], statMap = [], defaultTypes = [ESUM, AVG],
      defaultStat = (0, 0), histMap = [], defaultHist = ((1, 0, 0), (0, 0)), histDefaultStat = (0, 0)\<rparr>"

lemma demo_sdata_good: "sdata_good demo_params (\<lambda>r s. r = s) set distinct demo_sdata"
  by (simp add: sdata_good_def demo_params_def demo_sdata_def cvm_good_def ready_cache_laws demo_reliable new_cvm_inv)

lemma demo_levels: "proper_levels (sops demo_params) st"
  by (simp add: proper_levels_def demo_params_def pair_ops_def long_level_def)

lemma demo_simps [simp]:
  "sops demo_params = pair_ops" "hops demo_params = pair_hist_ops" "levels pair_ops st = [Some 60, None]"
  "defaultStat demo_sdata = (0, 0)" "next_ptr demo_sdata = 0" "statMap demo_sdata = []" "histMap demo_sdata = []"
  by (simp_all add: demo_params_def demo_sdata_def pair_ops_def)

lemma demo_bound: "bound demo_params demo_sdata k = None"
  by (simp add: bound_def demo_params_def demo_sdata_def new_cvm_lookup)

text \<open>
  C11: The first value added to a stat exports it. \<open>addValue\<close> of a new name creates the stat from the default
  one, records the value, and registers one counter per default export type and level; each of these
  counters, read at any later time, evaluates its own type and level on the stat as it then is.
\<close>
theorem first_value_exports:
  assumes "sdata_good P rx strings ok s" and "map_of (statMap s) nm = None" and "CHR 0x00 \<notin> set nm"
    and "proper_levels (sops P) (defaultStat s)"
    and "\<forall>t\<in>set (defaultTypes s). \<forall>l\<in>set (levels (sops P) (defaultStat s)). bound P s (stat_counter nm t l) = None"
    and "esm_addValue P nm now v n s = (r, s')"
  shows "r = Inr () \<and> (\<exists>p. map_of (statMap s') nm = Some p \<and>
      stat_heap (wld s') p = addValue_ts (sops P) now v n (defaultStat s) \<and>
      (\<forall>t\<in>set (defaultTypes s). \<forall>i < length (levels (sops P) (defaultStat s)). \<forall>w.
         getValue (hashf P) w (stat_counter nm t (levels (sops P) (defaultStat s) ! i)) (dynamicCounters s') =
           Some (getStatValue (sops P) (clock w) (stat_heap w p) t i True)))"
proof -
  let ?p = "next_ptr s" and ?l = "levels (sops P) (defaultStat s)"
  obtain s1 where s1: "getStatPtr P nm (defaultTypes s) s = (Inr ?p, s1)" "sdata_good P rx strings ok s1"
    "statMap s1 = statMap s @ [(nm, ?p)]" "stat_heap (wld s1) = (stat_heap (wld s))(?p := defaultStat s)"
    "bound P s1 = map_of (offered P ?p nm True (defaultTypes s) (defaultStat s)) ++ bound P s"
    using getStatPtr_new[OF assms(1,2)] by blast
  have s': "r = Inr ()" "s' = mod_stat ?p (addValue_ts (sops P) now v n) s1"
    using assms(6) s1(1) by (simp_all add: esm_addValue_def with_stat_def)
  have "getValue (hashf P) w (stat_counter nm t (?l ! i)) (dynamicCounters s') =
      Some (getStatValue (sops P) (clock w) (stat_heap w ?p) t i True)"
    if t: "t \<in> set (defaultTypes s)" and i: "i < length ?l" for t i w
  proof -
    have "bound P s (stat_counter nm t (?l ! i)) = None" using assms(5) t i by simp
    moreover have "map_of (offered P ?p nm True (defaultTypes s) (defaultStat s)) (stat_counter nm t (?l ! i)) =
        Some (stat_callback (sops P) ?p t True i)" by (rule offered_map[OF assms(4,3) t i])
    ultimately have "bound P s1 (stat_counter nm t (?l ! i)) = Some (stat_callback (sops P) ?p t True i)"
      by (simp add: s1(5) map_add_def)
    with bound_value[OF s1(2)] show ?thesis by (simp add: s' stat_callback_def)
  qed
  moreover have "map_of (statMap s') nm = Some ?p" using assms(2) by (simp add: s' s1(3) map_add_def)
  ultimately show ?thesis using s' s1(4) by (intro conjI exI[of _ ?p]) auto
qed

theorem first_value_exports_witness:
  "\<exists>p. map_of (statMap (snd (esm_addValue demo_params ''q'' 0 7 1 demo_sdata))) ''q'' = Some p \<and>
     stat_heap (wld (snd (esm_addValue demo_params ''q'' 0 7 1 demo_sdata))) p = (1, 7) \<and>
     (\<forall>w. getValue (hashf demo_params) w (stat_counter ''q'' ESUM (Some 60))
        (dynamicCounters (snd (esm_addValue demo_params ''q'' 0 7 1 demo_sdata))) = Some (snd (stat_heap w p)))"
proof -
  obtain r s' where e: "esm_addValue demo_params ''q'' 0 7 1 demo_sdata = (r, s')" by fastforce
  have "map_of (statMap demo_sdata) ''q'' = None" by (simp add: demo_sdata_def)
  from first_value_exports[OF demo_sdata_good this _ demo_levels _ e]
  obtain p where p: "map_of (statMap s') ''q'' = Some p"
    "stat_heap (wld s') p = addValue_ts (sops demo_params) 0 7 1 (defaultStat demo_sdata)"
    "\<forall>t\<in>set (defaultTypes demo_sdata). \<forall>i < length (levels (sops demo_params) (defaultStat demo_sdata)). \<forall>w.
         getValue (hashf demo_params) w (stat_counter ''q'' t (levels (sops demo_params) (defaultStat demo_sdata) ! i)) (dynamicCounters s') =
           Some (getStatValue (sops demo_params) (clock w) (stat_heap w p) t i True)"
    by (auto simp: demo_bound)
  have "ESUM \<in> set (defaultTypes demo_sdata)" by (simp add: demo_sdata_def)
  note p(3)[rule_format, OF this, of 0]
  with p(1,2) show ?thesis unfolding e
    by (auto simp: demo_params_def demo_sdata_def pair_ops_def getStatValue_def)
qed


definition demo_used :: "(int64 \<times> int64, (int64 \<times> int64 \<times> int64) \<times> (int64 \<times> int64), name list) sdata" where
  "demo_used = snd (getStatPtr demo_params ''q'' [ESUM] demo_sdata)"

lemma demo_used_facts:
  "sdata_good demo_params (\<lambda>r s. r = s) set distinct demo_used" "map_of (statMap demo_used) ''q'' = Some 0"
  "next_ptr demo_used = 1" "bound demo_params demo_used (stat_counter ''q'' ESUM (Some 60)) = Some (stat_callback pair_ops 0 ESUM True 0)"
proof -
  have n: "map_of (statMap demo_sdata) ''q'' = None" by (simp add: demo_sdata_def)
  obtain s' where s': "getStatPtr demo_params ''q'' [ESUM] demo_sdata = (Inr (next_ptr demo_sdata), s')"
    "sdata_good demo_params (\<lambda>r s. r = s) set distinct s'"
    "statMap s' = statMap demo_sdata @ [(''q'', next_ptr demo_sdata)]" "next_ptr s' = next_ptr demo_sdata + 1"
    "bound demo_params s' = map_of (offered demo_params (next_ptr demo_sdata) ''q'' True [ESUM] (defaultStat demo_sdata)) ++ bound demo_params demo_sdata"
    using getStatPtr_new[OF demo_sdata_good n] by blast
  have u: "demo_used = s'" by (simp add: demo_used_def s'(1))
  show "sdata_good demo_params (\<lambda>r s. r = s) set distinct demo_used" using s'(2) u by simp
  show "map_of (statMap demo_used) ''q'' = Some 0" "next_ptr demo_used = 1" using s'(3,4) u by (simp_all add: demo_sdata_def)
  show "bound demo_params demo_used (stat_counter ''q'' ESUM (Some 60)) = Some (stat_callback pair_ops 0 ESUM True 0)"
    using offered_map[OF demo_levels, where nm = "''q''" and t = ESUM and ts = "[ESUM]" and i = 0 and p = 0 and upd = True and st = "(0, 0)"]
    by (simp add: u s'(5) map_add_def demo_bound)
qed


text \<open>
  A forgotten stat is still what its counters read. After \<open>forgetStatsFor\<close>, the next value for the name goes
  to a new stat, but registering does not overwrite: the exported counters stay bound to the old stat, whose
  pointer the map has lost, and none of the new values reaches them.
\<close>
theorem forgotten_stat_is_read:
  assumes "sdata_good P rx strings ok s" and "map_of (statMap s) nm = Some p" and "p < next_ptr s"
    and "bound P s k = Some cb"
    and "esm_addValue P nm now v n (forgetStatsFor nm s) = (r, s')"
  shows "\<exists>q. map_of (statMap s') nm = Some q \<and> q \<noteq> p \<and> stat_heap (wld s') p = stat_heap (wld s) p \<and> bound P s' k = Some cb"
proof -
  let ?s = "forgetStatsFor nm s"
  have g: "sdata_good P rx strings ok ?s" and b: "bound P ?s = bound P s"
    using assms(1) by (simp_all add: forgetStatsFor_def sdata_good_def bound_def)
  have n: "map_of (statMap ?s) nm = None" by (auto simp: forgetStatsFor_def map_of_eq_None_iff)
  obtain s1 where s1: "getStatPtr P nm (defaultTypes ?s) ?s = (Inr (next_ptr ?s), s1)"
    "statMap s1 = statMap ?s @ [(nm, next_ptr ?s)]" "stat_heap (wld s1) = (stat_heap (wld ?s))(next_ptr ?s := defaultStat ?s)"
    "bound P s1 = map_of (offered P (next_ptr ?s) nm True (defaultTypes ?s) (defaultStat ?s)) ++ bound P ?s"
    using getStatPtr_new[OF g n] by blast
  have "s' = mod_stat (next_ptr ?s) (addValue_ts (sops P) now v n) s1"
    using assms(5) s1(1) by (simp add: esm_addValue_def with_stat_def)
  with s1 n b assms(3,4) show ?thesis by (auto simp: map_add_def forgetStatsFor_def)
qed

theorem forgotten_stat_is_read_witness:
  "\<exists>q. map_of (statMap (snd (esm_addValue demo_params ''q'' 0 7 1 (forgetStatsFor ''q'' demo_used)))) ''q'' = Some q \<and> q \<noteq> 0 \<and>
     bound demo_params (snd (esm_addValue demo_params ''q'' 0 7 1 (forgetStatsFor ''q'' demo_used)))
       (stat_counter ''q'' ESUM (Some 60)) = Some (stat_callback pair_ops 0 ESUM True 0)"
proof -
  obtain r s' where e: "esm_addValue demo_params ''q'' 0 7 1 (forgetStatsFor ''q'' demo_used) = (r, s')" by fastforce
  show ?thesis using forgotten_stat_is_read[OF demo_used_facts(1,2) _ demo_used_facts(4) e] unfolding e
    by (auto simp: demo_used_facts(3))
qed

end
