(* ===== verification/FunctionStats.thy ===== *)
theory FunctionStats
  imports StatExport
begin

text \<open>
  Per-function request statistics: \<open>TStatsRequestContext\<close>, \<open>TStatsPerThread\<close> and \<open>TFunctionStatHandler\<close> of
  \<^verbatim>\<open>fb303/TFunctionStatHandler.h\<close> and \<^verbatim>\<open>fb303/TFunctionStatHandler.cpp\<close>. Every thread has a map from function names to
  heap objects that accumulate its requests, with a one-entry cache in front; \<open>consolidate\<close> moves what they hold
  into the handler's two stat maps. A request context points at the object of the thread that created it, which
  goes away with the thread. Double arithmetic is a parameter. The calls that reach the stat maps and the shared
  quantile stats are recorded in order; the theory \<open>RequestDelivery\<close> makes them on its two stat maps.
\<close>

section \<open>TStatsRequestContext\<close>

record req_ctx =
  measureTime :: bool
  readBeginCalled :: bool
  readEndCalled :: bool
  writeBeginCalled :: bool
  writeEndCalled :: bool
  exception :: bool
  userException :: bool
  rBytes :: "32 word"
  wBytes :: "32 word"
  readBeginTime :: int      \<comment> \<open>nanoseconds of the steady clock\<close>
  readEndTime :: int
  writeBeginTime :: int
  writeEndTime :: int
  ctx_stats :: nat          \<comment> \<open>the address \<open>stats_\<close>\<close>
  originThreadId :: nat

definition new_ctx :: "nat \<Rightarrow> nat \<Rightarrow> req_ctx" where
  "new_ctx p t =
     \<lparr>measureTime = False, readBeginCalled = False, readEndCalled = False, writeBeginCalled = False,
      writeEndCalled = False, exception = False, userException = False, rBytes = 0, wBytes = 0,
      readBeginTime = 0, readEndTime = 0, writeBeginTime = 0, writeEndTime = 0, ctx_stats = p, originThreadId = t\<rparr>"

definition readBegin :: "int \<Rightarrow> req_ctx \<Rightarrow> req_ctx" where
  "readBegin now c =
     (let c = c\<lparr>readBeginCalled := True\<rparr> in if measureTime c then c\<lparr>readBeginTime := now\<rparr> else c)"

definition readEnd :: "int \<Rightarrow> 32 word \<Rightarrow> req_ctx \<Rightarrow> req_ctx" where
  "readEnd now bytes c =
     (let c = c\<lparr>readEndCalled := True, rBytes := bytes\<rparr> in if measureTime c then c\<lparr>readEndTime := now\<rparr> else c)"

definition writeBegin :: "int \<Rightarrow> req_ctx \<Rightarrow> req_ctx" where
  "writeBegin now c =
     (let c = c\<lparr>writeBeginCalled := True\<rparr> in if measureTime c then c\<lparr>writeBeginTime := now\<rparr> else c)"

definition writeEnd :: "int \<Rightarrow> 32 word \<Rightarrow> req_ctx \<Rightarrow> req_ctx" where
  "writeEnd now bytes c =
     (let c = c\<lparr>writeEndCalled := True, wBytes := bytes\<rparr> in if measureTime c then c\<lparr>writeEndTime := now\<rparr> else c)"

definition exceptionThrown :: "req_ctx \<Rightarrow> req_ctx" where
  "exceptionThrown c = c\<lparr>exception := True\<rparr>"

definition userExceptionThrown :: "req_ctx \<Rightarrow> req_ctx" where
  "userExceptionThrown c = c\<lparr>userException := True\<rparr>"

section \<open>TStatsPerThread\<close>

record 'd dbl_ops =
  d_zero :: 'd
  d_one :: 'd
  d_eps :: 'd               \<comment> \<open>the literal \<^verbatim>\<open>1e-9\<close>\<close>
  d_less :: "'d \<Rightarrow> 'd \<Rightarrow> bool"
  d_le :: "'d \<Rightarrow> 'd \<Rightarrow> bool"
  d_plus :: "'d \<Rightarrow> 'd \<Rightarrow> 'd"
  d_minus :: "'d \<Rightarrow> 'd \<Rightarrow> 'd"
  d_divide :: "'d \<Rightarrow> 'd \<Rightarrow> 'd"
  d_of_int :: "int \<Rightarrow> 'd"
  d_to_int64 :: "'d \<Rightarrow> int64"

record acc =
  acc_count :: "32 word"
  acc_sum :: uint64
  acc_quantile :: "name option"

type_synonym quantile_log = "(name \<times> int64) list"

definition acc0 :: acc where
  "acc0 = \<lparr>acc_count = 0, acc_sum = 0, acc_quantile = None\<rparr>"

definition acc_addValue :: "int64 \<Rightarrow> acc \<Rightarrow> acc" where
  "acc_addValue v a = a\<lparr>acc_count := acc_count a + 1, acc_sum := acc_sum a + v\<rparr>"

definition acc_quantiles :: "int64 \<Rightarrow> acc \<Rightarrow> quantile_log" where
  "acc_quantiles v a = (case acc_quantile a of None \<Rightarrow> [] | Some n \<Rightarrow> [(n, v)])"

definition acc_clear :: "acc \<Rightarrow> acc" where
  "acc_clear a = a\<lparr>acc_count := 0, acc_sum := 0\<rparr>"

record 'd spt =
  calls :: "32 word"
  processed :: "32 word"
  exceptions :: "32 word"
  userExceptions :: "32 word"
  readData :: acc
  writeData :: acc
  samples :: "32 word"
  readTime :: acc
  writeTime :: acc
  processTime :: acc
  totalCpuTime :: acc
  totalWorkedTime :: acc
  sampleRate :: 'd
  sampleTimer :: 'd
  requestStatsMeasureRate :: 'd
  requestStatsLogRate :: 'd

definition new_spt :: "'d dbl_ops \<Rightarrow> 'd spt" where
  "new_spt D =
     \<lparr>calls = 0, processed = 0, exceptions = 0, userExceptions = 0, readData = acc0, writeData = acc0, samples = 0,
      readTime = acc0, writeTime = acc0, processTime = acc0, totalCpuTime = acc0, totalWorkedTime = acc0,
      sampleRate = d_one D, sampleTimer = d_zero D, requestStatsMeasureRate = d_zero D,
      requestStatsLogRate = d_zero D\<rparr>"

definition spt_getContext :: "'d dbl_ops \<Rightarrow> nat \<Rightarrow> nat \<Rightarrow> 'd spt \<Rightarrow> req_ctx \<times> 'd spt" where
  "spt_getContext D p t st =
     (let timer = d_plus D (sampleTimer st) (sampleRate st) in
      if d_le D (d_one D) timer
      then ((new_ctx p t)\<lparr>measureTime := True\<rparr>, st\<lparr>sampleTimer := d_minus D timer (d_one D)\<rparr>)
      else (new_ctx p t, st\<lparr>sampleTimer := timer\<rparr>))"

definition spt_clear :: "'d spt \<Rightarrow> 'd spt" where
  "spt_clear st =
     st\<lparr>calls := 0, processed := 0, exceptions := 0, userExceptions := 0,
        readData := acc_clear (readData st), writeData := acc_clear (writeData st), samples := 0,
        readTime := acc_clear (readTime st), writeTime := acc_clear (writeTime st),
        processTime := acc_clear (processTime st)\<rparr>"

definition setSampleRate :: "'d dbl_ops \<Rightarrow> 'd \<Rightarrow> 'd spt \<Rightarrow> 'd spt" where
  "setSampleRate D rate st =
     st\<lparr>sampleRate := (if d_less D (d_one D) rate \<or> d_less D rate (d_zero D) then d_one D else rate)\<rparr>"

definition setQuantileStats :: "name \<Rightarrow> 'd spt \<Rightarrow> 'd spt" where
  "setQuantileStats q st = st\<lparr>processTime := (processTime st)\<lparr>acc_quantile := Some q\<rparr>\<rparr>"

text \<open>\<open>duration_cast<microseconds>\<close> truncates towards zero.\<close>

definition count_usec :: "int \<Rightarrow> int64" where
  "count_usec d = word_of_int (if d < 0 then - ((- d) div 1000) else d div 1000)"

datatype fs_error = StatsFreed | CheckFailed

text \<open>\<open>logContextDataProcessed\<close> is that of \<open>StandardStatsPerThread\<close>.\<close>

definition logContextDataProcessed :: "req_ctx \<Rightarrow> 'd spt \<Rightarrow> fs_error + ('d spt \<times> quantile_log)" where
  "logContextDataProcessed c st =
     (if \<not> writeBeginCalled c then Inr (st, [])
      else if \<not> readEndCalled c then Inl CheckFailed
      else let st = st\<lparr>processed := processed st + 1\<rparr>; v = count_usec (writeBeginTime c - readEndTime c) in
           if measureTime c
           then Inr (st\<lparr>processTime := acc_addValue v (processTime st)\<rparr>, acc_quantiles v (processTime st))
           else Inr (st, []))"

definition log_read :: "req_ctx \<Rightarrow> 'd spt \<Rightarrow> fs_error + 'd spt" where
  "log_read c st =
     (if \<not> readEndCalled c then Inr st
      else if \<not> readBeginCalled c then Inl CheckFailed
      else let st = st\<lparr>readData := acc_addValue (ucast (rBytes c)) (readData st)\<rparr> in
           Inr (if measureTime c
                then st\<lparr>readTime := acc_addValue (count_usec (readEndTime c - readBeginTime c)) (readTime st)\<rparr>
                else st))"

definition log_write :: "req_ctx \<Rightarrow> 'd spt \<Rightarrow> fs_error + 'd spt" where
  "log_write c st =
     (if \<not> writeEndCalled c then Inr st
      else if \<not> writeBeginCalled c then Inl CheckFailed
      else let st = st\<lparr>writeData := acc_addValue (ucast (wBytes c)) (writeData st)\<rparr> in
           Inr (if measureTime c
                then st\<lparr>writeTime := acc_addValue (count_usec (writeEndTime c - writeBeginTime c)) (writeTime st)\<rparr>
                else st))"

definition log_counts :: "req_ctx \<Rightarrow> 'd spt \<Rightarrow> 'd spt" where
  "log_counts c st =
     st\<lparr>calls := calls st + 1, samples := samples st + of_bool (measureTime c),
        exceptions := exceptions st + of_bool (exception c),
        userExceptions := userExceptions st + of_bool (userException c)\<rparr>"

definition logContextData :: "req_ctx \<Rightarrow> 'd spt \<Rightarrow> fs_error + ('d spt \<times> quantile_log)" where
  "logContextData c st =
     (case log_read c (log_counts c st) of
        Inl e \<Rightarrow> Inl e
      | Inr st \<Rightarrow> (case log_write c st of Inl e \<Rightarrow> Inl e | Inr st \<Rightarrow> logContextDataProcessed c st))"

section \<open>TFunctionStatHandler\<close>

record aggregator =
  agg_map :: "(name \<times> nat) list"
  agg_cached :: "(name \<times> nat) option"

datatype stat_call =
    SumAdd name int64
  | AvgAdd name int64
  | AvgAggregated name int64 int64

record 'd handler =
  spts :: "nat \<rightharpoonup> 'd spt"                    \<comment> \<open>the \<open>TStatsPerThread\<close> objects by address\<close>
  tlFunctionMap :: "nat \<rightharpoonup> aggregator"       \<comment> \<open>by thread\<close>
  thread_order :: "nat list"                   \<comment> \<open>the order of \<open>accessAllThreads\<close>\<close>
  counterNamePrefix :: string
  nThreads :: int
  desiredSamplesPerPeriod :: 'd
  stat_calls :: "(secs \<times> stat_call) list"
  quantile_adds :: quantile_log

definition addAllValues :: "'d dbl_ops \<Rightarrow> name \<Rightarrow> 'd spt \<Rightarrow> stat_call list" where
  "addAllValues D prefix st =
     [SumAdd (prefix @ ''.num_calls'') (ucast (calls st)),
      SumAdd (prefix @ ''.num_reads'') (ucast (acc_count (readData st))),
      SumAdd (prefix @ ''.num_writes'') (ucast (acc_count (writeData st))),
      SumAdd (prefix @ ''.num_processed'') (ucast (processed st)),
      SumAdd (prefix @ ''.num_all_exceptions'') (ucast (userExceptions st)),
      SumAdd (prefix @ ''.num_exceptions'') (ucast (exceptions st)),
      SumAdd (prefix @ ''.num_samples'') (ucast (samples st)),
      SumAdd (prefix @ ''.bytes_read'') (acc_sum (readData st)),
      SumAdd (prefix @ ''.bytes_written'') (acc_sum (writeData st))]
     @ (if d_less D (d_eps D) (requestStatsMeasureRate st)
        then [AvgAdd (prefix @ ''.request_stats_rate'') (d_to_int64 D (d_divide D (d_one D) (requestStatsMeasureRate st)))]
        else [])
     @ (if d_less D (d_eps D) (requestStatsLogRate st)
        then [AvgAdd (prefix @ ''.request_stats_log_rate'') (d_to_int64 D (d_divide D (d_one D) (requestStatsLogRate st)))]
        else [])
     @ map (\<lambda>(nm, a). AvgAggregated (prefix @ nm) (acc_sum a) (ucast (acc_count a)))
         [(''.bytes_read'', readData st), (''.bytes_written'', writeData st),
          (''.time_read_us'', readTime st), (''.time_write_us'', writeTime st),
          (''.time_process_us'', processTime st), (''.total_cpu_us'', totalCpuTime st),
          (''.total_worked_us'', totalWorkedTime st)]"

text \<open>\<open>consolidateStats\<close>, with the calls it makes on the stat maps and the \<open>int32_t\<close> that it returns.\<close>

definition consolidateStats ::
  "'d dbl_ops \<Rightarrow> 'd handler \<Rightarrow> name \<Rightarrow> 'd spt \<Rightarrow> int \<times> stat_call list \<times> 'd spt" where
  "consolidateStats D h fn st =
     (let rate = (if 0 < calls st
                  then d_divide D (d_divide D (desiredSamplesPerPeriod h) (d_of_int D (nThreads h)))
                         (d_of_int D (uint (calls st)))
                  else d_one D)
      in (sint (calls st), addAllValues D (counterNamePrefix h @ fn) st, spt_clear (setSampleRate D rate st)))"

definition consolidate_at :: "'d dbl_ops \<Rightarrow> secs \<Rightarrow> name \<Rightarrow> nat \<Rightarrow> 'd handler \<Rightarrow> fs_error + (int \<times> 'd handler)" where
  "consolidate_at D now fn p h =
     (case spts h p of
        None \<Rightarrow> Inl StatsFreed
      | Some st \<Rightarrow>
          (let (n, cs, st') = consolidateStats D h fn st in
           Inr (n, h\<lparr>spts := (spts h)(p \<mapsto> st'), stat_calls := stat_calls h @ map (Pair now) cs\<rparr>)))"

fun consolidate_map :: "'d dbl_ops \<Rightarrow> secs \<Rightarrow> (name \<times> nat) list \<Rightarrow> 'd handler \<Rightarrow> fs_error + (int \<times> 'd handler)" where
  "consolidate_map D now [] h = Inr (0, h)"
| "consolidate_map D now ((fn, p) # m) h =
     (case consolidate_at D now fn p h of
        Inl e \<Rightarrow> Inl e
      | Inr (n, h1) \<Rightarrow>
          (case consolidate_map D now m h1 of Inl e \<Rightarrow> Inl e | Inr (k, h2) \<Rightarrow> Inr (n + k, h2)))"

definition consolidateThread :: "'d dbl_ops \<Rightarrow> secs \<Rightarrow> nat \<Rightarrow> 'd handler \<Rightarrow> fs_error + (int \<times> 'd handler)" where
  "consolidateThread D now t h =
     (case tlFunctionMap h t of None \<Rightarrow> Inr (0, h) | Some a \<Rightarrow> consolidate_map D now (agg_map a) h)"

fun consolidate_threads :: "'d dbl_ops \<Rightarrow> secs \<Rightarrow> nat list \<Rightarrow> 'd handler \<Rightarrow> fs_error + (int \<times> 'd handler)" where
  "consolidate_threads D now [] h = Inr (0, h)"
| "consolidate_threads D now (t # ts) h =
     (case consolidateThread D now t h of
        Inl e \<Rightarrow> Inl e
      | Inr (n, h1) \<Rightarrow>
          (case consolidate_threads D now ts h1 of Inl e \<Rightarrow> Inl e | Inr (k, h2) \<Rightarrow> Inr (of_bool (0 < n) + k, h2)))"

definition consolidate :: "'d dbl_ops \<Rightarrow> secs \<Rightarrow> 'd handler \<Rightarrow> fs_error + 'd handler" where
  "consolidate D now h =
     (case consolidate_threads D now (thread_order h) h of
        Inl e \<Rightarrow> Inl e
      | Inr (k, h1) \<Rightarrow> Inr (if 0 < k then h1\<lparr>nThreads := k\<rparr> else h1))"

text \<open>\<open>getStats\<close> on the thread \<open>t\<close>; \<open>p\<close> is where the allocator would put a new object.\<close>

definition new_aggregator :: aggregator where
  "new_aggregator = \<lparr>agg_map = [], agg_cached = None\<rparr>"

definition set_aggregator :: "nat \<Rightarrow> aggregator \<Rightarrow> 'd handler \<Rightarrow> 'd handler" where
  "set_aggregator t a h = h\<lparr>tlFunctionMap := (tlFunctionMap h)(t \<mapsto> a)\<rparr>"

definition get_aggregator :: "nat \<Rightarrow> 'd handler \<Rightarrow> aggregator \<times> 'd handler" where
  "get_aggregator t h =
     (case tlFunctionMap h t of
        Some a \<Rightarrow> (a, h)
      | None \<Rightarrow> (new_aggregator, set_aggregator t new_aggregator (h\<lparr>thread_order := thread_order h @ [t]\<rparr>)))"

definition getSharedQuantileStats :: "'d handler \<Rightarrow> name \<Rightarrow> name" where
  "getSharedQuantileStats h fn = counterNamePrefix h @ fn @ ''.time_process_us''"

definition cache_hit :: "name \<Rightarrow> aggregator \<Rightarrow> nat option" where
  "cache_hit fn a = (case agg_cached a of None \<Rightarrow> None | Some (n, q) \<Rightarrow> if fn = n then Some q else None)"

definition getStats :: "'d dbl_ops \<Rightarrow> nat \<Rightarrow> nat \<Rightarrow> name \<Rightarrow> 'd handler \<Rightarrow> nat \<times> 'd handler" where
  "getStats D t p fn h =
     (let (a, h1) = get_aggregator t h in
      case cache_hit fn a of
        Some q \<Rightarrow> (q, h1)
      | None \<Rightarrow>
          (case map_of (agg_map a) fn of
             Some q \<Rightarrow> (q, set_aggregator t (a\<lparr>agg_cached := Some (fn, q)\<rparr>) h1)
           | None \<Rightarrow>
               (p, set_aggregator t (a\<lparr>agg_map := (fn, p) # agg_map a, agg_cached := Some (fn, p)\<rparr>)
                     (h1\<lparr>spts := (spts h1)(p \<mapsto> setQuantileStats (getSharedQuantileStats h1 fn) (new_spt D))\<rparr>))))"

definition getContext :: "'d dbl_ops \<Rightarrow> nat \<Rightarrow> nat \<Rightarrow> name \<Rightarrow> 'd handler \<Rightarrow> fs_error + (req_ctx \<times> 'd handler)" where
  "getContext D t p fn h =
     (let (q, h1) = getStats D t p fn h in
      case spts h1 q of
        None \<Rightarrow> Inl StatsFreed
      | Some st \<Rightarrow> (let (c, st') = spt_getContext D q t st in Inr (c, h1\<lparr>spts := (spts h1)(q \<mapsto> st')\<rparr>)))"

definition freeContext :: "'d dbl_ops \<Rightarrow> nat \<Rightarrow> nat \<Rightarrow> req_ctx \<Rightarrow> name \<Rightarrow> 'd handler \<Rightarrow> fs_error + 'd handler" where
  "freeContext D t p c fn h =
     (let (q, h1) = (if originThreadId c = t then (ctx_stats c, h) else getStats D t p fn h) in
      case spts h1 q of
        None \<Rightarrow> Inl StatsFreed
      | Some st \<Rightarrow>
          (case logContextData c st of
             Inl e \<Rightarrow> Inl e
           | Inr (st', qs) \<Rightarrow> Inr (h1\<lparr>spts := (spts h1)(q \<mapsto> st'), quantile_adds := quantile_adds h1 @ qs\<rparr>)))"

text \<open>The deleter of \<open>getStats\<close> when the thread \<open>t\<close> ends while the handler is alive.\<close>

definition thread_exit :: "'d dbl_ops \<Rightarrow> secs \<Rightarrow> nat \<Rightarrow> 'd handler \<Rightarrow> fs_error + 'd handler" where
  "thread_exit D now t h =
     (case tlFunctionMap h t of
        None \<Rightarrow> Inr h
      | Some a \<Rightarrow>
          (case consolidateThread D now t h of
             Inl e \<Rightarrow> Inl e
           | Inr (n, h1) \<Rightarrow>
               Inr (h1\<lparr>tlFunctionMap := (tlFunctionMap h1)(t := None), thread_order := removeAll t (thread_order h1),
                       spts := (spts h1) |` (- snd ` set (agg_map a))\<rparr>)))"

section \<open>Runs\<close>

text \<open>
  The handler with the contexts in flight. An action is one call of the server on a thread, or one stretch of a
  consolidation under the mutex of one object. A context is freed under the name it was created for, hooks
  come in the order that the processor calls them in, and a thread that has ended calls nothing.
\<close>

record 'd fsys =
  hnd :: "'d handler"
  in_flight :: "nat \<rightharpoonup> req_ctx \<times> name"
  ended :: "nat set"
  freed :: "(name \<times> req_ctx) list"

datatype fs_act =
    GetContext nat nat nat name
  | PreRead nat int
  | PostRead nat int "32 word"
  | PreWrite nat int
  | PostWrite nat int "32 word"
  | HandlerError nat
  | UserExceptionWrapped nat
  | FreeContext nat nat nat
  | ConsolidateStats nat name secs
  | Consolidate secs
  | ThreadExit nat secs

definition slot :: "'d handler \<Rightarrow> nat \<Rightarrow> name \<Rightarrow> nat option" where
  "slot h t fn = (case tlFunctionMap h t of None \<Rightarrow> None | Some a \<Rightarrow> map_of (agg_map a) fn)"

definition ctx_is :: "(req_ctx \<Rightarrow> bool) \<Rightarrow> nat \<Rightarrow> 'd fsys \<Rightarrow> bool" where
  "ctx_is P cid s \<longleftrightarrow> (case in_flight s cid of None \<Rightarrow> False | Some (c, fn) \<Rightarrow> P c)"

fun fs_enabled :: "fs_act \<Rightarrow> 'd fsys \<Rightarrow> bool" where
  "fs_enabled (GetContext t p cid fn) s \<longleftrightarrow> t \<notin> ended s \<and> spts (hnd s) p = None \<and> in_flight s cid = None"
| "fs_enabled (PreRead cid now) s \<longleftrightarrow> ctx_is (\<lambda>_. True) cid s"
| "fs_enabled (PostRead cid now b) s \<longleftrightarrow> ctx_is readBeginCalled cid s"
| "fs_enabled (PreWrite cid now) s \<longleftrightarrow> ctx_is readEndCalled cid s"
| "fs_enabled (PostWrite cid now b) s \<longleftrightarrow> ctx_is writeBeginCalled cid s"
| "fs_enabled (HandlerError cid) s \<longleftrightarrow> ctx_is (\<lambda>_. True) cid s"
| "fs_enabled (UserExceptionWrapped cid) s \<longleftrightarrow> ctx_is (\<lambda>_. True) cid s"
| "fs_enabled (FreeContext t p cid) s \<longleftrightarrow> t \<notin> ended s \<and> spts (hnd s) p = None \<and> ctx_is (\<lambda>_. True) cid s"
| "fs_enabled (ConsolidateStats t fn now) s \<longleftrightarrow> slot (hnd s) t fn \<noteq> None"
| "fs_enabled (Consolidate now) s \<longleftrightarrow> True"
| "fs_enabled (ThreadExit t now) s \<longleftrightarrow> t \<notin> ended s"

definition on_ctx :: "(req_ctx \<Rightarrow> req_ctx) \<Rightarrow> nat \<Rightarrow> 'd fsys \<Rightarrow> 'd fsys" where
  "on_ctx f cid s =
     (case in_flight s cid of None \<Rightarrow> s | Some (c, fn) \<Rightarrow> s\<lparr>in_flight := (in_flight s)(cid \<mapsto> (f c, fn))\<rparr>)"

fun fs_exec :: "'d dbl_ops \<Rightarrow> fs_act \<Rightarrow> 'd fsys \<Rightarrow> fs_error + 'd fsys" where
  "fs_exec D (GetContext t p cid fn) s =
     map_sum id (\<lambda>(c, h). s\<lparr>hnd := h, in_flight := (in_flight s)(cid \<mapsto> (c, fn))\<rparr>) (getContext D t p fn (hnd s))"
| "fs_exec D (PreRead cid now) s = Inr (on_ctx (readBegin now) cid s)"
| "fs_exec D (PostRead cid now b) s = Inr (on_ctx (readEnd now b) cid s)"
| "fs_exec D (PreWrite cid now) s = Inr (on_ctx (writeBegin now) cid s)"
| "fs_exec D (PostWrite cid now b) s = Inr (on_ctx (writeEnd now b) cid s)"
| "fs_exec D (HandlerError cid) s = Inr (on_ctx exceptionThrown cid s)"
| "fs_exec D (UserExceptionWrapped cid) s = Inr (on_ctx userExceptionThrown cid s)"
| "fs_exec D (FreeContext t p cid) s =
     (case in_flight s cid of
        None \<Rightarrow> Inr s
      | Some (c, fn) \<Rightarrow>
          map_sum id (\<lambda>h. s\<lparr>hnd := h, in_flight := (in_flight s)(cid := None), freed := (fn, c) # freed s\<rparr>)
            (freeContext D t p c fn (hnd s)))"
| "fs_exec D (ConsolidateStats t fn now) s =
     (case slot (hnd s) t fn of
        None \<Rightarrow> Inr s
      | Some p \<Rightarrow> map_sum id (\<lambda>(n, h). s\<lparr>hnd := h\<rparr>) (consolidate_at D now fn p (hnd s)))"
| "fs_exec D (Consolidate now) s = map_sum id (\<lambda>h. s\<lparr>hnd := h\<rparr>) (consolidate D now (hnd s))"
| "fs_exec D (ThreadExit t now) s =
     map_sum id (\<lambda>h. s\<lparr>hnd := h, ended := insert t (ended s)\<rparr>) (thread_exit D now t (hnd s))"

definition handler0 :: "string \<Rightarrow> 'd \<Rightarrow> 'd handler" where
  "handler0 prefix desired =
     \<lparr>spts = Map.empty, tlFunctionMap = Map.empty, thread_order = [], counterNamePrefix = prefix, nThreads = 1,
      desiredSamplesPerPeriod = desired, stat_calls = [], quantile_adds = []\<rparr>"

definition fsys0 :: "string \<Rightarrow> 'd \<Rightarrow> 'd fsys" where
  "fsys0 prefix desired = \<lparr>hnd = handler0 prefix desired, in_flight = Map.empty, ended = {}, freed = []\<rparr>"

inductive fs_reach :: "'d dbl_ops \<Rightarrow> string \<Rightarrow> 'd \<Rightarrow> 'd fsys \<Rightarrow> bool" for D prefix desired where
  fs_start: "fs_reach D prefix desired (fsys0 prefix desired)"
| fs_next: "fs_reach D prefix desired s \<Longrightarrow> fs_enabled a s \<Longrightarrow> fs_exec D a s = Inr s' \<Longrightarrow> fs_reach D prefix desired s'"

fun fs_run :: "'d dbl_ops \<Rightarrow> fs_act list \<Rightarrow> 'd fsys \<Rightarrow> fs_error + 'd fsys" where
  "fs_run D [] s = Inr s"
| "fs_run D (a # as) s =
     (if fs_enabled a s then (case fs_exec D a s of Inl e \<Rightarrow> Inl e | Inr s' \<Rightarrow> fs_run D as s') else fs_run D as s)"

lemma fs_run_reach: "fs_reach D pre d s \<Longrightarrow> fs_run D as s = Inr s' \<Longrightarrow> fs_reach D pre d s'"
  by (induction as arbitrary: s) (auto split: if_splits sum.splits intro: fs_next)

section \<open>The objects of a thread\<close>

text \<open>
  Addresses aside, the handler is a map from a thread and a function to what it accumulated: \<open>spt_at\<close>.
\<close>

definition spt_at :: "'d handler \<Rightarrow> nat \<Rightarrow> name \<Rightarrow> 'd spt option" where
  "spt_at h t fn = (case slot h t fn of None \<Rightarrow> None | Some q \<Rightarrow> spts h q)"

definition agg_ok :: "aggregator \<Rightarrow> bool" where
  "agg_ok a \<longleftrightarrow> distinct (map fst (agg_map a)) \<and>
     (case agg_cached a of None \<Rightarrow> True | Some (n, q) \<Rightarrow> map_of (agg_map a) n = Some q)"

definition handler_wf :: "'d handler \<Rightarrow> bool" where
  "handler_wf h \<longleftrightarrow>
     distinct (thread_order h) \<and> set (thread_order h) = dom (tlFunctionMap h) \<and>
     (\<forall>t a. tlFunctionMap h t = Some a \<longrightarrow> agg_ok a) \<and>
     (\<forall>t fn q. slot h t fn = Some q \<longrightarrow> spts h q \<noteq> None) \<and>
     (\<forall>t fn t' fn' q. slot h t fn = Some q \<longrightarrow> slot h t' fn' = Some q \<longrightarrow> t = t' \<and> fn = fn')"

lemma handler_wfD:
  assumes "handler_wf h"
  shows "distinct (thread_order h)" "set (thread_order h) = dom (tlFunctionMap h)"
    "\<And>t a. tlFunctionMap h t = Some a \<Longrightarrow> agg_ok a"
    "\<And>t fn q. slot h t fn = Some q \<Longrightarrow> spts h q \<noteq> None"
    "\<And>t fn t' fn' q. slot h t fn = Some q \<Longrightarrow> slot h t' fn' = Some q \<Longrightarrow> t = t' \<and> fn = fn'"
  using assms unfolding handler_wf_def by blast+

lemma val_slot: "handler_wf h \<Longrightarrow> spt_at h t fn = None \<longleftrightarrow> slot h t fn = None"
  by (auto simp: spt_at_def dest: handler_wfD(4) split: option.splits)

lemma slot_updates [simp]:
  "slot (h\<lparr>spts := f\<rparr>) = slot h" "slot (h\<lparr>stat_calls := cs\<rparr>) = slot h" "slot (h\<lparr>quantile_adds := qs\<rparr>) = slot h"
  "slot (h\<lparr>nThreads := n\<rparr>) = slot h" "slot (h\<lparr>thread_order := ts\<rparr>) = slot h"
  by (simp_all add: slot_def fun_eq_iff)

lemma val_updates [simp]:
  "spt_at (h\<lparr>stat_calls := cs\<rparr>) = spt_at h" "spt_at (h\<lparr>quantile_adds := qs\<rparr>) = spt_at h" "spt_at (h\<lparr>nThreads := n\<rparr>) = spt_at h"
  by (auto simp: spt_at_def fun_eq_iff split: option.split)

lemma put_spt:
  assumes "handler_wf h" "slot h t fn = Some q" "h' = h\<lparr>spts := (spts h)(q \<mapsto> st)\<rparr>"
  shows "handler_wf h'" "slot h' = slot h" "spt_at h' t' fn' = (if t' = t \<and> fn' = fn then Some st else spt_at h t' fn')"
    "tlFunctionMap h' = tlFunctionMap h" "thread_order h' = thread_order h"
proof -
  show s: "slot h' = slot h" using assms(3) by (simp add: slot_def fun_eq_iff)
  show "tlFunctionMap h' = tlFunctionMap h" "thread_order h' = thread_order h" using assms(3) by simp_all
  show "handler_wf h'" using assms(1) unfolding handler_wf_def s by (simp add: assms(3))
  show "spt_at h' t' fn' = (if t' = t \<and> fn' = fn then Some st else spt_at h t' fn')"
  proof (cases "slot h t' fn'")
    case (Some q')
    with handler_wfD(5)[OF assms(1,2), of t' fn'] assms(2) show ?thesis
      by (cases "q' = q") (auto simp: spt_at_def s assms(3))
  qed (use assms(2) in \<open>auto simp: spt_at_def s\<close>)
qed

lemma slot_set_aggregator [simp]:
  "slot (set_aggregator t a h) t' fn = (if t' = t then map_of (agg_map a) fn else slot h t' fn)"
  "spts (set_aggregator t a h) = spts h" "thread_order (set_aggregator t a h) = thread_order h"
  "tlFunctionMap (set_aggregator t a h) = (tlFunctionMap h)(t \<mapsto> a)"
  "stat_calls (set_aggregator t a h) = stat_calls h" "counterNamePrefix (set_aggregator t a h) = counterNamePrefix h"
  "quantile_adds (set_aggregator t a h) = quantile_adds h"
  by (simp_all add: slot_def set_aggregator_def)

lemma get_aggregator_ok:
  assumes "handler_wf h" "get_aggregator t h = (a, h1)"
  shows "handler_wf h1" "tlFunctionMap h1 t = Some a" "slot h1 = slot h" "spts h1 = spts h"
    "dom (tlFunctionMap h1) = insert t (dom (tlFunctionMap h))" "stat_calls h1 = stat_calls h"
    "counterNamePrefix h1 = counterNamePrefix h" "quantile_adds h1 = quantile_adds h"
proof -
  show sl: "slot h1 = slot h" using assms(2)
    by (auto simp: get_aggregator_def new_aggregator_def slot_def fun_eq_iff split: option.splits if_splits)
  show sp: "spts h1 = spts h" "tlFunctionMap h1 t = Some a" "stat_calls h1 = stat_calls h"
    "counterNamePrefix h1 = counterNamePrefix h" "quantile_adds h1 = quantile_adds h"
    "dom (tlFunctionMap h1) = insert t (dom (tlFunctionMap h))"
    using assms(2) by (auto simp: get_aggregator_def split: option.splits)
  show "handler_wf h1"
  proof (cases "tlFunctionMap h t")
    case None
    with assms(2) have h1: "h1 = set_aggregator t new_aggregator (h\<lparr>thread_order := thread_order h @ [t]\<rparr>)"
      by (simp add: get_aggregator_def)
    have "agg_ok new_aggregator" by (simp add: agg_ok_def new_aggregator_def)
    with handler_wfD(1-3)[OF assms(1)] None
    have "distinct (thread_order h1)" "set (thread_order h1) = dom (tlFunctionMap h1)"
      "\<forall>t a. tlFunctionMap h1 t = Some a \<longrightarrow> agg_ok a" unfolding h1 by auto
    with handler_wfD(4,5)[OF assms(1)] show ?thesis unfolding handler_wf_def sl sp(1) by blast
  qed (use assms in \<open>simp add: get_aggregator_def\<close>)
qed

lemma set_aggregator_wf:
  assumes "handler_wf h" "tlFunctionMap h t = Some a" "agg_ok a'" "map_of (agg_map a') = map_of (agg_map a)"
  shows "handler_wf (set_aggregator t a' h)" "slot (set_aggregator t a' h) = slot h"
proof -
  show sl: "slot (set_aggregator t a' h) = slot h"
    using assms(2,4) by (auto simp: slot_def set_aggregator_def fun_eq_iff)
  show "handler_wf (set_aggregator t a' h)"
    using assms(1-3) unfolding handler_wf_def sl by (auto simp: insert_absorb)
qed

lemma add_spt:
  assumes wf: "handler_wf h" and a: "tlFunctionMap h t = Some a" "map_of (agg_map a) fn = None" and p: "spts h p = None"
    and h'_def: "h' = set_aggregator t (a\<lparr>agg_map := (fn, p) # agg_map a, agg_cached := Some (fn, p)\<rparr>)
                  (h\<lparr>spts := (spts h)(p \<mapsto> st)\<rparr>)"
  shows "handler_wf h'" "slot h' t' fn' = (if t' = t \<and> fn' = fn then Some p else slot h t' fn')"
    "spt_at h' t' fn' = (if t' = t \<and> fn' = fn then Some st else spt_at h t' fn')"
proof -
  have sl: "slot h' t' fn' = (if t' = t \<and> fn' = fn then Some p else slot h t' fn')" for t' fn'
    using a unfolding h'_def by (auto simp: slot_def set_aggregator_def)
  have new: "slot h t' fn' \<noteq> Some p" for t' fn' using handler_wfD(4)[OF wf] p by blast
  have sp: "spts h' = (spts h)(p \<mapsto> st)" by (simp add: h'_def)
  have "agg_ok (a\<lparr>agg_map := (fn, p) # agg_map a, agg_cached := Some (fn, p)\<rparr>)"
    using handler_wfD(3)[OF wf a(1)] a(2) by (simp add: agg_ok_def map_of_eq_None_iff)
  with handler_wfD(1-3)[OF wf] a(1)
  have "distinct (thread_order h') \<and> set (thread_order h') = dom (tlFunctionMap h') \<and>
     (\<forall>t a. tlFunctionMap h' t = Some a \<longrightarrow> agg_ok a)"
    unfolding h'_def by (auto simp: insert_absorb)
  moreover have "\<forall>t fn q. slot h' t fn = Some q \<longrightarrow> spts h' q \<noteq> None"
    using handler_wfD(4)[OF wf] by (auto simp: sl sp)
  moreover have "\<forall>t fn t' fn' q. slot h' t fn = Some q \<longrightarrow> slot h' t' fn' = Some q \<longrightarrow> t = t' \<and> fn = fn'"
    using handler_wfD(5)[OF wf] new unfolding sl by (metis option.inject)
  ultimately show "handler_wf h'" unfolding handler_wf_def by blast
  show "slot h' t' fn' = (if t' = t \<and> fn' = fn then Some p else slot h t' fn')" by (rule sl)
  show "spt_at h' t' fn' = (if t' = t \<and> fn' = fn then Some st else spt_at h t' fn')"
    using new[of t' fn'] by (auto simp: spt_at_def sl sp split: option.split)
qed

lemma getStats_ok:
  assumes wf: "handler_wf h" and p: "spts h p = None" and g: "getStats D t p fn h = (q, h')"
  shows "handler_wf h'" "slot h' t' fn' = (if t' = t \<and> fn' = fn then Some q else slot h t' fn')"
    "spt_at h' t' fn' = (if t' = t \<and> fn' = fn \<and> spt_at h t fn = None
        then Some (setQuantileStats (getSharedQuantileStats h fn) (new_spt D)) else spt_at h t' fn')"
    "slot h t fn \<noteq> None \<Longrightarrow> slot h t fn = Some q"
    "dom (tlFunctionMap h') = insert t (dom (tlFunctionMap h))"
    "stat_calls h' = stat_calls h \<and> counterNamePrefix h' = counterNamePrefix h \<and> quantile_adds h' = quantile_adds h"
proof -
  obtain a h1 where ga: "get_aggregator t h = (a, h1)" by fastforce
  note g1 = get_aggregator_ok[OF wf ga]
  have aok: "agg_ok a" using handler_wfD(3)[OF g1(1,2)] .
  have at: "map_of (agg_map a) = slot h t" using g1(2) unfolding g1(3)[symmetric] by (simp add: slot_def fun_eq_iff)
  have v1: "spt_at h1 = spt_at h" unfolding spt_at_def g1(3,4) ..
  have all: "handler_wf h' \<and> (\<forall>t' fn'. slot h' t' fn' = (if t' = t \<and> fn' = fn then Some q else slot h t' fn')) \<and>
    (\<forall>t' fn'. spt_at h' t' fn' = (if t' = t \<and> fn' = fn \<and> spt_at h t fn = None
        then Some (setQuantileStats (getSharedQuantileStats h fn) (new_spt D)) else spt_at h t' fn')) \<and>
    (slot h t fn \<noteq> None \<longrightarrow> slot h t fn = Some q) \<and>
    dom (tlFunctionMap h') = insert t (dom (tlFunctionMap h)) \<and>
    (stat_calls h' = stat_calls h \<and> counterNamePrefix h' = counterNamePrefix h \<and> quantile_adds h' = quantile_adds h)"
  proof (cases "slot h t fn")
    case None
    then have "cache_hit fn a = None" using aok at by (auto simp: cache_hit_def agg_ok_def split: option.splits if_splits)
    with None g ga at have "q = p" "h' = set_aggregator t (a\<lparr>agg_map := (fn, p) # agg_map a, agg_cached := Some (fn, p)\<rparr>)
                     (h1\<lparr>spts := (spts h1)(p \<mapsto> setQuantileStats (getSharedQuantileStats h1 fn) (new_spt D))\<rparr>)"
      by (auto simp: getStats_def)
    with add_spt[OF g1(1,2), of fn p] None at p g1 v1 val_slot[OF wf, of t fn] show ?thesis
      by (auto simp: getSharedQuantileStats_def)
  next
    case (Some q')
    show ?thesis
    proof (cases "cache_hit fn a")
      case None
      with Some g ga at have h': "q = q'" "h' = set_aggregator t (a\<lparr>agg_cached := Some (fn, q)\<rparr>) h1"
        by (auto simp: getStats_def)
      have "agg_ok (a\<lparr>agg_cached := Some (fn, q)\<rparr>)" using aok at Some h'(1) by (simp add: agg_ok_def)
      from set_aggregator_wf[OF g1(1,2) this] have "handler_wf h'" "slot h' = slot h" using h' g1(3) by simp_all
      then show ?thesis using h' Some g1 v1 val_slot[OF wf, of t fn] by (auto simp: spt_at_def insert_absorb split: option.split)
    next
      case (Some r)
      with aok at \<open>slot h t fn = Some q'\<close> have "r = q'"
        by (auto simp: cache_hit_def agg_ok_def split: option.splits if_splits)
      with Some g ga have "q = q'" "h' = h1" by (auto simp: getStats_def)
      with g1 v1 \<open>slot h t fn = Some q'\<close> val_slot[OF wf, of t fn] show ?thesis by auto
    qed
  qed
  from all show "handler_wf h'" "slot h' t' fn' = (if t' = t \<and> fn' = fn then Some q else slot h t' fn')"
    "spt_at h' t' fn' = (if t' = t \<and> fn' = fn \<and> spt_at h t fn = None
        then Some (setQuantileStats (getSharedQuantileStats h fn) (new_spt D)) else spt_at h t' fn')"
    "slot h t fn \<noteq> None \<Longrightarrow> slot h t fn = Some q"
    "dom (tlFunctionMap h') = insert t (dom (tlFunctionMap h))"
    "stat_calls h' = stat_calls h \<and> counterNamePrefix h' = counterNamePrefix h \<and> quantile_adds h' = quantile_adds h"
    by blast+
qed

section \<open>Consolidation\<close>

definition idle :: "'d handler \<Rightarrow> nat \<Rightarrow> name \<Rightarrow> bool" where
  "idle h t fn \<longleftrightarrow> (\<forall>st. spt_at h t fn = Some st \<longrightarrow> spt_clear st = st)"

definition frame :: "'d handler \<Rightarrow> 'd handler \<Rightarrow> bool" where
  "frame h h' \<longleftrightarrow> tlFunctionMap h' = tlFunctionMap h \<and> thread_order h' = thread_order h \<and>
     counterNamePrefix h' = counterNamePrefix h \<and> quantile_adds h' = quantile_adds h"

lemma frame_slot: "frame h h' \<Longrightarrow> slot h' = slot h"
  by (simp add: frame_def slot_def fun_eq_iff)

lemma spt_clear_idem [simp]: "spt_clear (spt_clear st) = spt_clear st"
  by (simp add: spt_clear_def acc_clear_def)

lemma consolidate_at_ok:
  assumes "handler_wf h" "slot h t fn = Some p"
  obtains st n r h' where "spt_at h t fn = Some st" "consolidate_at D now fn p h = Inr (n, h')" "handler_wf h'" "frame h h'"
    "\<And>t' fn'. spt_at h' t' fn' = (if t' = t \<and> fn' = fn then Some (spt_clear (setSampleRate D r st)) else spt_at h t' fn')"
    "stat_calls h' = stat_calls h @ map (Pair now) (addAllValues D (counterNamePrefix h @ fn) st)"
proof -
  obtain st where st: "spts h p = Some st" using handler_wfD(4)[OF assms] by blast
  obtain n cs st' where c: "consolidateStats D h fn st = (n, cs, st')" by (cases "consolidateStats D h fn st")
  then obtain r where r: "st' = spt_clear (setSampleRate D r st)" "cs = addAllValues D (counterNamePrefix h @ fn) st"
    by (auto simp: consolidateStats_def Let_def)
  let ?h = "h\<lparr>spts := (spts h)(p \<mapsto> st')\<rparr>"
  let ?h' = "?h\<lparr>stat_calls := stat_calls h @ map (Pair now) cs\<rparr>"
  note u = put_spt[OF assms refl, of st']
  have "handler_wf ?h'" using u(1) unfolding handler_wf_def by simp
  moreover have "spt_at h t fn = Some st" using st assms(2) by (simp add: spt_at_def)
  ultimately show ?thesis
    using that[of st n ?h' r] st c r u(3) assms(2) by (simp add: consolidate_at_def frame_def)
qed

inductive drains :: "'d dbl_ops \<Rightarrow> 'd handler \<Rightarrow> 'd handler \<Rightarrow> bool" for D h where
  drains_refl: "drains D h h"
| drains_step: "drains D h h1 \<Longrightarrow> slot h1 t fn = Some p \<Longrightarrow> consolidate_at D now fn p h1 = Inr (n, h2) \<Longrightarrow> drains D h h2"

lemma drains_wf: "drains D h h' \<Longrightarrow> handler_wf h \<Longrightarrow> handler_wf h' \<and> frame h h'"
proof (induction rule: drains.induct)
  case (drains_step h1 t fn p now n h2)
  then have wf: "handler_wf h1" and f: "frame h h1" by auto
  from consolidate_at_ok[OF wf drains_step.hyps(2)] drains_step.hyps(3) have "handler_wf h2" "frame h1 h2"
    by (metis Inr_inject prod.inject)+
  with f show ?case by (simp add: frame_def)
qed (simp add: frame_def)

lemma drains_trans: "drains D h1 h2 \<Longrightarrow> drains D h h1 \<Longrightarrow> drains D h h2"
  by (induction rule: drains.induct) (auto intro: drains_step)

lemma consolidate_map_ok:
  "handler_wf h \<Longrightarrow> \<forall>(fn, p) \<in> set m. slot h t fn = Some p \<Longrightarrow>
   \<exists>n h'. consolidate_map D now m h = Inr (n, h') \<and> drains D h h' \<and>
     (\<forall>(fn, p) \<in> set m. idle h' t fn) \<and> (\<forall>t' fn'. idle h t' fn' \<longrightarrow> idle h' t' fn')"
proof (induction m arbitrary: h)
  case Nil
  then show ?case by (auto intro: drains_refl)
next
  case (Cons e m)
  obtain fn p where e: "e = (fn, p)" by (cases e)
  with Cons.prems have sl: "slot h t fn = Some p" by simp
  obtain st n r h1 where c: "spt_at h t fn = Some st" "consolidate_at D now fn p h = Inr (n, h1)" "handler_wf h1" "frame h h1"
    "\<And>t' fn'. spt_at h1 t' fn' = (if t' = t \<and> fn' = fn then Some (spt_clear (setSampleRate D r st)) else spt_at h t' fn')"
    by (rule consolidate_at_ok[OF Cons.prems(1) sl, of D now]) (rule that)
  have i1: "idle h1 t fn" "\<And>t' fn'. idle h t' fn' \<Longrightarrow> idle h1 t' fn'" by (simp_all add: idle_def c(5))
  have "\<forall>(fn, p) \<in> set m. slot h1 t fn = Some p" using Cons.prems(2) frame_slot[OF c(4)] by simp
  from Cons.IH[OF c(3) this] obtain k h2 where h2: "consolidate_map D now m h1 = Inr (k, h2)" "drains D h1 h2"
    "\<forall>(fn, p) \<in> set m. idle h2 t fn" "\<forall>t' fn'. idle h1 t' fn' \<longrightarrow> idle h2 t' fn'" by blast
  have "drains D h h2" using drains_trans[OF h2(2) drains_step[OF drains_refl sl c(2)]] .
  with h2 i1 c(2) e show ?case by auto
qed

lemma agg_slots:
  assumes "handler_wf h" "tlFunctionMap h t = Some a"
  shows "\<forall>(fn, p) \<in> set (agg_map a). slot h t fn = Some p"
  using handler_wfD(3)[OF assms] assms(2) by (auto simp: agg_ok_def slot_def)

lemma consolidateThread_ok:
  assumes "handler_wf h"
  shows "\<exists>n h'. consolidateThread D now t h = Inr (n, h') \<and> drains D h h' \<and> (\<forall>fn. idle h' t fn) \<and>
     (\<forall>t' fn'. idle h t' fn' \<longrightarrow> idle h' t' fn')"
proof (cases "tlFunctionMap h t")
  case None
  then have "idle h t fn" for fn by (simp add: idle_def spt_at_def slot_def)
  with None show ?thesis by (auto simp: consolidateThread_def intro: drains_refl)
next
  case (Some a)
  from consolidate_map_ok[OF assms agg_slots[OF assms Some]] obtain n h' where
    h': "consolidate_map D now (agg_map a) h = Inr (n, h')" "drains D h h'" "\<forall>(fn, p) \<in> set (agg_map a). idle h' t fn"
      "\<forall>t' fn'. idle h t' fn' \<longrightarrow> idle h' t' fn'" by blast
  have "idle h' t fn" for fn
  proof (cases "map_of (agg_map a) fn")
    case None
    with Some frame_slot drains_wf[OF h'(2) assms] have "slot h' t fn = None" by (metis slot_def option.simps(5))
    then show ?thesis by (simp add: idle_def spt_at_def)
  qed (use h'(3) map_of_SomeD in fastforce)
  with h' Some show ?thesis by (auto simp: consolidateThread_def)
qed

lemma consolidate_threads_ok:
  "handler_wf h \<Longrightarrow>
   \<exists>k h'. consolidate_threads D now ts h = Inr (k, h') \<and> drains D h h' \<and> (\<forall>t \<in> set ts. \<forall>fn. idle h' t fn) \<and>
     (\<forall>t' fn'. idle h t' fn' \<longrightarrow> idle h' t' fn')"
proof (induction ts arbitrary: h)
  case Nil
  then show ?case by (auto intro: drains_refl)
next
  case (Cons t ts)
  from consolidateThread_ok[OF Cons.prems, of D now t] obtain n h1 where
    h1: "consolidateThread D now t h = Inr (n, h1)" "drains D h h1" "\<forall>fn. idle h1 t fn"
      "\<forall>t' fn'. idle h t' fn' \<longrightarrow> idle h1 t' fn'" by blast
  from Cons.IH drains_wf[OF h1(2) Cons.prems] obtain k h2 where
    h2: "consolidate_threads D now ts h1 = Inr (k, h2)" "drains D h1 h2" "\<forall>t \<in> set ts. \<forall>fn. idle h2 t fn"
      "\<forall>t' fn'. idle h1 t' fn' \<longrightarrow> idle h2 t' fn'" by blast
  with h1 drains_trans[OF h2(2) h1(2)] show ?case by auto
qed

lemma wf_updates [simp]:
  "handler_wf (h\<lparr>nThreads := k\<rparr>) = handler_wf h" "handler_wf (h\<lparr>quantile_adds := qs\<rparr>) = handler_wf h"
  by (simp_all add: handler_wf_def)

lemma consolidate_ok:
  assumes "handler_wf h"
  shows "\<exists>h1 k. consolidate D now h = Inr (h1\<lparr>nThreads := k\<rparr>) \<and> drains D h h1 \<and> (\<forall>t fn. idle h1 t fn)"
proof -
  from consolidate_threads_ok[OF assms, of D now "thread_order h"] obtain k h1 where
    h1: "consolidate_threads D now (thread_order h) h = Inr (k, h1)" "drains D h h1"
      "\<forall>t \<in> set (thread_order h). \<forall>fn. idle h1 t fn" by blast
  have "idle h1 t fn" for t fn
  proof (cases "t \<in> set (thread_order h)")
    case False
    then have "tlFunctionMap h1 t = None"
      using handler_wfD(2)[OF assms] drains_wf[OF h1(2) assms] by (auto simp: frame_def)
    then show ?thesis by (simp add: idle_def spt_at_def slot_def)
  qed (use h1(3) in blast)
  moreover have "consolidate D now h = Inr (h1\<lparr>nThreads := (if 0 < k then k else nThreads h1)\<rparr>)"
    using h1(1) by (simp add: consolidate_def)
  ultimately show ?thesis using h1(2) by blast
qed

lemma thread_exit_ok:
  assumes "handler_wf h"
  shows "\<exists>h1 h'. thread_exit D now t h = Inr h' \<and> drains D h h1 \<and> (\<forall>fn. idle h1 t fn) \<and> handler_wf h' \<and>
     tlFunctionMap h' = (tlFunctionMap h)(t := None) \<and> stat_calls h' = stat_calls h1 \<and>
     counterNamePrefix h' = counterNamePrefix h \<and> (\<forall>t' fn. spt_at h' t' fn = (if t' = t then None else spt_at h1 t' fn)) \<and>
     (\<forall>t' fn. slot h' t' fn = (if t' = t then None else slot h t' fn))"
proof (cases "tlFunctionMap h t")
  case None
  then have "idle h t fn" "slot h t fn = None" for fn by (simp_all add: idle_def spt_at_def slot_def)
  with None assms show ?thesis by (auto simp: thread_exit_def spt_at_def fun_upd_idem intro!: drains_refl exI[of _ h])
next
  case (Some a)
  from consolidateThread_ok[OF assms, of D now t] obtain n h1 where
    h1: "consolidateThread D now t h = Inr (n, h1)" "drains D h h1" "\<forall>fn. idle h1 t fn" by blast
  note wf1 = drains_wf[OF h1(2) assms]
  let ?P = "snd ` set (agg_map a)"
  let ?h = "h1\<lparr>tlFunctionMap := (tlFunctionMap h1)(t := None), thread_order := removeAll t (thread_order h1),
                 spts := (spts h1) |` (- ?P)\<rparr>"
  have sl: "slot ?h t' fn = (if t' = t then None else slot h t' fn)" for t' fn
    using wf1 by (simp add: slot_def frame_def)
  have away: "q \<notin> ?P" if "slot h t' fn = Some q" "t' \<noteq> t" for t' fn q
    using agg_slots[OF assms Some] handler_wfD(5)[OF assms that(1)] that(2) by fastforce
  have fs: "slot h1 = slot h" using frame_slot wf1 by blast
  have v: "spt_at ?h t' fn = (if t' = t then None else spt_at h1 t' fn)" for t' fn
  proof (cases "slot h t' fn")
    case (Some q)
    with sl away[OF Some] fs show ?thesis by (auto simp: spt_at_def)
  qed (use sl fs in \<open>auto simp: spt_at_def\<close>)
  have "handler_wf ?h"
    unfolding handler_wf_def sl using handler_wfD[OF assms] handler_wfD[OF conjunct1[OF wf1]] wf1 away frame_slot[of h h1]
    by (auto simp: frame_def restrict_map_def distinct_removeAll)
  moreover have "thread_exit D now t h = Inr ?h" using h1(1) Some by (simp add: thread_exit_def)
  ultimately show ?thesis using h1 sl v wf1 by (intro exI[of _ h1] exI[of _ ?h]) (simp add: frame_def)
qed

section \<open>Contexts\<close>

definition ctx_ok :: "req_ctx \<Rightarrow> bool" where
  "ctx_ok c \<longleftrightarrow> (readEndCalled c \<longrightarrow> readBeginCalled c) \<and> (writeBeginCalled c \<longrightarrow> readEndCalled c) \<and>
     (writeEndCalled c \<longrightarrow> writeBeginCalled c)"

definition fs_inv :: "'d fsys \<Rightarrow> bool" where
  "fs_inv s \<longleftrightarrow>
     handler_wf (hnd s) \<and>
     (\<forall>t \<in> ended s. tlFunctionMap (hnd s) t = None) \<and>
     (\<forall>cid c fn. in_flight s cid = Some (c, fn) \<longrightarrow>
        ctx_ok c \<and> (originThreadId c \<notin> ended s \<longrightarrow> slot (hnd s) (originThreadId c) fn = Some (ctx_stats c)))"

lemma fs_invD:
  assumes "fs_inv s"
  shows "handler_wf (hnd s)" "\<And>t. t \<in> ended s \<Longrightarrow> tlFunctionMap (hnd s) t = None"
    "\<And>cid c fn. in_flight s cid = Some (c, fn) \<Longrightarrow> ctx_ok c"
    "\<And>cid c fn. in_flight s cid = Some (c, fn) \<Longrightarrow> originThreadId c \<notin> ended s \<Longrightarrow>
       slot (hnd s) (originThreadId c) fn = Some (ctx_stats c)"
  using assms unfolding fs_inv_def by blast+

lemma logContextData_ok:
  assumes "ctx_ok c"
  shows "\<exists>st' qs. logContextData c st = Inr (st', qs)"
  using assms by (auto simp: logContextData_def log_read_def log_write_def logContextDataProcessed_def ctx_ok_def Let_def)

lemma getContext_ok:
  assumes "handler_wf h" "spts h p = None"
  obtains c q h1 st where "getContext D t p fn h = Inr (c, h1\<lparr>spts := (spts h1)(q \<mapsto> snd (spt_getContext D q t st))\<rparr>)"
    "getStats D t p fn h = (q, h1)" "spt_at h1 t fn = Some st" "ctx_ok c" "originThreadId c = t" "ctx_stats c = q"
proof -
  obtain q h1 where g: "getStats D t p fn h = (q, h1)" by fastforce
  note ok = getStats_ok[OF assms g]
  have sl: "slot h1 t fn = Some q" by (simp add: ok(2))
  with handler_wfD(4)[OF ok(1)] obtain st where st: "spts h1 q = Some st" by blast
  show ?thesis
    using that[of "fst (spt_getContext D q t st)" h1 q st] st g sl
    by (auto simp: getContext_def spt_at_def split_def spt_getContext_def new_ctx_def ctx_ok_def Let_def)
qed

text \<open>Where \<open>freeContext\<close> logs: the object of the thread that frees, for the function of the context.\<close>

lemma freeContext_ok:
  assumes inv: "fs_inv s" and c: "in_flight s cid = Some (c, fn)" and t: "t \<notin> ended s" "spts (hnd s) p = None"
  obtains q h1 st st' qs where
    "freeContext D t p c fn (hnd s) = Inr (h1\<lparr>spts := (spts h1)(q \<mapsto> st'), quantile_adds := quantile_adds h1 @ qs\<rparr>)"
    "logContextData c st = Inr (st', qs)" "spt_at h1 t fn = Some st" "slot h1 t fn = Some q"
    "h1 = hnd s \<or> getStats D t p fn (hnd s) = (q, h1)" "handler_wf h1"
proof -
  note wf = fs_invD(1)[OF inv]
  obtain q h1 where g: "(if originThreadId c = t then (ctx_stats c, hnd s) else getStats D t p fn (hnd s)) = (q, h1)"
    by fastforce
  have sl: "slot h1 t fn = Some q" "handler_wf h1"
    using g fs_invD(4)[OF inv c] t getStats_ok(1,2)[OF wf t(2), of D t fn q h1] wf by (auto split: if_splits)
  from handler_wfD(4)[OF sl(2,1)] obtain st where st: "spts h1 q = Some st" by blast
  obtain st' qs where l: "logContextData c st = Inr (st', qs)" using logContextData_ok[OF fs_invD(3)[OF inv c]] by blast
  show ?thesis
  proof (rule that)
    show "freeContext D t p c fn (hnd s) = Inr (h1\<lparr>spts := (spts h1)(q \<mapsto> st'), quantile_adds := quantile_adds h1 @ qs\<rparr>)"
      unfolding freeContext_def g using st l by simp
    show "spt_at h1 t fn = Some st" using sl st by (simp add: spt_at_def)
    show "h1 = hnd s \<or> getStats D t p fn (hnd s) = (q, h1)" using g by (auto split: if_splits)
  qed (fact l sl)+
qed

lemma fs_inv_handler:
  assumes "fs_inv s" "handler_wf h" "\<And>t fn q. slot (hnd s) t fn = Some q \<Longrightarrow> slot h t fn = Some q"
    "\<And>t. t \<in> ended s \<Longrightarrow> tlFunctionMap h t = None"
  shows "fs_inv (s\<lparr>hnd := h\<rparr>)"
  using assms unfolding fs_inv_def by auto

lemma getStats_fs_inv:
  assumes inv: "fs_inv s" and g: "getStats D t p fn (hnd s) = (q, h1)" and t: "t \<notin> ended s" "spts (hnd s) p = None"
  shows "fs_inv (s\<lparr>hnd := h1\<rparr>)"
proof (rule fs_inv_handler[OF inv])
  note ok = getStats_ok[OF fs_invD(1)[OF inv] t(2) g]
  show "handler_wf h1" by (rule ok)
  show "slot h1 t' fn' = Some q'" if "slot (hnd s) t' fn' = Some q'" for t' fn' q' using that ok(2,4) by auto
  show "tlFunctionMap h1 t' = None" if "t' \<in> ended s" for t'
    using ok(5) fs_invD(2)[OF inv that] that t(1) by (metis domIff insert_iff)
qed

lemma put_fs_inv:
  assumes "fs_inv (s\<lparr>hnd := h\<rparr>)" "slot h t fn = Some q"
  shows "fs_inv (s\<lparr>hnd := h\<lparr>spts := (spts h)(q \<mapsto> st)\<rparr>\<rparr>)"
  using put_spt[OF _ assms(2) refl] fs_inv_handler[of "s\<lparr>hnd := h\<rparr>" "h\<lparr>spts := (spts h)(q \<mapsto> st)\<rparr>"]
    fs_invD[OF assms(1)] assms(1) by simp

lemma on_ctx_inv:
  assumes "fs_inv s" "\<And>c. originThreadId (f c) = originThreadId c \<and> ctx_stats (f c) = ctx_stats c"
    "ctx_is P cid s" "\<And>c. ctx_ok c \<Longrightarrow> P c \<Longrightarrow> ctx_ok (f c)"
  shows "fs_inv (on_ctx f cid s)"
  using assms unfolding fs_inv_def on_ctx_def ctx_is_def by (auto split: option.splits)

lemma ctx_hooks:
  "originThreadId (readBegin n c) = originThreadId c \<and> ctx_stats (readBegin n c) = ctx_stats c"
  "originThreadId (readEnd n b c) = originThreadId c \<and> ctx_stats (readEnd n b c) = ctx_stats c"
  "originThreadId (writeBegin n c) = originThreadId c \<and> ctx_stats (writeBegin n c) = ctx_stats c"
  "originThreadId (writeEnd n b c) = originThreadId c \<and> ctx_stats (writeEnd n b c) = ctx_stats c"
  "originThreadId (exceptionThrown c) = originThreadId c \<and> ctx_stats (exceptionThrown c) = ctx_stats c"
  "originThreadId (userExceptionThrown c) = originThreadId c \<and> ctx_stats (userExceptionThrown c) = ctx_stats c"
  "ctx_ok c \<Longrightarrow> ctx_ok (readBegin n c)" "ctx_ok c \<Longrightarrow> readBeginCalled c \<Longrightarrow> ctx_ok (readEnd n b c)"
  "ctx_ok c \<Longrightarrow> readEndCalled c \<Longrightarrow> ctx_ok (writeBegin n c)" "ctx_ok c \<Longrightarrow> writeBeginCalled c \<Longrightarrow> ctx_ok (writeEnd n b c)"
  "ctx_ok c \<Longrightarrow> ctx_ok (exceptionThrown c)" "ctx_ok c \<Longrightarrow> ctx_ok (userExceptionThrown c)"
  by (auto simp: readBegin_def readEnd_def writeBegin_def writeEnd_def exceptionThrown_def userExceptionThrown_def
      Let_def ctx_ok_def)

end
