(* ===== verification/RequestBooks.thy ===== *)
theory RequestBooks
  imports FunctionStats
begin

text \<open>
  What the requests that went through \<open>TFunctionStatHandler\<close> (\<^verbatim>\<open>fb303/TFunctionStatHandler.cpp\<close>) did is what its stat
  maps were told, on every interleaving of requests, consolidations and ends of threads. The interface \<open>tally\<close> says
  what makes a field of \<open>TStatsPerThread\<close> such an account; the counts of calls, reads, writes, processed requests,
  exceptions and samples and the bytes read and written interpret it.
\<close>

section \<open>No request touches freed memory\<close>

lemma drains_fs_inv:
  assumes "fs_inv s" "drains D (hnd s) h1"
  shows "fs_inv (s\<lparr>hnd := h1\<rparr>)"
  using drains_wf[OF assms(2) fs_invD(1)[OF assms(1)]] frame_slot[of "hnd s" h1] fs_invD(2)[OF assms(1)]
  by (intro fs_inv_handler[OF assms(1)]) (auto simp: frame_def)

lemma add_ctx_inv:
  assumes "fs_inv s" "ctx_ok c" "slot (hnd s) (originThreadId c) fn = Some (ctx_stats c)"
  shows "fs_inv (s\<lparr>in_flight := (in_flight s)(cid \<mapsto> (c, fn))\<rparr>)"
  using assms unfolding fs_inv_def by auto

lemma drop_ctx_inv: "fs_inv s \<Longrightarrow> fs_inv (s\<lparr>in_flight := (in_flight s)(cid := None), freed := xs\<rparr>)"
  unfolding fs_inv_def by (auto split: if_splits)

lemma fs_exec_inv:
  assumes inv: "fs_inv s" and en: "fs_enabled a s"
  shows "\<exists>s'. fs_exec D a s = Inr s' \<and> fs_inv s'"
proof (cases a)
  case (GetContext t p cid fn)
  with en have t: "t \<notin> ended s" "spts (hnd s) p = None" by auto
  obtain c q h1 st where g: "getContext D t p fn (hnd s) = Inr (c, h1\<lparr>spts := (spts h1)(q \<mapsto> snd (spt_getContext D q t st))\<rparr>)"
    "getStats D t p fn (hnd s) = (q, h1)" "spt_at h1 t fn = Some st" "ctx_ok c" "originThreadId c = t" "ctx_stats c = q"
    by (rule getContext_ok[OF fs_invD(1)[OF inv] t(2)]) (rule that)
  have sl: "slot h1 t fn = Some q" by (simp add: getStats_ok(2)[OF fs_invD(1)[OF inv] t(2) g(2)])
  let ?h = "h1\<lparr>spts := (spts h1)(q \<mapsto> snd (spt_getContext D q t st))\<rparr>"
  have "fs_inv (s\<lparr>hnd := ?h\<rparr>)" by (rule put_fs_inv[OF getStats_fs_inv[OF inv g(2) t] sl])
  from add_ctx_inv[OF this g(4), of fn cid] have "fs_inv (s\<lparr>hnd := ?h, in_flight := (in_flight s)(cid \<mapsto> (c, fn))\<rparr>)"
    using sl g(5,6) by simp
  with GetContext g(1) show ?thesis by simp
next
  case (FreeContext t p cid)
  with en obtain c fn where t: "t \<notin> ended s" "spts (hnd s) p = None" and c: "in_flight s cid = Some (c, fn)"
    by (auto simp: ctx_is_def split: option.splits)
  obtain q h1 st st' qs where f:
    "freeContext D t p c fn (hnd s) = Inr (h1\<lparr>spts := (spts h1)(q \<mapsto> st'), quantile_adds := quantile_adds h1 @ qs\<rparr>)"
    "slot h1 t fn = Some q" "h1 = hnd s \<or> getStats D t p fn (hnd s) = (q, h1)"
    by (rule freeContext_ok[OF inv c t, where D = D]) (rule that)
  let ?h = "h1\<lparr>spts := (spts h1)(q \<mapsto> st')\<rparr>"
  have "fs_inv (s\<lparr>hnd := h1\<rparr>)" using f(3) inv getStats_fs_inv[OF inv _ t] by auto
  from put_fs_inv[OF this f(2)] have i: "fs_inv (s\<lparr>hnd := ?h\<rparr>)" .
  have "fs_inv (s\<lparr>hnd := ?h\<lparr>quantile_adds := quantile_adds h1 @ qs\<rparr>\<rparr>)"
    using i fs_inv_handler[OF i, of "?h\<lparr>quantile_adds := quantile_adds h1 @ qs\<rparr>"] fs_invD[OF i] by simp
  from drop_ctx_inv[OF this] show ?thesis using FreeContext f(1) c by simp
next
  case (ConsolidateStats t fn now)
  with en obtain p where p: "slot (hnd s) t fn = Some p" by auto
  obtain n h' where "consolidate_at D now fn p (hnd s) = Inr (n, h')"
    by (rule consolidate_at_ok[OF fs_invD(1)[OF inv] p, where D = D and now = now]) (rule that)
  with ConsolidateStats p drains_fs_inv[OF inv drains_step[OF drains_refl p]] show ?thesis by auto
next
  case (Consolidate now)
  obtain h1 k where c: "consolidate D now (hnd s) = Inr (h1\<lparr>nThreads := k\<rparr>)" "drains D (hnd s) h1"
    using consolidate_ok[OF fs_invD(1)[OF inv], of D now] by blast
  note i = drains_fs_inv[OF inv c(2)]
  have "fs_inv (s\<lparr>hnd := h1\<lparr>nThreads := k\<rparr>\<rparr>)"
    using fs_inv_handler[OF i, of "h1\<lparr>nThreads := k\<rparr>"] fs_invD[OF i] by simp
  with Consolidate c show ?thesis by simp
next
  case (ThreadExit t now)
  obtain h1 h' where x: "thread_exit D now t (hnd s) = Inr h'" "handler_wf h'"
    "tlFunctionMap h' = (tlFunctionMap (hnd s))(t := None)" "\<forall>t' fn. slot h' t' fn = (if t' = t then None else slot (hnd s) t' fn)"
    using thread_exit_ok[OF fs_invD(1)[OF inv], of D now t] by blast
  have "fs_inv (s\<lparr>hnd := h', ended := insert t (ended s)\<rparr>)"
    using inv x unfolding fs_inv_def by auto
  with ThreadExit x(1) show ?thesis by simp
qed (use en in \<open>auto intro!: on_ctx_inv[OF inv] simp: ctx_hooks\<close>)

lemma fs_inv0: "fs_inv (fsys0 pre d)"
  by (simp add: fs_inv_def fsys0_def handler0_def handler_wf_def slot_def)

lemma fs_reach_inv: "fs_reach D pre d s \<Longrightarrow> fs_inv s"
  by (induction rule: fs_reach.induct) (auto simp: fs_inv0 dest: fs_exec_inv[where D = D])

lemma drains_prefix: "drains D h h' \<Longrightarrow> handler_wf h \<Longrightarrow> counterNamePrefix h' = counterNamePrefix h"
  using drains_wf by (auto simp: frame_def)

section \<open>Accounts\<close>

definition told :: "(int64 \<Rightarrow> 'm::comm_monoid_add) \<Rightarrow> name \<Rightarrow> stat_call list \<Rightarrow> 'm" where
  "told proj nm cs = sum_list (map (\<lambda>c. case c of SumAdd n v \<Rightarrow> if n = nm then proj v else 0 | _ \<Rightarrow> 0) cs)"

definition amount :: "('d spt \<Rightarrow> 'm::comm_monoid_add) \<Rightarrow> 'd spt option \<Rightarrow> 'm" where
  "amount sel v = (case v of None \<Rightarrow> 0 | Some st \<Rightarrow> sel st)"

definition pending :: "('d spt \<Rightarrow> 'm::comm_monoid_add) \<Rightarrow> 'd handler \<Rightarrow> name \<Rightarrow> 'm" where
  "pending sel h fn = (\<Sum>t \<in> dom (tlFunctionMap h). amount sel (spt_at h t fn))"

definition owed :: "(req_ctx \<Rightarrow> 'm::comm_monoid_add) \<Rightarrow> name \<Rightarrow> (name \<times> req_ctx) list \<Rightarrow> 'm" where
  "owed contrib fn xs = sum_list (map (\<lambda>(n, c). if n = fn then contrib c else 0) xs)"

definition told_map :: "(int64 \<Rightarrow> 'm::comm_monoid_add) \<Rightarrow> 'd handler \<Rightarrow> name \<Rightarrow> 'm" where
  "told_map proj h nm = told proj nm (map snd (stat_calls h))"

lemma told_append [simp]: "told proj nm (xs @ ys) = told proj nm xs + told proj nm ys"
  by (simp add: told_def)

lemma amount_simps [simp]: "amount sel None = 0" "amount sel (Some st) = sel st"
  by (simp_all add: amount_def)

lemma val_dom: "tlFunctionMap h t = None \<Longrightarrow> spt_at h t fn = None"
  by (simp add: spt_at_def slot_def)

lemma finite_threads: "handler_wf h \<Longrightarrow> finite (dom (tlFunctionMap h))"
  using handler_wfD(2) by (metis List.finite_set)

lemma pending_over:
  "finite T \<Longrightarrow> dom (tlFunctionMap h) \<subseteq> T \<Longrightarrow> pending sel h fn = (\<Sum>t \<in> T. amount sel (spt_at h t fn))"
  unfolding pending_def by (rule sum.mono_neutral_left) (auto simp: val_dom domIff)

lemma pending_put:
  fixes sel :: "'d spt \<Rightarrow> 'm::ab_group_add"
  assumes wf: "handler_wf h" and dom: "dom (tlFunctionMap h') = insert t (dom (tlFunctionMap h))"
    and v: "\<And>t' fn'. spt_at h' t' fn' = (if t' = t \<and> fn' = fn then Some st' else spt_at h t' fn')"
  shows "pending sel h' fn' = pending sel h fn' + (if fn' = fn then sel st' - amount sel (spt_at h t fn) else 0)"
proof -
  let ?T = "insert t (dom (tlFunctionMap h))" and ?d = "if fn' = fn then sel st' - amount sel (spt_at h t fn) else 0"
  have fin: "finite ?T" using finite_threads[OF wf] by simp
  have "pending sel h' fn' = (\<Sum>x \<in> ?T. amount sel (spt_at h' x fn'))" unfolding pending_def dom ..
  also have "\<dots> = (\<Sum>x \<in> ?T. amount sel (spt_at h x fn') + (if x = t then ?d else 0))" by (rule sum.cong) (auto simp: v)
  also have "\<dots> = (\<Sum>x \<in> ?T. amount sel (spt_at h x fn')) + ?d" using fin by (simp add: sum.distrib sum.delta)
  also have "(\<Sum>x \<in> ?T. amount sel (spt_at h x fn')) = pending sel h fn'" using fin by (intro pending_over[symmetric]) auto
  finally show ?thesis .
qed

locale tally =
  fixes D :: "'d dbl_ops" and sel :: "'d spt \<Rightarrow> 'm::ab_group_add" and suffix :: string
    and proj :: "int64 \<Rightarrow> 'm" and contrib :: "req_ctx \<Rightarrow> 'm"
  assumes sel_new: "sel (setQuantileStats q (new_spt D)) = 0"
    and sel_context: "sel (snd (spt_getContext D p t st)) = sel st"
    and sel_log: "logContextData c st = Inr (st', qs) \<Longrightarrow> sel st' = sel st + contrib c"
    and sel_clear: "sel (spt_clear st) = 0"
    and sel_told: "told proj (pre @ fn' @ suffix) (addAllValues D (pre @ fn) st) = (if fn' = fn then sel st else 0)"
begin

lemma getStats_pending:
  assumes wf: "handler_wf h" "spts h p = None" and g: "getStats D t p fn h = (q, h')"
  shows "pending sel h' fn' = pending sel h fn'"
proof -
  note ok = getStats_ok[OF wf g]
  let ?T = "dom (tlFunctionMap h')"
  have "pending sel h' fn' = (\<Sum>x \<in> ?T. amount sel (spt_at h x fn'))" unfolding pending_def
    by (rule sum.cong) (auto simp: ok(3) sel_new)
  also have "\<dots> = pending sel h fn'" using finite_threads[OF ok(1)] ok(5) by (intro pending_over[symmetric]) auto
  finally show ?thesis .
qed

lemma drains_book:
  "drains D h h' \<Longrightarrow> handler_wf h \<Longrightarrow>
   told_map proj h' (counterNamePrefix h @ fn @ suffix) + pending sel h' fn =
   told_map proj h (counterNamePrefix h @ fn @ suffix) + pending sel h fn"
proof (induction rule: drains.induct)
  case (drains_step h1 t fn1 p now n h2)
  have wf: "handler_wf h1" "counterNamePrefix h1 = counterNamePrefix h"
    using drains_wf[OF drains_step.hyps(1) drains_step.prems] by (auto simp: frame_def)
  obtain st r h2' where c: "spt_at h1 t fn1 = Some st" "consolidate_at D now fn1 p h1 = Inr (n, h2)" "frame h1 h2"
    "\<And>t' fn'. spt_at h2 t' fn' = (if t' = t \<and> fn' = fn1 then Some (spt_clear (setSampleRate D r st)) else spt_at h1 t' fn')"
    "stat_calls h2 = stat_calls h1 @ map (Pair now) (addAllValues D (counterNamePrefix h1 @ fn1) st)"
    by (rule consolidate_at_ok[OF wf(1) drains_step.hyps(2), where D = D and now = now])
       (use drains_step.hyps(3) that in auto)
  have "t \<in> dom (tlFunctionMap h1)" using c(1) val_dom by (metis domIff option.distinct(1))
  then have "dom (tlFunctionMap h2) = insert t (dom (tlFunctionMap h1))" using c(3) by (auto simp: frame_def)
  from pending_put[OF wf(1) this c(4), where sel = sel and fn' = fn] have
    "pending sel h2 fn = pending sel h1 fn - (if fn = fn1 then sel st else 0)" by (simp add: sel_clear c(1))
  moreover have "told_map proj h2 (counterNamePrefix h @ fn @ suffix) =
      told_map proj h1 (counterNamePrefix h @ fn @ suffix) + (if fn = fn1 then sel st else 0)"
    using sel_told[of "counterNamePrefix h" fn fn1 st] c(5) wf(2) by (simp add: told_map_def o_def)
  ultimately show ?case using drains_step by simp
qed simp

lemma freeContext_book:
  assumes inv: "fs_inv s" and c: "in_flight s cid = Some (c, fn)" and t: "t \<notin> ended s" "spts (hnd s) p = None"
    and f: "freeContext D t p c fn (hnd s) = Inr h'"
  shows "stat_calls h' = stat_calls (hnd s)" "counterNamePrefix h' = counterNamePrefix (hnd s)"
    "pending sel h' fn' = pending sel (hnd s) fn' + (if fn' = fn then contrib c else 0)"
proof -
  obtain q h1 st st' qs where g:
    "h' = h1\<lparr>spts := (spts h1)(q \<mapsto> st'), quantile_adds := quantile_adds h1 @ qs\<rparr>"
    "logContextData c st = Inr (st', qs)" "spt_at h1 t fn = Some st" "slot h1 t fn = Some q"
    "h1 = hnd s \<or> getStats D t p fn (hnd s) = (q, h1)" "handler_wf h1"
    by (rule freeContext_ok[OF inv c t, where D = D]) (use f that in auto)
  note ok = getStats_ok[OF fs_invD(1)[OF inv] t(2)]
  have h1: "stat_calls h1 = stat_calls (hnd s) \<and> counterNamePrefix h1 = counterNamePrefix (hnd s)"
    using g(5) ok(6) by blast
  then show "stat_calls h' = stat_calls (hnd s)" "counterNamePrefix h' = counterNamePrefix (hnd s)" by (simp_all add: g(1))
  have "pending sel h1 fn' = pending sel (hnd s) fn'" using g(5) getStats_pending[OF fs_invD(1)[OF inv] t(2)] by blast
  moreover have "pending sel h' fn' = pending sel h1 fn' + (if fn' = fn then sel st' - amount sel (spt_at h1 t fn) else 0)"
  proof (rule pending_put[OF g(6)])
    have "t \<in> dom (tlFunctionMap h1)" using g(3) val_dom by (metis domIff option.distinct(1))
    then show "dom (tlFunctionMap h') = insert t (dom (tlFunctionMap h1))" by (auto simp: g(1))
    show "spt_at h' t' fn'' = (if t' = t \<and> fn'' = fn then Some st' else spt_at h1 t' fn'')" for t' fn''
      unfolding g(1) val_updates by (rule put_spt(3)[OF g(6,4) refl])
  qed
  ultimately show "pending sel h' fn' = pending sel (hnd s) fn' + (if fn' = fn then contrib c else 0)"
    using sel_log[OF g(2)] g(3) by simp
qed

lemma getContext_book:
  assumes wf: "handler_wf h" "spts h p = None" and g: "getContext D t p fn h = Inr (c, h')"
  shows "stat_calls h' = stat_calls h" "counterNamePrefix h' = counterNamePrefix h" "pending sel h' fn' = pending sel h fn'"
proof -
  obtain q h1 st where k: "h' = h1\<lparr>spts := (spts h1)(q \<mapsto> snd (spt_getContext D q t st))\<rparr>"
    "getStats D t p fn h = (q, h1)" "spt_at h1 t fn = Some st"
    by (rule getContext_ok[OF wf, where D = D and t = t and fn = fn]) (use g that in auto)
  note ok = getStats_ok[OF wf k(2)]
  show "stat_calls h' = stat_calls h" "counterNamePrefix h' = counterNamePrefix h" using ok(6) by (simp_all add: k(1))
  have sl: "slot h1 t fn = Some q" by (simp add: ok(2))
  have "pending sel h' fn' = pending sel h1 fn' +
      (if fn' = fn then sel (snd (spt_getContext D q t st)) - amount sel (spt_at h1 t fn) else 0)"
    by (rule pending_put[OF ok(1)]) (auto simp: k(1) ok(5) put_spt(3)[OF ok(1) sl refl])
  then show "pending sel h' fn' = pending sel h fn'"
    using getStats_pending[OF wf k(2)] by (simp add: sel_context k(3))
qed

lemma exit_book:
  assumes wf: "handler_wf h" and x: "thread_exit D now t h = Inr h'"
  shows "counterNamePrefix h' = counterNamePrefix h"
    "told_map proj h' (counterNamePrefix h @ fn @ suffix) + pending sel h' fn =
     told_map proj h (counterNamePrefix h @ fn @ suffix) + pending sel h fn"
proof -
  obtain h1 where k: "drains D h h1" "\<forall>fn. idle h1 t fn" "tlFunctionMap h' = (tlFunctionMap h)(t := None)"
    "stat_calls h' = stat_calls h1" "counterNamePrefix h' = counterNamePrefix h"
    "\<forall>t' fn. spt_at h' t' fn = (if t' = t then None else spt_at h1 t' fn)"
    using thread_exit_ok[OF wf, of D now t] x by auto
  have w1: "handler_wf h1" "tlFunctionMap h1 = tlFunctionMap h" using drains_wf[OF k(1) wf] by (auto simp: frame_def)
  have z: "amount sel (spt_at h1 t fn) = 0" using k(2) sel_clear by (cases "spt_at h1 t fn") (auto simp: idle_def, metis)
  have "pending sel h' fn = (\<Sum>x \<in> dom (tlFunctionMap h1). amount sel (spt_at h' x fn))"
    using finite_threads[OF w1(1)] k(3) w1(2) by (intro pending_over) auto
  also have "\<dots> = pending sel h1 fn" unfolding pending_def by (rule sum.cong) (auto simp: k(6) z)
  finally show "told_map proj h' (counterNamePrefix h @ fn @ suffix) + pending sel h' fn =
     told_map proj h (counterNamePrefix h @ fn @ suffix) + pending sel h fn"
    using drains_book[OF k(1) wf] by (simp add: told_map_def k(4))
  show "counterNamePrefix h' = counterNamePrefix h" by (rule k)
qed

lemma step_book:
  assumes inv: "fs_inv s" and en: "fs_enabled a s" and x: "fs_exec D a s = Inr s'"
    and pre: "counterNamePrefix (hnd s) = pre"
    and book: "told_map proj (hnd s) (pre @ fn @ suffix) + pending sel (hnd s) fn = owed contrib fn (freed s)"
  shows "counterNamePrefix (hnd s') = pre \<and>
    told_map proj (hnd s') (pre @ fn @ suffix) + pending sel (hnd s') fn = owed contrib fn (freed s')"
proof (cases a)
  case (GetContext t p cid fn1)
  with x obtain c h where g: "getContext D t p fn1 (hnd s) = Inr (c, h)"
    "s' = s\<lparr>hnd := h, in_flight := (in_flight s)(cid \<mapsto> (c, fn1))\<rparr>" by (cases "getContext D t p fn1 (hnd s)") auto
  from GetContext en have "spts (hnd s) p = None" by simp
  from getContext_book[OF fs_invD(1)[OF inv] this g(1)] g(2) pre book show ?thesis by (simp add: told_map_def)
next
  case (FreeContext t p cid)
  with en obtain c fn1 where c: "in_flight s cid = Some (c, fn1)" by (auto simp: ctx_is_def split: option.splits)
  with FreeContext x obtain h where g: "freeContext D t p c fn1 (hnd s) = Inr h"
    "s' = s\<lparr>hnd := h, in_flight := (in_flight s)(cid := None), freed := (fn1, c) # freed s\<rparr>"
    by (cases "freeContext D t p c fn1 (hnd s)") auto
  from FreeContext en have "t \<notin> ended s" "spts (hnd s) p = None" by simp_all
  from freeContext_book[OF inv c this g(1)] g(2) pre book show ?thesis
    by (auto simp: told_map_def owed_def algebra_simps)
next
  case (ConsolidateStats t fn1 now)
  with en x obtain p n h where p: "slot (hnd s) t fn1 = Some p" "consolidate_at D now fn1 p (hnd s) = Inr (n, h)" "s' = s\<lparr>hnd := h\<rparr>"
    by (cases "consolidate_at D now fn1 (the (slot (hnd s) t fn1)) (hnd s)") auto
  note d = drains_step[OF drains_refl p(1,2)]
  from drains_book[OF d fs_invD(1)[OF inv]] drains_prefix[OF d fs_invD(1)[OF inv]] p(3) pre book show ?thesis by simp
next
  case (Consolidate now)
  obtain h1 k where c: "consolidate D now (hnd s) = Inr (h1\<lparr>nThreads := k\<rparr>)" and d: "drains D (hnd s) h1"
    using consolidate_ok[OF fs_invD(1)[OF inv], of D now] by blast
  have "pending sel (h1\<lparr>nThreads := k\<rparr>) fn = pending sel h1 fn" by (simp add: pending_def)
  with drains_book[OF d fs_invD(1)[OF inv]] drains_prefix[OF d fs_invD(1)[OF inv]] Consolidate x c pre book show ?thesis
    by (auto simp: told_map_def)
next
  case (ThreadExit t now)
  with x obtain h where g: "thread_exit D now t (hnd s) = Inr h" "s' = s\<lparr>hnd := h, ended := insert t (ended s)\<rparr>"
    by (cases "thread_exit D now t (hnd s)") auto
  from exit_book[OF fs_invD(1)[OF inv] g(1)] g(2) pre book show ?thesis by simp
qed (use x pre book in \<open>auto simp: on_ctx_def split: option.splits\<close>)

lemma run_book:
  "fs_reach D pre d s \<Longrightarrow>
   counterNamePrefix (hnd s) = pre \<and>
   told_map proj (hnd s) (pre @ fn @ suffix) + pending sel (hnd s) fn = owed contrib fn (freed s)"
proof (induction rule: fs_reach.induct)
  case fs_start
  show ?case by (simp add: fsys0_def handler0_def told_map_def told_def pending_def owed_def)
next
  case (fs_next s a s')
  with step_book[OF fs_reach_inv] show ?case by blast
qed

lemma consolidated_book:
  assumes r: "fs_reach D pre d s" and c: "consolidate D now (hnd s) = Inr h"
  shows "told_map proj h (pre @ fn @ suffix) = owed contrib fn (freed s)"
proof -
  note inv = fs_reach_inv[OF r]
  obtain h1 k where h: "h = h1\<lparr>nThreads := k\<rparr>" and d: "drains D (hnd s) h1" and i: "\<forall>t fn. idle h1 t fn"
    using consolidate_ok[OF fs_invD(1)[OF inv], of D now] c by auto
  have "amount sel (spt_at h1 t fn) = 0" for t using i sel_clear by (cases "spt_at h1 t fn") (auto simp: idle_def, metis)
  then have "pending sel h1 fn = 0" by (simp add: pending_def)
  with drains_book[OF d fs_invD(1)[OF inv], of fn] run_book[OF r, of fn] show ?thesis by (simp add: h told_map_def)
qed

end

section \<open>The nine accounts\<close>

definition sum_suffixes :: "string list" where
  "sum_suffixes = [''.num_calls'', ''.num_reads'', ''.num_writes'', ''.num_processed'', ''.num_all_exceptions'',
     ''.num_exceptions'', ''.num_samples'', ''.bytes_read'', ''.bytes_written'']"

definition sum_values :: "'d spt \<Rightarrow> int64 list" where
  "sum_values st = [ucast (calls st), ucast (acc_count (readData st)), ucast (acc_count (writeData st)),
     ucast (processed st), ucast (userExceptions st), ucast (exceptions st), ucast (samples st),
     acc_sum (readData st), acc_sum (writeData st)]"

lemma suffixes_apart:
  "list_all (\<lambda>s. list_all (\<lambda>t. s = t \<or> take (min (length s) (length t)) (rev s) \<noteq> take (min (length s) (length t)) (rev t))
     sum_suffixes) sum_suffixes"
  by code_simp

lemma stat_name_eq:
  assumes "s \<in> set sum_suffixes" "t \<in> set sum_suffixes"
  shows "(pre @ fn) @ s = pre @ fn' @ t \<longleftrightarrow> fn = fn' \<and> s = t"
proof
  assume eq: "(pre @ fn) @ s = pre @ fn' @ t"
  let ?n = "min (length s) (length t)"
  from eq have "take ?n (rev (fn @ s)) = take ?n (rev (fn' @ t))" by simp
  then have "take ?n (rev s) = take ?n (rev t)" by simp
  with suffixes_apart assms have "s = t" by (auto simp: list_all_iff)
  with eq show "fn = fn' \<and> s = t" by simp
qed simp

lemma told_stats:
  "distinct (map fst xs) \<Longrightarrow> fst ` set xs \<subseteq> set sum_suffixes \<Longrightarrow> sf \<in> set sum_suffixes \<Longrightarrow>
   told proj (pre @ fn' @ sf) (map (\<lambda>(s, v). SumAdd ((pre @ fn) @ s) v) xs) =
   (if fn' = fn then (case map_of xs sf of None \<Rightarrow> 0 | Some v \<Rightarrow> proj v) else 0)"
proof (induction xs)
  case (Cons x xs)
  obtain s v where x: "x = (s, v)" by (cases x)
  have "told proj nm (SumAdd n v # cs) = (if n = nm then proj v else 0) + told proj nm cs" for nm n cs by (simp add: told_def)
  with Cons x stat_name_eq[of s sf pre fn fn'] show ?case
    by (auto simp: map_of_eq_None_iff[THEN iffD2] image_iff split: option.split)
qed (simp add: told_def)

lemma told_account:
  assumes "sf \<in> set sum_suffixes"
  shows "told proj (pre @ fn' @ sf) (addAllValues D (pre @ fn) st) =
    (if fn' = fn then (case map_of (zip sum_suffixes (sum_values st)) sf of None \<Rightarrow> 0 | Some v \<Rightarrow> proj v) else 0)"
proof -
  let ?xs = "zip sum_suffixes (sum_values st)"
  have d: "distinct (map fst ?xs)" "fst ` set ?xs \<subseteq> set sum_suffixes"
    by (simp_all add: sum_suffixes_def sum_values_def)
  obtain rest where "addAllValues D (pre @ fn) st = map (\<lambda>(s, v). SumAdd ((pre @ fn) @ s) v) ?xs @ rest"
    and "\<And>nm. told proj nm rest = 0"
  proof
    show "told proj nm (drop 9 (addAllValues D (pre @ fn) st)) = 0" for nm by (simp add: addAllValues_def told_def)
    show "addAllValues D (pre @ fn) st = map (\<lambda>(s, v). SumAdd ((pre @ fn) @ s) v) ?xs @ drop 9 (addAllValues D (pre @ fn) st)"
      by (simp add: addAllValues_def sum_suffixes_def sum_values_def)
  qed
  with told_stats[OF d assms, of proj pre fn' fn] show ?thesis by simp
qed

lemmas account_defs =
  setQuantileStats_def new_spt_def acc0_def spt_getContext_def Let_def spt_clear_def acc_clear_def
  logContextData_def log_counts_def log_read_def log_write_def logContextDataProcessed_def acc_addValue_def

lemma down_up: "ucast (ucast (x :: 32 word) :: 64 word) = x"
  by (rule bit_word_eqI) (simp add: bit_unsigned_iff)

lemma account_suffix:
  "''.num_calls'' \<in> set sum_suffixes" "''.num_reads'' \<in> set sum_suffixes" "''.num_writes'' \<in> set sum_suffixes"
  "''.num_processed'' \<in> set sum_suffixes" "''.num_all_exceptions'' \<in> set sum_suffixes" "''.num_exceptions'' \<in> set sum_suffixes"
  "''.num_samples'' \<in> set sum_suffixes" "''.bytes_read'' \<in> set sum_suffixes" "''.bytes_written'' \<in> set sum_suffixes"
  by (simp_all add: sum_suffixes_def)

lemma account_value:
  "map_of (zip sum_suffixes (sum_values st)) ''.num_calls'' = Some (ucast (calls st))"
  "map_of (zip sum_suffixes (sum_values st)) ''.num_reads'' = Some (ucast (acc_count (readData st)))"
  "map_of (zip sum_suffixes (sum_values st)) ''.num_writes'' = Some (ucast (acc_count (writeData st)))"
  "map_of (zip sum_suffixes (sum_values st)) ''.num_processed'' = Some (ucast (processed st))"
  "map_of (zip sum_suffixes (sum_values st)) ''.num_all_exceptions'' = Some (ucast (userExceptions st))"
  "map_of (zip sum_suffixes (sum_values st)) ''.num_exceptions'' = Some (ucast (exceptions st))"
  "map_of (zip sum_suffixes (sum_values st)) ''.num_samples'' = Some (ucast (samples st))"
  "map_of (zip sum_suffixes (sum_values st)) ''.bytes_read'' = Some (acc_sum (readData st))"
  "map_of (zip sum_suffixes (sum_values st)) ''.bytes_written'' = Some (acc_sum (writeData st))"
  by (simp_all add: sum_suffixes_def sum_values_def)

interpretation calls_of: tally D calls "''.num_calls''" ucast "\<lambda>c. 1" for D
  by unfold_locales
    (auto simp: told_account[OF account_suffix(1)] account_value down_up account_defs split: if_splits sum.splits)

interpretation reads_of: tally D "\<lambda>st. acc_count (readData st)" "''.num_reads''" ucast
  "\<lambda>c. of_bool (readEndCalled c)" for D
  by unfold_locales
    (auto simp: told_account[OF account_suffix(2)] account_value down_up account_defs split: if_splits sum.splits)

interpretation writes_of: tally D "\<lambda>st. acc_count (writeData st)" "''.num_writes''" ucast
  "\<lambda>c. of_bool (writeEndCalled c)" for D
  by unfold_locales
    (auto simp: told_account[OF account_suffix(3)] account_value down_up account_defs split: if_splits sum.splits)

interpretation processed_of: tally D processed "''.num_processed''" ucast
  "\<lambda>c. of_bool (writeBeginCalled c)" for D
  by unfold_locales
    (auto simp: told_account[OF account_suffix(4)] account_value down_up account_defs split: if_splits sum.splits)

interpretation user_exceptions_of: tally D userExceptions "''.num_all_exceptions''" ucast
  "\<lambda>c. of_bool (userException c)" for D
  by unfold_locales
    (auto simp: told_account[OF account_suffix(5)] account_value down_up account_defs split: if_splits sum.splits)

interpretation exceptions_of: tally D exceptions "''.num_exceptions''" ucast
  "\<lambda>c. of_bool (exception c)" for D
  by unfold_locales
    (auto simp: told_account[OF account_suffix(6)] account_value down_up account_defs split: if_splits sum.splits)

interpretation samples_of: tally D samples "''.num_samples''" ucast
  "\<lambda>c. of_bool (measureTime c)" for D
  by unfold_locales
    (auto simp: told_account[OF account_suffix(7)] account_value down_up account_defs split: if_splits sum.splits)

interpretation bytes_read_of: tally D "\<lambda>st. acc_sum (readData st)" "''.bytes_read''" "\<lambda>v. v"
  "\<lambda>c. if readEndCalled c then ucast (rBytes c) else 0" for D
  by unfold_locales
    (auto simp: told_account[OF account_suffix(8)] account_value down_up account_defs split: if_splits sum.splits)

interpretation bytes_written_of: tally D "\<lambda>st. acc_sum (writeData st)" "''.bytes_written''" "\<lambda>v. v"
  "\<lambda>c. if writeEndCalled c then ucast (wBytes c) else 0" for D
  by unfold_locales
    (auto simp: told_account[OF account_suffix(9)] account_value down_up account_defs split: if_splits sum.splits)

section \<open>Properties\<close>

text \<open>A run on two threads: a request is created on one and freed on the other, whose thread ends.\<close>

definition rat_ops :: "rat dbl_ops" where
  "rat_ops = \<lparr>d_zero = 0, d_one = 1, d_eps = 1 / 1000000000, d_less = (<), d_le = (\<le>), d_plus = (+), d_minus = (-),
     d_divide = (/), d_of_int = of_int, d_to_int64 = (\<lambda>x. word_of_int (floor x))\<rparr>"

definition demo_requests :: "fs_act list" where
  "demo_requests =
     [GetContext 1 10 0 ''f'', PreRead 0 1000, PostRead 0 5000 7, GetContext 1 11 1 ''f'', PreWrite 0 9000,
      PostWrite 0 9500 3, FreeContext 2 12 0, HandlerError 1, FreeContext 1 13 1, ThreadExit 1 60]"

definition demo_served :: "rat fsys" where
  "demo_served = (case fs_run rat_ops demo_requests (fsys0 ''thrift.'' 500) of Inl e \<Rightarrow> fsys0 ''thrift.'' 500 | Inr s \<Rightarrow> s)"

lemma demo_served_run: "fs_run rat_ops demo_requests (fsys0 ''thrift.'' 500) = Inr demo_served"
proof -
  have "\<not> isl (fs_run rat_ops demo_requests (fsys0 ''thrift.'' 500))" by code_simp
  then show ?thesis unfolding demo_served_def by (cases "fs_run rat_ops demo_requests (fsys0 ''thrift.'' 500)") auto
qed

lemma demo_served_reach: "fs_reach rat_ops ''thrift.'' 500 demo_served"
  by (rule fs_run_reach[OF fs_start demo_served_run])

text \<open>
  C17: No request, on whatever thread it ends, touches an object that went away with its thread, and no check of the
  handler fails, as long as the hooks of a request come in order.
\<close>
theorem request_handler_safe:
  assumes "fs_reach D pre d s" "fs_enabled a s"
  shows "\<exists>s'. fs_exec D a s = Inr s'"
  using fs_exec_inv[OF fs_reach_inv[OF assms(1)] assms(2)] by blast

theorem request_handler_safe_witness:
  "\<exists>s'. fs_exec rat_ops (ThreadExit 2 61) demo_served = Inr s'"
proof (rule request_handler_safe[OF demo_served_reach])
  show "fs_enabled (ThreadExit 2 61) demo_served" by code_simp
qed

text \<open>
  C18: Once the stats are consolidated, the stat maps have been told, for every function, of exactly the requests
  that ended: their number, the reads and writes, those that were processed, the exceptions of both kinds, the
  samples and the bytes, modulo the width of the fields.
\<close>
theorem requests_reported_exactly:
  assumes "fs_reach D pre d s"
  shows "\<exists>h. consolidate D now (hnd s) = Inr h \<and>
    told_map ucast h (pre @ fn @ ''.num_calls'') = (owed (\<lambda>c. 1) fn (freed s) :: 32 word) \<and>
    told_map ucast h (pre @ fn @ ''.num_reads'') = (owed (\<lambda>c. of_bool (readEndCalled c)) fn (freed s) :: 32 word) \<and>
    told_map ucast h (pre @ fn @ ''.num_writes'') = (owed (\<lambda>c. of_bool (writeEndCalled c)) fn (freed s) :: 32 word) \<and>
    told_map ucast h (pre @ fn @ ''.num_processed'') = (owed (\<lambda>c. of_bool (writeBeginCalled c)) fn (freed s) :: 32 word) \<and>
    told_map ucast h (pre @ fn @ ''.num_all_exceptions'') = (owed (\<lambda>c. of_bool (userException c)) fn (freed s) :: 32 word) \<and>
    told_map ucast h (pre @ fn @ ''.num_exceptions'') = (owed (\<lambda>c. of_bool (exception c)) fn (freed s) :: 32 word) \<and>
    told_map ucast h (pre @ fn @ ''.num_samples'') = (owed (\<lambda>c. of_bool (measureTime c)) fn (freed s) :: 32 word) \<and>
    told_map (\<lambda>v. v) h (pre @ fn @ ''.bytes_read'') = owed (\<lambda>c. if readEndCalled c then ucast (rBytes c) else 0) fn (freed s) \<and>
    told_map (\<lambda>v. v) h (pre @ fn @ ''.bytes_written'') = owed (\<lambda>c. if writeEndCalled c then ucast (wBytes c) else 0) fn (freed s)"
proof -
  obtain h where c: "consolidate D now (hnd s) = Inr h"
    using consolidate_ok[OF fs_invD(1)[OF fs_reach_inv[OF assms]], of D now] by blast
  note books = calls_of.consolidated_book reads_of.consolidated_book writes_of.consolidated_book
    processed_of.consolidated_book user_exceptions_of.consolidated_book exceptions_of.consolidated_book
    samples_of.consolidated_book bytes_read_of.consolidated_book bytes_written_of.consolidated_book
  from c show ?thesis by (intro exI[of _ h] conjI books[OF assms c])
qed

theorem requests_reported_exactly_witness:
  "\<exists>h. consolidate rat_ops 65 (hnd demo_served) = Inr h \<and>
    told_map ucast h ''thrift.f.num_calls'' = (2 :: 32 word) \<and> told_map (\<lambda>v. v) h ''thrift.f.bytes_read'' = 7"
proof -
  have "owed (\<lambda>c. 1) ''f'' (freed demo_served) = (2 :: 32 word)"
    "owed (\<lambda>c. if readEndCalled c then ucast (rBytes c) else 0) ''f'' (freed demo_served) = (7 :: 64 word)" by code_simp+
  with requests_reported_exactly[OF demo_served_reach, of 65 "''f''"] show ?thesis by auto
qed

text \<open>
  C26: The one-entry cache is transparent: \<open>getStats\<close> finds the object that the map of the thread has for the
  function, and makes one only when there is none.
\<close>
theorem stats_cache_transparent:
  assumes "fs_reach D pre d s" "spts (hnd s) p = None"
  shows "fst (getStats D t p fn (hnd s)) = (case slot (hnd s) t fn of None \<Rightarrow> p | Some q \<Rightarrow> q)"
proof -
  obtain q h where g: "getStats D t p fn (hnd s) = (q, h)" by fastforce
  note wf = fs_invD(1)[OF fs_reach_inv[OF assms(1)]]
  show ?thesis
  proof (cases "slot (hnd s) t fn")
    case (Some r)
    with getStats_ok(4)[OF wf assms(2) g] g show ?thesis by simp
  next
    case None
    obtain a h1 where ga: "get_aggregator t (hnd s) = (a, h1)" by fastforce
    note g1 = get_aggregator_ok[OF wf ga]
    have "map_of (agg_map a) fn = None" using None g1(2,3) by (metis slot_def option.simps(5))
    moreover have "cache_hit fn a = None"
      using handler_wfD(3)[OF g1(1,2)] calculation by (auto simp: cache_hit_def agg_ok_def split: option.splits if_splits)
    ultimately show ?thesis using None ga by (simp add: getStats_def)
  qed
qed

theorem stats_cache_transparent_witness:
  "fst (getStats rat_ops 2 14 ''f'' (hnd demo_served)) = 12"
proof -
  have "spts (hnd demo_served) 14 = None" "slot (hnd demo_served) 2 ''f'' = Some 12" by code_simp+
  with stats_cache_transparent[OF demo_served_reach, of 14 2 "''f''"] show ?thesis by simp
qed

text \<open>
  \<open>clear\<close> leaves out the totals of CPU time and worked time, so every consolidation reports the same amounts to the
  averages again.
\<close>
theorem totals_reported_again:
  "AvgAggregated (counterNamePrefix h @ fn @ ''.total_cpu_us'') (acc_sum (totalCpuTime st)) (ucast (acc_count (totalCpuTime st)))
     \<in> set (fst (snd (consolidateStats D h fn st))) \<inter>
       set (fst (snd (consolidateStats D h' fn' (snd (snd (consolidateStats D h fn st))))))"
  if "counterNamePrefix h' = counterNamePrefix h" "fn' = fn"
  using that by (simp add: consolidateStats_def Let_def addAllValues_def spt_clear_def setSampleRate_def)

theorem totals_reported_again_witness:
  "AvgAggregated ''thrift.f.total_cpu_us'' 90 1
     \<in> set (fst (snd (consolidateStats rat_ops (handler0 ''thrift.'' 500) ''f''
        (snd (snd (consolidateStats rat_ops (handler0 ''thrift.'' 500) ''f''
           (new_spt rat_ops\<lparr>totalCpuTime := \<lparr>acc_count = 1, acc_sum = 90, acc_quantile = None\<rparr>\<rparr>)))))))"
  using totals_reported_again[of "handler0 ''thrift.'' 500" "handler0 ''thrift.'' 500" "''f''" "''f''"
      "new_spt rat_ops\<lparr>totalCpuTime := \<lparr>acc_count = 1, acc_sum = 90, acc_quantile = None\<rparr>\<rparr>" rat_ops]
  by (simp add: handler0_def)

end
