(* ===== verification/RequestDelivery.thy ===== *)
theory RequestDelivery
  imports RequestBooks
begin

text \<open>
  The stat maps of \<open>TFunctionStatHandler\<close> (\<^verbatim>\<open>fb303/TFunctionStatHandler.cpp\<close>): two \<open>ExportedStatMap\<close>s over the same
  dynamic counters, one for sums and rates and one for averages. What a consolidation tells them ends in the
  stats of the theory \<open>StatExport\<close>.
\<close>

section \<open>The two maps\<close>

record 's esm =
  esm_stats :: "(name \<times> ptr) list"
  esm_types :: "export_type list"
  esm_default :: 's

record ('s, 'h, 'c) sink =
  statMapSum :: "'s esm"
  statMapAvg :: "'s esm"
  sink_data :: "('s, 'h, 'c) sdata"

definition new_sink :: "'s \<Rightarrow> ('s, 'h, 'c) sdata \<Rightarrow> ('s, 'h, 'c) sink" where
  "new_sink st s =
     \<lparr>statMapSum = \<lparr>esm_stats = [], esm_types = [ESUM, RATE], esm_default = st\<rparr>,
      statMapAvg = \<lparr>esm_stats = [], esm_types = [AVG], esm_default = st\<rparr>, sink_data = s\<rparr>"

text \<open>An operation of \<open>StatExport\<close> on a map other than the one of the service.\<close>

definition on_esm ::
  "'s esm \<Rightarrow> (('s, 'h, 'c) sdata \<Rightarrow> (unit, 's, 'h, 'c) outcome) \<Rightarrow> ('s, 'h, 'c) sdata \<Rightarrow>
   (rx_error + unit) \<times> 's esm \<times> ('s, 'h, 'c) sdata" where
  "on_esm m f s =
     (let (r, s') = f (s\<lparr>statMap := esm_stats m, defaultTypes := esm_types m, defaultStat := esm_default m\<rparr>) in
      (r, m\<lparr>esm_stats := statMap s'\<rparr>,
       s'\<lparr>statMap := statMap s, defaultTypes := defaultTypes s, defaultStat := defaultStat s\<rparr>))"

definition on_sum ::
  "(('s, 'h, 'c) sdata \<Rightarrow> (unit, 's, 'h, 'c) outcome) \<Rightarrow> ('s, 'h, 'c) sink \<Rightarrow> (rx_error + unit) \<times> ('s, 'h, 'c) sink" where
  "on_sum f k = (let (r, m, s) = on_esm (statMapSum k) f (sink_data k) in (r, k\<lparr>statMapSum := m, sink_data := s\<rparr>))"

definition on_avg ::
  "(('s, 'h, 'c) sdata \<Rightarrow> (unit, 's, 'h, 'c) outcome) \<Rightarrow> ('s, 'h, 'c) sink \<Rightarrow> (rx_error + unit) \<times> ('s, 'h, 'c) sink" where
  "on_avg f k = (let (r, m, s) = on_esm (statMapAvg k) f (sink_data k) in (r, k\<lparr>statMapAvg := m, sink_data := s\<rparr>))"

fun deliver1 ::
  "('s, 'h, 'l, 'c, 'p, 'r) params \<Rightarrow> secs \<Rightarrow> stat_call \<Rightarrow> ('s, 'h, 'c) sink \<Rightarrow> (rx_error + unit) \<times> ('s, 'h, 'c) sink" where
  "deliver1 P now (SumAdd nm v) k = on_sum (esm_addValue P nm now v 1) k"
| "deliver1 P now (AvgAdd nm v) k = on_avg (esm_addValue P nm now v 1) k"
| "deliver1 P now (AvgAggregated nm sm n) k = on_avg (esm_addValueAggregated P nm now sm n) k"

fun deliver ::
  "('s, 'h, 'l, 'c, 'p, 'r) params \<Rightarrow> (secs \<times> stat_call) list \<Rightarrow> ('s, 'h, 'c) sink \<Rightarrow> (rx_error + unit) \<times> ('s, 'h, 'c) sink" where
  "deliver P [] k = (Inr (), k)"
| "deliver P ((now, c) # cs) k =
     (case deliver1 P now c k of (Inl e, k') \<Rightarrow> (Inl e, k') | (Inr u, k') \<Rightarrow> deliver P cs k')"

section \<open>Totals\<close>

definition ptrs_of :: "('s, 'h, 'c) sink \<Rightarrow> ptr list" where
  "ptrs_of k = map snd (esm_stats (statMapSum k)) @ map snd (esm_stats (statMapAvg k))"

definition sink_ok ::
  "('s, 'h, 'l, 'c, 'p, 'r) params \<Rightarrow> (regex \<Rightarrow> name \<Rightarrow> bool) \<Rightarrow> ('c \<Rightarrow> name set) \<Rightarrow> ('c \<Rightarrow> bool) \<Rightarrow> ('s, 'h, 'c) sink \<Rightarrow> bool"
where
  "sink_ok P rx strings ok k \<longleftrightarrow>
     sdata_good P rx strings ok (sink_data k) \<and> distinct (ptrs_of k) \<and> (\<forall>p \<in> set (ptrs_of k). p < next_ptr (sink_data k))"

definition total :: "('s \<Rightarrow> int64) \<Rightarrow> ('s, 'h, 'c) sink \<Rightarrow> name \<Rightarrow> int64" where
  "total sm k nm =
     (case map_of (esm_stats (statMapSum k)) nm of None \<Rightarrow> 0 | Some p \<Rightarrow> sm (stat_heap (wld (sink_data k)) p))"

text \<open>The documented behaviour of an all-time level under single values.\<close>

definition sums_values :: "'s series_ops \<Rightarrow> ('s \<Rightarrow> int64) \<Rightarrow> bool" where
  "sums_values so sm \<longleftrightarrow> (\<forall>now v st. sm (addValue_ts so now v 1 st) = sm st + v)"

lemma good_updates [simp]:
  "sdata_good P rx strings ok (s\<lparr>statMap := m, defaultTypes := ts, defaultStat := d\<rparr>) = sdata_good P rx strings ok s"
  by (simp add: sdata_good_def)

text \<open>Adding to a stat of a map: an old entry is updated, a new one starts from the default.\<close>

lemma on_esm_add:
  assumes g: "sdata_good P rx strings ok s"
    and F: "\<And>s. F s = with_stat (getStatPtr P nm (defaultTypes s) s) f"
  obtains s' where "on_esm m F s = (Inr (), m\<lparr>esm_stats := esm_stats m @ (if map_of (esm_stats m) nm = None then [(nm, next_ptr s)] else [])\<rparr>, s')"
    "sdata_good P rx strings ok s'" "next_ptr s' = next_ptr s + (if map_of (esm_stats m) nm = None then 1 else 0)"
    "stat_heap (wld s') = (case map_of (esm_stats m) nm of
        None \<Rightarrow> (stat_heap (wld s))(next_ptr s := f (esm_default m))
      | Some p \<Rightarrow> (stat_heap (wld s))(p := f (stat_heap (wld s) p)))"
proof -
  let ?s = "s\<lparr>statMap := esm_stats m, defaultTypes := esm_types m, defaultStat := esm_default m\<rparr>"
  have g': "sdata_good P rx strings ok ?s" using g by simp
  show thesis
  proof (cases "map_of (esm_stats m) nm")
    case (Some p)
    then have "F ?s = (Inr (), mod_stat p f ?s)" by (simp add: F with_stat_def getStatPtr_old)
    with Some g' that show thesis by (simp add: on_esm_def sdata_good_def)
  next
    case None
    then have n: "map_of (statMap ?s) nm = None" by simp
    obtain s1 where s1: "getStatPtr P nm (esm_types m) ?s = (Inr (next_ptr s), s1)" "sdata_good P rx strings ok s1"
      "statMap s1 = esm_stats m @ [(nm, next_ptr s)]" "next_ptr s1 = next_ptr s + 1"
      "stat_heap (wld s1) = (stat_heap (wld s))(next_ptr s := esm_default m)"
      by (rule getStatPtr_new[OF g' n, of "esm_types m"]) simp
    then have "F ?s = (Inr (), mod_stat (next_ptr s) f s1)" by (simp add: F with_stat_def)
    with None s1 that show thesis by (simp add: on_esm_def sdata_good_def)
  qed
qed

lemma fresh_ptr:
  "distinct (as @ bs) \<and> (\<forall>p \<in> set (as @ bs). p < (n :: nat)) \<Longrightarrow>
   distinct (as @ n # bs) \<and> (\<forall>p \<in> set (as @ n # bs). p < n + 1)"
  by (auto simp: less_Suc_eq)

lemma on_avg_ok:
  assumes k: "sink_ok P rx strings ok k" and F: "\<And>s. F s = with_stat (getStatPtr P n (defaultTypes s) s) f"
  obtains k' where "on_avg F k = (Inr (), k')" "sink_ok P rx strings ok k'"
    "esm_default (statMapSum k') = esm_default (statMapSum k)" "\<And>nm. total sm k' nm = total sm k nm"
proof -
  from k have g: "sdata_good P rx strings ok (sink_data k)" by (simp add: sink_ok_def)
  let ?m = "statMapAvg k" and ?s = "sink_data k"
  obtain s' where s': "on_esm ?m F ?s =
      (Inr (), ?m\<lparr>esm_stats := esm_stats ?m @ (if map_of (esm_stats ?m) n = None then [(n, next_ptr ?s)] else [])\<rparr>, s')"
    "sdata_good P rx strings ok s'" "next_ptr s' = next_ptr ?s + (if map_of (esm_stats ?m) n = None then 1 else 0)"
    "stat_heap (wld s') = (case map_of (esm_stats ?m) n of
        None \<Rightarrow> (stat_heap (wld ?s))(next_ptr ?s := f (esm_default ?m))
      | Some p \<Rightarrow> (stat_heap (wld ?s))(p := f (stat_heap (wld ?s) p)))"
    by (rule on_esm_add[OF g F]) (rule that)
  let ?k = "k\<lparr>statMapAvg := ?m\<lparr>esm_stats := esm_stats ?m @ (if map_of (esm_stats ?m) n = None then [(n, next_ptr ?s)] else [])\<rparr>, sink_data := s'\<rparr>"
  have ok': "sink_ok P rx strings ok ?k"
    using k s'(2,3) fresh_ptr[of "map snd (esm_stats (statMapSum k)) @ map snd (esm_stats ?m)" "[]" "next_ptr ?s"]
    by (cases "map_of (esm_stats ?m) n") (simp_all add: sink_ok_def ptrs_of_def)
  have "stat_heap (wld s') q = stat_heap (wld ?s) q" if "map_of (esm_stats (statMapSum k)) nm = Some q" for nm q
  proof -
    have q: "q \<in> set (map snd (esm_stats (statMapSum k)))" using map_of_SomeD[OF that] by force
    have "q < next_ptr ?s" "q \<notin> set (map snd (esm_stats ?m))"
      using k q unfolding sink_ok_def ptrs_of_def distinct_append set_append by blast+
    moreover have "p \<in> set (map snd (esm_stats ?m))" if "map_of (esm_stats ?m) n = Some p" for p
      using map_of_SomeD[OF that] by force
    ultimately show ?thesis using s'(4) by (cases "map_of (esm_stats ?m) n") auto
  qed
  then have tot: "total sm ?k nm = total sm k nm" for nm by (auto simp: total_def split: option.split)
  show thesis by (rule that[OF _ ok' _ tot]) (use s'(1) in \<open>simp_all add: on_avg_def\<close>)
qed

lemma ucast_plus: "ucast (x + y :: int64) = (ucast x + ucast y :: 32 word)"
proof -
  have h: "(a mod 18446744073709551616 + b mod 18446744073709551616) mod 4294967296 = (a + b) mod (4294967296 :: int)" for a b
    by (rule mod_add_cong) (simp_all add: mod_mod_cancel)
  show ?thesis by transfer (simp add: take_bit_eq_mod mod_add_eq mod_mod_cancel, rule h[symmetric])
qed

lemma told_ucast: "ucast (told (\<lambda>v. v) nm cs) = (told ucast nm cs :: 32 word)"
proof (induction cs)
  case (Cons c cs)
  have "ucast (told (\<lambda>v. v) nm [c]) = (told ucast nm [c] :: 32 word)" by (cases c) (simp_all add: told_def)
  with Cons ucast_plus[of "told (\<lambda>v. v) nm [c]" "told (\<lambda>v. v) nm cs"] told_append[of "\<lambda>v. v" nm "[c]" cs] told_append[of "ucast :: int64 \<Rightarrow> 32 word" nm "[c]" cs]
  show ?case by simp
qed (simp add: told_def)

lemma deliver1_ok:
  assumes k: "sink_ok P rx strings ok k" and sm: "sums_values (sops P) sm" and z: "sm (esm_default (statMapSum k)) = 0"
  obtains k' where "deliver1 P now c k = (Inr (), k')" "sink_ok P rx strings ok k'"
    "esm_default (statMapSum k') = esm_default (statMapSum k)" "\<And>nm. total sm k' nm = total sm k nm + told (\<lambda>v. v) nm [c]"
proof (cases c)
  case (SumAdd n v)
  from k have g: "sdata_good P rx strings ok (sink_data k)" by (simp add: sink_ok_def)
  let ?m = "statMapSum k" and ?s = "sink_data k"
  obtain s' where s': "on_esm ?m (esm_addValue P n now v 1) ?s =
      (Inr (), ?m\<lparr>esm_stats := esm_stats ?m @ (if map_of (esm_stats ?m) n = None then [(n, next_ptr ?s)] else [])\<rparr>, s')"
    "sdata_good P rx strings ok s'" "next_ptr s' = next_ptr ?s + (if map_of (esm_stats ?m) n = None then 1 else 0)"
    "stat_heap (wld s') = (case map_of (esm_stats ?m) n of
        None \<Rightarrow> (stat_heap (wld ?s))(next_ptr ?s := addValue_ts (sops P) now v 1 (esm_default ?m))
      | Some p \<Rightarrow> (stat_heap (wld ?s))(p := addValue_ts (sops P) now v 1 (stat_heap (wld ?s) p)))"
    by (rule on_esm_add[OF g, of "esm_addValue P n now v 1" n "addValue_ts (sops P) now v 1" ?m])
       (simp_all add: esm_addValue_def)
  let ?k = "k\<lparr>statMapSum := ?m\<lparr>esm_stats := esm_stats ?m @ (if map_of (esm_stats ?m) n = None then [(n, next_ptr ?s)] else [])\<rparr>, sink_data := s'\<rparr>"
  have old: "q < next_ptr ?s" if "map_of (esm_stats ?m) nm = Some q" for nm q
    using map_of_SomeD[OF that] k by (force simp: sink_ok_def ptrs_of_def)
  have inj: "nm = n" if "map_of (esm_stats ?m) nm = Some q" "map_of (esm_stats ?m) n = Some q" for nm q
    using distinct_map_eqD[OF _ map_of_SomeD[OF that(1)] map_of_SomeD[OF that(2)], of snd] k
    by (simp add: sink_ok_def ptrs_of_def)
  have ok': "sink_ok P rx strings ok ?k"
    using k s'(2,3) fresh_ptr[of "map snd (esm_stats ?m)" "map snd (esm_stats (statMapAvg k))" "next_ptr ?s"]
    by (cases "map_of (esm_stats ?m) n") (simp_all add: sink_ok_def ptrs_of_def)
  have tot: "total sm ?k nm = total sm k nm + told (\<lambda>v. v) nm [c]" for nm
  proof (cases "map_of (esm_stats ?m) n")
    case None
    then show ?thesis using s'(4) sm z old[of nm] SumAdd
      by (auto simp: total_def told_def sums_values_def map_add_def split: option.split)
  next
    case (Some p)
    then show ?thesis using s'(4) sm inj[of nm p] SumAdd
      by (auto simp: total_def told_def sums_values_def split: option.split)
  qed
  show thesis by (rule that[OF _ ok' _ tot]) (use s'(1) SumAdd in \<open>simp_all add: on_sum_def\<close>)
next
  case (AvgAdd n v)
  obtain k' where "on_avg (esm_addValue P n now v 1) k = (Inr (), k')" "sink_ok P rx strings ok k'"
    "esm_default (statMapSum k') = esm_default (statMapSum k)" "\<And>nm. total sm k' nm = total sm k nm"
    by (rule on_avg_ok[OF k, of "esm_addValue P n now v 1" n "addValue_ts (sops P) now v 1"])
       (simp only: esm_addValue_def, rule that)
  with AvgAdd show thesis by (intro that[of k']) (simp_all add: told_def)
next
  case (AvgAggregated n v j)
  obtain k' where "on_avg (esm_addValueAggregated P n now v j) k = (Inr (), k')" "sink_ok P rx strings ok k'"
    "esm_default (statMapSum k') = esm_default (statMapSum k)" "\<And>nm. total sm k' nm = total sm k nm"
    by (rule on_avg_ok[OF k, of "esm_addValueAggregated P n now v j" n "addValueAggregated (sops P) now v j"])
       (simp only: esm_addValueAggregated_def, rule that)
  with AvgAggregated show thesis by (intro that[of k']) (simp_all add: told_def)
qed

lemma deliver_ok:
  assumes "sums_values (sops P) sm"
  shows "sink_ok P rx strings ok k \<Longrightarrow> sm (esm_default (statMapSum k)) = 0 \<Longrightarrow>
    \<exists>k'. deliver P cs k = (Inr (), k') \<and> sink_ok P rx strings ok k' \<and>
      (\<forall>nm. total sm k' nm = total sm k nm + told (\<lambda>v. v) nm (map snd cs))"
proof (induction cs arbitrary: k)
  case Nil
  then show ?case by (simp add: told_def)
next
  case (Cons x cs)
  obtain now c where x: "x = (now, c)" by (cases x)
  obtain k1 where k1: "deliver1 P now c k = (Inr (), k1)" "sink_ok P rx strings ok k1"
    "esm_default (statMapSum k1) = esm_default (statMapSum k)" "\<And>nm. total sm k1 nm = total sm k nm + told (\<lambda>v. v) nm [c]"
    by (rule deliver1_ok[OF Cons.prems(1) assms Cons.prems(2), of now c]) (rule that)
  have "sm (esm_default (statMapSum k1)) = 0" using k1(3) Cons.prems(2) by simp
  from Cons.IH[OF k1(2) this] obtain k2 where "deliver P cs k1 = (Inr (), k2)" "sink_ok P rx strings ok k2"
    "\<forall>nm. total sm k2 nm = total sm k1 nm + told (\<lambda>v. v) nm (map snd cs)" by blast
  moreover have "told (\<lambda>v. v) nm (map snd (x # cs)) = told (\<lambda>v. v) nm [c] + told (\<lambda>v. v) nm (map snd cs)" for nm
    using told_append[of "\<lambda>v. v" nm "[c]" "map snd cs"] x by simp
  ultimately show ?case using k1 x by (auto simp: add.assoc)
qed



end
