(* ===== verification/StatPtr.thy ===== *)
theory StatPtr
  imports StatNames
begin

unbundle bit_operations_syntax

text \<open>
  The entries of the named maps of \<^verbatim>\<open>fb303/ThreadLocalStatsMap.h\<close>: a \<open>shared_ptr\<close> to a stat with the export types that
  this thread has asked for. \<open>StatPtrCompress\<close> keeps the types in the five top bits of the pointer to the control block,
  \<open>StatPtrFallback\<close> beside the pointer. A \<open>shared_ptr\<close> is the pair of its object and control pointers; what a
  function releases is part of its result.
\<close>

section \<open>StatPtrBase\<close>

type_synonym shared_ptr = "uint64 \<times> uint64"

definition nbits :: nat where
  "nbits = 64"

definition ntypes :: nat where
  "ntypes = length kExportTypes"

definition types_mask :: uint64 where
  "types_mask = push_bit (nbits - ntypes) (NOT 0)"

definition type_mask :: "export_type \<Rightarrow> uint64" where
  "type_mask key = push_bit (nbits - ntypes + export_index key) 1"

section \<open>StatPtrFallback\<close>

record fallback =
  fb_ptr :: shared_ptr
  fb_exports :: uint64

definition fb0 :: fallback where
  "fb0 = \<lparr>fb_ptr = (0, 0), fb_exports = 0\<rparr>"

definition fb_bool :: "fallback \<Rightarrow> bool" where
  "fb_bool f \<longleftrightarrow> fst (fb_ptr f) \<noteq> 0"

definition fb_set_ptr :: "shared_ptr \<Rightarrow> fallback \<Rightarrow> shared_ptr \<times> fallback" where
  "fb_set_ptr v f = (fb_ptr f, f\<lparr>fb_ptr := v\<rparr>)"

definition fb_type :: "export_type \<Rightarrow> fallback \<Rightarrow> bool" where
  "fb_type key f \<longleftrightarrow> fb_exports f AND type_mask key \<noteq> 0"

definition fb_set_type :: "export_type \<Rightarrow> bool \<Rightarrow> fallback \<Rightarrow> fallback" where
  "fb_set_type key v f =
     f\<lparr>fb_exports := (if v then fb_exports f OR type_mask key else fb_exports f AND NOT (type_mask key))\<rparr>"

section \<open>StatPtrCompress\<close>

record sp_layout =
  raw :: uint64
  ctl :: uint64

definition cp0 :: sp_layout where
  "cp0 = \<lparr>raw = 0, ctl = 0\<rparr>"

definition cp_destroy :: "sp_layout \<Rightarrow> shared_ptr" where
  "cp_destroy r = (raw r, ctl r AND NOT types_mask)"

definition cp_move :: "sp_layout \<Rightarrow> sp_layout \<times> sp_layout" where
  "cp_move that = (that, cp0)"

definition cp_bool :: "sp_layout \<Rightarrow> bool" where
  "cp_bool r \<longleftrightarrow> raw r \<noteq> 0"

definition cp_ptr :: "sp_layout \<Rightarrow> shared_ptr" where
  "cp_ptr r = (raw r, ctl r AND NOT types_mask)"

definition cp_set_ptr :: "shared_ptr \<Rightarrow> sp_layout \<Rightarrow> shared_ptr \<times> sp_layout" where
  "cp_set_ptr v r =
     (let r = r\<lparr>ctl := ctl r AND NOT types_mask\<rparr> in ((raw r, ctl r), \<lparr>raw = fst v, ctl = snd v\<rparr>))"

definition cp_type :: "export_type \<Rightarrow> sp_layout \<Rightarrow> bool" where
  "cp_type key r \<longleftrightarrow> ctl r AND type_mask key \<noteq> 0"

definition cp_set_type :: "export_type \<Rightarrow> bool \<Rightarrow> sp_layout \<Rightarrow> sp_layout" where
  "cp_set_type key v r =
     r\<lparr>ctl := (if v then ctl r OR type_mask key else ctl r AND NOT (type_mask key))\<rparr>"

section \<open>Both are the same\<close>

definition unpack :: "sp_layout \<Rightarrow> fallback" where
  "unpack r = \<lparr>fb_ptr = cp_ptr r, fb_exports = ctl r AND types_mask\<rparr>"

lemma ntypes_eq [simp]: "ntypes = 5"
  by (simp add: ntypes_def kExportTypes_def)

lemma export_index_less: "export_index key < 5"
  by (cases key) simp_all

lemma bit_type_mask [simp]: "bit (type_mask key) n \<longleftrightarrow> n = 59 + export_index key"
  using export_index_less[of key] by (auto simp: type_mask_def nbits_def bit_simps)

lemma bit_types_mask [simp]: "bit types_mask n \<longleftrightarrow> 59 \<le> n \<and> n < 64"
  by (auto simp: types_mask_def nbits_def bit_simps)

lemma and_type_mask: "w AND type_mask key \<noteq> 0 \<longleftrightarrow> bit w (59 + export_index key)"
proof -
  have "w AND type_mask key \<noteq> 0 \<longleftrightarrow> (\<exists>n < 64. bit w n \<and> n = 59 + export_index key)"
    by (simp add: bit_eq_iff bit_and_iff)
  then show ?thesis using export_index_less[of key] by auto
qed

lemma small_ctl: "c AND types_mask = 0 \<longleftrightarrow> c < 2 ^ 59"
proof -
  have "c AND types_mask = 0 \<longleftrightarrow> take_bit 59 c = c"
    by (auto simp: bit_eq_iff bit_simps)
  also have "\<dots> \<longleftrightarrow> take_bit 59 (unat c) = unat c" by (metis unsigned_take_bit_eq unsigned_word_eqI)
  also have "\<dots> \<longleftrightarrow> c < 2 ^ 59" by (simp add: take_bit_nat_eq_self_iff word_less_nat_alt)
  finally show ?thesis .
qed

lemma unpack_type: "fb_type key (unpack r) = cp_type key r"
  using export_index_less[of key] by (simp add: fb_type_def cp_type_def unpack_def and_type_mask bit_and_iff)

lemma types_and: "(w OR type_mask key) AND types_mask = (w AND types_mask) OR type_mask key"
  using export_index_less[of key] by (intro bit_word_eqI) (auto simp: bit_and_iff bit_or_iff)

lemma types_and_not: "(w AND NOT (type_mask key)) AND types_mask = (w AND types_mask) AND NOT (type_mask key)"
  by (intro bit_word_eqI) (auto simp: bit_and_iff bit_not_iff)

lemma pointer_or: "(w OR type_mask key) AND NOT types_mask = w AND NOT types_mask"
  using export_index_less[of key] by (intro bit_word_eqI) (auto simp: bit_and_iff bit_or_iff bit_not_iff)

lemma pointer_and_not: "(w AND NOT (type_mask key)) AND NOT types_mask = w AND NOT types_mask"
  using export_index_less[of key] by (intro bit_word_eqI) (auto simp: bit_and_iff bit_or_iff bit_not_iff)

lemma unpack_set_type: "unpack (cp_set_type key v r) = fb_set_type key v (unpack r)"
  by (simp add: unpack_def cp_set_type_def fb_set_type_def cp_ptr_def types_and types_and_not pointer_or pointer_and_not)

lemma unpack_set_ptr:
  assumes "snd v < 2 ^ 59" "ctl r AND types_mask = 0"
  shows "unpack (snd (cp_set_ptr v r)) = snd (fb_set_ptr v (unpack r))"
proof -
  have z: "snd v AND types_mask = 0" using assms(1) small_ctl by simp
  then have "\<not> bit (snd v) n" if "59 \<le> n" "n < 64" for n using that by (auto simp: bit_eq_iff bit_and_iff)
  then have "snd v AND NOT types_mask = snd v" by (auto simp: bit_eq_iff bit_and_iff bit_not_iff)
  with z assms(2) show ?thesis by (simp add: unpack_def cp_set_ptr_def fb_set_ptr_def cp_ptr_def Let_def)
qed

text \<open>What \<open>tryInsertLocked\<close> and its callers do with an entry: fill it once, then set and read types.\<close>

definition cp_entry :: "shared_ptr \<Rightarrow> (export_type \<times> bool) list \<Rightarrow> sp_layout" where
  "cp_entry v ts = fold (\<lambda>(key, b). cp_set_type key b) ts (snd (cp_set_ptr v cp0))"

definition fb_entry :: "shared_ptr \<Rightarrow> (export_type \<times> bool) list \<Rightarrow> fallback" where
  "fb_entry v ts = fold (\<lambda>(key, b). fb_set_type key b) ts (snd (fb_set_ptr v fb0))"

lemma unpack_entry:
  assumes "snd v < 2 ^ 59"
  shows "unpack (cp_entry v ts) = fb_entry v ts"
proof -
  have 0: "unpack (snd (cp_set_ptr v cp0)) = snd (fb_set_ptr v fb0)"
    using unpack_set_ptr[OF assms, of cp0] by (simp add: cp0_def fb0_def unpack_def cp_ptr_def)
  have "unpack (fold (\<lambda>(key, b). cp_set_type key b) ts r) = fold (\<lambda>(key, b). fb_set_type key b) ts (unpack r)" for r
    by (induction ts arbitrary: r) (auto simp: unpack_set_type)
  then show ?thesis by (simp add: cp_entry_def fb_entry_def 0)
qed

lemma fb_entry_ptr: "fb_ptr (fb_entry v ts) = v"
proof -
  have "fb_ptr (fold (\<lambda>(key, b). fb_set_type key b) ts f) = fb_ptr f" for f
    by (induction ts arbitrary: f) (auto simp: fb_set_type_def)
  then show ?thesis by (simp add: fb_entry_def fb_set_ptr_def)
qed

text \<open>
  C28: As long as control blocks lie below \<^verbatim>\<open>2^59\<close>, an entry that hides the export types in the pointer behaves as one that
  stores them: it has the same pointer, the same types and the same truth value, and its destructor releases the
  very pointer that was put in.
\<close>
theorem compressed_entry_agrees:
  assumes "snd v < 2 ^ 59"
  shows "cp_ptr (cp_entry v ts) = v \<and> cp_ptr (cp_entry v ts) = fb_ptr (fb_entry v ts) \<and>
    cp_type key (cp_entry v ts) = fb_type key (fb_entry v ts) \<and>
    cp_bool (cp_entry v ts) = fb_bool (fb_entry v ts) \<and> cp_destroy (cp_entry v ts) = v"
proof -
  note u = unpack_entry[OF assms, of ts]
  have p: "cp_ptr (cp_entry v ts) = fb_ptr (fb_entry v ts)" by (simp add: u[symmetric] unpack_def)
  have v: "cp_ptr (cp_entry v ts) = v" by (simp add: p fb_entry_ptr)
  have "raw (cp_entry v ts) = fst v" using arg_cong[OF v, of fst] by (simp add: cp_ptr_def)
  moreover have "cp_destroy (cp_entry v ts) = v" using v by (simp add: cp_destroy_def cp_ptr_def)
  ultimately show ?thesis
    using unpack_type[of key "cp_entry v ts"] by (simp add: u p fb_entry_ptr cp_bool_def fb_bool_def)
qed

theorem compressed_entry_agrees_witness:
  "cp_type RATE (cp_entry (4096, 8192) [(RATE, True), (AVG, True), (AVG, False)]) =
     fb_type RATE (fb_entry (4096, 8192) [(RATE, True), (AVG, True), (AVG, False)]) \<and>
   cp_destroy (cp_entry (4096, 8192) [(RATE, True), (AVG, True), (AVG, False)]) = (4096, 8192)"
  using compressed_entry_agrees[of "(4096, 8192)" "[(RATE, True), (AVG, True), (AVG, False)]" RATE] by simp

text \<open>
  Putting a new pointer into an entry forgets the types when they are hidden and keeps them when they are stored
  apart. No caller does it twice.
\<close>
theorem refilled_entry_differs:
  "\<exists>r v key. snd v < 2 ^ 59 \<and> cp_type key (snd (cp_set_ptr v r)) \<noteq> fb_type key (snd (fb_set_ptr v (unpack r)))"
proof -
  have "cp_type ESUM (snd (cp_set_ptr (8, 16) (cp_set_type ESUM True cp0))) = False" by code_simp
  moreover have "fb_type ESUM (snd (fb_set_ptr (8, 16) (unpack (cp_set_type ESUM True cp0)))) = True" by code_simp
  ultimately show ?thesis by (intro exI[of _ "cp_set_type ESUM True cp0"] exI[of _ "(8, 16)"] exI[of _ ESUM]) simp
qed

end
