(* ===== verification/Counters.thy ===== *)
theory Counters
  imports RegexUtil
begin

text \<open>
  The flat counters of \<open>ServiceData\<close> (\<^verbatim>\<open>fb303/ServiceData.cpp\<close>): 64-bit values by name, in a set of shared
  entries with its regex cache. An update reads and writes the value of one entry atomically; only the
  structure of the map is under the lock, so between the optimistic lookup and the exclusive lock other
  threads may change the map, which is the parameter \<open>env\<close>.
\<close>

type_synonym 'c counters = "(int64, 'c) cached_map"

fun upd_entry :: "name \<Rightarrow> ('v \<Rightarrow> 'v) \<Rightarrow> (name \<times> 'v) list \<Rightarrow> (name \<times> 'v) list" where
  "upd_entry k f [] = []"
| "upd_entry k f ((j, v) # xs) = (if j = k then (j, f v) # xs else (j, v) # upd_entry k f xs)"

text \<open>The argument \<open>f\<close> of \<open>modifyCounter\<close> maps the atomic's value to what it returns and what it leaves.\<close>

definition apply_entry :: "name \<Rightarrow> (int64 \<Rightarrow> int64 \<times> int64) \<Rightarrow> 'c counters \<Rightarrow> int64 \<times> 'c counters" where
  "apply_entry k f m =
     (fst (f (case cm_find k m of None \<Rightarrow> 0 | Some v \<Rightarrow> v)),
      m\<lparr>cm_map := upd_entry k (\<lambda>v. snd (f v)) (cm_map m)\<rparr>)"

definition modifyCounter ::
  "('c, 'h, 'r) cache_ops \<Rightarrow> ('c counters \<Rightarrow> 'c counters) \<Rightarrow> name \<Rightarrow> (int64 \<Rightarrow> int64 \<times> int64) \<Rightarrow> 'c counters \<Rightarrow>
   (rx_error + int64) \<times> 'c counters" where
  "modifyCounter ops env k f m =
     (if cm_find k m \<noteq> None then (let (r, m1) = apply_entry k f m in (Inr r, m1))
      else
        (let (ins, m1) = cachedAddString ops k 0 (env m)
         in case ins of
              Inl e \<Rightarrow> (Inl e, m1)
            | Inr _ \<Rightarrow> (let (r, m2) = apply_entry k f m1 in (Inr r, m2))))"

definition incrementCounter ::
  "('c, 'h, 'r) cache_ops \<Rightarrow> ('c counters \<Rightarrow> 'c counters) \<Rightarrow> name \<Rightarrow> int64 \<Rightarrow> 'c counters \<Rightarrow>
   (rx_error + int64) \<times> 'c counters" where
  "incrementCounter ops env k amount m = modifyCounter ops env k (\<lambda>v. (v + amount, v + amount)) m"

definition setCounter ::
  "('c, 'h, 'r) cache_ops \<Rightarrow> ('c counters \<Rightarrow> 'c counters) \<Rightarrow> name \<Rightarrow> int64 \<Rightarrow> 'c counters \<Rightarrow>
   (rx_error + int64) \<times> 'c counters" where
  "setCounter ops env k value m = modifyCounter ops env k (\<lambda>v. (value, value)) m"

definition clearCounter :: "('c, 'h, 'r) cache_ops \<Rightarrow> name \<Rightarrow> 'c counters \<Rightarrow> 'c counters" where
  "clearCounter ops k m = (if cm_find k m \<noteq> None then cachedEraseString ops k m else m)"

definition zeroCounters :: "'c counters \<Rightarrow> 'c counters" where
  "zeroCounters m = m\<lparr>cm_map := map (\<lambda>e. (fst e, 0)) (cm_map m)\<rparr>"

definition getKeys_flat :: "name list \<Rightarrow> 'c counters \<Rightarrow> name list" where
  "getKeys_flat keys m = keys @ map fst (cm_map m)"

section \<open>Updates of one entry\<close>

lemma upd_entry_keys [simp]: "map fst (upd_entry k f xs) = map fst xs"
  by (induction k f xs rule: upd_entry.induct) auto

lemma upd_entry_map_of: "map_of (upd_entry k f xs) = (map_of xs)(k := map_option f (map_of xs k))"
  by (induction k f xs rule: upd_entry.induct) (auto simp: fun_eq_iff)

lemma apply_entry_lockstep: "lockstep strings ok m \<Longrightarrow> lockstep strings ok (snd (apply_entry k f m))"
  by (simp add: apply_entry_def lockstep_def cm_keys_def)

lemma apply_entry_find:
  "cm_find j (snd (apply_entry k f m)) =
     (if j = k then map_option (\<lambda>v. snd (f v)) (cm_find k m) else cm_find j m)"
  by (simp add: apply_entry_def cm_find_def upd_entry_map_of)

lemma cachedAddString_find:
  assumes "reliable ops ok" "lockstep strings ok m"
  shows "\<exists>b. fst (cachedAddString ops k v m) = Inr b"
    and "cm_find j (snd (cachedAddString ops k v m)) =
      (if j = k \<and> cm_find k m = None then Some v else cm_find j m)"
proof -
  obtain b c where bc: "addString ops k (cm_matches m) = (b, c)" by (cases "addString ops k (cm_matches m)")
  have b: b using assms bc unfolding reliable_def lockstep_def by (metis fst_conv)
  show "\<exists>b. fst (cachedAddString ops k v m) = Inr b"
    by (cases "cm_find k m") (use b bc in \<open>auto simp: cachedAddString_def\<close>)
  show "cm_find j (snd (cachedAddString ops k v m)) = (if j = k \<and> cm_find k m = None then Some v else cm_find j m)"
    by (cases "cm_find k m") (use b bc in \<open>auto simp: cachedAddString_def cm_find_def map_add_def split: option.splits\<close>)
qed

lemma modify_ok:
  assumes L: "regex_cache ops rx strings ok" and R: "reliable ops ok" and m: "lockstep strings ok m"
    and e: "lockstep strings ok (env m)"
    and r: "modifyCounter ops env k f m = (res, m')"
    and base: "base = (if cm_find k m = None then env m else m)"
  shows "lockstep strings ok m'"
    and "res = Inr (fst (f (case cm_find k base of None \<Rightarrow> 0 | Some v \<Rightarrow> v)))"
    and "cm_find j m' = (if j = k then Some (snd (f (case cm_find k base of None \<Rightarrow> 0 | Some v \<Rightarrow> v))) else cm_find j base)"
proof -
  have "lockstep strings ok m' \<and> res = Inr (fst (f (case cm_find k base of None \<Rightarrow> 0 | Some v \<Rightarrow> v))) \<and>
    cm_find j m' = (if j = k then Some (snd (f (case cm_find k base of None \<Rightarrow> 0 | Some v \<Rightarrow> v))) else cm_find j base)"
  proof (cases "cm_find k m")
    case None
    obtain ins m1 where a: "cachedAddString ops k 0 (env m) = (ins, m1)" by (cases "cachedAddString ops k 0 (env m)")
    obtain b where b: "ins = Inr b" using cachedAddString_find(1)[OF R e, of k 0] a by auto
    have l1: "lockstep strings ok m1" using lockstep_add[OF L e, of k 0] a by simp
    have f1: "cm_find j m1 = (if j = k \<and> cm_find k (env m) = None then Some 0 else cm_find j (env m))" for j
      using cachedAddString_find(2)[OF R e, of j k 0] a by simp
    from r None a b have "res = Inr (fst (apply_entry k f m1))" "m' = snd (apply_entry k f m1)"
      by (auto simp: modifyCounter_def case_prod_beta)
    moreover have "fst (apply_entry k f m1) = fst (f (case cm_find k m1 of None \<Rightarrow> 0 | Some v \<Rightarrow> v))"
      by (simp add: apply_entry_def)
    ultimately show ?thesis using None base f1 apply_entry_lockstep[OF l1, of k f]
      by (auto simp: apply_entry_find split: option.splits)
  next
    case (Some v)
    with r have "res = Inr (fst (apply_entry k f m))" "m' = snd (apply_entry k f m)"
      by (auto simp: modifyCounter_def case_prod_beta)
    with Some base m show ?thesis by (auto simp: apply_entry_lockstep apply_entry_find) (simp add: apply_entry_def)
  qed
  then show "lockstep strings ok m'" "res = Inr (fst (f (case cm_find k base of None \<Rightarrow> 0 | Some v \<Rightarrow> v)))"
    "cm_find j m' = (if j = k then Some (snd (f (case cm_find k base of None \<Rightarrow> 0 | Some v \<Rightarrow> v))) else cm_find j base)"
    by blast+
qed

lemma clearCounter_ok:
  assumes "regex_cache ops rx strings ok" "lockstep strings ok m"
  shows "lockstep strings ok (clearCounter ops k m)"
    and "cm_find j (clearCounter ops k m) = (if j = k then None else cm_find j m)"
proof -
  show "lockstep strings ok (clearCounter ops k m)"
    using assms by (simp add: clearCounter_def lockstep_erase)
  have "map_of (filter (\<lambda>e. fst e \<noteq> k) xs) j = (if j = k then None else map_of xs j)" for j and xs :: "(name \<times> int64) list"
    by (induction xs) auto
  then show "cm_find j (clearCounter ops k m) = (if j = k then None else cm_find j m)"
    by (simp add: clearCounter_def cachedEraseString_def cm_find_def cm_erase_def)
qed

lemma zeroCounters_ok:
  "lockstep strings ok m \<Longrightarrow> lockstep strings ok (zeroCounters m)"
  "cm_find j (zeroCounters m) = map_option (\<lambda>v. 0) (cm_find j m)"
proof -
  have "map_of (map (\<lambda>e. (fst e, 0)) xs) j = map_option (\<lambda>v. 0) (map_of xs j)" for xs :: "(name \<times> int64) list"
    by (induction xs) auto
  then show "cm_find j (zeroCounters m) = map_option (\<lambda>v. 0) (cm_find j m)"
    by (simp add: zeroCounters_def cm_find_def)
qed (simp add: zeroCounters_def lockstep_def cm_keys_def comp_def)

section \<open>Results\<close>

datatype fc_op = FcAdd name int64 | FcSet name int64 | FcClear name | FcZero | FcTrim time_point

fun fc_exec :: "('c, 'h, 'r) cache_ops \<Rightarrow> fc_op \<Rightarrow> 'c counters \<Rightarrow> 'c counters" where
  "fc_exec ops (FcAdd k v) m = snd (incrementCounter ops id k v m)"
| "fc_exec ops (FcSet k v) m = snd (setCounter ops id k v m)"
| "fc_exec ops (FcClear k) m = clearCounter ops k m"
| "fc_exec ops FcZero m = zeroCounters m"
| "fc_exec ops (FcTrim t) m = cachedTrimStale ops t m"

fun fc_spec :: "fc_op \<Rightarrow> (name \<rightharpoonup> int64) \<Rightarrow> name \<rightharpoonup> int64" where
  "fc_spec (FcAdd k v) s = s(k \<mapsto> (case s k of None \<Rightarrow> 0 | Some x \<Rightarrow> x) + v)"
| "fc_spec (FcSet k v) s = s(k \<mapsto> v)"
| "fc_spec (FcClear k) s = s(k := None)"
| "fc_spec FcZero s = map_option (\<lambda>v. 0) \<circ> s"
| "fc_spec (FcTrim t) s = s"

lemma fc_exec_step:
  assumes L: "regex_cache ops rx strings ok" and R: "reliable ops ok" and m: "lockstep strings ok m"
  shows "lockstep strings ok (fc_exec ops x m) \<and> (\<lambda>k. cm_find k (fc_exec ops x m)) = fc_spec x (\<lambda>k. cm_find k m)"
proof -
  have i: "lockstep strings ok (id m)" using m by simp
  have M: "lockstep strings ok (snd (modifyCounter ops id k f m)) \<and>
      cm_find j (snd (modifyCounter ops id k f m)) =
        (if j = k then Some (snd (f (case cm_find k m of None \<Rightarrow> 0 | Some v \<Rightarrow> v))) else cm_find j m)" for j k f
  proof -
    obtain res m' where r: "modifyCounter ops id k f m = (res, m')" by (cases "modifyCounter ops id k f m")
    show ?thesis using modify_ok(1,3)[OF L R m i r refl] r by simp
  qed
  show ?thesis
  proof (cases x)
    case (FcAdd k v)
    show ?thesis using M unfolding FcAdd fc_exec.simps incrementCounter_def
      by (auto simp: fun_eq_iff split: option.splits)
  next
    case (FcSet k v)
    show ?thesis using M unfolding FcSet fc_exec.simps setCounter_def by (auto simp: fun_eq_iff)
  next
    case (FcClear k)
    with clearCounter_ok[OF L m] show ?thesis by (auto simp: fun_eq_iff)
  next
    case FcZero
    with m show ?thesis by (simp add: zeroCounters_ok fun_eq_iff)
  next
    case (FcTrim t)
    with lockstep_trim[OF L m] show ?thesis by (auto simp: cachedTrimStale_def cm_find_def)
  qed
qed

lemma fc_exec_run:
  assumes L: "regex_cache ops rx strings ok" and R: "reliable ops ok"
  shows "lockstep strings ok m \<Longrightarrow> lockstep strings ok (fold (fc_exec ops) xs m) \<and>
    (\<lambda>k. cm_find k (fold (fc_exec ops) xs m)) = fold fc_spec xs (\<lambda>k. cm_find k m)"
proof (induction xs arbitrary: m)
  case (Cons x xs)
  note S = fc_exec_step[OF L R Cons.prems, of x]
  with Cons.IH[OF conjunct1[OF S]] show ?case by simp
qed simp

text \<open>
  C35: The flat counters are one map from names to 64-bit values. After any sequence of increments, assignments,
  clears, \<open>zeroStats\<close> and cache trims on an empty \<open>ServiceData\<close>, with a regex cache that behaves as documented
  and memory not exhausted, every counter reads as the last assignment plus the increments since, modulo
  \<open>2\<^sup>6\<^sup>4\<close>, and the keys are listed once each.
\<close>
theorem flat_counters_refine:
  assumes "regex_cache ops rx strings ok" "reliable ops ok" "ok c" "strings c = {}"
    and "m = fold (fc_exec ops) xs \<lparr>cm_map = [], cm_matches = c\<rparr>"
  shows "(\<lambda>k. cm_find k m) = fold fc_spec xs Map.empty \<and>
    distinct (getKeys_flat [] m) \<and> set (getKeys_flat [] m) = dom (fold fc_spec xs Map.empty)"
proof -
  have "lockstep strings ok (\<lparr>cm_map = [], cm_matches = c\<rparr> :: 'a counters)"
    using assms(3,4) by (simp add: lockstep_def cm_keys_def)
  from fc_exec_run[OF assms(1,2) this, of xs] assms(5)
  have "lockstep strings ok m" and e: "(\<lambda>k. cm_find k m) = fold fc_spec xs Map.empty"
    by (simp_all add: cm_find_def)
  moreover have "set (getKeys_flat [] m) = dom (\<lambda>k. cm_find k m)"
    by (simp add: getKeys_flat_def cm_find_def dom_map_of_conv_image_fst)
  ultimately show ?thesis by (simp add: getKeys_flat_def lockstep_def cm_keys_def)
qed

theorem flat_counters_refine_witness:
  "cm_find ''a'' (fold (fc_exec (ready_cache (\<lambda>r s. r = s)))
     [FcAdd ''a'' 5, FcSet ''b'' (- 1), FcAdd ''a'' 2, FcAdd ''b'' 1, FcZero, FcAdd ''a'' 3, FcClear ''b'']
     \<lparr>cm_map = [], cm_matches = []\<rparr>) = Some 3"
proof -
  have "reliable (ready_cache (\<lambda>r s. r = s)) distinct" by (simp add: reliable_def ready_cache_def scan_cache_def)
  from flat_counters_refine[OF ready_cache_laws this _ _ refl, of "[]"
      "[FcAdd ''a'' 5, FcSet ''b'' (- 1), FcAdd ''a'' 2, FcAdd ''b'' 1, FcZero, FcAdd ''a'' 3, FcClear ''b'']"]
  show ?thesis by (simp add: fun_eq_iff)
qed

text \<open>
  No increment is lost to a race. Whatever other threads do to the map between the optimistic lookup under
  the shared lock and the upsert under the exclusive one, creating the same counter included,
  \<open>incrementCounter\<close> adds its amount to the value the counter then has, returns the new value and
  leaves every other counter alone.
\<close>
theorem increment_never_lost:
  fixes m :: "'c counters"
  assumes "regex_cache ops rx strings ok" "reliable ops ok" "lockstep strings ok m" "lockstep strings ok (env m)"
    and "incrementCounter ops env k amount m = (res, m')"
    and "base = (if cm_find k m = None then env m else m)"
  shows "res = Inr (case cm_find k base of None \<Rightarrow> amount | Some v \<Rightarrow> v + amount) \<and>
    (\<forall>j. cm_find j m' = (if j = k then Some (case cm_find k base of None \<Rightarrow> amount | Some v \<Rightarrow> v + amount)
                        else cm_find j base)) \<and> lockstep strings ok m'"
  using modify_ok[OF assms(1-4) assms(5)[unfolded incrementCounter_def] assms(6)]
  by (auto split: option.splits)

theorem increment_never_lost_witness:
  "fst (incrementCounter (ready_cache (\<lambda>r s. r = s)) (\<lambda>m. \<lparr>cm_map = [(''a'', 40)], cm_matches = [''a'']\<rparr>) ''a'' 2
     \<lparr>cm_map = [], cm_matches = []\<rparr>) = Inr 42"
proof -
  have r: "reliable (ready_cache (\<lambda>r s. r = s)) distinct" by (simp add: reliable_def ready_cache_def scan_cache_def)
  let ?m = "\<lparr>cm_map = [], cm_matches = []\<rparr> :: name list counters"
  let ?e = "\<lambda>m. \<lparr>cm_map = [(''a'', 40)], cm_matches = [''a'']\<rparr> :: name list counters"
  obtain res m' where i: "incrementCounter (ready_cache (\<lambda>r s. r = s)) ?e ''a'' 2 ?m = (res, m')"
    by (cases "incrementCounter (ready_cache (\<lambda>r s. r = s)) ?e ''a'' 2 ?m")
  show ?thesis using increment_never_lost[OF ready_cache_laws r _ _ i refl] i
    by (simp add: lockstep_def cm_keys_def cm_find_def)
qed

end
