(* ===== verification/HistExport.thy ===== *)
theory HistExport
  imports StatExport
begin

text \<open>
  \<open>HistogramExporter\<close> (\<^verbatim>\<open>fb303/HistogramExporter.cpp\<close>) and \<open>ExportedHistogramMap\<close>
  (\<^verbatim>\<open>fb303/ExportedHistogramMap.h\<close>, \<^verbatim>\<open>fb303/ExportedHistogramMap.cpp\<close>,
  \<^verbatim>\<open>fb303/ExportedHistogramMapImpl.cpp\<close>): histograms by name. Creating one exports its buckets as strings;
  percentiles and statistics are exported as counters on request. Unlike a stat's, these registrations
  overwrite. A failed \<open>CHECK\<close> ends the process and is the outcome \<open>Abort\<close>. The callbacks update a copy of the
  histogram they read: what \<open>update\<close> leaves behind is decayed data, which the next reader decays again.
\<close>

section \<open>Callbacks\<close>

datatype failure = Thrown rx_error | Abort

type_synonym ('a, 's, 'h, 'c) hout = "(failure + 'a) \<times> ('s, 'h, 'c) sdata"

definition mod_hist :: "ptr \<Rightarrow> ('h \<Rightarrow> 'h) \<Rightarrow> ('s, 'h, 'c) sdata \<Rightarrow> ('s, 'h, 'c) sdata" where
  "mod_hist p f s = s\<lparr>wld := (wld s)\<lparr>hist_heap := (hist_heap (wld s))(p := f (hist_heap (wld s) p))\<rparr>\<rparr>"

definition getHistogramBuckets :: "('h, 's, 'l) histogram_ops \<Rightarrow> ptr \<Rightarrow> nat \<Rightarrow> ('s, 'h) stat_world \<Rightarrow> string" where
  "getHistogramBuckets ho p lev w = h_string ho lev (h_update ho (clock w) (hist_heap w p))"

definition getHistogramStat ::
  "('h, 's, 'l) histogram_ops \<Rightarrow> ptr \<Rightarrow> nat \<Rightarrow> export_type \<Rightarrow> ('s, 'h) stat_world \<Rightarrow> int64" where
  "getHistogramStat ho p lev type w =
     (let h = h_update ho (clock w) (hist_heap w p)
      in case type of
           ESUM \<Rightarrow> h_sum ho lev h
         | COUNT \<Rightarrow> h_count ho lev h
         | AVG \<Rightarrow> h_avg ho lev h
         | RATE \<Rightarrow> h_rate ho lev h
         | PERCENT \<Rightarrow> h_pct ho lev h)"

definition getHistogramPercentile ::
  "('h, 's, 'l) histogram_ops \<Rightarrow> ptr \<Rightarrow> nat \<Rightarrow> int \<Rightarrow> ('s, 'h) stat_world \<Rightarrow> int64" where
  "getHistogramPercentile ho p lev percentile w =
     h_percentile ho percentile lev (h_update ho (clock w) (hist_heap w p))"

section \<open>HistogramExporter\<close>

definition exportBuckets ::
  "('s, 'h, 'l, 'c, 'p, 'r) params \<Rightarrow> ptr \<Rightarrow> name \<Rightarrow> ('s, 'h, 'c) sdata \<Rightarrow> (unit, 's, 'h, 'c) hout" where
  "exportBuckets P p nm s =
     (let h = hist_heap (wld s) p
      in if h_numBuckets (hops P) h = 0 then (Inl Abort, s)
         else
           (let (r, ds) = register_all (\<lambda>n cb. registerCallback (cops P) (hashf P) n cb True)
                  (map (\<lambda>(i, lev). (bucket_name nm lev, getHistogramBuckets (hops P) p i)) (enumerate 0 (h_levels (hops P) h)))
                  (dynamicStrings s)
            in (map_sum Thrown id r, s\<lparr>dynamicStrings := ds\<rparr>)))"

definition forEachPercentileName ::
  "('s, 'h, 'l, 'c, 'p, 'r) params \<Rightarrow> ptr \<Rightarrow> name \<Rightarrow> int \<Rightarrow> ('s, 'h, 'c) sdata \<Rightarrow> (name \<times> nat) list option" where
  "forEachPercentileName P p nm percentile s =
     (let h = hist_heap (wld s) p
      in if h_numBuckets (hops P) h = 0 \<or> percentile < 0 \<or> 100 < percentile then None
         else Some (map (\<lambda>(i, lev). (percentile_name nm percentile lev, i)) (enumerate 0 (h_levels (hops P) h))))"

definition exportPercentile_hist ::
  "('s, 'h, 'l, 'c, 'p, 'r) params \<Rightarrow> ptr \<Rightarrow> name \<Rightarrow> int \<Rightarrow> ('s, 'h, 'c) sdata \<Rightarrow> (unit, 's, 'h, 'c) hout" where
  "exportPercentile_hist P p nm percentile s =
     (case forEachPercentileName P p nm percentile s of
        None \<Rightarrow> (Inl Abort, s)
      | Some ns \<Rightarrow>
          (let (r, dc) = register_all (\<lambda>n cb. registerCallback (cops P) (hashf P) n cb True)
                 (map (\<lambda>(k, i). (k, getHistogramPercentile (hops P) p i percentile)) ns) (dynamicCounters s)
           in (map_sum Thrown id r, s\<lparr>dynamicCounters := dc\<rparr>)))"

definition unexportPercentile_hist ::
  "('s, 'h, 'l, 'c, 'p, 'r) params \<Rightarrow> ptr \<Rightarrow> name \<Rightarrow> int \<Rightarrow> ('s, 'h, 'c) sdata \<Rightarrow> (unit, 's, 'h, 'c) hout" where
  "unexportPercentile_hist P p nm percentile s =
     (case forEachPercentileName P p nm percentile s of
        None \<Rightarrow> (Inl Abort, s)
      | Some ns \<Rightarrow>
          (Inr (), s\<lparr>dynamicCounters := unregister_all (unregisterCallback (cops P) (hashf P)) (map fst ns) (dynamicCounters s)\<rparr>))"

definition forEachStatName ::
  "('s, 'h, 'l, 'c, 'p, 'r) params \<Rightarrow> ptr \<Rightarrow> name \<Rightarrow> export_type \<Rightarrow> ('s, 'h, 'c) sdata \<Rightarrow> (name \<times> nat) list" where
  "forEachStatName P p nm type s =
     map (\<lambda>(i, lev). (getCounterName (length nm + 50) nm type lev, i)) (enumerate 0 (h_levels (hops P) (hist_heap (wld s) p)))"

definition exportStat_hist ::
  "('s, 'h, 'l, 'c, 'p, 'r) params \<Rightarrow> ptr \<Rightarrow> name \<Rightarrow> export_type \<Rightarrow> ('s, 'h, 'c) sdata \<Rightarrow> (unit, 's, 'h, 'c) hout" where
  "exportStat_hist P p nm type s =
     (let (r, dc) = register_all (\<lambda>n cb. registerCallback (cops P) (hashf P) n cb True)
            (map (\<lambda>(k, i). (k, getHistogramStat (hops P) p i type)) (forEachStatName P p nm type s)) (dynamicCounters s)
      in (map_sum Thrown id r, s\<lparr>dynamicCounters := dc\<rparr>))"

definition unexportStat_hist ::
  "('s, 'h, 'l, 'c, 'p, 'r) params \<Rightarrow> ptr \<Rightarrow> name \<Rightarrow> export_type \<Rightarrow> ('s, 'h, 'c) sdata \<Rightarrow> ('s, 'h, 'c) sdata" where
  "unexportStat_hist P p nm type s =
     s\<lparr>dynamicCounters := unregister_all (unregisterCallback (cops P) (hashf P)) (map fst (forEachStatName P p nm type s)) (dynamicCounters s)\<rparr>"

section \<open>ExportedHistogramMap\<close>

definition getHistogramUnlocked :: "name \<Rightarrow> ('s, 'h, 'c) sdata \<Rightarrow> ptr option" where
  "getHistogramUnlocked nm s = map_of (histMap s) nm"

definition ehm_contains :: "name \<Rightarrow> ('s, 'h, 'c) sdata \<Rightarrow> bool" where
  "ehm_contains nm s \<longleftrightarrow> map_of (histMap s) nm \<noteq> None"

definition hist_insert :: "name \<Rightarrow> 'h \<Rightarrow> ('s, 'h, 'c) sdata \<Rightarrow> ('s, 'h, 'c) sdata" where
  "hist_insert nm h s =
     (mod_hist (next_ptr s) (\<lambda>_. h) s)\<lparr>next_ptr := next_ptr s + 1, histMap := histMap s @ [(nm, next_ptr s)]\<rparr>"

definition getOrCreateUnlocked ::
  "('s, 'h, 'l, 'c, 'p, 'r) params \<Rightarrow> name \<Rightarrow> 'h \<Rightarrow> ('s, 'h, 'c) sdata \<Rightarrow> (ptr \<times> bool, 's, 'h, 'c) hout" where
  "getOrCreateUnlocked P nm makeExportedHistogram s =
     (case getHistogramUnlocked nm s of
        Some p \<Rightarrow> (Inr (p, False), s)
      | None \<Rightarrow>
          (case exportBuckets P (next_ptr s) nm (hist_insert nm makeExportedHistogram s) of
             (Inl e, s1) \<Rightarrow> (Inl e, s1)
           | (Inr _, s1) \<Rightarrow> (Inr (next_ptr s, True), s1)))"

text \<open>\<open>checkAdd\<close> is whether an error is logged.\<close>

definition checkAdd ::
  "('s, 'h, 'l, 'c, 'p, 'r) params \<Rightarrow> ptr \<Rightarrow> int64 \<Rightarrow> int64 \<Rightarrow> int64 \<Rightarrow> ('s, 'h, 'c) sdata \<Rightarrow> bool" where
  "checkAdd P p bucketWidth mn mx s =
     (let (b, l, u) = h_params (hops P) (hist_heap (wld s) p) in b \<noteq> bucketWidth \<or> l \<noteq> mn \<or> u \<noteq> mx)"

definition addHistogram_copy ::
  "('s, 'h, 'l, 'c, 'p, 'r) params \<Rightarrow> name \<Rightarrow> 'h \<Rightarrow> ('s, 'h, 'c) sdata \<Rightarrow> (bool \<times> bool, 's, 'h, 'c) hout" where
  "addHistogram_copy P nm copyMe s =
     (case getOrCreateUnlocked P nm (h_clear (hops P) copyMe) s of
        (Inl e, s1) \<Rightarrow> (Inl e, s1)
      | (Inr (p, created), s1) \<Rightarrow>
          (Inr (created,
             \<not> created \<and> (let (b, l, u) = h_params (hops P) copyMe in checkAdd P p b l u s1)), s1))"

definition addHistogram ::
  "('s, 'h, 'l, 'c, 'p, 'r) params \<Rightarrow> name \<Rightarrow> int64 \<Rightarrow> int64 \<Rightarrow> int64 \<Rightarrow> ('s, 'h, 'c) sdata \<Rightarrow> (bool, 's, 'h, 'c) hout" where
  "addHistogram P nm bucketWidth mn mx s =
     (if map_of (histMap s) nm \<noteq> None then (Inr False, s)
      else
        (case exportBuckets P (next_ptr s) nm (hist_insert nm (h_make (hops P) bucketWidth mn mx (histDefaultStat s)) s) of
           (Inl e, s1) \<Rightarrow> (Inl e, s1)
         | (Inr _, s1) \<Rightarrow> (Inr True, s1)))"

definition exportPercentile ::
  "('s, 'h, 'l, 'c, 'p, 'r) params \<Rightarrow> name \<Rightarrow> int \<Rightarrow> ('s, 'h, 'c) sdata \<Rightarrow> (bool, 's, 'h, 'c) hout" where
  "exportPercentile P nm percentile s =
     (case getHistogramUnlocked nm s of
        None \<Rightarrow> (Inr False, s)
      | Some p \<Rightarrow>
          (case exportPercentile_hist P p nm percentile s of
             (Inl e, s1) \<Rightarrow> (Inl e, s1)
           | (Inr _, s1) \<Rightarrow> (Inr True, s1)))"

definition unexportPercentile ::
  "('s, 'h, 'l, 'c, 'p, 'r) params \<Rightarrow> name \<Rightarrow> int \<Rightarrow> ('s, 'h, 'c) sdata \<Rightarrow> (unit, 's, 'h, 'c) hout" where
  "unexportPercentile P nm percentile s =
     (case getHistogramUnlocked nm s of
        None \<Rightarrow> (Inr (), s)
      | Some p \<Rightarrow> unexportPercentile_hist P p nm percentile s)"

definition exportStat_type ::
  "('s, 'h, 'l, 'c, 'p, 'r) params \<Rightarrow> name \<Rightarrow> export_type \<Rightarrow> ('s, 'h, 'c) sdata \<Rightarrow> (bool, 's, 'h, 'c) hout" where
  "exportStat_type P nm type s =
     (case getHistogramUnlocked nm s of
        None \<Rightarrow> (Inr False, s)
      | Some p \<Rightarrow>
          (case exportStat_hist P p nm type s of
             (Inl e, s1) \<Rightarrow> (Inl e, s1)
           | (Inr _, s1) \<Rightarrow> (Inr True, s1)))"

definition unexportStat_type ::
  "('s, 'h, 'l, 'c, 'p, 'r) params \<Rightarrow> name \<Rightarrow> export_type \<Rightarrow> ('s, 'h, 'c) sdata \<Rightarrow> ('s, 'h, 'c) sdata" where
  "unexportStat_type P nm type s =
     (case getHistogramUnlocked nm s of
        None \<Rightarrow> s
      | Some p \<Rightarrow> unexportStat_hist P p nm type s)"

text \<open>The overloads: an argument is an export type or a percentile, and several are taken in turn.\<close>

datatype export_arg = Type export_type | Percentile int

fun exportStat_arg ::
  "('s, 'h, 'l, 'c, 'p, 'r) params \<Rightarrow> name \<Rightarrow> export_arg \<Rightarrow> ('s, 'h, 'c) sdata \<Rightarrow> (bool, 's, 'h, 'c) hout" where
  "exportStat_arg P nm (Type t) s = exportStat_type P nm t s"
| "exportStat_arg P nm (Percentile p) s = exportPercentile P nm p s"

fun exportStat_args ::
  "('s, 'h, 'l, 'c, 'p, 'r) params \<Rightarrow> name \<Rightarrow> export_arg list \<Rightarrow> ('s, 'h, 'c) sdata \<Rightarrow> (bool, 's, 'h, 'c) hout" where
  "exportStat_args P nm [] s = (Inr True, s)"
| "exportStat_args P nm (a # as) s =
     (case exportStat_arg P nm a s of
        (Inl e, s1) \<Rightarrow> (Inl e, s1)
      | (Inr b, s1) \<Rightarrow> if b then exportStat_args P nm as s1 else (Inr False, s1))"

fun unexportStat_arg ::
  "('s, 'h, 'l, 'c, 'p, 'r) params \<Rightarrow> name \<Rightarrow> export_arg \<Rightarrow> ('s, 'h, 'c) sdata \<Rightarrow> (unit, 's, 'h, 'c) hout" where
  "unexportStat_arg P nm (Type t) s = (Inr (), unexportStat_type P nm t s)"
| "unexportStat_arg P nm (Percentile p) s = unexportPercentile P nm p s"

fun unexportStat_args ::
  "('s, 'h, 'l, 'c, 'p, 'r) params \<Rightarrow> name \<Rightarrow> export_arg list \<Rightarrow> ('s, 'h, 'c) sdata \<Rightarrow> (unit, 's, 'h, 'c) hout" where
  "unexportStat_args P nm [] s = (Inr (), s)"
| "unexportStat_args P nm (a # as) s =
     (case unexportStat_arg P nm a s of
        (Inl e, s1) \<Rightarrow> (Inl e, s1)
      | (Inr _, s1) \<Rightarrow> unexportStat_args P nm as s1)"

text \<open>Values for a name that has no histogram are dropped.\<close>

definition with_hist :: "name \<Rightarrow> ('h \<Rightarrow> 'h) \<Rightarrow> ('s, 'h, 'c) sdata \<Rightarrow> ('s, 'h, 'c) sdata" where
  "with_hist nm f s = (case getHistogramUnlocked nm s of None \<Rightarrow> s | Some p \<Rightarrow> mod_hist p f s)"

definition ehm_addValue ::
  "('s, 'h, 'l, 'c, 'p, 'r) params \<Rightarrow> name \<Rightarrow> secs \<Rightarrow> int64 \<Rightarrow> int64 \<Rightarrow> ('s, 'h, 'c) sdata \<Rightarrow> ('s, 'h, 'c) sdata" where
  "ehm_addValue P nm now value n s = with_hist nm (h_addValue (hops P) now value n) s"

definition ehm_addValues ::
  "('s, 'h, 'l, 'c, 'p, 'r) params \<Rightarrow> name \<Rightarrow> secs \<Rightarrow> 'l \<Rightarrow> ('s, 'h, 'c) sdata \<Rightarrow> ('s, 'h, 'c) sdata" where
  "ehm_addValues P nm now values s = with_hist nm (h_addValues (hops P) now values) s"

text \<open>The loop of \<open>addValues\<close> ignores what \<open>exportPercentile\<close> returns.\<close>

fun export_each ::
  "('s, 'h, 'l, 'c, 'p, 'r) params \<Rightarrow> name \<Rightarrow> int list \<Rightarrow> ('s, 'h, 'c) sdata \<Rightarrow> (unit, 's, 'h, 'c) hout" where
  "export_each P nm [] s = (Inr (), s)"
| "export_each P nm (p # ps) s =
     (case exportPercentile P nm p s of
        (Inl e, s1) \<Rightarrow> (Inl e, s1)
      | (Inr _, s1) \<Rightarrow> export_each P nm ps s1)"

definition ehm_addValues_export ::
  "('s, 'h, 'l, 'c, 'p, 'r) params \<Rightarrow> name \<Rightarrow> secs \<Rightarrow> 'l \<Rightarrow> 'h option \<Rightarrow> int list \<Rightarrow> ('s, 'h, 'c) sdata \<Rightarrow> (unit, 's, 'h, 'c) hout"
where
  "ehm_addValues_export P nm now values hist percentiles s =
     (case getOrCreateUnlocked P nm (case hist of Some h \<Rightarrow> h_clear (hops P) h | None \<Rightarrow> defaultHist s) s of
        (Inl e, s1) \<Rightarrow> (Inl e, s1)
      | (Inr (_, created), s1) \<Rightarrow>
          (case (if created then export_each P nm percentiles s1 else (Inr (), s1)) of
             (Inl e, s2) \<Rightarrow> (Inl e, s2)
           | (Inr _, s2) \<Rightarrow> (Inr (), ehm_addValues P nm now values s2)))"

definition clearHistogram ::
  "('s, 'h, 'l, 'c, 'p, 'r) params \<Rightarrow> name \<Rightarrow> ('s, 'h, 'c) sdata \<Rightarrow> ('s, 'h, 'c) sdata" where
  "clearHistogram P nm s = with_hist nm (h_clear (hops P)) s"

definition clearAllHistograms :: "('s, 'h, 'l, 'c, 'p, 'r) params \<Rightarrow> ('s, 'h, 'c) sdata \<Rightarrow> ('s, 'h, 'c) sdata" where
  "clearAllHistograms P s = fold (\<lambda>e. mod_hist (snd e) (h_clear (hops P))) (histMap s) s"

definition forgetAllHistograms :: "('s, 'h, 'c) sdata \<Rightarrow> ('s, 'h, 'c) sdata" where
  "forgetAllHistograms s = s\<lparr>histMap := []\<rparr>"

definition forgetHistogramsFor :: "name \<Rightarrow> ('s, 'h, 'c) sdata \<Rightarrow> ('s, 'h, 'c) sdata" where
  "forgetHistogramsFor nm s = s\<lparr>histMap := filter (\<lambda>e. fst e \<noteq> nm) (histMap s)\<rparr>"

definition setDefaultHistogram :: "'h \<Rightarrow> ('s, 'h, 'c) sdata \<Rightarrow> ('s, 'h, 'c) sdata" where
  "setDefaultHistogram copyMe s = s\<lparr>defaultHist := copyMe\<rparr>"

definition setDefaultStat_hist :: "'s \<Rightarrow> ('s, 'h, 'c) sdata \<Rightarrow> ('s, 'h, 'c) sdata" where
  "setDefaultStat_hist st s = s\<lparr>histDefaultStat := st\<rparr>"

section \<open>Effects on the registries\<close>

lemma mod_hist_simps [simp]:
  "dynamicCounters (mod_hist p f s) = dynamicCounters s" "dynamicStrings (mod_hist p f s) = dynamicStrings s"
  "statMap (mod_hist p f s) = statMap s" "next_ptr (mod_hist p f s) = next_ptr s" "histMap (mod_hist p f s) = histMap s"
  "stat_heap (wld (mod_hist p f s)) = stat_heap (wld s)" "clock (wld (mod_hist p f s)) = clock (wld s)"
  "hist_heap (wld (mod_hist p f s)) = (hist_heap (wld s))(p := f (hist_heap (wld s) p))"
  by (simp_all add: mod_hist_def)

lemma good_mod_hist [simp]: "sdata_good P rx strings ok (mod_hist p f s) = sdata_good P rx strings ok s"
  by (simp add: sdata_good_def)

lemma bound_mod_hist [simp]: "bound P (mod_hist p f s) = bound P s"
  by (simp add: bound_def)

definition bound_string :: "('s, 'h, 'l, 'c, 'p, 'r) params \<Rightarrow> ('s, 'h, 'c) sdata \<Rightarrow> name \<rightharpoonup> (('s, 'h) stat_world \<Rightarrow> string)" where
  "bound_string P s = lookup (hashf P) (dynamicStrings s)"

lemma bound_string_mod_hist [simp]: "bound_string P (mod_hist p f s) = bound_string P s"
  by (simp add: bound_string_def)

text \<open>Registering callbacks by level: distinct levels give each name its own callback.\<close>

definition by_level :: "(level \<Rightarrow> name) \<Rightarrow> (nat \<Rightarrow> 'cb) \<Rightarrow> level list \<Rightarrow> (name \<times> 'cb) list" where
  "by_level nmf cb ls = map (\<lambda>(i, lev). (nmf lev, cb i)) (enumerate 0 ls)"

lemma by_level_nth: "by_level nmf cb ls = map (\<lambda>i. (nmf (ls ! i), cb i)) [0..<length ls]"
  by (rule nth_equalityI) (simp_all add: by_level_def nth_enumerate_eq)

lemma by_level_map:
  assumes "inj_on nmf (set ls)" "distinct ls" "i < length ls"
  shows "map_of (rev (by_level nmf cb ls)) (nmf (ls ! i)) = Some (cb i)"
proof (rule map_of_unique)
  show "(nmf (ls ! i), cb i) \<in> set (rev (by_level nmf cb ls))" using assms(3) by (auto simp: by_level_nth)
  fix v assume "(nmf (ls ! i), v) \<in> set (rev (by_level nmf cb ls))"
  then obtain j where "j < length ls" "nmf (ls ! i) = nmf (ls ! j)" "v = cb j" by (auto simp: by_level_nth)
  with assms show "v = cb i" by (metis inj_onD nth_eq_iff_index_eq nth_mem)
qed

lemma exportBuckets_ok:
  assumes "sdata_good P rx strings ok s" "h_numBuckets (hops P) (hist_heap (wld s) p) \<noteq> 0"
  shows "\<exists>ds. exportBuckets P p nm s = (Inr (), s\<lparr>dynamicStrings := ds\<rparr>) \<and> sdata_good P rx strings ok (s\<lparr>dynamicStrings := ds\<rparr>) \<and>
    bound_string P (s\<lparr>dynamicStrings := ds\<rparr>) = bound_string P s ++
      map_of (rev (by_level (bucket_name nm) (getHistogramBuckets (hops P) p) (h_levels (hops P) (hist_heap (wld s) p))))"
proof -
  have g: "cvm_good (cops P) rx (hashf P) strings ok (dynamicStrings s)" using assms by (simp add: sdata_good_def)
  obtain d where "register_all (\<lambda>n cb. registerCallback (cops P) (hashf P) n cb True)
      (by_level (bucket_name nm) (getHistogramBuckets (hops P) p) (h_levels (hops P) (hist_heap (wld s) p))) (dynamicStrings s) = (Inr (), d)"
    "cvm_good (cops P) rx (hashf P) strings ok d" "lookup (hashf P) d = lookup (hashf P) (dynamicStrings s) ++ map_of (rev (by_level (bucket_name nm) (getHistogramBuckets (hops P) p) (h_levels (hops P) (hist_heap (wld s) p))))"
    using cbs.register_over[OF g] by blast
  with assms show ?thesis by (auto simp: exportBuckets_def by_level_def sdata_good_def bound_string_def)
qed

lemma exportPercentile_hist_ok:
  assumes "sdata_good P rx strings ok s" "h_numBuckets (hops P) (hist_heap (wld s) p) \<noteq> 0" "0 \<le> q" "q \<le> 100"
  shows "\<exists>dc. exportPercentile_hist P p nm q s = (Inr (), s\<lparr>dynamicCounters := dc\<rparr>) \<and> sdata_good P rx strings ok (s\<lparr>dynamicCounters := dc\<rparr>) \<and>
    bound P (s\<lparr>dynamicCounters := dc\<rparr>) = bound P s ++
      map_of (rev (by_level (percentile_name nm q) (\<lambda>i. getHistogramPercentile (hops P) p i q) (h_levels (hops P) (hist_heap (wld s) p))))"
proof -
  have g: "cvm_good (cops P) rx (hashf P) strings ok (dynamicCounters s)" using assms by (simp add: sdata_good_def)
  obtain d where "register_all (\<lambda>n cb. registerCallback (cops P) (hashf P) n cb True)
      (by_level (percentile_name nm q) (\<lambda>i. getHistogramPercentile (hops P) p i q) (h_levels (hops P) (hist_heap (wld s) p))) (dynamicCounters s) = (Inr (), d)"
    "cvm_good (cops P) rx (hashf P) strings ok d" "lookup (hashf P) d = lookup (hashf P) (dynamicCounters s) ++ map_of (rev (by_level (percentile_name nm q) (\<lambda>i. getHistogramPercentile (hops P) p i q) (h_levels (hops P) (hist_heap (wld s) p))))"
    using cbs.register_over[OF g] by blast
  with assms show ?thesis by (auto simp: exportPercentile_hist_def forEachPercentileName_def by_level_def sdata_good_def bound_def o_def case_prod_unfold)
qed

lemma exportStat_hist_ok:
  assumes "sdata_good P rx strings ok s"
  shows "\<exists>dc. exportStat_hist P p nm t s = (Inr (), s\<lparr>dynamicCounters := dc\<rparr>) \<and> sdata_good P rx strings ok (s\<lparr>dynamicCounters := dc\<rparr>) \<and>
    bound P (s\<lparr>dynamicCounters := dc\<rparr>) = bound P s ++
      map_of (rev (by_level (stat_counter nm t) (\<lambda>i. getHistogramStat (hops P) p i t) (h_levels (hops P) (hist_heap (wld s) p))))"
proof -
  have g: "cvm_good (cops P) rx (hashf P) strings ok (dynamicCounters s)" using assms by (simp add: sdata_good_def)
  obtain d where "register_all (\<lambda>n cb. registerCallback (cops P) (hashf P) n cb True)
      (by_level (stat_counter nm t) (\<lambda>i. getHistogramStat (hops P) p i t) (h_levels (hops P) (hist_heap (wld s) p))) (dynamicCounters s) = (Inr (), d)"
    "cvm_good (cops P) rx (hashf P) strings ok d" "lookup (hashf P) d = lookup (hashf P) (dynamicCounters s) ++ map_of (rev (by_level (stat_counter nm t) (\<lambda>i. getHistogramStat (hops P) p i t) (h_levels (hops P) (hist_heap (wld s) p))))"
    using cbs.register_over[OF g] by blast
  with assms show ?thesis by (auto simp: exportStat_hist_def forEachStatName_def by_level_def sdata_good_def bound_def o_def case_prod_unfold
      stat_counter_def kNameSize_def)
qed

section \<open>Names of percentiles\<close>

lemma percentile_name_inj:
  assumes "percentile_name nm p l = percentile_name nm q m"
  shows "p = q \<and> l = m"
proof -
  define rest where "rest l = (case l of None \<Rightarrow> [] | Some d \<Rightarrow> CHR ''.'' # show_int d)" for l :: level
  have n: "percentile_name nm p l = nm @ ''.p'' @ show_int p @ rest l" for p l
    by (cases l) (simp_all add: percentile_name_def rest_def)
  have t: "takeWhile (\<lambda>c. c \<noteq> CHR ''.'') (show_int p @ rest l) = show_int p" for p l
    using no_dot_int[of p] by (cases l) (auto simp: rest_def takeWhile_append takeWhile_eq_all_conv)
  have e: "show_int p @ rest l = show_int q @ rest m" using assms by (simp add: n)
  then have pq: "show_int p = show_int q" using t by metis
  then have "rest l = rest m" using e by simp
  then have "l = m" using parse_show_int
    by (cases l; cases m) (auto simp: rest_def, metis option.inject)
  moreover have "p = q" using pq parse_show_int by (metis option.inject)
  ultimately show ?thesis by simp
qed

lemma bucket_name_inj: "bucket_name nm l = bucket_name nm m \<Longrightarrow> l = m"
  using parse_show_int by (cases l; cases m) (auto simp: bucket_name_def, metis option.inject)

section \<open>Exporting percentiles\<close>

definition percentile_bindings ::
  "('s, 'h, 'l, 'c, 'p, 'r) params \<Rightarrow> ptr \<Rightarrow> name \<Rightarrow> 'h \<Rightarrow> int \<Rightarrow> (name \<times> (('s, 'h) stat_world \<Rightarrow> int64)) list" where
  "percentile_bindings P p nm h q =
     rev (by_level (percentile_name nm q) (\<lambda>i. getHistogramPercentile (hops P) p i q) (h_levels (hops P) h))"

lemma export_each_ok:
  assumes "sdata_good P rx strings ok s" "map_of (histMap s) nm = Some p"
    "h_numBuckets (hops P) (hist_heap (wld s) p) \<noteq> 0" "list_all (\<lambda>q. 0 \<le> q \<and> q \<le> 100) qs"
  shows "\<exists>dc. export_each P nm qs s = (Inr (), s\<lparr>dynamicCounters := dc\<rparr>) \<and> sdata_good P rx strings ok (s\<lparr>dynamicCounters := dc\<rparr>) \<and>
    bound P (s\<lparr>dynamicCounters := dc\<rparr>) =
      bound P s ++ map_of (concat (map (percentile_bindings P p nm (hist_heap (wld s) p)) (rev qs)))"
  using assms
proof (induction qs arbitrary: s)
  case Nil
  then show ?case by (auto intro!: exI[of _ "dynamicCounters s"])
next
  case (Cons q qs)
  let ?h = "hist_heap (wld s) p"
  obtain dc where dc: "exportPercentile_hist P p nm q s = (Inr (), s\<lparr>dynamicCounters := dc\<rparr>)"
    "sdata_good P rx strings ok (s\<lparr>dynamicCounters := dc\<rparr>)"
    "bound P (s\<lparr>dynamicCounters := dc\<rparr>) = bound P s ++ map_of (percentile_bindings P p nm ?h q)"
    using exportPercentile_hist_ok[OF Cons.prems(1,3), of q nm] Cons.prems(4) by (auto simp: percentile_bindings_def)
  obtain dc' where dc': "export_each P nm qs (s\<lparr>dynamicCounters := dc\<rparr>) = (Inr (), s\<lparr>dynamicCounters := dc'\<rparr>)"
    "sdata_good P rx strings ok (s\<lparr>dynamicCounters := dc'\<rparr>)"
    "bound P (s\<lparr>dynamicCounters := dc'\<rparr>) =
       bound P (s\<lparr>dynamicCounters := dc\<rparr>) ++ map_of (concat (map (percentile_bindings P p nm ?h) (rev qs)))"
    using Cons.IH[OF dc(2)] Cons.prems by auto
  have "export_each P nm (q # qs) s = (Inr (), s\<lparr>dynamicCounters := dc'\<rparr>)"
    using dc(1) dc'(1) Cons.prems(2) by (simp add: exportPercentile_def getHistogramUnlocked_def)
  with dc'(2,3) dc(3) show ?case by auto
qed

lemma percentile_bindings_map:
  assumes "distinct (h_levels (hops P) h)" "q \<in> set qs" "i < length (h_levels (hops P) h)"
  shows "map_of (concat (map (percentile_bindings P p nm h) qs)) (percentile_name nm q (h_levels (hops P) h ! i)) =
    Some (getHistogramPercentile (hops P) p i q)"
proof (rule map_of_unique)
  let ?l = "h_levels (hops P) h"
  show "(percentile_name nm q (?l ! i), getHistogramPercentile (hops P) p i q) \<in> set (concat (map (percentile_bindings P p nm h) qs))"
    using assms by (auto simp: percentile_bindings_def by_level_nth intro!: bexI[of _ q])
  fix cb assume "(percentile_name nm q (?l ! i), cb) \<in> set (concat (map (percentile_bindings P p nm h) qs))"
  then obtain r j where r: "j < length ?l" "percentile_name nm q (?l ! i) = percentile_name nm r (?l ! j)"
    "cb = getHistogramPercentile (hops P) p j r" by (auto simp: percentile_bindings_def by_level_nth)
  with percentile_name_inj[OF r(2)] assms show "cb = getHistogramPercentile (hops P) p i q"
    by (simp add: nth_eq_iff_index_eq)
qed

lemma hist_insert_simps [simp]:
  "next_ptr (hist_insert nm h s) = next_ptr s + 1" "histMap (hist_insert nm h s) = histMap s @ [(nm, next_ptr s)]"
  "hist_heap (wld (hist_insert nm h s)) = (hist_heap (wld s))(next_ptr s := h)"
  "dynamicCounters (hist_insert nm h s) = dynamicCounters s" "dynamicStrings (hist_insert nm h s) = dynamicStrings s"
  "sdata_good P rx strings ok (hist_insert nm h s) = sdata_good P rx strings ok s"
  "bound P (hist_insert nm h s) = bound P s" "bound_string P (hist_insert nm h s) = bound_string P s"
  by (simp_all add: hist_insert_def sdata_good_def bound_def bound_string_def)

lemma getOrCreate_new:
  assumes "sdata_good P rx strings ok s" "map_of (histMap s) nm = None" "h_numBuckets (hops P) h \<noteq> 0"
  obtains s' where "getOrCreateUnlocked P nm h s = (Inr (next_ptr s, True), s')" "sdata_good P rx strings ok s'"
    "histMap s' = histMap s @ [(nm, next_ptr s)]" "hist_heap (wld s') = (hist_heap (wld s))(next_ptr s := h)"
    "bound P s' = bound P s"
    "bound_string P s' = bound_string P s ++
       map_of (rev (by_level (bucket_name nm) (getHistogramBuckets (hops P) (next_ptr s)) (h_levels (hops P) h)))"
proof -
  let ?s = "hist_insert nm h s"
  obtain ds where ds: "exportBuckets P (next_ptr s) nm ?s = (Inr (), ?s\<lparr>dynamicStrings := ds\<rparr>)"
    "sdata_good P rx strings ok (?s\<lparr>dynamicStrings := ds\<rparr>)"
    "bound_string P (?s\<lparr>dynamicStrings := ds\<rparr>) = bound_string P s ++
       map_of (rev (by_level (bucket_name nm) (getHistogramBuckets (hops P) (next_ptr s)) (h_levels (hops P) h)))"
    using exportBuckets_ok[of P rx strings ok ?s "next_ptr s" nm] assms(1,3) by auto
  show thesis
  proof (rule that[of "?s\<lparr>dynamicStrings := ds\<rparr>"])
    show "getOrCreateUnlocked P nm h s = (Inr (next_ptr s, True), ?s\<lparr>dynamicStrings := ds\<rparr>)"
      using ds(1) assms(2) by (simp add: getOrCreateUnlocked_def getHistogramUnlocked_def)
  qed (use ds in \<open>simp_all add: bound_def\<close>)
qed

lemma bound_string_value:
  assumes "sdata_good P rx strings ok s" "bound_string P s k = Some cb"
  shows "getValue (hashf P) w k (dynamicStrings s) = Some (cb w)"
proof -
  have "cvm_inv (hashf P) strings ok (dynamicStrings s)" using assms(1) by (simp add: sdata_good_def cvm_good_def)
  from getValue_lookup[OF this] assms(2) show ?thesis by (simp add: bound_string_def)
qed

section \<open>Results\<close>

text \<open>
  C23: The first batch of values creates and exports a histogram. \<open>addValues\<close> with a model histogram and valid
  percentiles, for a new name, makes a cleared copy, exports its buckets as strings and each percentile at
  each level as a counter, and then adds the values; read at any later time, every counter evaluates its own
  percentile and level, and every string its own level, on the histogram as it then is.
\<close>
theorem first_values_export_histogram:
  assumes "sdata_good P rx strings ok s" and "map_of (histMap s) nm = None"
    and "h_numBuckets (hops P) (h_clear (hops P) h) \<noteq> 0" and "distinct (h_levels (hops P) (h_clear (hops P) h))"
    and "list_all (\<lambda>q. 0 \<le> q \<and> q \<le> 100) qs" and "ls = h_levels (hops P) (h_clear (hops P) h)"
    and "ehm_addValues_export P nm now vs (Some h) qs s = (r, s')"
  shows "r = Inr () \<and> (\<exists>p. getHistogramUnlocked nm s' = Some p \<and>
     hist_heap (wld s') p = h_addValues (hops P) now vs (h_clear (hops P) h) \<and>
     (\<forall>q\<in>set qs. \<forall>i < length ls. \<forall>w. getValue (hashf P) w (percentile_name nm q (ls ! i)) (dynamicCounters s') =
         Some (getHistogramPercentile (hops P) p i q w)) \<and>
     (\<forall>i < length ls. \<forall>w. getValue (hashf P) w (bucket_name nm (ls ! i)) (dynamicStrings s') =
         Some (getHistogramBuckets (hops P) p i w)))"
proof -
  let ?p = "next_ptr s" and ?h = "h_clear (hops P) h"
  obtain s1 where s1: "getOrCreateUnlocked P nm ?h s = (Inr (?p, True), s1)" "sdata_good P rx strings ok s1"
    "histMap s1 = histMap s @ [(nm, ?p)]" "hist_heap (wld s1) = (hist_heap (wld s))(?p := ?h)" "bound P s1 = bound P s"
    "bound_string P s1 = bound_string P s ++ map_of (rev (by_level (bucket_name nm) (getHistogramBuckets (hops P) ?p) ls))"
    using getOrCreate_new[OF assms(1-3)] unfolding assms(6) by blast
  have m: "map_of (histMap s1) nm = Some ?p" using s1(3) assms(2) by (simp add: map_add_def)
  obtain dc where dc: "export_each P nm qs s1 = (Inr (), s1\<lparr>dynamicCounters := dc\<rparr>)"
    "sdata_good P rx strings ok (s1\<lparr>dynamicCounters := dc\<rparr>)"
    "bound P (s1\<lparr>dynamicCounters := dc\<rparr>) = bound P s1 ++ map_of (concat (map (percentile_bindings P ?p nm ?h) (rev qs)))"
    using export_each_ok[OF s1(2) m _ assms(5)] assms(3) s1(4) by auto
  have s': "r = Inr ()" "s' = mod_hist ?p (h_addValues (hops P) now vs) (s1\<lparr>dynamicCounters := dc\<rparr>)"
    using assms(7) s1(1) dc(1) m
    by (simp_all add: ehm_addValues_export_def ehm_addValues_def with_hist_def getHistogramUnlocked_def)
  have "getValue (hashf P) w (percentile_name nm q (ls ! i)) (dynamicCounters s') = Some (getHistogramPercentile (hops P) ?p i q w)"
    if q: "q \<in> set qs" and i: "i < length ls" for q i w
  proof -
    have "bound P (s1\<lparr>dynamicCounters := dc\<rparr>) (percentile_name nm q (ls ! i)) = Some (getHistogramPercentile (hops P) ?p i q)"
      using percentile_bindings_map[OF assms(4), of q "rev qs" i ?p nm] q i assms(6) dc(3) by (simp add: map_add_def)
    with bound_value[OF dc(2)] show ?thesis by (simp add: s')
  qed
  moreover have "getValue (hashf P) w (bucket_name nm (ls ! i)) (dynamicStrings s') = Some (getHistogramBuckets (hops P) ?p i w)"
    if i: "i < length ls" for i w
  proof -
    have "inj_on (bucket_name nm) (set ls)" by (meson bucket_name_inj inj_onI)
    from by_level_map[OF this _ i, of "getHistogramBuckets (hops P) ?p"] assms(4,6)
    have "bound_string P s1 (bucket_name nm (ls ! i)) = Some (getHistogramBuckets (hops P) ?p i)"
      by (simp add: s1(6) map_add_def)
    with bound_string_value[OF s1(2)] show ?thesis by (simp add: s')
  qed
  moreover have "getHistogramUnlocked nm s' = Some ?p" using m by (simp add: s' getHistogramUnlocked_def)
  moreover have "hist_heap (wld s') ?p = h_addValues (hops P) now vs ?h" using s1(4) by (simp add: s')
  ultimately show ?thesis using s'(1) by blast
qed

theorem first_values_export_histogram_witness:
  "\<exists>p. getHistogramUnlocked ''lat'' (snd (ehm_addValues_export demo_params ''lat'' 0 (2, 30) (Some ((1, 0, 9), (5, 5))) [95] demo_sdata)) = Some p \<and>
     hist_heap (wld (snd (ehm_addValues_export demo_params ''lat'' 0 (2, 30) (Some ((1, 0, 9), (5, 5))) [95] demo_sdata))) p = ((1, 0, 9), (2, 30))"
proof -
  obtain r s' where e: "ehm_addValues_export demo_params ''lat'' 0 (2, 30) (Some ((1, 0, 9), (5, 5))) [95] demo_sdata = (r, s')"
    by fastforce
  have "map_of (histMap demo_sdata) ''lat'' = None" by simp
  from first_values_export_histogram[OF demo_sdata_good this _ _ _ refl e] show ?thesis
    unfolding e by (auto simp: pair_hist_ops_def)
qed

text \<open>
  C38: What \<open>exportPercentile\<close> answers: false, with nothing changed, exactly when there is no such histogram; the
  process ends exactly when there is one and the percentile is not in 0..100 or the histogram has no bucket;
  otherwise true.
\<close>
theorem exportPercentile_outcome:
  assumes "sdata_good P rx strings ok s" and "exportPercentile P nm q s = (r, s')"
  shows "(r = Inr False \<longleftrightarrow> \<not> ehm_contains nm s) \<and> (r = Inr False \<longrightarrow> s' = s) \<and>
    (r = Inl Abort \<longleftrightarrow> (\<exists>p. getHistogramUnlocked nm s = Some p \<and>
        (q < 0 \<or> 100 < q \<or> h_numBuckets (hops P) (hist_heap (wld s) p) = 0))) \<and>
    (r \<in> {Inr False, Inl Abort, Inr True})"
proof (cases "getHistogramUnlocked nm s")
  case None
  then show ?thesis using assms(2) by (auto simp: exportPercentile_def ehm_contains_def getHistogramUnlocked_def)
next
  case (Some p)
  show ?thesis
  proof (cases "h_numBuckets (hops P) (hist_heap (wld s) p) = 0 \<or> q < 0 \<or> 100 < q")
    case True
    then show ?thesis using assms(2) Some
      by (auto simp: exportPercentile_def ehm_contains_def getHistogramUnlocked_def exportPercentile_hist_def forEachPercentileName_def)
  next
    case False
    then show ?thesis using assms(2) Some exportPercentile_hist_ok[OF assms(1), of p q nm]
      by (auto simp: exportPercentile_def ehm_contains_def getHistogramUnlocked_def)
  qed
qed

theorem exportPercentile_outcome_witness: "fst (exportPercentile demo_params ''lat'' 95 demo_sdata) = Inr False"
proof -
  obtain r s' where e: "exportPercentile demo_params ''lat'' 95 demo_sdata = (r, s')" by fastforce
  show ?thesis using exportPercentile_outcome[OF demo_sdata_good e] by (simp add: e ehm_contains_def)
qed

text \<open>
  A histogram's statistic takes over a counter name for good. \<open>exportStat\<close> of a histogram overwrites the
  counters of a stat with the same name, and a stat exported later under that name does not get them back.
\<close>
theorem histogram_takes_over:
  assumes "sdata_good P rx strings ok s" and "getHistogramUnlocked nm s = Some p"
    and "ls = h_levels (hops P) (hist_heap (wld s) p)" and "distinct ls" and "list_all long_level ls"
    and "CHR 0x00 \<notin> set nm" and "exportStat_type P nm t s = (r, s1)" and "exportStats P nm ts copyMe upd s1 = (r', s2)"
  shows "r = Inr True \<and> r' = Inr () \<and> (\<forall>i < length ls. \<forall>w.
    getValue (hashf P) w (stat_counter nm t (ls ! i)) (dynamicCounters s2) = Some (getHistogramStat (hops P) p i t w))"
proof -
  obtain dc where dc: "exportStat_hist P p nm t s = (Inr (), s\<lparr>dynamicCounters := dc\<rparr>)" "sdata_good P rx strings ok (s\<lparr>dynamicCounters := dc\<rparr>)"
    "bound P (s\<lparr>dynamicCounters := dc\<rparr>) = bound P s ++
       map_of (rev (by_level (stat_counter nm t) (\<lambda>i. getHistogramStat (hops P) p i t) ls))"
    using exportStat_hist_ok[OF assms(1)] unfolding assms(3) by blast
  have s1: "r = Inr True" "s1 = s\<lparr>dynamicCounters := dc\<rparr>" using assms(2,7) dc(1) by (simp_all add: exportStat_type_def)
  obtain p' b s3 where s3: "getStatPtrNoExport nm copyMe s1 = ((p', b), s3)" by (metis prod.collapse)
  have g3: "sdata_good P rx strings ok s3 \<and> bound P s3 = bound P s1"
    using s3 dc(2) unfolding s1 getStatPtrNoExport_def
    by (auto simp: Let_def sdata_good_def bound_def split: option.splits)
  obtain dc' where dc': "export_types P p' nm upd ts s3 = (Inr (), s3\<lparr>dynamicCounters := dc'\<rparr>)"
    "sdata_good P rx strings ok (s3\<lparr>dynamicCounters := dc'\<rparr>)"
    "bound P (s3\<lparr>dynamicCounters := dc'\<rparr>) = map_of (offered P p' nm upd ts (stat_heap (wld s3) p')) ++ bound P s3"
    using export_types_ok[OF g3[THEN conjunct1]] by blast
  have s2: "r' = Inr ()" "s2 = s3\<lparr>dynamicCounters := dc'\<rparr>" using assms(8) s3 dc'(1) by (simp_all add: exportStats_def)
  have "getValue (hashf P) w (stat_counter nm t (ls ! i)) (dynamicCounters s2) = Some (getHistogramStat (hops P) p i t w)"
    if i: "i < length ls" for i w
  proof -
    have "inj_on (stat_counter nm t) (set ls)"
      using stat_counter_inj[OF _ assms(6,6)] assms(5) by (auto simp: inj_on_def list_all_iff)
    from by_level_map[OF this assms(4) i, of "\<lambda>i. getHistogramStat (hops P) p i t"]
    have "bound P s2 (stat_counter nm t (ls ! i)) = Some (getHistogramStat (hops P) p i t)"
      using g3 by (simp add: s2 dc'(3) s1 dc(3) map_add_def)
    with bound_value[of P rx strings ok s2] dc'(2) show ?thesis by (simp add: s2)
  qed
  then show ?thesis using s1(1) s2(1) by blast
qed

definition demo_hist :: "(int64 \<times> int64, (int64 \<times> int64 \<times> int64) \<times> (int64 \<times> int64), name list) sdata" where
  "demo_hist = snd (getOrCreateUnlocked demo_params ''lat'' ((1, 0, 9), (0, 0)) demo_sdata)"

lemma demo_hist_facts:
  "sdata_good demo_params (\<lambda>r s. r = s) set distinct demo_hist" "getHistogramUnlocked ''lat'' demo_hist = Some 0"
proof -
  have n: "map_of (histMap demo_sdata) ''lat'' = None" by simp
  have b: "h_numBuckets (hops demo_params) ((1, 0, 9), (0, 0)) \<noteq> 0" by (simp add: pair_hist_ops_def)
  obtain s' where s': "getOrCreateUnlocked demo_params ''lat'' ((1, 0, 9), (0, 0)) demo_sdata = (Inr (next_ptr demo_sdata, True), s')"
    "sdata_good demo_params (\<lambda>r s. r = s) set distinct s'" "histMap s' = histMap demo_sdata @ [(''lat'', next_ptr demo_sdata)]"
    using getOrCreate_new[OF demo_sdata_good n b] by metis
  show "sdata_good demo_params (\<lambda>r s. r = s) set distinct demo_hist" "getHistogramUnlocked ''lat'' demo_hist = Some 0"
    using s' by (simp_all add: demo_hist_def getHistogramUnlocked_def)
qed

theorem histogram_takes_over_witness:
  "\<forall>w. getValue (hashf demo_params) w (stat_counter ''lat'' ESUM (Some 60))
     (dynamicCounters (snd (exportStats demo_params ''lat'' [ESUM] None True (snd (exportStat_type demo_params ''lat'' ESUM demo_hist))))) =
   Some (getHistogramStat pair_hist_ops 0 0 ESUM w)"
proof -
  obtain r s1 where e: "exportStat_type demo_params ''lat'' ESUM demo_hist = (r, s1)" by fastforce
  obtain r' s2 where e': "exportStats demo_params ''lat'' [ESUM] None True s1 = (r', s2)" by fastforce
  have l: "h_levels pair_hist_ops h = [Some 60, None]" for h by (simp add: pair_hist_ops_def)
  have "0 < length (h_levels (hops demo_params) (hist_heap (wld demo_hist) 0))" by (simp add: l)
  with histogram_takes_over[OF demo_hist_facts refl _ _ _ e e'] show ?thesis
    by (fastforce simp: e e' l long_level_def)
qed

end
