(* ===== verification/QuantileMap.thy ===== *)
theory QuantileMap
  imports RegexUtil FollyStats
begin

text \<open>
  \<open>BasicQuantileStat\<close> (\<^verbatim>\<open>fb303/QuantileStat.h\<close>, \<^verbatim>\<open>fb303/QuantileStat-inl.h\<close>) and \<open>BasicQuantileStatMap\<close>
  (\<^verbatim>\<open>fb303/detail/QuantileStatMap.h\<close>, \<^verbatim>\<open>fb303/detail/QuantileStatMap-inl.h\<close>). The quantile estimator of folly
  and the arithmetic of doubles are parameters; time points count nanoseconds. A stat is shared by pointer by
  all counters that report it. A fatal log ends the process: the result is then \<open>None\<close>.
\<close>

section \<open>Parameters\<close>

type_synonym ns = int

record 'f estimates =
  e_sum :: 'f
  e_count :: 'f
  e_quantiles :: "('f \<times> 'f) list"

record ('f, 'e, 'd) estimator_ops =
  est_new :: "(secs \<times> nat) list \<Rightarrow> 'e"
  est_addValue :: "'f \<Rightarrow> ns \<Rightarrow> 'e \<Rightarrow> 'e"
  est_flush :: "'e \<Rightarrow> 'e"
  estimateQuantiles :: "'f list \<Rightarrow> ns \<Rightarrow> 'e \<Rightarrow> 'f estimates \<times> 'f estimates list"
  getDigests :: "ns \<Rightarrow> 'e \<Rightarrow> 'd \<times> 'd list"
  est_windows :: "'e \<Rightarrow> nat"                 \<comment> \<open>how many sliding windows it was made with\<close>
  f_of :: "int \<Rightarrow> 'f"
  f_div :: "'f \<Rightarrow> 'f \<Rightarrow> 'f"
  f_positive :: "'f \<Rightarrow> bool"
  clamp_cast :: "'f \<Rightarrow> int64"
  fmt_g :: "'f \<Rightarrow> string"                     \<comment> \<open>a quantile, times 100, printed with \<open>{:g}\<close>\<close>
  use_count_for_rate :: bool                  \<comment> \<open>\<open>FLAGS_fb303_qstat_legacy_use_count_for_rate\<close>\<close>

section \<open>QuantileStat\<close>

record 'e qstat =
  slidingWindowVec :: "(secs \<times> nat) list"
  estimator :: 'e
  creationTime :: ns

record 'f sw_estimate =
  sw_estimate :: "'f estimates"
  sw_windowLength :: secs
  sw_nWindows :: nat

definition slidingWindowLength :: "secs \<Rightarrow> nat \<Rightarrow> secs" where
  "slidingWindowLength windowLength nWindows = windowLength * int nWindows"

definition sw_length :: "'f sw_estimate \<Rightarrow> secs" where
  "sw_length w = slidingWindowLength (sw_windowLength w) (sw_nWindows w)"

definition newQuantileStat :: "('f, 'e, 'd) estimator_ops \<Rightarrow> (secs \<times> nat) list \<Rightarrow> ns \<Rightarrow> 'e qstat" where
  "newQuantileStat eo defs now = \<lparr>slidingWindowVec = defs, estimator = est_new eo defs, creationTime = now\<rparr>"

definition qs_addValue :: "('f, 'e, 'd) estimator_ops \<Rightarrow> 'f \<Rightarrow> ns \<Rightarrow> 'e qstat \<Rightarrow> 'e qstat" where
  "qs_addValue eo value now st = st\<lparr>estimator := est_addValue eo value now (estimator st)\<rparr>"

definition qs_flush :: "('f, 'e, 'd) estimator_ops \<Rightarrow> 'e qstat \<Rightarrow> 'e qstat" where
  "qs_flush eo st = st\<lparr>estimator := est_flush eo (estimator st)\<rparr>"

definition getEstimates ::
  "('f, 'e, 'd) estimator_ops \<Rightarrow> 'f list \<Rightarrow> ns \<Rightarrow> 'e qstat \<Rightarrow> 'f estimates \<times> 'f sw_estimate list" where
  "getEstimates eo quantiles now st =
     (let (allTime, windows) = estimateQuantiles eo quantiles now (estimator st)
      in (allTime,
          map (\<lambda>(e, wl, n). \<lparr>sw_estimate = e, sw_windowLength = wl, sw_nWindows = n\<rparr>) (zip windows (slidingWindowVec st))))"

definition getSlidingWindowLengths :: "'e qstat \<Rightarrow> secs list" where
  "getSlidingWindowLengths st = map (\<lambda>(wl, n). slidingWindowLength wl n) (slidingWindowVec st)"

record 'd qsnapshot =
  allTimeDigest :: 'd
  slidingWindowSnapshot :: "('d \<times> secs \<times> nat) list"
  snap_now :: ns
  snap_creationTime :: ns

definition getSnapshot :: "('f, 'e, 'd) estimator_ops \<Rightarrow> ns \<Rightarrow> 'e qstat \<Rightarrow> 'd qsnapshot" where
  "getSnapshot eo now st =
     (let (allTime, windows) = getDigests eo now (estimator st)
      in \<lparr>allTimeDigest = allTime, slidingWindowSnapshot = zip windows (slidingWindowVec st),
          snap_now = now, snap_creationTime = creationTime st\<rparr>)"

section \<open>The map\<close>

record 'f stat_def =
  sd_type :: export_type
  sd_quantile :: 'f

record 'f counter_entry =
  qe_name :: name
  qe_stat :: ptr
  qe_statDef :: "'f stat_def"
  qe_window :: level

record ('f, 'e, 'c) qsm =
  q_heap :: "ptr \<Rightarrow> 'e qstat"
  q_map :: "('f counter_entry, 'c) cached_map"
  q_bases :: "(name \<times> ptr \<times> 'f stat_def list) list"

text \<open>\<open>duration_cast<seconds>\<close> truncates towards zero.\<close>

definition to_seconds :: "ns \<Rightarrow> secs" where
  "to_seconds d = (if 0 \<le> d then d div 1000000000 else - ((- d) div 1000000000))"

definition statDuration :: "level \<Rightarrow> ns \<Rightarrow> ns \<Rightarrow> secs" where
  "statDuration window creation now =
     (let diff = to_seconds (now - creation)
      in case window of None \<Rightarrow> diff | Some w \<Rightarrow> if w > diff then diff else w)"

definition key_of :: "('f, 'e, 'd) estimator_ops \<Rightarrow> name \<Rightarrow> 'f stat_def \<Rightarrow> level \<Rightarrow> name" where
  "key_of eo nm def window = makeKey (fmt_g eo) nm (sd_type def) (sd_quantile def) window"

definition extractValueImpl :: "('f, 'e, 'd) estimator_ops \<Rightarrow> 'f stat_def \<Rightarrow> 'f estimates \<Rightarrow> secs \<Rightarrow> 'f option" where
  "extractValueImpl eo def estimate duration =
     (case sd_type def of
        PERCENT \<Rightarrow> map_of (e_quantiles estimate) (sd_quantile def)
      | ESUM \<Rightarrow> Some (e_sum estimate)
      | COUNT \<Rightarrow> Some (e_count estimate)
      | AVG \<Rightarrow> Some (if f_positive eo (e_count estimate) then f_div eo (e_sum estimate) (e_count estimate) else f_of eo 0)
      | RATE \<Rightarrow>
          Some (if duration > 0
                then f_div eo (if use_count_for_rate eo then e_count estimate else e_sum estimate) (f_of eo duration)
                else e_count estimate))"

definition extractValue :: "('f, 'e, 'd) estimator_ops \<Rightarrow> 'f stat_def \<Rightarrow> 'f estimates \<Rightarrow> secs \<Rightarrow> int64 option" where
  "extractValue eo def estimate duration = map_option (clamp_cast eo) (extractValueImpl eo def estimate duration)"

definition wanted :: "'f stat_def \<Rightarrow> 'f list" where
  "wanted def = (if sd_type def = PERCENT then [sd_quantile def] else [])"

text \<open>The clock is read twice, by \<open>getEstimates\<close> and by \<open>statDuration\<close>. The inner option is the result.\<close>

definition qsm_getValue ::
  "('f, 'e, 'd) estimator_ops \<Rightarrow> ns \<Rightarrow> ns \<Rightarrow> name \<Rightarrow> ('f, 'e, 'c) qsm \<Rightarrow> int64 option option" where
  "qsm_getValue eo now1 now2 key s =
     (case cm_find key (q_map s) of
        None \<Rightarrow> Some None
      | Some cme \<Rightarrow>
          (let st = q_heap s (qe_stat cme);
               (allTime, windows) = getEstimates eo (wanted (qe_statDef cme)) now1 st;
               qe = (case qe_window cme of
                       None \<Rightarrow> Some allTime
                     | Some w \<Rightarrow> map_option sw_estimate (List.find (\<lambda>sw. sw_length sw = w) windows))
           in case qe of
                None \<Rightarrow> Some None
              | Some e \<Rightarrow>
                  map_option Some (extractValue eo (qe_statDef cme) e (statDuration (qe_window cme) (creationTime st) now2))))"

definition emplace_value :: "name \<Rightarrow> 'v \<Rightarrow> (name \<rightharpoonup> 'v) \<Rightarrow> (name \<rightharpoonup> 'v)" where
  "emplace_value k v out = (if out k = None then out(k \<mapsto> v) else out)"

fun add_windows ::
  "('f, 'e, 'd) estimator_ops \<Rightarrow> name \<Rightarrow> 'f stat_def \<Rightarrow> 'f sw_estimate list \<Rightarrow> secs \<Rightarrow> (name \<rightharpoonup> int64) \<Rightarrow> (name \<rightharpoonup> int64) option"
where
  "add_windows eo nm def [] since out = Some out"
| "add_windows eo nm def (w # ws) since out =
     (case extractValue eo def (sw_estimate w) (min (sw_length w) since) of
        None \<Rightarrow> None
      | Some v \<Rightarrow> add_windows eo nm def ws since (emplace_value (key_of eo nm def (Some (sw_length w))) v out))"

definition qsm_addValues ::
  "('f, 'e, 'd) estimator_ops \<Rightarrow> name \<Rightarrow> 'f stat_def \<Rightarrow> 'f estimates \<times> 'f sw_estimate list \<Rightarrow> secs \<Rightarrow> (name \<rightharpoonup> int64) \<Rightarrow>
   (name \<rightharpoonup> int64) option" where
  "qsm_addValues eo statName def est since out =
     (case extractValue eo def (fst est) since of
        None \<Rightarrow> None
      | Some v \<Rightarrow> add_windows eo statName def (snd est) since (emplace_value (key_of eo statName def None) v out))"

fun add_defs ::
  "('f, 'e, 'd) estimator_ops \<Rightarrow> name \<Rightarrow> 'f stat_def list \<Rightarrow> 'f estimates \<times> 'f sw_estimate list \<Rightarrow> secs \<Rightarrow> (name \<rightharpoonup> int64) \<Rightarrow>
   (name \<rightharpoonup> int64) option" where
  "add_defs eo nm [] est since out = Some out"
| "add_defs eo nm (d # ds) est since out =
     (case qsm_addValues eo nm d est since out of None \<Rightarrow> None | Some out1 \<Rightarrow> add_defs eo nm ds est since out1)"

fun add_bases ::
  "('f, 'e, 'd) estimator_ops \<Rightarrow> ns \<Rightarrow> (ptr \<Rightarrow> 'e qstat) \<Rightarrow> (name \<times> ptr \<times> 'f stat_def list) list \<Rightarrow> (name \<rightharpoonup> int64) \<Rightarrow>
   (name \<rightharpoonup> int64) option" where
  "add_bases eo now heap [] out = Some out"
| "add_bases eo now heap ((key, p, defs) # bs) out =
     (let est = getEstimates eo (concat (map wanted defs)) now (heap p);
          timeSinceCreation = to_seconds (now - creationTime (heap p))
      in case add_defs eo key defs est timeSinceCreation out of
           None \<Rightarrow> None
         | Some out1 \<Rightarrow> add_bases eo now heap bs out1)"

definition qsm_getValues ::
  "('f, 'e, 'd) estimator_ops \<Rightarrow> ns \<Rightarrow> ('f, 'e, 'c) qsm \<Rightarrow> (name \<rightharpoonup> int64) \<Rightarrow> (name \<rightharpoonup> int64) option" where
  "qsm_getValues eo now s out = add_bases eo now (q_heap s) (q_bases s) out"

text \<open>\<open>getSelectedValues\<close> collects the requested counters by stat, so that each stat is asked once.\<close>

definition by_stat :: "name list \<Rightarrow> ('f, 'e, 'c) qsm \<Rightarrow> (ptr \<times> (name \<times> 'f counter_entry) list) list" where
  "by_stat keys s =
     (let hits = List.map_filter (\<lambda>k. map_option (Pair k) (cm_find k (q_map s))) keys
      in map (\<lambda>p. (p, filter (\<lambda>h. qe_stat (snd h) = p) hits)) (sort (remdups (map (\<lambda>h. qe_stat (snd h)) hits))))"

fun select_each ::
  "('f, 'e, 'd) estimator_ops \<Rightarrow> 'f estimates \<times> 'f sw_estimate list \<Rightarrow> secs \<Rightarrow> (name \<times> 'f counter_entry) list \<Rightarrow>
   (name \<rightharpoonup> int64) \<Rightarrow> (name \<rightharpoonup> int64) option" where
  "select_each eo est since [] out = Some out"
| "select_each eo est since ((k, cme) # hs) out =
     (case qe_window cme of
        Some w \<Rightarrow>
          (case List.find (\<lambda>sw. sw_length sw = w) (snd est) of
             None \<Rightarrow> select_each eo est since hs out
           | Some sw \<Rightarrow>
               (case extractValue eo (qe_statDef cme) (sw_estimate sw) (min (sw_length sw) since) of
                  None \<Rightarrow> None
                | Some v \<Rightarrow> select_each eo est since hs (out(k \<mapsto> v))))
      | None \<Rightarrow>
          (case extractValue eo (qe_statDef cme) (fst est) since of
             None \<Rightarrow> None
           | Some v \<Rightarrow> select_each eo est since hs (out(k \<mapsto> v))))"

fun select_stats ::
  "('f, 'e, 'd) estimator_ops \<Rightarrow> ns \<Rightarrow> (ptr \<Rightarrow> 'e qstat) \<Rightarrow> (ptr \<times> (name \<times> 'f counter_entry) list) list \<Rightarrow>
   (name \<rightharpoonup> int64) \<Rightarrow> (name \<rightharpoonup> int64) option" where
  "select_stats eo now heap [] out = Some out"
| "select_stats eo now heap ((p, hs) # gs) out =
     (let est = getEstimates eo (concat (map (\<lambda>h. wanted (qe_statDef (snd h))) hs)) now (heap p)
      in case select_each eo est (to_seconds (now - creationTime (heap p))) hs out of
           None \<Rightarrow> None
         | Some out1 \<Rightarrow> select_stats eo now heap gs out1)"

definition qsm_getSelectedValues ::
  "('f, 'e, 'd) estimator_ops \<Rightarrow> ns \<Rightarrow> name list \<Rightarrow> ('f, 'e, 'c) qsm \<Rightarrow> (name \<rightharpoonup> int64) \<Rightarrow> (name \<rightharpoonup> int64) option" where
  "qsm_getSelectedValues eo now keys s out = select_stats eo now (q_heap s) (by_stat keys s) out"

definition qsm_get :: "name \<Rightarrow> ('f, 'e, 'c) qsm \<Rightarrow> ptr option" where
  "qsm_get nm s = map_option fst (map_of (q_bases s) nm)"

definition qsm_contains :: "name \<Rightarrow> ('f, 'e, 'c) qsm \<Rightarrow> bool" where
  "qsm_contains k s \<longleftrightarrow> cm_find k (q_map s) \<noteq> None"

definition qsm_getKeys :: "name list \<Rightarrow> ('f, 'e, 'c) qsm \<Rightarrow> name list" where
  "qsm_getKeys keys s = keys @ map (\<lambda>e. qe_name (snd e)) (cm_map (q_map s))"

definition qsm_getRegexKeys ::
  "('c, 'p, 'r) cache_ops \<Rightarrow> name list \<Rightarrow> regex \<Rightarrow> time_point \<Rightarrow> ('f, 'e, 'c) qsm \<Rightarrow> (rx_error + name list) \<times> ('f, 'e, 'c) qsm" where
  "qsm_getRegexKeys ops keys r now s =
     (let (res, m) = cachedFindMatchesSnapshot ops id id keys r now (q_map s) in (res, s\<lparr>q_map := m\<rparr>))"

definition qsm_getNumKeys :: "('f, 'e, 'c) qsm \<Rightarrow> nat" where
  "qsm_getNumKeys s = length (cm_map (q_map s))"

definition getSnapshotEntry ::
  "('f, 'e, 'd) estimator_ops \<Rightarrow> name \<Rightarrow> ns \<Rightarrow> ('f, 'e, 'c) qsm \<Rightarrow> (name \<times> 'd qsnapshot \<times> 'f stat_def list) option" where
  "getSnapshotEntry eo nm now s =
     (case map_of (q_bases s) nm of
        None \<Rightarrow> None
      | Some (p, defs) \<Rightarrow> Some (nm, getSnapshot eo now (q_heap s p), defs))"

text \<open>The entries \<open>registerQuantileStat\<close> constructs: per definition, the all-time one and one per window.\<close>

definition entries_for :: "('f, 'e, 'd) estimator_ops \<Rightarrow> name \<Rightarrow> ptr \<Rightarrow> secs list \<Rightarrow> 'f stat_def list \<Rightarrow> 'f counter_entry list" where
  "entries_for eo nm p lens defs =
     concat (map (\<lambda>d. \<lparr>qe_name = key_of eo nm d None, qe_stat = p, qe_statDef = d, qe_window = None\<rparr> #
       map (\<lambda>w. \<lparr>qe_name = key_of eo nm d (Some w), qe_stat = p, qe_statDef = d, qe_window = Some w\<rparr>) lens) defs)"

fun add_entries ::
  "('c, 'p, 'r) cache_ops \<Rightarrow> 'f counter_entry list \<Rightarrow> ('f counter_entry, 'c) cached_map \<Rightarrow>
   (rx_error + unit) \<times> ('f counter_entry, 'c) cached_map" where
  "add_entries ops [] m = (Inr (), m)"
| "add_entries ops (e # es) m =
     (case cachedAddString ops (qe_name e) e m of
        (Inl x, m1) \<Rightarrow> (Inl x, m1)
      | (Inr _, m1) \<Rightarrow> add_entries ops es m1)"

definition registerQuantileStat ::
  "('c, 'p, 'r) cache_ops \<Rightarrow> ('f, 'e, 'd) estimator_ops \<Rightarrow> name \<Rightarrow> ptr \<Rightarrow> 'f stat_def list \<Rightarrow> ('f, 'e, 'c) qsm \<Rightarrow>
   (rx_error + ptr) \<times> ('f, 'e, 'c) qsm" where
  "registerQuantileStat ops eo nm stat defs s =
     (case map_of (q_bases s) nm of
        Some (p, _) \<Rightarrow> (Inr p, s)
      | None \<Rightarrow>
          (case add_entries ops (entries_for eo nm stat (getSlidingWindowLengths (q_heap s stat)) defs) (q_map s) of
             (Inl x, m) \<Rightarrow> (Inl x, s\<lparr>q_map := m\<rparr>)
           | (Inr _, m) \<Rightarrow> (Inr stat, s\<lparr>q_map := m, q_bases := q_bases s @ [(nm, stat, defs)]\<rparr>)))"

definition q_erase_key :: "('c, 'p, 'r) cache_ops \<Rightarrow> name \<Rightarrow> ('v, 'c) cached_map \<Rightarrow> ('v, 'c) cached_map" where
  "q_erase_key ops k m = (if cm_find k m \<noteq> None then cachedEraseString ops k m else m)"

definition qsm_forgetStatsFor ::
  "('c, 'p, 'r) cache_ops \<Rightarrow> ('f, 'e, 'd) estimator_ops \<Rightarrow> name \<Rightarrow> ('f, 'e, 'c) qsm \<Rightarrow> ('f, 'e, 'c) qsm" where
  "qsm_forgetStatsFor ops eo nm s =
     (case map_of (q_bases s) nm of
        None \<Rightarrow> s
      | Some (stat, defs) \<Rightarrow>
          (let lens = getSlidingWindowLengths (q_heap s stat);
               m = fold (\<lambda>d m. fold (\<lambda>w. q_erase_key ops (key_of eo nm d (Some w))) lens
                          (q_erase_key ops (key_of eo nm d None) m)) defs (q_map s)
           in s\<lparr>q_map := m, q_bases := filter (\<lambda>b. fst b \<noteq> nm) (q_bases s)\<rparr>))"

definition flushAll :: "('f, 'e, 'd) estimator_ops \<Rightarrow> ('f, 'e, 'c) qsm \<Rightarrow> ('f, 'e, 'c) qsm" where
  "flushAll eo s =
     s\<lparr>q_heap := fold (\<lambda>e h. h(qe_stat (snd e) := qs_flush eo (h (qe_stat (snd e))))) (cm_map (q_map s)) (q_heap s)\<rparr>"

definition forgetAll :: "('c, 'p, 'r) cache_ops \<Rightarrow> ('f, 'e, 'c) qsm \<Rightarrow> ('f, 'e, 'c) qsm" where
  "forgetAll ops s = s\<lparr>q_map := cachedClearStrings ops (q_map s), q_bases := []\<rparr>"

definition qsm_trimRegexCache :: "('c, 'p, 'r) cache_ops \<Rightarrow> time_point \<Rightarrow> ('f, 'e, 'c) qsm \<Rightarrow> ('f, 'e, 'c) qsm" where
  "qsm_trimRegexCache ops expiry s = s\<lparr>q_map := cachedTrimStale ops expiry (q_map s)\<rparr>"

section \<open>What a counter is worth\<close>

text \<open>
  The documented behaviour of the estimator: it answers each requested quantile, and a window's answer does
  not depend on what else is asked.
\<close>

definition estimator_law ::
  "('f, 'e, 'd) estimator_ops \<Rightarrow> (nat option \<Rightarrow> ns \<Rightarrow> 'e \<Rightarrow> 'f) \<Rightarrow> (nat option \<Rightarrow> ns \<Rightarrow> 'e \<Rightarrow> 'f) \<Rightarrow> (nat option \<Rightarrow> 'f \<Rightarrow> ns \<Rightarrow> 'e \<Rightarrow> 'f) \<Rightarrow> bool"
where
  "estimator_law eo sm cnt qt \<longleftrightarrow>
     (\<forall>qs now e.
        estimateQuantiles eo qs now e =
          (let est = (\<lambda>w. \<lparr>e_sum = sm w now e, e_count = cnt w now e, e_quantiles = map (\<lambda>q. (q, qt w q now e)) qs\<rparr>)
           in (est None, map (\<lambda>i. est (Some i)) [0..<est_windows eo e])))"

definition est_of ::
  "(nat option \<Rightarrow> ns \<Rightarrow> 'e \<Rightarrow> 'f) \<Rightarrow> (nat option \<Rightarrow> ns \<Rightarrow> 'e \<Rightarrow> 'f) \<Rightarrow> (nat option \<Rightarrow> 'f \<Rightarrow> ns \<Rightarrow> 'e \<Rightarrow> 'f) \<Rightarrow>
   'f list \<Rightarrow> ns \<Rightarrow> 'e \<Rightarrow> nat option \<Rightarrow> 'f estimates" where
  "est_of sm cnt qt qs now e w = \<lparr>e_sum = sm w now e, e_count = cnt w now e, e_quantiles = map (\<lambda>q. (q, qt w q now e)) qs\<rparr>"

definition sound_stat :: "('f, 'e, 'd) estimator_ops \<Rightarrow> 'e qstat \<Rightarrow> bool" where
  "sound_stat eo st \<longleftrightarrow> est_windows eo (estimator st) = length (slidingWindowVec st)"

lemma getEstimates_law:
  assumes "estimator_law eo sm cnt qt" "sound_stat eo st"
  shows "getEstimates eo qs now st =
    (est_of sm cnt qt qs now (estimator st) None,
     map (\<lambda>i. \<lparr>sw_estimate = est_of sm cnt qt qs now (estimator st) (Some i),
               sw_windowLength = fst (slidingWindowVec st ! i), sw_nWindows = snd (slidingWindowVec st ! i)\<rparr>)
       [0..<length (slidingWindowVec st)])"
proof -
  have e: "estimateQuantiles eo qs now (estimator st) =
      (est_of sm cnt qt qs now (estimator st) None,
       map (\<lambda>i. est_of sm cnt qt qs now (estimator st) (Some i)) [0..<length (slidingWindowVec st)])"
    using assms by (simp add: estimator_law_def est_of_def Let_def sound_stat_def)
  show ?thesis unfolding getEstimates_def e
    by (simp, intro nth_equalityI) (simp_all add: case_prod_unfold)
qed

lemma extract_pointwise:
  assumes "set (wanted d) \<subseteq> set qs"
  shows "extractValue eo d (est_of sm cnt qt qs now e w) dur = extractValue eo d (est_of sm cnt qt (wanted d) now e w) dur"
    and "extractValue eo d (est_of sm cnt qt qs now e w) dur \<noteq> None"
proof -
  have "map_of (map (\<lambda>q. (q, f q)) qs) q = (if q \<in> set qs then Some (f q) else None)" for f :: "'a \<Rightarrow> 'a" and qs q
    by (induction qs) auto
  then show "extractValue eo d (est_of sm cnt qt qs now e w) dur = extractValue eo d (est_of sm cnt qt (wanted d) now e w) dur"
    "extractValue eo d (est_of sm cnt qt qs now e w) dur \<noteq> None"
    using assms by (auto simp: extractValue_def extractValueImpl_def est_of_def wanted_def split: export_type.splits if_splits)
qed

text \<open>The value of a counter, by the index of its window.\<close>

definition worth ::
  "('f, 'e, 'd) estimator_ops \<Rightarrow> (nat option \<Rightarrow> ns \<Rightarrow> 'e \<Rightarrow> 'f) \<Rightarrow> (nat option \<Rightarrow> ns \<Rightarrow> 'e \<Rightarrow> 'f) \<Rightarrow> (nat option \<Rightarrow> 'f \<Rightarrow> ns \<Rightarrow> 'e \<Rightarrow> 'f) \<Rightarrow>
   ns \<Rightarrow> 'e qstat \<Rightarrow> 'f stat_def \<Rightarrow> nat option \<Rightarrow> int64" where
  "worth eo sm cnt qt now st d w =
     (let since = to_seconds (now - creationTime st);
          dur = (case w of None \<Rightarrow> since | Some i \<Rightarrow> min (getSlidingWindowLengths st ! i) since)
      in the (extractValue eo d (est_of sm cnt qt (wanted d) now (estimator st) w) dur))"

lemma extract_worth:
  assumes "set (wanted d) \<subseteq> set qs"
  shows "extractValue eo d (est_of sm cnt qt qs now (estimator st) None) (to_seconds (now - creationTime st)) =
      Some (worth eo sm cnt qt now st d None)"
    and "extractValue eo d (est_of sm cnt qt qs now (estimator st) (Some i))
        (min (getSlidingWindowLengths st ! i) (to_seconds (now - creationTime st))) = Some (worth eo sm cnt qt now st d (Some i))"
  using extract_pointwise[OF assms, of eo sm cnt qt now "estimator st"] by (auto simp: worth_def Let_def)

definition window_at :: "secs list \<Rightarrow> nat option \<Rightarrow> level" where
  "window_at lens w = map_option (\<lambda>i. lens ! i) w"

lemma lengths_nth: "i < length (slidingWindowVec st) \<Longrightarrow>
    slidingWindowLength (fst (slidingWindowVec st ! i)) (snd (slidingWindowVec st ! i)) = getSlidingWindowLengths st ! i"
  by (simp add: getSlidingWindowLengths_def case_prod_unfold)

lemma length_lengths [simp]: "length (getSlidingWindowLengths st) = length (slidingWindowVec st)"
  by (simp add: getSlidingWindowLengths_def)

lemma find_nth:
  assumes "distinct ls" "i < length ls" and that: "\<And>j. j < length ls \<Longrightarrow> f (g j) = ls ! j"
  shows "List.find (\<lambda>x. f x = ls ! i) (map g [0..<length ls]) = Some (g i)"
  unfolding find_Some_iff using assms by (intro exI[of _ i]) (auto simp: nth_eq_iff_index_eq)

section \<open>Cells\<close>

text \<open>A cell is one counter of one stat: the base name, the stat, the definition, the window's index.\<close>

type_synonym 'f cell = "name \<times> ptr \<times> 'f stat_def \<times> nat option"

definition indices :: "nat \<Rightarrow> nat option list" where
  "indices n = None # map Some [0..<n]"

definition cells_of :: "(ptr \<Rightarrow> 'e qstat) \<Rightarrow> name \<times> ptr \<times> 'f stat_def list \<Rightarrow> 'f cell list" where
  "cells_of heap b =
     (case b of (n, p, ds) \<Rightarrow> concat (map (\<lambda>d. map (\<lambda>w. (n, p, d, w)) (indices (length (slidingWindowVec (heap p))))) ds))"

definition cells :: "('f, 'e, 'c) qsm \<Rightarrow> 'f cell list" where
  "cells s = concat (map (cells_of (q_heap s)) (q_bases s))"

definition cell_key :: "('f, 'e, 'd) estimator_ops \<Rightarrow> (ptr \<Rightarrow> 'e qstat) \<Rightarrow> 'f cell \<Rightarrow> name" where
  "cell_key eo heap c = (case c of (n, p, d, w) \<Rightarrow> key_of eo n d (window_at (getSlidingWindowLengths (heap p)) w))"

definition cell_entry :: "('f, 'e, 'd) estimator_ops \<Rightarrow> (ptr \<Rightarrow> 'e qstat) \<Rightarrow> 'f cell \<Rightarrow> 'f counter_entry" where
  "cell_entry eo heap c =
     (case c of (n, p, d, w) \<Rightarrow>
        \<lparr>qe_name = cell_key eo heap c, qe_stat = p, qe_statDef = d, qe_window = window_at (getSlidingWindowLengths (heap p)) w\<rparr>)"

lemma map_index: "map f xs = map (\<lambda>i. f (xs ! i)) [0..<length xs]"
  by (rule nth_equalityI) simp_all

lemma entries_for_cells:
  "entries_for eo n p (getSlidingWindowLengths (heap p)) ds = map (cell_entry eo heap) (cells_of heap (n, p, ds))"
proof -
  have "map (\<lambda>w. \<lparr>qe_name = key_of eo n d (Some w), qe_stat = p, qe_statDef = d, qe_window = Some w\<rparr>) (getSlidingWindowLengths (heap p)) =
      map (\<lambda>i. cell_entry eo heap (n, p, d, Some i)) [0..<length (slidingWindowVec (heap p))]" for d
    by (subst map_index) (simp add: cell_entry_def cell_key_def window_at_def)
  then show ?thesis
    by (simp add: entries_for_def cells_of_def indices_def map_concat o_def)
       (simp add: cell_entry_def cell_key_def window_at_def)
qed

text \<open>The invariant: the counters are the cells of the bases, each under its own key.\<close>

definition qsm_inv :: "('f, 'e, 'd) estimator_ops \<Rightarrow> ('c \<Rightarrow> name set) \<Rightarrow> ('c \<Rightarrow> bool) \<Rightarrow> ('f, 'e, 'c) qsm \<Rightarrow> bool" where
  "qsm_inv eo strings ok s \<longleftrightarrow>
     lockstep strings ok (q_map s) \<and> distinct (map fst (q_bases s)) \<and>
     distinct (map (cell_key eo (q_heap s)) (cells s)) \<and>
     (\<forall>k. cm_find k (q_map s) = map_of (map (\<lambda>c. (cell_key eo (q_heap s) c, cell_entry eo (q_heap s) c)) (cells s)) k) \<and>
     list_all (\<lambda>b. sound_stat eo (q_heap s (fst (snd b)))) (q_bases s)"

definition cell_worth ::
  "('f, 'e, 'd) estimator_ops \<Rightarrow> (nat option \<Rightarrow> ns \<Rightarrow> 'e \<Rightarrow> 'f) \<Rightarrow> (nat option \<Rightarrow> ns \<Rightarrow> 'e \<Rightarrow> 'f) \<Rightarrow> (nat option \<Rightarrow> 'f \<Rightarrow> ns \<Rightarrow> 'e \<Rightarrow> 'f) \<Rightarrow>
   ns \<Rightarrow> (ptr \<Rightarrow> 'e qstat) \<Rightarrow> 'f cell \<Rightarrow> int64" where
  "cell_worth eo sm cnt qt now heap c = (case c of (n, p, d, w) \<Rightarrow> worth eo sm cnt qt now (heap p) d w)"

lemma cells_mem:
  "c \<in> set (cells s) \<Longrightarrow> \<exists>n p ds d w. c = (n, p, d, w) \<and> (n, p, ds) \<in> set (q_bases s) \<and> d \<in> set ds \<and>
     w \<in> set (indices (length (slidingWindowVec (q_heap s p))))"
  by (fastforce simp: cells_def cells_of_def)

lemma distinct_concat_part: "distinct (map f (concat xss)) \<Longrightarrow> xs \<in> set xss \<Longrightarrow> distinct (map f xs)"
  by (induction xss) auto

lemma window_lengths_distinct:
  assumes "distinct (map (cell_key eo (q_heap s)) (cells s))" "(n, p, ds) \<in> set (q_bases s)" "d \<in> set ds"
  shows "distinct (getSlidingWindowLengths (q_heap s p))"
proof -
  let ?i = "indices (length (slidingWindowVec (q_heap s p)))" and ?l = "getSlidingWindowLengths (q_heap s p)"
  have "distinct (map (cell_key eo (q_heap s)) (cells_of (q_heap s) (n, p, ds)))"
    using distinct_concat_part[OF assms(1)[unfolded cells_def]] assms(2) by auto
  then have "distinct (map (cell_key eo (q_heap s)) (map (\<lambda>w. (n, p, d, w)) ?i))"
    using distinct_concat_part assms(3) unfolding cells_of_def by fastforce
  then have "distinct (map (\<lambda>i. key_of eo n d (Some (?l ! i))) [0..<length ?l])"
    by (simp add: indices_def o_def cell_key_def window_at_def)
  then have "distinct (map (\<lambda>w. key_of eo n d (Some w)) ?l)" by (subst (asm) map_index[symmetric])
  then show ?thesis by (simp add: distinct_map)
qed

section \<open>The readers\<close>

definition table ::
  "('f, 'e, 'd) estimator_ops \<Rightarrow> (nat option \<Rightarrow> ns \<Rightarrow> 'e \<Rightarrow> 'f) \<Rightarrow> (nat option \<Rightarrow> ns \<Rightarrow> 'e \<Rightarrow> 'f) \<Rightarrow> (nat option \<Rightarrow> 'f \<Rightarrow> ns \<Rightarrow> 'e \<Rightarrow> 'f) \<Rightarrow>
   ns \<Rightarrow> (ptr \<Rightarrow> 'e qstat) \<Rightarrow> 'f cell list \<Rightarrow> name \<rightharpoonup> int64" where
  "table eo sm cnt qt now heap cs = map_of (map (\<lambda>c. (cell_key eo heap c, cell_worth eo sm cnt qt now heap c)) cs)"

lemma table_append: "table eo sm cnt qt now heap (xs @ ys) = table eo sm cnt qt now heap ys ++ table eo sm cnt qt now heap xs"
  by (simp add: table_def)

lemma emplace_eq: "emplace_value k v out = [k \<mapsto> v] ++ out"
  by (auto simp: emplace_value_def map_add_def fun_eq_iff split: option.splits)

lemma add_windows_law:
  assumes "set (wanted d) \<subseteq> set qs" "set is \<subseteq> {0..<length (slidingWindowVec (heap p))}"
  shows "add_windows eo n d
      (map (\<lambda>i. \<lparr>sw_estimate = est_of sm cnt qt qs now (estimator (heap p)) (Some i),
                 sw_windowLength = fst (slidingWindowVec (heap p) ! i), sw_nWindows = snd (slidingWindowVec (heap p) ! i)\<rparr>) is)
      (to_seconds (now - creationTime (heap p))) out =
    Some (table eo sm cnt qt now heap (map (\<lambda>i. (n, p, d, Some i)) is) ++ out)"
  using assms(2)
proof (induction "is" arbitrary: out)
  case (Cons i "is")
  have i: "i < length (slidingWindowVec (heap p))" using Cons.prems by simp
  have l: "sw_length \<lparr>sw_estimate = x, sw_windowLength = fst (slidingWindowVec (heap p) ! i), sw_nWindows = snd (slidingWindowVec (heap p) ! i)\<rparr> =
      getSlidingWindowLengths (heap p) ! i" for x
    using lengths_nth[OF i] by (simp add: sw_length_def)
  have "table eo sm cnt qt now heap (map (\<lambda>i. (n, p, d, Some i)) is) ++ ([cell_key eo heap (n, p, d, Some i) \<mapsto> worth eo sm cnt qt now (heap p) d (Some i)] ++ out) =
      table eo sm cnt qt now heap (map (\<lambda>i. (n, p, d, Some i)) (i # is)) ++ out"
    by (simp add: table_def cell_worth_def)
  then show ?case using Cons.IH Cons.prems extract_worth(2)[OF assms(1), of eo sm cnt qt now "heap p" i]
    by (simp add: l emplace_eq cell_key_def window_at_def)
qed (simp add: table_def)

lemma qsm_addValues_law:
  assumes "estimator_law eo sm cnt qt" "sound_stat eo (heap p)" "set (wanted d) \<subseteq> set qs"
  shows "qsm_addValues eo n d (getEstimates eo qs now (heap p)) (to_seconds (now - creationTime (heap p))) out =
    Some (table eo sm cnt qt now heap (map (\<lambda>w. (n, p, d, w)) (indices (length (slidingWindowVec (heap p))))) ++ out)"
proof -
  have "table eo sm cnt qt now heap xs ++ ([cell_key eo heap (n, p, d, None) \<mapsto> worth eo sm cnt qt now (heap p) d None] ++ out) =
      table eo sm cnt qt now heap ((n, p, d, None) # xs) ++ out" for xs
    by (simp add: table_def cell_worth_def)
  then show ?thesis
    unfolding qsm_addValues_def getEstimates_law[OF assms(1,2)] fst_conv snd_conv extract_worth(1)[OF assms(3)] option.simps
    by (subst add_windows_law[OF assms(3)]) (simp_all add: emplace_eq indices_def o_def cell_key_def window_at_def)
qed

lemma add_defs_law:
  assumes "estimator_law eo sm cnt qt" "sound_stat eo (heap p)" "set (concat (map wanted ds)) \<subseteq> set qs"
  shows "add_defs eo n ds (getEstimates eo qs now (heap p)) (to_seconds (now - creationTime (heap p))) out =
    Some (table eo sm cnt qt now heap (cells_of heap (n, p, ds)) ++ out)"
  using assms(3)
proof (induction ds arbitrary: out)
  case (Cons d ds)
  have "set (wanted d) \<subseteq> set qs" using Cons.prems by simp
  from qsm_addValues_law[where heap = heap and p = p, OF assms(1,2) this] Cons show ?case
    by (simp add: cells_of_def table_append)
qed (simp add: cells_of_def table_def)

lemma add_bases_law:
  assumes "estimator_law eo sm cnt qt" "list_all (\<lambda>b. sound_stat eo (heap (fst (snd b)))) bs"
  shows "add_bases eo now heap bs out = Some (table eo sm cnt qt now heap (concat (map (cells_of heap) bs)) ++ out)"
  using assms(2)
proof (induction bs arbitrary: out)
  case (Cons b bs)
  obtain n p ds where b: "b = (n, p, ds)" by (metis prod_cases3)
  have "sound_stat eo (heap p)" using Cons.prems b by simp
  from add_defs_law[where heap = heap and p = p and qs = "concat (map wanted ds)", OF assms(1) this] Cons show ?case by (simp add: b Let_def table_append)
qed (simp add: table_def)

lemma getValues_table:
  assumes "estimator_law eo sm cnt qt" "qsm_inv eo strings ok s"
  shows "qsm_getValues eo now s out = Some (table eo sm cnt qt now (q_heap s) (cells s) ++ out)"
  unfolding qsm_getValues_def cells_def using assms by (intro add_bases_law) (simp_all add: qsm_inv_def)

lemma found_cell:
  assumes "qsm_inv eo strings ok s" "cm_find k (q_map s) = Some e"
  obtains n p d w where "(n, p, d, w) \<in> set (cells s)" "k = cell_key eo (q_heap s) (n, p, d, w)" "e = cell_entry eo (q_heap s) (n, p, d, w)"
    "sound_stat eo (q_heap s p)" "distinct (getSlidingWindowLengths (q_heap s p))"
    "w \<in> set (indices (length (slidingWindowVec (q_heap s p))))"
    "table eo sm cnt qt now (q_heap s) (cells s) k = Some (worth eo sm cnt qt now (q_heap s p) d w)"
proof -
  let ?h = "q_heap s"
  have m: "cm_find k (q_map s) = map_of (map (\<lambda>c. (cell_key eo ?h c, cell_entry eo ?h c)) (cells s)) k"
    and dk: "distinct (map (cell_key eo ?h) (cells s))" using assms(1) unfolding qsm_inv_def by blast+
  have "(k, e) \<in> (\<lambda>c. (cell_key eo ?h c, cell_entry eo ?h c)) ` set (cells s)"
    using m assms(2) map_of_SomeD[of "map (\<lambda>c. (cell_key eo ?h c, cell_entry eo ?h c)) (cells s)" k e] by simp
  then obtain c where c: "c \<in> set (cells s)" "k = cell_key eo ?h c" "e = cell_entry eo ?h c" by auto
  obtain n p ds d w where n: "c = (n, p, d, w)" "(n, p, ds) \<in> set (q_bases s)" "d \<in> set ds"
    "w \<in> set (indices (length (slidingWindowVec (?h p))))" using cells_mem[OF c(1)] by blast
  have "table eo sm cnt qt now ?h (cells s) k = Some (cell_worth eo sm cnt qt now ?h c)"
    unfolding table_def by (rule map_of_is_SomeI) (use dk c in \<open>auto simp: o_def\<close>)
  moreover have "sound_stat eo (?h p)" using assms(1) n(2) by (fastforce simp: qsm_inv_def list_all_iff)
  ultimately show thesis
    using that[of n p d w] c n window_lengths_distinct[OF dk n(2,3)] by (simp add: cell_worth_def)
qed

text \<open>What the readers find for a window of a cell.\<close>

lemma find_window:
  assumes "estimator_law eo sm cnt qt" "sound_stat eo st" "distinct (getSlidingWindowLengths st)" "i < length (slidingWindowVec st)"
  shows "\<exists>sw. List.find (\<lambda>sw. sw_length sw = getSlidingWindowLengths st ! i) (snd (getEstimates eo qs now st)) = Some sw \<and>
    sw_estimate sw = est_of sm cnt qt qs now (estimator st) (Some i) \<and> sw_length sw = getSlidingWindowLengths st ! i"
  using find_nth[OF assms(3), of i sw_length "\<lambda>i. \<lparr>sw_estimate = est_of sm cnt qt qs now (estimator st) (Some i),
      sw_windowLength = fst (slidingWindowVec st ! i), sw_nWindows = snd (slidingWindowVec st ! i)\<rparr>"] assms(4)
  by (simp add: getEstimates_law[OF assms(1,2)] sw_length_def lengths_nth)

lemma statDuration_min:
  "statDuration (Some w) creation now = min w (to_seconds (now - creation))"
  "statDuration None creation now = to_seconds (now - creation)"
  by (simp_all add: statDuration_def Let_def)

lemma getValue_table:
  assumes "estimator_law eo sm cnt qt" "qsm_inv eo strings ok s"
  shows "qsm_getValue eo now now k s = Some (table eo sm cnt qt now (q_heap s) (cells s) k)"
proof (cases "cm_find k (q_map s)")
  case None
  have "cm_find k (q_map s) = map_of (map (\<lambda>c. (cell_key eo (q_heap s) c, cell_entry eo (q_heap s) c)) (cells s)) k"
    using assms(2) unfolding qsm_inv_def by blast
  with None have "table eo sm cnt qt now (q_heap s) (cells s) k = None"
    by (auto simp: table_def map_of_eq_None_iff image_image)
  with None show ?thesis by (simp add: qsm_getValue_def)
next
  case (Some e)
  obtain n p d w where c: "e = cell_entry eo (q_heap s) (n, p, d, w)"
    "sound_stat eo (q_heap s p)" "distinct (getSlidingWindowLengths (q_heap s p))"
    "w \<in> set (indices (length (slidingWindowVec (q_heap s p))))"
    "table eo sm cnt qt now (q_heap s) (cells s) k = Some (worth eo sm cnt qt now (q_heap s p) d w)"
    using found_cell[OF assms(2) Some] by metis
  show ?thesis
  proof (cases w)
    case None
    then show ?thesis using Some c extract_worth(1)[OF subset_refl, of eo d sm cnt qt now "q_heap s p"]
      by (simp add: qsm_getValue_def cell_entry_def window_at_def getEstimates_law[OF assms(1) c(2)] statDuration_min)
  next
    case (Some i)
    then have "i < length (slidingWindowVec (q_heap s p))" using c(4) by (auto simp: indices_def)
    from find_window[OF assms(1) c(2,3) this, of "wanted d" now]
    obtain sw where "List.find (\<lambda>sw. sw_length sw = getSlidingWindowLengths (q_heap s p) ! i)
        (snd (getEstimates eo (wanted d) now (q_heap s p))) = Some sw"
      "sw_estimate sw = est_of sm cnt qt (wanted d) now (estimator (q_heap s p)) (Some i)" by blast
    then show ?thesis using \<open>cm_find k (q_map s) = Some e\<close> Some c extract_worth(2)[OF subset_refl, of eo d sm cnt qt now "q_heap s p" i]
      by (simp add: qsm_getValue_def cell_entry_def window_at_def case_prod_unfold Let_def statDuration_min)
  qed
qed

lemma select_each_law:
  assumes law: "estimator_law eo sm cnt qt" and inv: "qsm_inv eo strings ok s"
    and "\<And>k e. (k, e) \<in> set hs \<Longrightarrow> cm_find k (q_map s) = Some e \<and> qe_stat e = p \<and> set (wanted (qe_statDef e)) \<subseteq> set qs"
  shows "select_each eo (getEstimates eo qs now (q_heap s p)) (to_seconds (now - creationTime (q_heap s p))) hs out =
    Some (\<lambda>x. if x \<in> fst ` set hs then table eo sm cnt qt now (q_heap s) (cells s) x else out x)"
  using assms(3)
proof (induction hs arbitrary: out)
  case (Cons h hs)
  obtain k e where h: "h = (k, e)" by (cases h)
  have e: "cm_find k (q_map s) = Some e" "qe_stat e = p" "set (wanted (qe_statDef e)) \<subseteq> set qs" using Cons.prems[of k e] h by auto
  obtain n p' d w where c: "e = cell_entry eo (q_heap s) (n, p', d, w)"
    "sound_stat eo (q_heap s p')" "distinct (getSlidingWindowLengths (q_heap s p'))"
    "w \<in> set (indices (length (slidingWindowVec (q_heap s p'))))"
    "table eo sm cnt qt now (q_heap s) (cells s) k = Some (worth eo sm cnt qt now (q_heap s p') d w)"
    using found_cell[OF inv e(1)] by metis
  have p: "p' = p" "set (wanted d) \<subseteq> set qs" using e(2,3) c(1) by (simp_all add: cell_entry_def)
  have IH: "select_each eo (getEstimates eo qs now (q_heap s p)) (to_seconds (now - creationTime (q_heap s p))) hs out' =
      Some (\<lambda>x. if x \<in> fst ` set hs then table eo sm cnt qt now (q_heap s) (cells s) x else out' x)" for out'
    proof (rule Cons.IH)
    show "cm_find k (q_map s) = Some e \<and> qe_stat e = p \<and> set (wanted (qe_statDef e)) \<subseteq> set qs" if "(k, e) \<in> set hs" for k e
      using Cons.prems[of k e] that by simp
  qed
  have t: "table eo sm cnt qt now (q_heap s) (cells s) k = Some (worth eo sm cnt qt now (q_heap s p) d w)" using c(5) p(1) by simp
  show ?case
  proof (cases w)
    case None
    have "fst (getEstimates eo qs now (q_heap s p)) = est_of sm cnt qt qs now (estimator (q_heap s p)) None"
      using getEstimates_law[OF law] c(2) p(1) by simp
    then show ?thesis using None c(1) p IH t extract_worth(1)[OF p(2), of eo sm cnt qt now "q_heap s p"]
      by (auto simp: h cell_entry_def window_at_def fun_eq_iff)
  next
    case (Some i)
    then have "i < length (slidingWindowVec (q_heap s p))" using c(4) p(1) by (auto simp: indices_def)
    from find_window[OF law c(2,3)[unfolded p(1)] this, of qs now]
    obtain sw where "List.find (\<lambda>sw. sw_length sw = getSlidingWindowLengths (q_heap s p) ! i)
        (snd (getEstimates eo qs now (q_heap s p))) = Some sw"
      "sw_estimate sw = est_of sm cnt qt qs now (estimator (q_heap s p)) (Some i)"
      "sw_length sw = getSlidingWindowLengths (q_heap s p) ! i" by blast
    then show ?thesis using Some c(1) p IH t extract_worth(2)[OF p(2), of eo sm cnt qt now "q_heap s p" i]
      by (auto simp: h cell_entry_def window_at_def fun_eq_iff)
  qed
qed simp

lemma select_stats_law:
  assumes law: "estimator_law eo sm cnt qt" and inv: "qsm_inv eo strings ok s"
    and "\<And>p hs k e. (p, hs) \<in> set gs \<Longrightarrow> (k, e) \<in> set hs \<Longrightarrow> cm_find k (q_map s) = Some e \<and> qe_stat e = p"
  shows "select_stats eo now (q_heap s) gs out =
    Some (\<lambda>x. if x \<in> (\<Union>g\<in>set gs. fst ` set (snd g)) then table eo sm cnt qt now (q_heap s) (cells s) x else out x)"
  using assms(3)
proof (induction gs arbitrary: out)
  case (Cons g gs)
  obtain p hs where g: "g = (p, hs)" by (cases g)
  let ?qs = "concat (map (\<lambda>h. wanted (qe_statDef (snd h))) hs)"
  have 1: "cm_find k (q_map s) = Some e \<and> qe_stat e = p \<and> set (wanted (qe_statDef e)) \<subseteq> set ?qs" if "(k, e) \<in> set hs" for k e
    using Cons.prems[of p hs k e] that g by force
  have 2: "cm_find k (q_map s) = Some e \<and> qe_stat e = p'" if "(p', hs') \<in> set gs" "(k, e) \<in> set hs'" for p' hs' k e
    using Cons.prems that by (metis list.set_intros(2))
  show ?case using select_each_law[OF law inv 1, of hs now out] Cons.IH[OF 2]
    by (auto simp: g Let_def fun_eq_iff)
qed simp

lemma map_filter_hits: "set (List.map_filter (\<lambda>k. map_option (Pair k) (f k)) ks) = {(k, e). k \<in> set ks \<and> f k = Some e}"
  by (induction ks) (auto simp: List.map_filter_simps split: option.splits)

lemma getSelected_table:
  assumes law: "estimator_law eo sm cnt qt" and inv: "qsm_inv eo strings ok s"
  shows "qsm_getSelectedValues eo now ks s out = Some (out ++ (table eo sm cnt qt now (q_heap s) (cells s) |` set ks))"
proof -
  define hits where "hits = List.map_filter (\<lambda>k. map_option (Pair k) (cm_find k (q_map s))) ks"
  have hits: "set hits = {(k, e). k \<in> set ks \<and> cm_find k (q_map s) = Some e}" unfolding hits_def by (rule map_filter_hits)
  have b: "by_stat ks s = map (\<lambda>p. (p, filter (\<lambda>h. qe_stat (snd h) = p) hits)) (sort (remdups (map (\<lambda>h. qe_stat (snd h)) hits)))"
    by (simp add: by_stat_def hits_def Let_def)
  have g: "cm_find k (q_map s) = Some e \<and> qe_stat e = p" if "(p, hs) \<in> set (by_stat ks s)" "(k, e) \<in> set hs" for p hs k e
    using that hits unfolding b by auto
  have u: "(\<Union>g\<in>set (by_stat ks s). fst ` set (snd g)) = {k \<in> set ks. cm_find k (q_map s) \<noteq> None}"
    unfolding b by (auto simp: hits image_iff) (metis hits case_prodI mem_Collect_eq snd_conv)+
  have "table eo sm cnt qt now (q_heap s) (cells s) k = None \<longleftrightarrow> cm_find k (q_map s) = None" for k
  proof (cases "cm_find k (q_map s)")
    case None
    then show ?thesis using getValue_table[OF law inv, of now k] by (simp add: qsm_getValue_def)
  next
    case (Some e)
    then show ?thesis using found_cell[OF inv Some] by (metis option.distinct(1))
  qed
  moreover have "select_stats eo now (q_heap s) (by_stat ks s) out =
      Some (\<lambda>x. if x \<in> {k \<in> set ks. cm_find k (q_map s) \<noteq> None} then table eo sm cnt qt now (q_heap s) (cells s) x else out x)"
    unfolding u[symmetric] by (rule select_stats_law[OF law inv]) (use g in blast)
  ultimately show ?thesis
    unfolding qsm_getSelectedValues_def
    by (auto simp: map_add_def restrict_map_def fun_eq_iff split: option.splits) (metis option.distinct(1))
qed

section \<open>Registering and forgetting\<close>

lemma add_entries_ok:
  assumes L: "regex_cache ops rx strings ok" "reliable ops ok"
    and "lockstep strings ok m" "distinct (map qe_name es)" "set (map qe_name es) \<inter> set (cm_keys m) = {}"
  shows "\<exists>m'. add_entries ops es m = (Inr (), m') \<and> lockstep strings ok m' \<and> cm_map m' = cm_map m @ map (\<lambda>e. (qe_name e, e)) es"
  using assms(3-5)
proof (induction es arbitrary: m)
  case (Cons e es)
  obtain c where c: "addString ops (qe_name e) (cm_matches m) = (True, c)"
    using L(2) Cons.prems(1) by (metis (full_types) lockstep_def prod.collapse reliable_def)
  let ?m = "m\<lparr>cm_map := cm_map m @ [(qe_name e, e)], cm_matches := c\<rparr>"
  have n: "cm_find (qe_name e) m = None" using Cons.prems(3) by (auto simp: cm_find_None)
  then have a: "cachedAddString ops (qe_name e) e m = (Inr True, ?m)" using c by (simp add: cachedAddString_def)
  have "lockstep strings ok ?m" using lockstep_add[OF L(1) Cons.prems(1), of "qe_name e" e] a by simp
  from Cons.IH[OF this] Cons.prems a show ?case by (auto simp: cm_keys_def)
qed simp

lemma q_erase_key_ok:
  assumes "regex_cache ops rx strings ok" "lockstep strings ok m"
  shows "lockstep strings ok (q_erase_key ops k m) \<and> cm_map (q_erase_key ops k m) = cm_erase k (cm_map m)"
proof (cases "cm_find k m")
  case None
  then have "cm_erase k (cm_map m) = cm_map m"
    by (auto simp: cm_find_def map_of_eq_None_iff cm_erase_def intro!: filter_True)
  with None assms(2) show ?thesis by (simp add: q_erase_key_def)
next
  case (Some v)
  with lockstep_erase[OF assms] show ?thesis by (simp add: q_erase_key_def cachedEraseString_def)
qed

lemma q_erase_keys_ok:
  assumes "regex_cache ops rx strings ok"
  shows "lockstep strings ok m \<Longrightarrow> lockstep strings ok (fold (q_erase_key ops) ks m) \<and>
    cm_map (fold (q_erase_key ops) ks m) = filter (\<lambda>e. fst e \<notin> set ks) (cm_map m)"
proof (induction ks arbitrary: m)
  case (Cons k ks)
  note E = q_erase_key_ok[OF assms Cons.prems, of k]
  from Cons.IH[OF E[THEN conjunct1]] E show ?case
    by (auto simp: cm_erase_def intro!: filter_cong)
qed simp

lemma forget_fold:
  "fold (\<lambda>d m. fold (\<lambda>w. q_erase_key ops (key_of eo n d (Some w))) lens (q_erase_key ops (key_of eo n d None) m)) ds m =
   fold (q_erase_key ops) (map qe_name (entries_for eo n p lens ds)) m"
  by (induction ds arbitrary: m) (simp_all add: entries_for_def fold_map o_def)

lemma map_of_filter_keys: "map_of (filter (\<lambda>e. fst e \<notin> K) xs) = map_of xs |` (- K)"
  by (induction xs) (auto simp: restrict_map_def fun_eq_iff)

lemma cells_names: "map qe_name (map (cell_entry eo heap) cs) = map (cell_key eo heap) cs"
  by (auto simp: cell_entry_def)

lemma inv_keys:
  assumes "qsm_inv eo strings ok s"
  shows "set (cm_keys (q_map s)) = set (map (cell_key eo (q_heap s)) (cells s))"
proof -
  have "\<forall>k. cm_find k (q_map s) = map_of (map (\<lambda>c. (cell_key eo (q_heap s) c, cell_entry eo (q_heap s) c)) (cells s)) k"
    using assms unfolding qsm_inv_def by blast
  then have "(k \<in> set (cm_keys (q_map s))) = (k \<in> set (map (cell_key eo (q_heap s)) (cells s)))" for k
    by (metis (no_types, lifting) cm_find_None map_of_eq_None_iff image_image list.set_map fst_conv image_cong)
  then show ?thesis by blast
qed

lemma q_register_ok:
  assumes L: "regex_cache ops rx strings ok" "reliable ops ok" and inv: "qsm_inv eo strings ok s"
    and n: "map_of (q_bases s) nm = None" and st: "sound_stat eo (q_heap s p)"
    and es: "es = entries_for eo nm p (getSlidingWindowLengths (q_heap s p)) ds"
    and d: "distinct (map qe_name es)" "set (map qe_name es) \<inter> set (cm_keys (q_map s)) = {}"
  shows "\<exists>m. registerQuantileStat ops eo nm p ds s = (Inr p, s\<lparr>q_map := m, q_bases := q_bases s @ [(nm, p, ds)]\<rparr>) \<and>
    cm_map m = cm_map (q_map s) @ map (\<lambda>e. (qe_name e, e)) es \<and> qsm_inv eo strings ok (s\<lparr>q_map := m, q_bases := q_bases s @ [(nm, p, ds)]\<rparr>)"
proof -
  let ?h = "q_heap s"
  have l: "lockstep strings ok (q_map s)" and bs: "distinct (map fst (q_bases s))" and dk: "distinct (map (cell_key eo ?h) (cells s))"
    and f: "\<And>k. map_of (cm_map (q_map s)) k = map_of (map (\<lambda>c. (cell_key eo ?h c, cell_entry eo ?h c)) (cells s)) k"
    and so: "list_all (\<lambda>b. sound_stat eo (?h (fst (snd b)))) (q_bases s)"
    using inv unfolding qsm_inv_def cm_find_def by blast+
  obtain m where m: "add_entries ops es (q_map s) = (Inr (), m)" "lockstep strings ok m"
    "cm_map m = cm_map (q_map s) @ map (\<lambda>e. (qe_name e, e)) es" using add_entries_ok[OF L l d] by blast
  let ?s = "s\<lparr>q_map := m, q_bases := q_bases s @ [(nm, p, ds)]\<rparr>"
  have e: "es = map (cell_entry eo ?h) (cells_of ?h (nm, p, ds))" unfolding es by (rule entries_for_cells)
  have c: "cells ?s = cells s @ cells_of ?h (nm, p, ds)" by (simp add: cells_def)
  have nn: "nm \<notin> fst ` set (q_bases s)" using n by (simp add: map_of_eq_None_iff)
  have names: "map (\<lambda>e. (qe_name e, e)) es = map (\<lambda>c. (cell_key eo ?h c, cell_entry eo ?h c)) (cells_of ?h (nm, p, ds))"
    unfolding e by (auto simp: cell_entry_def)
  have k1: "map qe_name es = map (cell_key eo ?h) (cells_of ?h (nm, p, ds))" unfolding e by (rule cells_names)
  have "distinct (map (cell_key eo ?h) (cells ?s))"
    using d dk inv_keys[OF inv] unfolding k1 c by auto
  moreover have "map_of (cm_map m) k = map_of (map (\<lambda>c. (cell_key eo ?h c, cell_entry eo ?h c)) (cells ?s)) k" for k
    using f unfolding m(3) c names by (simp add: map_add_def)
  ultimately have "qsm_inv eo strings ok ?s"
    unfolding qsm_inv_def cm_find_def using m(2) bs nn so st by simp
  moreover have "registerQuantileStat ops eo nm p ds s = (Inr p, ?s)"
    using n m(1) by (simp add: registerQuantileStat_def es)
  ultimately show ?thesis using m(3) by blast
qed

lemma cells_filter:
  "map_of (q_bases s) nm = Some (p, ds) \<Longrightarrow> distinct (map fst (q_bases s)) \<Longrightarrow>
   \<exists>xs ys. q_bases s = xs @ (nm, p, ds) # ys \<and> filter (\<lambda>b. fst b \<noteq> nm) (q_bases s) = xs @ ys"
proof -
  assume a: "map_of (q_bases s) nm = Some (p, ds)" "distinct (map fst (q_bases s))"
  obtain xs ys where q: "q_bases s = xs @ (nm, p, ds) # ys" using split_list[OF map_of_SomeD[OF a(1)]] by blast
  have "nm \<notin> fst ` set xs" "nm \<notin> fst ` set ys" using a(2) q by auto
  then have "filter (\<lambda>b. fst b \<noteq> nm) xs = xs" "filter (\<lambda>b. fst b \<noteq> nm) ys = ys" by (auto simp: filter_id_conv)
  then have "filter (\<lambda>b. fst b \<noteq> nm) (q_bases s) = xs @ ys" using q by simp
  with q show ?thesis by blast
qed

lemma q_forget_ok:
  assumes L: "regex_cache ops rx strings ok" and inv: "qsm_inv eo strings ok s" and b: "map_of (q_bases s) nm = Some (p, ds)"
    and es: "es = entries_for eo nm p (getSlidingWindowLengths (q_heap s p)) ds"
  shows "qsm_inv eo strings ok (qsm_forgetStatsFor ops eo nm s) \<and>
    (\<forall>k. cm_find k (q_map (qsm_forgetStatsFor ops eo nm s)) = (if k \<in> qe_name ` set es then None else cm_find k (q_map s))) \<and>
    q_bases (qsm_forgetStatsFor ops eo nm s) = filter (\<lambda>b. fst b \<noteq> nm) (q_bases s) \<and>
    q_heap (qsm_forgetStatsFor ops eo nm s) = q_heap s"
proof -
  let ?h = "q_heap s" and ?s = "qsm_forgetStatsFor ops eo nm s"
  have l: "lockstep strings ok (q_map s)" and bs: "distinct (map fst (q_bases s))" and dk: "distinct (map (cell_key eo ?h) (cells s))"
    and f: "\<And>k. map_of (cm_map (q_map s)) k = map_of (map (\<lambda>c. (cell_key eo ?h c, cell_entry eo ?h c)) (cells s)) k"
    and so: "list_all (\<lambda>b. sound_stat eo (?h (fst (snd b)))) (q_bases s)"
    using inv unfolding qsm_inv_def cm_find_def by blast+
  obtain xs ys where q: "q_bases s = xs @ (nm, p, ds) # ys" "filter (\<lambda>b. fst b \<noteq> nm) (q_bases s) = xs @ ys"
    using cells_filter[OF b bs] by blast
  have e: "map qe_name es = map (cell_key eo ?h) (cells_of ?h (nm, p, ds))" unfolding es entries_for_cells by (rule cells_names)
  define m where "m = fold (q_erase_key ops) (map qe_name es) (q_map s)"
  have m: "lockstep strings ok m" "cm_map m = filter (\<lambda>e. fst e \<notin> set (map qe_name es)) (cm_map (q_map s))"
    using q_erase_keys_ok[OF L l] unfolding m_def by blast+
  have s: "?s = s\<lparr>q_map := m, q_bases := xs @ ys\<rparr>"
    using b q(2) by (simp add: qsm_forgetStatsFor_def m_def es forget_fold[of ops eo nm _ _ _ p])
  let ?cx = "concat (map (cells_of ?h) xs)" and ?cy = "concat (map (cells_of ?h) ys)" and ?c = "cells_of ?h (nm, p, ds)"
  have c: "cells s = ?cx @ ?c @ ?cy" "cells ?s = ?cx @ ?cy" using q(1) by (simp_all add: cells_def s)
  have dis: "distinct (map (cell_key eo ?h) (?cx @ ?cy))" "cell_key eo ?h ` set (?cx @ ?cy) \<inter> cell_key eo ?h ` set ?c = {}"
    using dk unfolding c(1) map_append distinct_append set_append image_Un set_map by blast+
  have fk: "map_of (cm_map m) k = (if k \<in> qe_name ` set es then None else map_of (cm_map (q_map s)) k)" for k
    unfolding m(2) by (auto simp: map_of_filter_keys restrict_map_def)
  have ce: "qe_name ` set es = cell_key eo ?h ` set ?c" using arg_cong[OF e, of set] by simp
  have "map_of (cm_map m) k = map_of (map (\<lambda>c. (cell_key eo ?h c, cell_entry eo ?h c)) (?cx @ ?cy)) k" for k
  proof (cases "k \<in> cell_key eo ?h ` set ?c")
    case True
    then have "k \<notin> cell_key eo ?h ` set (?cx @ ?cy)" using dis(2) by blast
    then have "map_of (map (\<lambda>c. (cell_key eo ?h c, cell_entry eo ?h c)) (?cx @ ?cy)) k = None"
      unfolding map_of_eq_None_iff by auto
    with True fk ce show ?thesis by (simp add: map_add_def)
  next
    case False
    then have n: "map_of (map (\<lambda>c. (cell_key eo ?h c, cell_entry eo ?h c)) ?c) k = None"
      unfolding map_of_eq_None_iff by auto
    from False fk ce f have "map_of (cm_map m) k = map_of (map (\<lambda>c. (cell_key eo ?h c, cell_entry eo ?h c)) (cells s)) k" by simp
    then show ?thesis unfolding c(1) map_append map_of_append map_add_def by (simp only: n option.simps)
  qed
  then have "qsm_inv eo strings ok ?s"
    unfolding qsm_inv_def cm_find_def c(2) using m(1) dis(1) bs so q by (simp add: s)
  then show ?thesis using fk q(2) by (simp add: s cm_find_def)
qed

section \<open>Results\<close>

text \<open>An estimator over integers that keeps all values and reports their number for every quantile.\<close>

definition list_estimator :: "(int, nat \<times> int list, int) estimator_ops" where
  "list_estimator =
     \<lparr>est_new = (\<lambda>defs. (length defs, [])), est_addValue = (\<lambda>v now e. (fst e, v # snd e)), est_flush = (\<lambda>e. e),
      estimateQuantiles = (\<lambda>qs now e.
        let est = (\<lambda>w :: nat option. \<lparr>e_sum = sum_list (snd e), e_count = int (length (snd e)), e_quantiles = map (\<lambda>q. (q, q + sum_list (snd e))) qs\<rparr>)
        in (est None, map (\<lambda>i. est (Some i)) [0..<fst e])),
      getDigests = (\<lambda>now e. (sum_list (snd e), replicate (fst e) 0)), est_windows = fst,
      f_of = id, f_div = (div), f_positive = (\<lambda>f. 0 < f), clamp_cast = word_of_int, fmt_g = show_int, use_count_for_rate = False\<rparr>"

lemma list_estimator_law:
  "estimator_law list_estimator (\<lambda>w now e. sum_list (snd e)) (\<lambda>w now e. int (length (snd e))) (\<lambda>w q now e. q + sum_list (snd e))"
  by (simp add: estimator_law_def list_estimator_def)

definition demo_qsm :: "(int, nat \<times> int list, name list) qsm" where
  "demo_qsm = \<lparr>q_heap = (\<lambda>p. qs_addValue list_estimator 7 0 (newQuantileStat list_estimator [(10, 6)] 0)),
     q_map = \<lparr>cm_map = [], cm_matches = []\<rparr>, q_bases = []\<rparr>"

lemma demo_qsm_inv: "qsm_inv list_estimator set distinct demo_qsm"
  by (simp add: qsm_inv_def demo_qsm_def lockstep_def cm_keys_def cells_def cm_find_def)

lemma demo_qsm_empty: "q_bases demo_qsm = []" "cm_keys (q_map demo_qsm) = []"
  by (simp_all add: demo_qsm_def cm_keys_def)

lemma demo_sound: "sound_stat list_estimator (q_heap demo_qsm 0)"
  by (simp add: demo_qsm_def sound_stat_def list_estimator_def qs_addValue_def newQuantileStat_def)

definition demo_defs :: "int stat_def list" where
  "demo_defs = [\<lparr>sd_type = PERCENT, sd_quantile = 95\<rparr>, \<lparr>sd_type = COUNT, sd_quantile = 0\<rparr>]"

lemma demo_entries:
  "map qe_name (entries_for list_estimator ''q'' 0 (getSlidingWindowLengths (q_heap demo_qsm 0)) demo_defs) =
     [''q.p95'', ''q.p95.60'', ''q.count'', ''q.count.60'']"
  by code_simp

text \<open>
  C34: Registering a quantile stat adds its counters and forgetting it takes exactly these away. For a new name
  whose keys are not taken, \<open>registerQuantileStat\<close> adds one counter per definition and window beside those that
  are there, and \<open>forgetStatsFor\<close> brings back the former counters and names; both keep the map in order.
\<close>
theorem quantile_register_forget:
  assumes "regex_cache ops rx strings ok" and "reliable ops ok" and "qsm_inv eo strings ok s"
    and "map_of (q_bases s) nm = None" and "sound_stat eo (q_heap s p)"
    and "es = entries_for eo nm p (getSlidingWindowLengths (q_heap s p)) ds"
    and "distinct (map qe_name es)" and "set (map qe_name es) \<inter> set (cm_keys (q_map s)) = {}"
    and "registerQuantileStat ops eo nm p ds s = (r, s1)" and "s2 = qsm_forgetStatsFor ops eo nm s1"
  shows "r = Inr p \<and> qsm_get nm s1 = Some p \<and> qsm_inv eo strings ok s1 \<and>
    (\<forall>k. qsm_contains k s1 \<longleftrightarrow> qsm_contains k s \<or> k \<in> qe_name ` set es) \<and>
    qsm_inv eo strings ok s2 \<and> (\<forall>k. cm_find k (q_map s2) = cm_find k (q_map s)) \<and> q_bases s2 = q_bases s"
proof -
  obtain m where m: "registerQuantileStat ops eo nm p ds s = (Inr p, s\<lparr>q_map := m, q_bases := q_bases s @ [(nm, p, ds)]\<rparr>)"
    "cm_map m = cm_map (q_map s) @ map (\<lambda>e. (qe_name e, e)) es" "qsm_inv eo strings ok (s\<lparr>q_map := m, q_bases := q_bases s @ [(nm, p, ds)]\<rparr>)"
    using q_register_ok[OF assms(1-8)] by blast
  have s1: "r = Inr p" "s1 = s\<lparr>q_map := m, q_bases := q_bases s @ [(nm, p, ds)]\<rparr>" using assms(9) m(1) by simp_all
  have b: "map_of (q_bases s1) nm = Some (p, ds)" using assms(4) by (simp add: s1 map_add_def)
  have es: "es = entries_for eo nm p (getSlidingWindowLengths (q_heap s1 p)) ds" using assms(6) by (simp add: s1)
  note F = q_forget_ok[OF assms(1) m(3)[folded s1(2)] b es, folded assms(10)]
  have "nm \<notin> fst ` set (q_bases s)" using assms(4) by (simp add: map_of_eq_None_iff)
  then have "filter (\<lambda>b. fst b \<noteq> nm) (q_bases s) = q_bases s" by (auto simp: filter_id_conv)
  then have "q_bases s2 = q_bases s" using F by (simp add: s1)
  moreover have N: "map_of (map (\<lambda>e. (qe_name e, e)) es) k = None \<longleftrightarrow> k \<notin> qe_name ` set es" for k
    by (simp add: map_of_eq_None_iff image_image)
  have M: "cm_find k (q_map s1) = (case cm_find k (q_map s) of Some v \<Rightarrow> Some v | None \<Rightarrow> map_of (map (\<lambda>e. (qe_name e, e)) es) k)" for k
    by (simp add: s1 m(2) cm_find_def map_add_def split: option.split)
  have k: "k \<in> qe_name ` set es \<Longrightarrow> cm_find k (q_map s) = None" "k \<in> qe_name ` set es \<Longrightarrow> cm_find k (q_map s1) \<noteq> None"
    "k \<notin> qe_name ` set es \<Longrightarrow> cm_find k (q_map s1) = cm_find k (q_map s)" for k
  proof -
    show a: "k \<in> qe_name ` set es \<Longrightarrow> cm_find k (q_map s) = None" using assms(8) by (auto simp: cm_find_None)
    show "k \<in> qe_name ` set es \<Longrightarrow> cm_find k (q_map s1) \<noteq> None" using a M[of k] N[of k] by simp
    show "k \<notin> qe_name ` set es \<Longrightarrow> cm_find k (q_map s1) = cm_find k (q_map s)" using M[of k] N[of k] by (cases "cm_find k (q_map s)") simp_all
  qed
  moreover have "cm_find k (q_map s2) = cm_find k (q_map s)" for k using F k[of k] by (cases "k \<in> qe_name ` set es") simp_all
  moreover have "qsm_contains k s1 \<longleftrightarrow> qsm_contains k s \<or> k \<in> qe_name ` set es" for k
    using k[of k] by (cases "k \<in> qe_name ` set es") (simp_all add: qsm_contains_def)
  ultimately show ?thesis using F m(3) s1 b by (simp add: qsm_get_def)
qed

theorem quantile_register_forget_witness:
  "qsm_contains ''q.p95.60'' (snd (registerQuantileStat (ready_cache (\<lambda>r s. r = s)) list_estimator ''q'' 0 demo_defs demo_qsm))"
proof -
  obtain r s1 where e: "registerQuantileStat (ready_cache (\<lambda>r s. r = s)) list_estimator ''q'' 0 demo_defs demo_qsm = (r, s1)" by fastforce
  have "reliable (ready_cache (\<lambda>r s. r = s)) distinct" by (simp add: reliable_def ready_cache_def scan_cache_def)
  from quantile_register_forget[OF ready_cache_laws this demo_qsm_inv _ _ refl _ _ e refl]
  have "\<forall>k. qsm_contains k s1 \<longleftrightarrow> qsm_contains k demo_qsm \<or>
      k \<in> set (map qe_name (entries_for list_estimator ''q'' 0 (getSlidingWindowLengths (q_heap demo_qsm 0)) demo_defs))"
    using demo_entries demo_sound by (auto simp: demo_qsm_empty)
  then show ?thesis unfolding demo_entries e by simp
qed

text \<open>
  C14: The three readers of the quantile map agree. At one clock reading, \<open>getValues\<close> reports every counter with
  the value \<open>getValue\<close> returns for it and nothing else, \<open>getSelectedValues\<close> reports exactly the requested part
  of that, and none of them reaches the fatal error for a missing quantile, although one asks the estimator
  for one quantile at a time, one for all quantiles of a stat and one for those of the request.
\<close>
theorem quantile_readers_agree:
  assumes "estimator_law eo sm cnt qt" and "qsm_inv eo strings ok s"
  shows "\<exists>out. qsm_getValues eo now s Map.empty = Some out \<and> dom out = {k. qsm_contains k s} \<and>
    (\<forall>k. qsm_getValue eo now now k s = Some (out k)) \<and>
    (\<forall>ks. qsm_getSelectedValues eo now ks s Map.empty = Some (out |` set ks))"
proof -
  let ?t = "table eo sm cnt qt now (q_heap s) (cells s)"
  have v: "qsm_getValue eo now now k s = Some (?t k)" for k by (rule getValue_table[OF assms])
  have "?t k \<noteq> None \<longleftrightarrow> qsm_contains k s" for k
    using v[of k] found_cell[OF assms(2)] by (cases "cm_find k (q_map s)") (auto simp: qsm_contains_def qsm_getValue_def, metis option.distinct(1))
  then show ?thesis
    using v getValues_table[OF assms, of now Map.empty] getSelected_table[OF assms, of now _ Map.empty]
    by (intro exI[of _ ?t]) auto
qed


lemma demo_registered_inv:
  "qsm_inv list_estimator set distinct (snd (registerQuantileStat (ready_cache (\<lambda>r s. r = s)) list_estimator ''q'' 0 demo_defs demo_qsm))"
proof -
  have r: "reliable (ready_cache (\<lambda>r s. r = s)) distinct" by (simp add: reliable_def ready_cache_def scan_cache_def)
  from q_register_ok[OF ready_cache_laws r demo_qsm_inv _ demo_sound refl, of "''q''" demo_defs]
  show ?thesis unfolding demo_entries by (auto simp: demo_qsm_empty)
qed

theorem quantile_readers_agree_witness:
  "\<exists>out. qsm_getValues list_estimator 5000000000
       (snd (registerQuantileStat (ready_cache (\<lambda>r s. r = s)) list_estimator ''q'' 0 demo_defs demo_qsm)) Map.empty = Some out \<and>
     (\<forall>k. qsm_getValue list_estimator 5000000000 5000000000 k
       (snd (registerQuantileStat (ready_cache (\<lambda>r s. r = s)) list_estimator ''q'' 0 demo_defs demo_qsm)) = Some (out k))"
  using quantile_readers_agree[OF list_estimator_law demo_registered_inv] by blast

text \<open>
  Keys of quantiles are ambiguous. Where two quantiles print as \<open>99\<close> and \<open>99.6\<close>, the six-second window of the
  first and the all-time value of the second have one key, so that the second counter is not registered.
\<close>
theorem quantile_keys_collide:
  assumes "fmt_g eo a = ''99''" and "fmt_g eo b = ''99.6''"
  shows "key_of eo nm \<lparr>sd_type = PERCENT, sd_quantile = a\<rparr> (Some 6) = key_of eo nm \<lparr>sd_type = PERCENT, sd_quantile = b\<rparr> None"
proof -
  have "show_int 6 = ''6''" by code_simp
  then show ?thesis using assms by (simp add: key_of_def makeKey_def)
qed

definition tenths :: "int \<Rightarrow> string" where
  "tenths f = show_int (f div 10) @ (if f mod 10 = 0 then [] else CHR ''.'' # show_int (f mod 10))"

theorem quantile_keys_collide_witness:
  "key_of (list_estimator\<lparr>fmt_g := tenths\<rparr>) ''lat'' \<lparr>sd_type = PERCENT, sd_quantile = 990\<rparr> (Some 6) =
   key_of (list_estimator\<lparr>fmt_g := tenths\<rparr>) ''lat'' \<lparr>sd_type = PERCENT, sd_quantile = 996\<rparr> None"
proof -
  have "tenths 990 = ''99''" "tenths 996 = ''99.6''" by code_simp+
  then show ?thesis by (intro quantile_keys_collide) simp_all
qed

end
