(* ===== verification/ServiceOptions.thy ===== *)
theory ServiceOptions
  imports CallbackValues StatNames "HOL-Library.AList"
begin

text \<open>
  Exported values and options of \<open>ServiceData\<close> (\<^verbatim>\<open>fb303/ServiceData.cpp\<close>). Exported values are strings, set
  directly or computed by registered callbacks. Options are static strings or pairs of functions, and may
  set command-line flags; flags, verbosity and whatever option functions act on are the environment \<open>'x\<close>.
\<close>

section \<open>State\<close>

record 'x dynamic_option =
  opt_getter :: "('x \<Rightarrow> string + string) option"                       \<comment> \<open>\<open>Inl\<close>: it throws, with this message\<close>
  opt_setter :: "(string \<Rightarrow> 'x \<Rightarrow> (string + unit) \<times> 'x) option"

record 'x texts =
  exportedValues :: "(name \<times> string) list"
  options :: "(name \<times> string) list"
  dynamicOptions :: "(name \<times> 'x dynamic_option) list"
  useOptionsAsFlags :: bool

text \<open>gflags, glog and the string functions of folly and the C library.\<close>

record 'x flag_ops =
  SetCommandLineOption :: "string \<Rightarrow> string \<Rightarrow> 'x \<Rightarrow> string \<times> 'x"
  GetCommandLineOption :: "string \<Rightarrow> 'x \<Rightarrow> string option"
  GetAllFlags :: "'x \<Rightarrow> (string \<times> string) list"
  SetVLOGLevel :: "string \<Rightarrow> int \<Rightarrow> 'x \<Rightarrow> 'x"
  split_at :: "char \<Rightarrow> string \<Rightarrow> string list"
  atoi :: "string \<Rightarrow> int"

definition put_entry :: "'k \<Rightarrow> 'v \<Rightarrow> ('k \<times> 'v) list \<Rightarrow> ('k \<times> 'v) list" where
  "put_entry k v xs = AList.update k v xs"

section \<open>Exported values\<close>

definition deleteExportedKey :: "name \<Rightarrow> 'x texts \<Rightarrow> 'x texts" where
  "deleteExportedKey key t =
     (if map_of (exportedValues t) key = None then t
      else t\<lparr>exportedValues := AList.delete key (exportedValues t)\<rparr>)"

text \<open>The value is swapped in under the shared lock when the key is there, else after inserting it.\<close>

definition setExportedValue :: "name \<Rightarrow> string \<Rightarrow> 'x texts \<Rightarrow> 'x texts" where
  "setExportedValue key value t =
     (case map_of (exportedValues t) key of
        Some _ \<Rightarrow> t\<lparr>exportedValues := put_entry key value (exportedValues t)\<rparr>
      | None \<Rightarrow> t\<lparr>exportedValues := put_entry key value (exportedValues t @ [(key, [])])\<rparr>)"

definition getExportedValue_into ::
  "(name \<Rightarrow> uint64) \<Rightarrow> 'w \<Rightarrow> ('w \<Rightarrow> string, 'c) cvm \<Rightarrow> name \<Rightarrow> 'x texts \<Rightarrow> string \<Rightarrow> string" where
  "getExportedValue_into hash w dyn key t ret =
     (case getValue hash w key dyn of
        Some v \<Rightarrow> v
      | None \<Rightarrow> (case map_of (exportedValues t) key of Some v \<Rightarrow> v | None \<Rightarrow> ret))"

definition getExportedValue ::
  "(name \<Rightarrow> uint64) \<Rightarrow> 'w \<Rightarrow> ('w \<Rightarrow> string, 'c) cvm \<Rightarrow> name \<Rightarrow> 'x texts \<Rightarrow> string" where
  "getExportedValue hash w dyn key t = getExportedValue_into hash w dyn key t []"

definition getExportedValues ::
  "'w \<Rightarrow> ('w \<Rightarrow> string, 'c) cvm \<Rightarrow> 'x texts \<Rightarrow> (name \<rightharpoonup> string) \<Rightarrow> name \<rightharpoonup> string" where
  "getExportedValues w dyn t ret = getValues w dyn (fold (\<lambda>e out. out(fst e \<mapsto> snd e)) (exportedValues t) ret)"

definition getSelectedExportedValues ::
  "(name \<Rightarrow> uint64) \<Rightarrow> 'w \<Rightarrow> ('w \<Rightarrow> string, 'c) cvm \<Rightarrow> name list \<Rightarrow> 'x texts \<Rightarrow> (name \<rightharpoonup> string) \<Rightarrow> name \<rightharpoonup> string" where
  "getSelectedExportedValues hash w dyn keys t ret =
     fold (\<lambda>k out. case getValue hash w k dyn of Some v \<Rightarrow> out(k \<mapsto> v) | None \<Rightarrow> out) keys
       (fold (\<lambda>k out. case map_of (exportedValues t) k of Some v \<Rightarrow> out(k \<mapsto> v) | None \<Rightarrow> out) keys ret)"

text \<open>\<open>matches\<close> is \<open>boost::regex_match\<close>; constructing the regex throws when it is malformed.\<close>

definition getRegexExportedValues ::
  "(string \<Rightarrow> bool) \<Rightarrow> (string \<Rightarrow> name \<Rightarrow> bool) \<Rightarrow> 'w \<Rightarrow> ('w \<Rightarrow> string, 'c) cvm \<Rightarrow> string \<Rightarrow> 'x texts \<Rightarrow>
   (name \<rightharpoonup> string) \<Rightarrow> (name \<rightharpoonup> string) option" where
  "getRegexExportedValues valid matches w dyn regex t ret =
     (if \<not> valid regex then None
      else Some (ret ++ (\<lambda>k. if matches regex k then getExportedValues w dyn t Map.empty k else None)))"

section \<open>Options\<close>

datatype set_option_result = Dynamic | CmdlineBlacklisted | CmdlineDisabled | CmdlineNoUpdate | CmdlineUpdated

definition setUseOptionsAsFlags :: "bool \<Rightarrow> 'x texts \<Rightarrow> 'x texts" where
  "setUseOptionsAsFlags b t = t\<lparr>useOptionsAsFlags := b\<rparr>"

definition setVModuleOption :: "'x flag_ops \<Rightarrow> string \<Rightarrow> 'x \<Rightarrow> 'x" where
  "setVModuleOption fo value x =
     (let x1 = fold (\<lambda>val x.
                 (let module_value = split_at fo CHR ''='' val
                  in if length module_value \<noteq> 2 then x
                     else SetVLOGLevel fo (c_str (module_value ! 0)) (atoi fo (c_str (module_value ! 1))) x))
               (split_at fo CHR '','' value) x
      in snd (SetCommandLineOption fo ''minloglevel'' ''0'' x1))"

definition setOptionWithResult ::
  "'x flag_ops \<Rightarrow> name \<Rightarrow> string \<Rightarrow> 'x texts \<Rightarrow> 'x \<Rightarrow> (string + set_option_result) \<times> 'x texts \<times> 'x" where
  "setOptionWithResult fo key value t x =
     (case map_of (dynamicOptions t) key of
        Some opt \<Rightarrow>
          (case opt_setter opt of
             Some f \<Rightarrow> (case f value x of (Inl e, x1) \<Rightarrow> (Inl e, t, x1) | (Inr _, x1) \<Rightarrow> (Inr Dynamic, t, x1))
           | None \<Rightarrow> (Inr Dynamic, t, x))
      | None \<Rightarrow>
          (let t1 = t\<lparr>options := put_entry key value (options t)\<rparr>
           in if key = ''logmailer'' \<or> key = ''whitelist_flags'' then (Inr CmdlineBlacklisted, t1, x)
              else if \<not> (useOptionsAsFlags t1 \<or> key = ''v'' \<or> key = ''vmodule'') then (Inr CmdlineDisabled, t1, x)
              else
                (let (res, x1) = SetCommandLineOption fo (c_str key) (c_str value) x
                 in if res = [] then (Inr CmdlineNoUpdate, t1, x1)
                    else if key = ''vmodule'' then (Inr CmdlineUpdated, t1, setVModuleOption fo value x1)
                    else if key = ''v'' then (Inr CmdlineUpdated, t1, snd (SetCommandLineOption fo ''minloglevel'' ''0'' x1))
                    else (Inr CmdlineUpdated, t1, x1))))"

definition setOption :: "'x flag_ops \<Rightarrow> name \<Rightarrow> string \<Rightarrow> 'x texts \<Rightarrow> 'x \<Rightarrow> (string + unit) \<times> 'x texts \<times> 'x" where
  "setOption fo key value t x =
     (case setOptionWithResult fo key value t x of (r, t1, x1) \<Rightarrow> (map_sum id (\<lambda>_. ()) r, t1, x1))"

datatype option_error = OptionThrew string | NoSuchOption name

definition getOption :: "'x flag_ops \<Rightarrow> name \<Rightarrow> 'x texts \<Rightarrow> 'x \<Rightarrow> option_error + string" where
  "getOption fo key t x =
     (case map_of (dynamicOptions t) key of
        Some opt \<Rightarrow> (case opt_getter opt of Some f \<Rightarrow> map_sum OptionThrew id (f x) | None \<Rightarrow> Inr [])
      | None \<Rightarrow>
          (case map_of (options t) key of
             Some v \<Rightarrow> Inr v
           | None \<Rightarrow>
               (case GetCommandLineOption fo (c_str key) x of
                  Some v \<Rightarrow> Inr v
                | None \<Rightarrow> Inl (NoSuchOption key))))"

definition option_value :: "'x dynamic_option \<Rightarrow> 'x \<Rightarrow> string" where
  "option_value opt x =
     (case opt_getter opt of
        None \<Rightarrow> []
      | Some f \<Rightarrow> (case f x of Inr v \<Rightarrow> v | Inl what \<Rightarrow> ''<error: '' @ what @ ''>''))"

definition mergeOptionsWithGflags :: "'x flag_ops \<Rightarrow> 'x \<Rightarrow> (name \<rightharpoonup> string) \<Rightarrow> name \<rightharpoonup> string" where
  "mergeOptionsWithGflags fo x ret = fold (\<lambda>e out. out(fst e \<mapsto> snd e)) (GetAllFlags fo x) ret"

definition getOptions :: "'x flag_ops \<Rightarrow> 'x texts \<Rightarrow> 'x \<Rightarrow> name \<rightharpoonup> string" where
  "getOptions fo t x =
     (let ret = fold (\<lambda>e out. out(fst e \<mapsto> snd e)) (options t) Map.empty;
          ret1 = fold (\<lambda>e out. out(fst e \<mapsto> option_value (snd e) x)) (dynamicOptions t) ret
      in if useOptionsAsFlags t then mergeOptionsWithGflags fo x ret1 else ret1)"

definition registerDynamicOption ::
  "name \<Rightarrow> ('x \<Rightarrow> string + string) option \<Rightarrow> (string \<Rightarrow> 'x \<Rightarrow> (string + unit) \<times> 'x) option \<Rightarrow> 'x texts \<Rightarrow> 'x texts" where
  "registerDynamicOption nm getter setter t =
     t\<lparr>dynamicOptions := put_entry nm \<lparr>opt_getter = getter, opt_setter = setter\<rparr> (dynamicOptions t)\<rparr>"

section \<open>Facts\<close>

lemma put_entry_map_of [simp]: "map_of (put_entry k v xs) = (map_of xs)(k \<mapsto> v)"
  by (simp add: put_entry_def update_conv')

lemma delete_map_of: "map_of (AList.delete k xs) = (map_of xs)(k := None)"
  by (simp add: delete_conv' fun_eq_iff)

lemma fold_put:
  "distinct (map fst xs) \<Longrightarrow> fold (\<lambda>e out. out(fst e \<mapsto> f (snd e))) xs out = out ++ (\<lambda>k. map_option f (map_of xs k))"
proof (induction xs arbitrary: out)
  case (Cons e xs)
  have "map_of xs (fst e) = None" using Cons.prems by (simp add: map_of_eq_None_iff)
  with Cons show ?case by (auto simp: map_add_def fun_eq_iff split: option.splits)
qed simp

lemma fold_put_id: "distinct (map fst xs) \<Longrightarrow> fold (\<lambda>e out. out(fst e \<mapsto> snd e)) xs out = out ++ map_of xs"
  using fold_put[of xs "\<lambda>v. v" out] by (simp add: option.map_ident)

lemma fold_select: "fold (\<lambda>k out. case m k of Some v \<Rightarrow> out(k \<mapsto> v) | None \<Rightarrow> out) ks out = out ++ (m |` set ks)"
proof (induction ks arbitrary: out)
  case (Cons k ks)
  show ?case unfolding fold_simps o_apply Cons.IH
    by (auto simp: map_add_def restrict_map_def fun_eq_iff split: option.splits)
qed (simp add: restrict_map_def)

definition texts_ok :: "'x texts \<Rightarrow> bool" where
  "texts_ok t \<longleftrightarrow> distinct (map fst (exportedValues t)) \<and> distinct (map fst (options t)) \<and> distinct (map fst (dynamicOptions t))"

lemma distinct_put_entry: "distinct (map fst xs) \<Longrightarrow> distinct (map fst (put_entry k v xs))"
  by (simp add: put_entry_def distinct_update)

text \<open>What an exported value is: the registered callback first.\<close>

definition exported :: "(name \<Rightarrow> uint64) \<Rightarrow> 'w \<Rightarrow> ('w \<Rightarrow> string, 'c) cvm \<Rightarrow> 'x texts \<Rightarrow> name \<rightharpoonup> string" where
  "exported hash w dyn t = map_of (exportedValues t) ++ (\<lambda>n. getValue hash w n dyn)"

lemma getExportedValues_exported:
  assumes "texts_ok t" "cvm_inv hash strings ok dyn"
  shows "getExportedValues w dyn t out = out ++ exported hash w dyn t"
  using assms(1) getValue_lookup[OF assms(2)]
  by (simp add: getExportedValues_def getValues_lookup[OF assms(2)] fold_put_id texts_ok_def exported_def)

text \<open>Setting a static option, by what happens to the environment.\<close>

lemma set_static:
  assumes "map_of (dynamicOptions t) k = None" "setOptionWithResult fo k v t x = (r, t', x')"
    "SetCommandLineOption fo (c_str k) (c_str v) x = (res, x1)"
  shows "t' = t\<lparr>options := put_entry k v (options t)\<rparr> \<and> (\<exists>c. r = Inr c \<and> c \<noteq> Dynamic) \<and>
    (x' = x \<or> (k \<noteq> ''logmailer'' \<and> k \<noteq> ''whitelist_flags'' \<and> (useOptionsAsFlags t \<or> k = ''v'' \<or> k = ''vmodule'') \<and>
       x' \<in> {x1, setVModuleOption fo v x1, snd (SetCommandLineOption fo ''minloglevel'' ''0'' x1)}))"
proof -
  define b1 b2 b3 b4 where b: "b1 = (k = ''logmailer'')" "b2 = (k = ''whitelist_flags'')" "b3 = (k = ''v'')" "b4 = (k = ''vmodule'')"
  show ?thesis using assms(1,2) unfolding setOptionWithResult_def assms(3) b[symmetric]
    by (auto simp: Let_def split: if_splits)
qed

lemma set_dynamic:
  "map_of (dynamicOptions t) k = Some opt \<Longrightarrow> setOptionWithResult fo k v t x = (r, t', x') \<Longrightarrow> t' = t"
  by (auto simp: setOptionWithResult_def split: option.splits prod.splits sum.splits)

section \<open>Results\<close>

text \<open>
  The readers of exported values agree: \<open>getExportedValue\<close> of a key is the entry of \<open>getExportedValues\<close>, or
  empty; the selected values are the requested part of it, and the values of a regex the matching part.
\<close>
theorem exported_readers_agree:
  fixes dyn :: "('w \<Rightarrow> string, 'c) cvm"
  assumes "texts_ok t" and "cvm_inv hash strings ok dyn" and "m = getExportedValues w dyn t Map.empty"
  shows "(\<forall>k. getExportedValue hash w dyn k t = (case m k of Some v \<Rightarrow> v | None \<Rightarrow> [])) \<and>
    (\<forall>ks. getSelectedExportedValues hash w dyn ks t Map.empty = m |` set ks) \<and>
    (\<forall>r. valid r \<longrightarrow> getRegexExportedValues valid matches w dyn r t Map.empty = Some (m |` {k. matches r k}))"
proof (intro conjI allI impI)
  have m: "m = exported hash w dyn t" using getExportedValues_exported[OF assms(1,2)] assms(3) by simp
  show "getExportedValue hash w dyn k t = (case m k of Some v \<Rightarrow> v | None \<Rightarrow> [])" for k
    by (simp add: m getExportedValue_def getExportedValue_into_def exported_def map_add_def split: option.split)
  show "getSelectedExportedValues hash w dyn ks t Map.empty = m |` set ks" for ks
    unfolding getSelectedExportedValues_def fold_select m exported_def
    by (auto simp: map_add_def restrict_map_def fun_eq_iff)
  show "getRegexExportedValues valid matches w dyn r t Map.empty = Some (m |` {k. matches r k})" if "valid r" for r
    using that assms(3) by (auto simp: getRegexExportedValues_def restrict_map_def fun_eq_iff)
qed

definition demo_texts :: "(string \<times> string) list texts" where
  "demo_texts = \<lparr>exportedValues = [(''build'', ''7''), (''b'', ''old'')], options = [], dynamicOptions = [], useOptionsAsFlags = False\<rparr>"

definition demo_strings :: "(nat \<Rightarrow> string, name list) cvm" where
  "demo_strings = snd (registerCallback (ready_cache (\<lambda>r s. r = s)) (\<lambda>n. word_of_nat (length n)) ''b'' (\<lambda>w. show_int (int w)) True (new_cvm []))"

lemma demo_strings_inv: "cvm_inv (\<lambda>n. word_of_nat (length n)) set distinct demo_strings"
proof -
  have "cvm_inv (\<lambda>n. word_of_nat (length n)) set distinct (new_cvm [] :: (nat \<Rightarrow> string, name list) cvm)"
    by (simp add: new_cvm_inv)
  from register_ok(1)[OF ready_cache_laws this] show ?thesis unfolding demo_strings_def by (metis prod.collapse)
qed

theorem exported_readers_agree_witness:
  "\<forall>k. getExportedValue (\<lambda>n. word_of_nat (length n)) 5 demo_strings k demo_texts =
     (case getExportedValues 5 demo_strings demo_texts Map.empty k of Some v \<Rightarrow> v | None \<Rightarrow> [])"
  using exported_readers_agree[OF _ demo_strings_inv refl, of demo_texts 5] by (simp add: texts_ok_def demo_texts_def)

text \<open>
  An option that was set is what is read back, whether or not a flag followed it, and no other option
  changes. For an option with registered functions, its setter is called and the static options stay.
\<close>
theorem set_option_roundtrip:
  assumes "setOptionWithResult fo k v t x = (r, t', x')"
  shows "(map_of (dynamicOptions t) k = None \<longrightarrow> r \<noteq> Inr Dynamic \<and> (\<exists>c. r = Inr c) \<and> getOption fo k t' x' = Inr v \<and>
      (\<forall>j. j \<noteq> k \<longrightarrow> map_of (options t') j = map_of (options t) j)) \<and>
    (map_of (dynamicOptions t) k \<noteq> None \<longrightarrow> t' = t) \<and> dynamicOptions t' = dynamicOptions t"
proof (cases "map_of (dynamicOptions t) k")
  case None
  obtain res x1 where "SetCommandLineOption fo (c_str k) (c_str v) x = (res, x1)" by fastforce
  note S = set_static[OF None assms this, THEN conjunct1] set_static[OF None assms this, THEN conjunct2, THEN conjunct1]
  from S None show ?thesis by (auto simp: getOption_def)
next
  case (Some opt)
  with set_dynamic[OF Some assms] show ?thesis by simp
qed

definition demo_flags :: "(string \<times> string) list flag_ops" where
  "demo_flags = \<lparr>SetCommandLineOption = (\<lambda>k v x. (''ok'', put_entry k v x)), GetCommandLineOption = (\<lambda>k x. map_of x k),
     GetAllFlags = (\<lambda>x. x), SetVLOGLevel = (\<lambda>m l x. x), split_at = (\<lambda>c s. [s]), atoi = (\<lambda>s. 0)\<rparr>"

theorem set_option_roundtrip_witness:
  "getOption demo_flags ''v'' (fst (snd (setOptionWithResult demo_flags ''v'' ''2'' demo_texts [])))
     (snd (snd (setOptionWithResult demo_flags ''v'' ''2'' demo_texts []))) = Inr ''2''"
proof -
  obtain r t' x' where e: "setOptionWithResult demo_flags ''v'' ''2'' demo_texts [] = (r, t', x')" by (metis prod.collapse)
  have "map_of (dynamicOptions demo_texts) ''v'' = None" by (simp add: demo_texts_def)
  with set_option_roundtrip[OF e] show ?thesis unfolding e by simp
qed

definition flag_view :: "'x flag_ops \<Rightarrow> string \<Rightarrow> ('x \<Rightarrow> 'y) \<Rightarrow> bool" where
  "flag_view fo f g \<longleftrightarrow>
     (\<forall>n v x. n \<noteq> f \<longrightarrow> g (snd (SetCommandLineOption fo n v x)) = g x) \<and> (\<forall>m l x. g (SetVLOGLevel fo m l x) = g x)"

lemma fold_keeps: "(\<And>a x. g (f a x) = g x) \<Longrightarrow> g (fold f xs x) = g x"
  by (induction xs arbitrary: x) simp_all

lemma setVModule_view:
  assumes "flag_view fo f g" "f \<noteq> ''minloglevel''"
  shows "g (setVModuleOption fo value x) = g x"
proof -
  have "g (fold (\<lambda>val x. (let module_value = split_at fo CHR ''='' val
                  in if length module_value \<noteq> 2 then x
                     else SetVLOGLevel fo (c_str (module_value ! 0)) (atoi fo (c_str (module_value ! 1))) x))
               (split_at fo CHR '','' value) x) = g x"
    using assms(1) by (intro fold_keeps) (simp add: flag_view_def Let_def)
  then show ?thesis using assms by (simp add: setVModuleOption_def flag_view_def)
qed



text \<open>
  The guard compares whole keys, but gflags is handed a C string: with options used as flags, the key
  \<open>logmailer\<close> followed by a NUL character passes the guard and sets the flag \<open>logmailer\<close>.
\<close>
theorem blacklist_bypassed:
  assumes "useOptionsAsFlags t" and "map_of (dynamicOptions t) (''logmailer'' @ [CHR 0x00]) = None"
    and "SetCommandLineOption fo ''logmailer'' (c_str v) x = (res, x1)" and "res \<noteq> []"
  shows "\<exists>t'. setOptionWithResult fo (''logmailer'' @ [CHR 0x00]) v t x = (Inr CmdlineUpdated, t', x1)"
  using assms by (simp add: setOptionWithResult_def c_str_def)

theorem blacklist_bypassed_witness:
  "map_of (snd (snd (setOptionWithResult demo_flags (''logmailer'' @ [CHR 0x00]) ''you''
      (demo_texts\<lparr>useOptionsAsFlags := True\<rparr>) [(''logmailer'', ''me'')]))) ''logmailer'' = Some ''you''"
proof -
  have "SetCommandLineOption demo_flags ''logmailer'' (c_str ''you'') [(''logmailer'', ''me'')] = (''ok'', [(''logmailer'', ''you'')])"
    by (simp add: demo_flags_def c_str_def put_entry_def)
  from blacklist_bypassed[OF _ _ this, of "demo_texts\<lparr>useOptionsAsFlags := True\<rparr>"] show ?thesis
    by (auto simp: demo_texts_def)
qed

text \<open>
  Listing options and reading one agree where no flag has the name: a static option, or one whose getter
  does not throw, is listed with the value \<open>getOption\<close> returns. A flag of the same name, when options are used
  as flags, replaces it in the listing only.
\<close>
theorem options_listing:
  assumes "texts_ok t" and "getOption fo k t x = Inr v" and "map_of (options t) k \<noteq> None \<or> map_of (dynamicOptions t) k \<noteq> None"
    and "distinct (map fst (GetAllFlags fo x))"
  shows "getOptions fo t x k =
    (if useOptionsAsFlags t then (case map_of (GetAllFlags fo x) k of Some u \<Rightarrow> Some u | None \<Rightarrow> Some v) else Some v)"
proof -
  have o: "fold (\<lambda>e out. out(fst e \<mapsto> snd e)) (options t) Map.empty = map_of (options t)"
    using assms(1) by (simp add: texts_ok_def fold_put_id)
  have d: "fold (\<lambda>e out. out(fst e \<mapsto> option_value (snd e) x)) (dynamicOptions t) ret =
      ret ++ (\<lambda>k. map_option (\<lambda>d. option_value d x) (map_of (dynamicOptions t) k))" for ret
    using fold_put[of "dynamicOptions t" "\<lambda>d. option_value d x" ret] assms(1) by (simp add: texts_ok_def)
  have g: "fold (\<lambda>e out. out(fst e \<mapsto> snd e)) (GetAllFlags fo x) ret = ret ++ map_of (GetAllFlags fo x)" for ret
    using assms(4) by (simp add: fold_put_id)
  have "(map_of (options t) ++ (\<lambda>k. map_option (\<lambda>d. option_value d x) (map_of (dynamicOptions t) k))) k = Some v"
    using assms(2,3)
    by (auto simp: getOption_def option_value_def map_add_def split: option.splits sum.splits)
  then show ?thesis by (simp add: getOptions_def Let_def o d mergeOptionsWithGflags_def g map_add_def split: option.split)
qed

theorem options_listing_witness:
  "getOptions demo_flags (demo_texts\<lparr>options := [(''x'', ''1'')], useOptionsAsFlags := True\<rparr>) [(''x'', ''2'')] ''x'' = Some ''2''"
  using options_listing[of "demo_texts\<lparr>options := [(''x'', ''1'')], useOptionsAsFlags := True\<rparr>" demo_flags "''x''" "[(''x'', ''2'')]" "''1''"]
  by (simp add: texts_ok_def demo_texts_def getOption_def demo_flags_def)

end
