(* ===== verification/ServiceData.thy ===== *)
theory ServiceData
  imports Counters HistExport QuantileMap ServiceOptions
begin

text \<open>
  \<open>ServiceData\<close> (\<^verbatim>\<open>fb303/ServiceData.h\<close>, \<^verbatim>\<open>fb303/ServiceData.cpp\<close>): the object a service keeps its
  monitoring data in. A counter comes from one of three sources, the registered callbacks, the quantile
  stats and the flat counters, and four readers combine them. A fatal log or failed \<open>CHECK\<close> is the outcome
  \<open>Abort\<close>; what the clock says is an argument.
\<close>

section \<open>State\<close>

record ('s, 'h, 'c, 'f, 'e, 'x) service =
  exports :: "('s, 'h, 'c) sdata"             \<comment> \<open>\<open>dynamicCounters_\<close>, \<open>dynamicStrings_\<close>, \<open>statsMap_\<close>, \<open>histMap_\<close>\<close>
  counters :: "'c counters"
  quantileMap :: "('f, 'e, 'c) qsm"
  next_stat :: ptr
  texts :: "'x texts"                         \<comment> \<open>\<open>exportedValues_\<close>, \<open>options_\<close>, \<open>dynamicOptions_\<close>\<close>

datatype service_error = Failure failure | NoSuchCounter name | BadBucketSize name int64 | BadConversion string

type_synonym ('a, 's, 'h, 'c, 'f, 'e, 'x) svc_result = "(service_error + 'a) \<times> ('s, 'h, 'c, 'f, 'e, 'x) service"

definition on_exports ::
  "(failure + 'a) \<times> ('s, 'h, 'c) sdata \<Rightarrow> ('s, 'h, 'c, 'f, 'e, 'x) service \<Rightarrow> ('a, 's, 'h, 'c, 'f, 'e, 'x) svc_result" where
  "on_exports o1 s = (map_sum Failure id (fst o1), s\<lparr>exports := snd o1\<rparr>)"

definition on_stats ::
  "(rx_error + 'a) \<times> ('s, 'h, 'c) sdata \<Rightarrow> ('s, 'h, 'c, 'f, 'e, 'x) service \<Rightarrow> ('a, 's, 'h, 'c, 'f, 'e, 'x) svc_result" where
  "on_stats o1 s = (map_sum (\<lambda>e. Failure (Thrown e)) id (fst o1), s\<lparr>exports := snd o1\<rparr>)"

section \<open>Whole-service operations\<close>

definition flushAllData ::
  "('s, 'h, 'l, 'c, 'p, 'r) params \<Rightarrow> ('f, 'e, 'd) estimator_ops \<Rightarrow> ('s, 'h, 'c, 'f, 'e, 'x) service \<Rightarrow> ('s, 'h, 'c, 'f, 'e, 'x) service"
where
  "flushAllData P eo s = s\<lparr>exports := flushAllStats P (exports s), quantileMap := flushAll eo (quantileMap s)\<rparr>"

definition resetAllData ::
  "('s, 'h, 'l, 'c, 'p, 'r) params \<Rightarrow> ('s, 'h, 'c, 'f, 'e, 'x) service \<Rightarrow> ('s, 'h, 'c, 'f, 'e, 'x) service" where
  "resetAllData P s =
     (let x = forgetAllHistograms (forgetAllStats (exports s))
      in s\<lparr>texts := (texts s)\<lparr>options := [], exportedValues := []\<rparr>,
           counters := cachedClearStrings (cops P) (counters s),
           quantileMap := forgetAll (cops P) (quantileMap s),
           exports := x\<lparr>dynamicStrings := cvm_clear (cops P) (dynamicStrings x),
                         dynamicCounters := cvm_clear (cops P) (dynamicCounters x)\<rparr>\<rparr>)"

definition zeroStats ::
  "('s, 'h, 'l, 'c, 'p, 'r) params \<Rightarrow> ('s, 'h, 'c, 'f, 'e, 'x) service \<Rightarrow> ('s, 'h, 'c, 'f, 'e, 'x) service" where
  "zeroStats P s =
     s\<lparr>counters := zeroCounters (counters s), exports := clearAllHistograms P (clearAllStats P (exports s))\<rparr>"

section \<open>Stats and histograms\<close>

definition addStatExportType ::
  "('s, 'h, 'l, 'c, 'p, 'r) params \<Rightarrow> name \<Rightarrow> export_type \<Rightarrow> 's option \<Rightarrow> bool \<Rightarrow> ('s, 'h, 'c, 'f, 'e, 'x) service \<Rightarrow>
   (unit, 's, 'h, 'c, 'f, 'e, 'x) svc_result" where
  "addStatExportType P key type statPrototype updateOnRead s =
     on_stats (exportStats P key [type] statPrototype updateOnRead (exports s)) s"

text \<open>
  \<open>addStatExports\<close>. \<open>split_at\<close> is \<open>folly::split\<close>, \<open>to_int\<close> is \<open>folly::to<int32_t>\<close>, which throws on anything but a
  number. The histogram is made once, when the first percentile comes.
\<close>

definition stat_type_named :: "string \<Rightarrow> export_type option" where
  "stat_type_named stat =
     (if stat = ''AVG'' then Some AVG
      else if stat = ''RATE'' then Some RATE
      else if stat = ''SUM'' then Some ESUM
      else if stat = ''COUNT'' then Some COUNT
      else None)"

definition exportHistogramPercentile ::
  "('s, 'h, 'l, 'c, 'p, 'r) params \<Rightarrow> name \<Rightarrow> int \<Rightarrow> ('s, 'h, 'c, 'f, 'e, 'x) service \<Rightarrow> (unit, 's, 'h, 'c, 'f, 'e, 'x) svc_result"
where
  "exportHistogramPercentile P key pct s =
     (case on_exports (exportPercentile P key pct (exports s)) s of (r, s1) \<Rightarrow> (map_sum id (\<lambda>_. ()) r, s1))"

fun export_stats_loop ::
  "('s, 'h, 'l, 'c, 'p, 'r) params \<Rightarrow> (string \<Rightarrow> int option) \<Rightarrow> name \<Rightarrow> int64 \<Rightarrow> int64 \<Rightarrow> int64 \<Rightarrow> bool \<Rightarrow> string list \<Rightarrow>
   ('s, 'h, 'c, 'f, 'e, 'x) service \<Rightarrow> (unit, 's, 'h, 'c, 'f, 'e, 'x) svc_result" where
  "export_stats_loop P to_int key bucketSize mn mx addedHist [] s = (Inr (), s)"
| "export_stats_loop P to_int key bucketSize mn mx addedHist (stat # stats) s =
     (case stat_type_named stat of
        Some t \<Rightarrow>
          (case addStatExportType P key t None True s of
             (Inl e, s1) \<Rightarrow> (Inl e, s1)
           | (Inr _, s1) \<Rightarrow> export_stats_loop P to_int key bucketSize mn mx addedHist stats s1)
      | None \<Rightarrow>
          if \<not> addedHist \<and> sint bucketSize \<le> 0 then (Inl (BadBucketSize key bucketSize), s)
          else
            (case (if addedHist then (Inr (), s)
                   else
                     (let hist = h_make (hops P) bucketSize mn mx (histDefaultStat (exports s));
                          (r, s1) = on_exports (addHistogram_copy P key hist (exports s)) s
                      in (map_sum id (\<lambda>_. ()) r, s1))) of
               (Inl e, s1) \<Rightarrow> (Inl e, s1)
             | (Inr _, s1) \<Rightarrow>
                 (case to_int stat of
                    None \<Rightarrow> (Inl (BadConversion stat), s1)
                  | Some pct \<Rightarrow>
                      (case exportHistogramPercentile P key pct s1 of
                         (Inl e, s2) \<Rightarrow> (Inl e, s2)
                       | (Inr _, s2) \<Rightarrow> export_stats_loop P to_int key bucketSize mn mx True stats s2))))"

definition addStatExports ::
  "('s, 'h, 'l, 'c, 'p, 'r) params \<Rightarrow> (char \<Rightarrow> string \<Rightarrow> string list) \<Rightarrow> (string \<Rightarrow> int option) \<Rightarrow> name \<Rightarrow> string \<Rightarrow>
   int64 \<Rightarrow> int64 \<Rightarrow> int64 \<Rightarrow> ('s, 'h, 'c, 'f, 'e, 'x) service \<Rightarrow> (unit, 's, 'h, 'c, 'f, 'e, 'x) svc_result" where
  "addStatExports P split to_int key stats bucketSize mn mx s =
     (if ehm_contains key (exports s) then (Inr (), s)
      else export_stats_loop P to_int key bucketSize mn mx False (split CHR '','' stats) s)"

definition addStatValue ::
  "('s, 'h, 'l, 'c, 'p, 'r) params \<Rightarrow> name \<Rightarrow> int64 \<Rightarrow> secs \<Rightarrow> ('s, 'h, 'c, 'f, 'e, 'x) service \<Rightarrow> (unit, 's, 'h, 'c, 'f, 'e, 'x) svc_result"
where
  "addStatValue P key value now s = on_stats (esm_addValue P key now value 1 (exports s)) s"

definition addStatValue_types ::
  "('s, 'h, 'l, 'c, 'p, 'r) params \<Rightarrow> name \<Rightarrow> int64 \<Rightarrow> export_type list \<Rightarrow> secs \<Rightarrow> ('s, 'h, 'c, 'f, 'e, 'x) service \<Rightarrow>
   (unit, 's, 'h, 'c, 'f, 'e, 'x) svc_result" where
  "addStatValue_types P key value types now s = on_stats (esm_addValue_types P key now value types (exports s)) s"

definition addStatValueAggregated ::
  "('s, 'h, 'l, 'c, 'p, 'r) params \<Rightarrow> name \<Rightarrow> int64 \<Rightarrow> int64 \<Rightarrow> secs \<Rightarrow> ('s, 'h, 'c, 'f, 'e, 'x) service \<Rightarrow>
   (unit, 's, 'h, 'c, 'f, 'e, 'x) svc_result" where
  "addStatValueAggregated P key sm numSamples now s = on_stats (esm_addValueAggregated P key now sm numSamples (exports s)) s"

definition sd_addHistogram ::
  "('s, 'h, 'l, 'c, 'p, 'r) params \<Rightarrow> name \<Rightarrow> int64 \<Rightarrow> int64 \<Rightarrow> int64 \<Rightarrow> ('s, 'h, 'c, 'f, 'e, 'x) service \<Rightarrow>
   (bool, 's, 'h, 'c, 'f, 'e, 'x) svc_result" where
  "sd_addHistogram P key bucketSize mn mx s = on_exports (addHistogram P key bucketSize mn mx (exports s)) s"

definition exportHistogram ::
  "('s, 'h, 'l, 'c, 'p, 'r) params \<Rightarrow> name \<Rightarrow> export_arg \<Rightarrow> ('s, 'h, 'c, 'f, 'e, 'x) service \<Rightarrow> (unit, 's, 'h, 'c, 'f, 'e, 'x) svc_result"
where
  "exportHistogram P key arg s =
     (case on_exports (exportStat_arg P key arg (exports s)) s of (r, s1) \<Rightarrow> (map_sum id (\<lambda>_. ()) r, s1))"

definition addHistogramValueMult ::
  "('s, 'h, 'l, 'c, 'p, 'r) params \<Rightarrow> name \<Rightarrow> int64 \<Rightarrow> int64 \<Rightarrow> bool \<Rightarrow> ('s, 'h, 'c, 'f, 'e, 'x) service \<Rightarrow> ('s, 'h, 'c, 'f, 'e, 'x) service"
where
  "addHistogramValueMult P key value n checkContains s =
     (if \<not> checkContains \<or> ehm_contains key (exports s)
      then s\<lparr>exports := ehm_addValue P key (clock (wld (exports s))) value n (exports s)\<rparr> else s)"

definition addHistogramValue ::
  "('s, 'h, 'l, 'c, 'p, 'r) params \<Rightarrow> name \<Rightarrow> int64 \<Rightarrow> bool \<Rightarrow> ('s, 'h, 'c, 'f, 'e, 'x) service \<Rightarrow> ('s, 'h, 'c, 'f, 'e, 'x) service"
where
  "addHistogramValue P key value checkContains s =
     (if \<not> checkContains \<or> ehm_contains key (exports s)
      then s\<lparr>exports := ehm_addValue P key (clock (wld (exports s))) value 1 (exports s)\<rparr> else s)"

definition addHistAndStatValue ::
  "('s, 'h, 'l, 'c, 'p, 'r) params \<Rightarrow> name \<Rightarrow> int64 \<Rightarrow> bool \<Rightarrow> secs \<Rightarrow> ('s, 'h, 'c, 'f, 'e, 'x) service \<Rightarrow>
   (unit, 's, 'h, 'c, 'f, 'e, 'x) svc_result" where
  "addHistAndStatValue P key value checkContains now s =
     (case on_stats (esm_addValue P key now value 1 (exports s)) s of
        (Inl e, s1) \<Rightarrow> (Inl e, s1)
      | (Inr _, s1) \<Rightarrow>
          (Inr (), if \<not> checkContains \<or> ehm_contains key (exports s1)
                   then s1\<lparr>exports := ehm_addValue P key (clock (wld (exports s1))) value 1 (exports s1)\<rparr> else s1))"

definition addHistAndStatValues ::
  "('s, 'h, 'l, 'c, 'p, 'r) params \<Rightarrow> name \<Rightarrow> 'l \<Rightarrow> secs \<Rightarrow> int64 \<Rightarrow> int64 \<Rightarrow> bool \<Rightarrow> ('s, 'h, 'c, 'f, 'e, 'x) service \<Rightarrow>
   (unit, 's, 'h, 'c, 'f, 'e, 'x) svc_result" where
  "addHistAndStatValues P key values now sm nsamples checkContains s =
     (case on_stats (esm_addValueAggregated P key now sm nsamples (exports s)) s of
        (Inl e, s1) \<Rightarrow> (Inl e, s1)
      | (Inr _, s1) \<Rightarrow>
          (Inr (), if \<not> checkContains \<or> ehm_contains key (exports s1)
                   then s1\<lparr>exports := ehm_addValues P key now values (exports s1)\<rparr> else s1))"

text \<open>\<open>getQuantileStat\<close>: a period of a minute or more is cut into sixty windows and must divide evenly.\<close>

definition window_def :: "nat \<Rightarrow> (secs \<times> nat) option" where
  "window_def n =
     (if n \<ge> 60 then (if n mod 60 = 0 then Some (int n div 60, 60) else None) else Some (1, n))"

fun window_defs :: "nat list \<Rightarrow> (secs \<times> nat) list option" where
  "window_defs [] = Some []"
| "window_defs (n # ns) =
     (case window_def n of
        None \<Rightarrow> None
      | Some d \<Rightarrow> map_option (Cons d) (window_defs ns))"

definition getQuantileStat ::
  "('s, 'h, 'l, 'c, 'p, 'r) params \<Rightarrow> ('f, 'e, 'd) estimator_ops \<Rightarrow> name \<Rightarrow> export_type list \<Rightarrow> 'f list \<Rightarrow> nat list \<Rightarrow> ns \<Rightarrow>
   ('s, 'h, 'c, 'f, 'e, 'x) service \<Rightarrow> (ptr, 's, 'h, 'c, 'f, 'e, 'x) svc_result" where
  "getQuantileStat P eo nm stats quantiles slidingWindowPeriods now s =
     (case qsm_get nm (quantileMap s) of
        Some p \<Rightarrow> (Inr p, s)
      | None \<Rightarrow>
          (case window_defs slidingWindowPeriods of
             None \<Rightarrow> (Inl (Failure Abort), s)
           | Some defs \<Rightarrow>
               (let p = next_stat s;
                    q = quantileMap s;
                    q1 = q\<lparr>q_heap := (q_heap q)(p := newQuantileStat eo defs now)\<rparr>;
                    statDefs = map (\<lambda>t. \<lparr>sd_type = t, sd_quantile = f_of eo 0\<rparr>) stats @
                               map (\<lambda>x. \<lparr>sd_type = PERCENT, sd_quantile = x\<rparr>) quantiles;
                    (r, q2) = registerQuantileStat (cops P) eo nm p statDefs q1
                in (map_sum (\<lambda>e. Failure (Thrown e)) id r, s\<lparr>quantileMap := q2, next_stat := p + 1\<rparr>))))"

section \<open>Counters\<close>

definition getCounterIfExists ::
  "('s, 'h, 'l, 'c, 'p, 'r) params \<Rightarrow> ('f, 'e, 'd) estimator_ops \<Rightarrow> ns \<Rightarrow> ns \<Rightarrow> name \<Rightarrow> ('s, 'h, 'c, 'f, 'e, 'x) service \<Rightarrow>
   int64 option option" where
  "getCounterIfExists P eo now1 now2 key s =
     (case getValue (hashf P) (wld (exports s)) key (dynamicCounters (exports s)) of
        Some v \<Rightarrow> Some (Some v)
      | None \<Rightarrow>
          (case qsm_getValue eo now1 now2 key (quantileMap s) of
             None \<Rightarrow> None
           | Some (Some v) \<Rightarrow> Some (Some v)
           | Some None \<Rightarrow> Some (cm_find key (counters s))))"

definition getCounter ::
  "('s, 'h, 'l, 'c, 'p, 'r) params \<Rightarrow> ('f, 'e, 'd) estimator_ops \<Rightarrow> ns \<Rightarrow> ns \<Rightarrow> name \<Rightarrow> ('s, 'h, 'c, 'f, 'e, 'x) service \<Rightarrow>
   service_error + int64" where
  "getCounter P eo now1 now2 key s =
     (case getCounterIfExists P eo now1 now2 key s of
        None \<Rightarrow> Inl (Failure Abort)
      | Some (Some v) \<Rightarrow> Inr v
      | Some None \<Rightarrow> Inl (NoSuchCounter key))"

definition getCounters ::
  "('s, 'h, 'l, 'c, 'p, 'r) params \<Rightarrow> ('f, 'e, 'd) estimator_ops \<Rightarrow> ns \<Rightarrow> ('s, 'h, 'c, 'f, 'e, 'x) service \<Rightarrow>
   (name \<rightharpoonup> int64) \<Rightarrow> (name \<rightharpoonup> int64) option" where
  "getCounters P eo now s ret =
     (case qsm_getValues eo now (quantileMap s) (fold (\<lambda>e. emplace_value (fst e) (snd e)) (cm_map (counters s)) ret) of
        None \<Rightarrow> None
      | Some ret1 \<Rightarrow> Some (getValues (wld (exports s)) (dynamicCounters (exports s)) ret1))"

definition getCounterKeys :: "('s, 'h, 'c, 'f, 'e, 'x) service \<Rightarrow> name list" where
  "getCounterKeys s =
     getKeys (qsm_getKeys (getKeys_flat [] (counters s)) (quantileMap s)) (dynamicCounters (exports s))"

definition getNumCounters :: "('s, 'h, 'c, 'f, 'e, 'x) service \<Rightarrow> nat" where
  "getNumCounters s =
     length (cm_map (counters s)) + qsm_getNumKeys (quantileMap s) + getNumKeys (dynamicCounters (exports s))"

definition getSelectedCounters ::
  "('s, 'h, 'l, 'c, 'p, 'r) params \<Rightarrow> ('f, 'e, 'd) estimator_ops \<Rightarrow> ns \<Rightarrow> name list \<Rightarrow> ('s, 'h, 'c, 'f, 'e, 'x) service \<Rightarrow>
   (name \<rightharpoonup> int64) \<Rightarrow> (name \<rightharpoonup> int64) option" where
  "getSelectedCounters P eo now keys s out =
     (let out1 = fold (\<lambda>k out. case cm_find k (counters s) of Some v \<Rightarrow> out(k \<mapsto> v) | None \<Rightarrow> out) keys out;
          out2 = fold (\<lambda>k out. case getValue (hashf P) (wld (exports s)) k (dynamicCounters (exports s)) of
                                Some v \<Rightarrow> out(k \<mapsto> v) | None \<Rightarrow> out) keys out1
      in qsm_getSelectedValues eo now keys (quantileMap s) out2)"

definition getRegexCounters ::
  "('s, 'h, 'l, 'c, 'p, 'r) params \<Rightarrow> ('f, 'e, 'd) estimator_ops \<Rightarrow> ns \<Rightarrow> regex \<Rightarrow> time_point \<Rightarrow> ('s, 'h, 'c, 'f, 'e, 'x) service \<Rightarrow>
   (name \<rightharpoonup> int64) \<Rightarrow> (name \<rightharpoonup> int64, 's, 'h, 'c, 'f, 'e, 'x) svc_result" where
  "getRegexCounters P eo now regex rnow s ret =
     (case cachedFindMatchesSnapshot (cops P) id id [] regex rnow (counters s) of
        (Inl e, m) \<Rightarrow> (Inl (Failure (Thrown e)), s\<lparr>counters := m\<rparr>)
      | (Inr keys1, m) \<Rightarrow>
          (let s1 = s\<lparr>counters := m\<rparr>
           in case qsm_getRegexKeys (cops P) keys1 regex rnow (quantileMap s1) of
                (Inl e, q) \<Rightarrow> (Inl (Failure (Thrown e)), s1\<lparr>quantileMap := q\<rparr>)
              | (Inr keys2, q) \<Rightarrow>
                  (let s2 = s1\<lparr>quantileMap := q\<rparr>
                   in case getRegexKeys (cops P) regex rnow keys2 (dynamicCounters (exports s2)) of
                        (Inl e, dc) \<Rightarrow> (Inl (Failure (Thrown e)), s2\<lparr>exports := (exports s2)\<lparr>dynamicCounters := dc\<rparr>\<rparr>)
                      | (Inr keys3, dc) \<Rightarrow>
                          (let s3 = s2\<lparr>exports := (exports s2)\<lparr>dynamicCounters := dc\<rparr>\<rparr>
                           in case getSelectedCounters P eo now keys3 s3 ret of
                                None \<Rightarrow> (Inl (Failure Abort), s3)
                              | Some out \<Rightarrow> (Inr out, s3)))))"

definition sd_trimRegexCache ::
  "('s, 'h, 'l, 'c, 'p, 'r) params \<Rightarrow> time_point \<Rightarrow> ('s, 'h, 'c, 'f, 'e, 'x) service \<Rightarrow> ('s, 'h, 'c, 'f, 'e, 'x) service" where
  "sd_trimRegexCache P expiry s =
     s\<lparr>counters := cachedTrimStale (cops P) expiry (counters s),
       quantileMap := qsm_trimRegexCache (cops P) expiry (quantileMap s),
       exports := (exports s)\<lparr>dynamicCounters := trimRegexCache (cops P) expiry (dynamicCounters (exports s))\<rparr>\<rparr>"

definition hasCounter :: "('s, 'h, 'l, 'c, 'p, 'r) params \<Rightarrow> name \<Rightarrow> ('s, 'h, 'c, 'f, 'e, 'x) service \<Rightarrow> bool" where
  "hasCounter P key s \<longleftrightarrow>
     (if contains (hashf P) key (dynamicCounters (exports s)) then True
      else if qsm_contains key (quantileMap s) then True
      else cm_find key (counters s) \<noteq> None)"

section \<open>Searching the three sources\<close>

lemma snapshot_map: "cm_map (snd (cachedFindMatchesSnapshot ops id id out r now m)) = cm_map m"
  by (auto simp: cachedFindMatchesSnapshot_def cachedFindMatches_def Let_def split: prod.splits option.splits)

lemma snapshot_search:
  assumes "regex_cache ops rx strings ok" "lockstep strings ok m" "cachedFindMatchesSnapshot ops id id out r now m = (res, m')"
  shows "lockstep strings ok m' \<and> cm_map m' = cm_map m \<and>
    (\<forall>ks. res = Inr ks \<longrightarrow> set ks = set out \<union> {k \<in> set (cm_keys m). rx r k})"
proof -
  have "lockstep strings ok m' \<and> found rx r out (res, m')" using snapshot_ok[OF assms(1,2), of id id out r now] assms(3) by simp
  moreover have "cm_map m' = cm_map m" using snapshot_map[of ops out r now m] assms(3) by simp
  moreover from this have "cm_keys m' = cm_keys m" by (simp add: cm_keys_def)
  ultimately show ?thesis by (auto simp: found_def matching_def)
qed

lemma regex_shards_ok:
  assumes "regex_cache ops rx strings ok" "\<forall>m\<in>set ms. lockstep strings ok m" "regex_shards ops r now keys ms = (res, ms')"
  shows "map cm_map ms' = map cm_map ms \<and> (\<forall>m\<in>set ms'. lockstep strings ok m) \<and>
    (\<forall>ks. res = Inr ks \<longrightarrow> set ks = set keys \<union> {k \<in> set (concat (map cm_keys ms)). rx r k})"
  using assms(2,3)
proof (induction ms arbitrary: keys res ms')
  case (Cons m ms)
  obtain r1 m1 where m1: "cachedFindMatchesSnapshot ops id id keys r now m = (r1, m1)" by fastforce
  note S = snapshot_search[OF assms(1) _ m1]
  show ?case
  proof (cases r1)
    case (Inl e)
    then show ?thesis using Cons.prems m1 S by auto
  next
    case (Inr ks1)
    obtain r2 ms2 where ms2: "regex_shards ops r now ks1 ms = (r2, ms2)" by fastforce
    have "\<forall>m\<in>set ms. lockstep strings ok m" using Cons.prems(1) by simp
    from Cons.IH[OF this ms2] Cons.prems Inr m1 ms2 S show ?thesis by auto
  qed
qed simp

lemma getRegexKeys_ok:
  assumes L: "regex_cache ops rx strings ok" and I: "cvm_inv hash strings ok t" and r: "getRegexKeys ops r now keys t = (res, t')"
  shows "cvm_inv hash strings ok t' \<and> lookup hash t' = lookup hash t \<and>
    (\<forall>ks. res = Inr ks \<longrightarrow> set ks = set keys \<union> {k \<in> dom (lookup hash t). rx r k})"
proof -
  note D = cvm_invD[OF I]
  obtain ms where ms: "regex_shards ops r now keys (callbackMaps t) = (res, ms)" "t' = t\<lparr>callbackMaps := ms\<rparr>"
    using r by (auto simp: getRegexKeys_def split: prod.splits)
  have "\<forall>m\<in>set (callbackMaps t). lockstep strings ok m" using D(1,2) by (metis in_set_conv_nth)
  note S = regex_shards_ok[OF L this ms(1)]
  have len: "length ms = kNumShards" using S D(1) by (metis length_map)
  have nth: "cm_map (ms ! i) = cm_map (callbackMaps t ! i)" if "i < kNumShards" for i
    using arg_cong[OF S[THEN conjunct1], of "\<lambda>l. l ! i"] len D(1) that by simp
  have l: "lockstep strings ok (ms ! i)" if "i < kNumShards" for i using S len that by simp
  have f: "cm_find n (shard_of hash n t') = cm_find n (shard_of hash n t)" for n
    by (simp add: shard_of_def ms(2) cm_find_def nth)
  have "cvm_inv hash strings ok t'"
    using I nth l len unfolding cvm_inv_def by (simp add: ms(2))
  moreover have en: "entries_of t' = entries_of t" by (simp add: ms(2))
  have "lookup hash t' n = lookup hash t n" for n unfolding lookup_def f en ..
  then have "lookup hash t' = lookup hash t" by blast
  moreover have "dom (lookup hash t) = set (concat (map cm_keys (callbackMaps t)))"
    unfolding dom_lookup[OF I] all_entries_def cm_keys_def by (simp add: map_concat)
  ultimately show ?thesis using S by simp
qed

section \<open>The sources of a counter\<close>

definition service_good ::
  "('s, 'h, 'l, 'c, 'p, 'r) params \<Rightarrow> ('f, 'e, 'd) estimator_ops \<Rightarrow> (regex \<Rightarrow> name \<Rightarrow> bool) \<Rightarrow> ('c \<Rightarrow> name set) \<Rightarrow> ('c \<Rightarrow> bool) \<Rightarrow>
   ('s, 'h, 'c, 'f, 'e, 'x) service \<Rightarrow> bool" where
  "service_good P eo rx strings ok s \<longleftrightarrow>
     sdata_good P rx strings ok (exports s) \<and> lockstep strings ok (counters s) \<and>
     qsm_inv eo strings ok (quantileMap s) \<and> texts_ok (texts s)"

definition dynamic_part :: "('s, 'h, 'l, 'c, 'p, 'r) params \<Rightarrow> ('s, 'h, 'c, 'f, 'e, 'x) service \<Rightarrow> name \<rightharpoonup> int64" where
  "dynamic_part P s k = getValue (hashf P) (wld (exports s)) k (dynamicCounters (exports s))"

definition quantile_part :: "('f, 'e, 'd) estimator_ops \<Rightarrow> ns \<Rightarrow> ('s, 'h, 'c, 'f, 'e, 'x) service \<Rightarrow> name \<rightharpoonup> int64" where
  "quantile_part eo now s k = (case qsm_getValue eo now now k (quantileMap s) of None \<Rightarrow> None | Some v \<Rightarrow> v)"

definition flat_part :: "('s, 'h, 'c, 'f, 'e, 'x) service \<Rightarrow> name \<rightharpoonup> int64" where
  "flat_part s k = cm_find k (counters s)"

lemma quantile_part_table:
  assumes "estimator_law eo sm cnt qt" "qsm_inv eo strings ok (quantileMap s)"
  shows "quantile_part eo now s = table eo sm cnt qt now (q_heap (quantileMap s)) (cells (quantileMap s))"
    and "qsm_getValue eo now now k (quantileMap s) = Some (quantile_part eo now s k)"
  using getValue_table[OF assms, of now] by (simp_all add: quantile_part_def fun_eq_iff)

lemma sdata_cvm:
  assumes "sdata_good P rx strings ok x"
  shows "cvm_inv (hashf P) strings ok (dynamicCounters x)" "cvm_inv (hashf P) strings ok (dynamicStrings x)" "regex_cache (cops P) rx strings ok"
  using assms by (simp_all add: sdata_good_def cvm_good_def)

lemma fold_emplace: "fold (\<lambda>e. emplace_value (fst e) (snd e)) xs out = map_of xs ++ out"
proof (induction xs arbitrary: out)
  case (Cons e xs)
  have "fold (\<lambda>e. emplace_value (fst e) (snd e)) (e # xs) out = map_of xs ++ ([fst e \<mapsto> snd e] ++ out)"
    unfolding fold_simps o_apply Cons.IH emplace_eq ..
  then show ?case by (cases e) (simp add: fun_upd_def map_add_def fun_eq_iff split: option.split)
qed simp

lemma getCounterIfExists_parts:
  assumes "estimator_law eo sm cnt qt" "service_good P eo rx strings ok s"
  shows "getCounterIfExists P eo now now k s = Some ((flat_part s ++ quantile_part eo now s ++ dynamic_part P s) k)"
proof -
  have "qsm_inv eo strings ok (quantileMap s)" using assms(2) by (simp add: service_good_def)
  from quantile_part_table(2)[OF assms(1) this, of now k] show ?thesis
    by (auto simp: getCounterIfExists_def dynamic_part_def flat_part_def map_add_def split: option.splits)
qed

lemma getCounters_parts:
  assumes "estimator_law eo sm cnt qt" "service_good P eo rx strings ok s"
  shows "getCounters P eo now s out = Some (quantile_part eo now s ++ (flat_part s ++ out) ++ dynamic_part P s)"
proof -
  have q: "qsm_inv eo strings ok (quantileMap s)" and d: "cvm_inv (hashf P) strings ok (dynamicCounters (exports s))"
    using assms(2) sdata_cvm by (auto simp: service_good_def)
  have f: "flat_part s = map_of (cm_map (counters s))" by (simp add: flat_part_def cm_find_def fun_eq_iff)
  have p: "dynamic_part P s = (\<lambda>n. map_option (\<lambda>cb. cb (wld (exports s))) (lookup (hashf P) (dynamicCounters (exports s)) n))"
    by (simp add: dynamic_part_def getValue_lookup[OF d] fun_eq_iff)
  show ?thesis
    unfolding getCounters_def fold_emplace getValues_table[OF assms(1) q] option.simps getValues_lookup[OF d] f p
      quantile_part_table(1)[OF assms(1) q] ..
qed

lemma getSelectedCounters_parts:
  assumes "estimator_law eo sm cnt qt" "service_good P eo rx strings ok s"
  shows "getSelectedCounters P eo now ks s out = Some (out ++ ((flat_part s ++ dynamic_part P s ++ quantile_part eo now s) |` set ks))"
proof -
  have q: "qsm_inv eo strings ok (quantileMap s)" using assms(2) by (simp add: service_good_def)
  have "qsm_getSelectedValues eo now ks (quantileMap s) o1 = Some (o1 ++ (quantile_part eo now s |` set ks))" for o1
    unfolding quantile_part_table(1)[OF assms(1) q] by (rule getSelected_table[OF assms(1) q])
  then show ?thesis
    unfolding getSelectedCounters_def Let_def fold_select
    by (auto simp: fun_eq_iff map_add_def restrict_map_def flat_part_def dynamic_part_def split: option.splits)
qed

lemma hasCounter_parts:
  assumes "estimator_law eo sm cnt qt" "service_good P eo rx strings ok s"
  shows "hasCounter P k s \<longleftrightarrow> k \<in> dom (flat_part s ++ dynamic_part P s ++ quantile_part eo now s)"
proof -
  have q: "qsm_inv eo strings ok (quantileMap s)" and d: "cvm_inv (hashf P) strings ok (dynamicCounters (exports s))"
    using assms(2) sdata_cvm by (auto simp: service_good_def)
  have "contains (hashf P) k (dynamicCounters (exports s)) \<longleftrightarrow> dynamic_part P s k \<noteq> None"
    using contains_lookup[OF d] getValue_lookup[OF d] by (simp add: dynamic_part_def)
  moreover have "qsm_contains k (quantileMap s) \<longleftrightarrow> quantile_part eo now s k \<noteq> None"
  proof (cases "cm_find k (q_map (quantileMap s))")
    case None
    then show ?thesis by (simp add: qsm_contains_def quantile_part_def qsm_getValue_def)
  next
    case (Some e)
    then show ?thesis unfolding quantile_part_table(1)[OF assms(1) q]
      using found_cell[OF q Some] by (simp add: qsm_contains_def) (metis option.distinct(1))
  qed
  ultimately show ?thesis by (auto simp: hasCounter_def flat_part_def)
qed

section \<open>Results\<close>

definition demo_service ::
  "(int64 \<times> int64, (int64 \<times> int64 \<times> int64) \<times> (int64 \<times> int64), name list, int, nat \<times> int list, (string \<times> string) list) service" where
  "demo_service =
     \<lparr>exports = demo_used, counters = \<lparr>cm_map = [(''hits'', 3)], cm_matches = [''hits'']\<rparr>,
      quantileMap = demo_qsm, next_stat = 0, texts = demo_texts\<rparr>"

lemma demo_service_good: "service_good demo_params list_estimator (\<lambda>r s. r = s) set distinct demo_service"
  using demo_used_facts(1) demo_qsm_inv
  by (simp add: service_good_def demo_service_def lockstep_def cm_keys_def texts_ok_def demo_texts_def)

lemma demo_quantile_part: "quantile_part list_estimator now demo_service = Map.empty"
  by (simp add: quantile_part_def demo_service_def qsm_getValue_def demo_qsm_def cm_find_def fun_eq_iff)

text \<open>
  C21: What each reader reports when a name has several sources. \<open>getCounter\<close> prefers a registered callback, then
  a quantile stat, then a flat counter; \<open>getCounters\<close> prefers the callback, then the flat counter, then the
  quantile stat; \<open>getSelectedCounters\<close> prefers the quantile stat, then the callback, then the flat counter.
\<close>
theorem counter_precedence:
  assumes "estimator_law eo sm cnt qt" and "service_good P eo rx strings ok s"
  shows "(\<forall>k. getCounterIfExists P eo now now k s = Some ((flat_part s ++ quantile_part eo now s ++ dynamic_part P s) k)) \<and>
    getCounters P eo now s Map.empty = Some (quantile_part eo now s ++ flat_part s ++ dynamic_part P s) \<and>
    (\<forall>ks. getSelectedCounters P eo now ks s Map.empty =
       Some ((flat_part s ++ dynamic_part P s ++ quantile_part eo now s) |` set ks))"
  using getCounterIfExists_parts[OF assms, of now] getCounters_parts[OF assms, of now Map.empty]
    getSelectedCounters_parts[OF assms, of now _ Map.empty] by simp

theorem counter_precedence_witness:
  "getCounterIfExists demo_params list_estimator 0 0 ''hits'' demo_service =
     Some ((flat_part demo_service ++ quantile_part list_estimator 0 demo_service ++ dynamic_part demo_params demo_service) ''hits'')"
  using counter_precedence[OF list_estimator_law demo_service_good] by blast


lemma demo_dynamic_part: "dynamic_part demo_params demo_service ''hits'' = None"
  by code_simp

lemma demo_flat_part: "dom (flat_part demo_service) = {''hits''}"
  by (auto simp: flat_part_def demo_service_def cm_find_def split: if_splits)


lemma regex_keeps_q:
  assumes "qsm_inv eo strings ok q" "lockstep strings ok m" "cm_map m = cm_map (q_map q)"
  shows "qsm_inv eo strings ok (q\<lparr>q_map := m\<rparr>)" "qsm_getValue eo now now k (q\<lparr>q_map := m\<rparr>) = qsm_getValue eo now now k q"
proof -
  have f: "cm_find k m = cm_find k (q_map q)" for k by (simp add: cm_find_def assms(3))
  show "qsm_inv eo strings ok (q\<lparr>q_map := m\<rparr>)" using assms(1,2) by (simp add: qsm_inv_def f cells_def)
  show "qsm_getValue eo now now k (q\<lparr>q_map := m\<rparr>) = qsm_getValue eo now now k q"
    unfolding qsm_getValue_def by (simp add: f cong: option.case_cong)
qed

text \<open>
  C22: A regex search over all sources that does not throw reports exactly the counters whose names match, each
  with the value \<open>getSelectedCounters\<close> has for it, and leaves every counter and value as it was.
\<close>
theorem regex_counters_exact:
  assumes law: "estimator_law eo sm cnt qt" and good: "service_good P eo rx strings ok s"
    and r: "getRegexCounters P eo now regex rnow s Map.empty = (Inr out, s')"
  shows "out = (flat_part s ++ dynamic_part P s ++ quantile_part eo now s) |` {k. rx regex k} \<and> service_good P eo rx strings ok s' \<and>
    flat_part s' = flat_part s \<and> dynamic_part P s' = dynamic_part P s \<and> quantile_part eo now s' = quantile_part eo now s"
proof -
  have x: "sdata_good P rx strings ok (exports s)" and l: "lockstep strings ok (counters s)"
    and q: "qsm_inv eo strings ok (quantileMap s)" and t: "texts_ok (texts s)" using good by (simp_all add: service_good_def)
  have lq: "lockstep strings ok (q_map (quantileMap s))" using q by (simp add: qsm_inv_def)
  note D = sdata_cvm[OF x]
  obtain r1 m where m0: "cachedFindMatchesSnapshot (cops P) id id [] regex rnow (counters s) = (r1, m)" by fastforce
  obtain ks1 where m: "cachedFindMatchesSnapshot (cops P) id id [] regex rnow (counters s) = (Inr ks1, m)"
    using r m0 by (cases r1) (simp_all add: getRegexCounters_def)
  obtain r2 mq where q0: "cachedFindMatchesSnapshot (cops P) id id ks1 regex rnow (q_map (quantileMap s)) = (r2, mq)" by fastforce
  obtain ks2 where mq: "cachedFindMatchesSnapshot (cops P) id id ks1 regex rnow (q_map (quantileMap s)) = (Inr ks2, mq)"
    using r m q0 by (cases r2) (simp_all add: getRegexCounters_def qsm_getRegexKeys_def)
  obtain r3 dc where d0: "getRegexKeys (cops P) regex rnow ks2 (dynamicCounters (exports s)) = (r3, dc)" by fastforce
  obtain ks3 where dc: "getRegexKeys (cops P) regex rnow ks2 (dynamicCounters (exports s)) = (Inr ks3, dc)"
    using r m mq d0 by (cases r3) (simp_all add: getRegexCounters_def qsm_getRegexKeys_def)
  define s3 where "s3 = s\<lparr>counters := m, quantileMap := (quantileMap s)\<lparr>q_map := mq\<rparr>, exports := (exports s)\<lparr>dynamicCounters := dc\<rparr>\<rparr>"
  note S1 = snapshot_search[OF D(3) l m] and S2 = snapshot_search[OF D(3) lq mq] and S3 = getRegexKeys_ok[OF D(3) D(1) dc]
  note K = regex_keeps_q[OF q S2[THEN conjunct1] S2[THEN conjunct2, THEN conjunct1]]
  have g3: "service_good P eo rx strings ok s3"
    using x t S1 S3 K(1) by (simp add: service_good_def s3_def sdata_good_def cvm_good_def)
  have f: "flat_part s3 = flat_part s" using S1 by (simp add: flat_part_def cm_find_def s3_def fun_eq_iff)
  have d: "dynamic_part P s3 = dynamic_part P s"
    using S3 getValue_lookup[OF D(1)] getValue_lookup[of "hashf P" strings ok dc] by (simp add: dynamic_part_def s3_def fun_eq_iff)
  have qq: "quantile_part eo now s3 = quantile_part eo now s" by (simp add: quantile_part_def s3_def K(2) fun_eq_iff)
  have s': "s' = s3" "Some out = getSelectedCounters P eo now ks3 s3 Map.empty"
    using r m mq dc by (auto simp: getRegexCounters_def qsm_getRegexKeys_def s3_def Let_def split: option.splits)
  have "dom (lookup (hashf P) (dynamicCounters (exports s))) = dom (dynamic_part P s)"
    using getValue_lookup[OF D(1), of "wld (exports s)"] by (auto simp: dynamic_part_def dom_def)
  moreover have "set (cm_keys (counters s)) = dom (flat_part s)" using cm_find_None[of _ "counters s"] by (auto simp: flat_part_def dom_def simp del: not_None_eq)
  moreover have "set (cm_keys (q_map (quantileMap s))) = dom (quantile_part eo now s)"
    unfolding inv_keys[OF q] quantile_part_table(1)[OF law q] table_def by (simp add: dom_map_of_conv_image_fst image_image)
  ultimately have "set ks3 = {k \<in> dom (flat_part s ++ dynamic_part P s ++ quantile_part eo now s). rx regex k}"
    using S1 S2 S3 by auto
  then have "out = (flat_part s ++ dynamic_part P s ++ quantile_part eo now s) |` {k. rx regex k}"
    using getSelectedCounters_parts[OF law g3, of now ks3 Map.empty] s'(2) f d qq
    by (auto simp: restrict_map_def fun_eq_iff map_add_def domIff split: option.splits)
  then show ?thesis using g3 f d qq s'(1) by simp
qed

theorem regex_counters_exact_witness:
  "fst (getRegexCounters demo_params list_estimator 0 ''hits'' 0 demo_service Map.empty) = Inr [''hits'' \<mapsto> 3]"
proof -
  obtain o1 s' where e: "getRegexCounters demo_params list_estimator 0 ''hits'' 0 demo_service Map.empty = (Inr o1, s')"
    "o1 ''hits'' = Some 3"
  proof -
    have "(case fst (getRegexCounters demo_params list_estimator 0 ''hits'' 0 demo_service Map.empty) of
        Inr o1 \<Rightarrow> o1 ''hits'' = Some 3 | Inl _ \<Rightarrow> False)" by code_simp
    with that show thesis
      by (cases "getRegexCounters demo_params list_estimator 0 ''hits'' 0 demo_service Map.empty") (auto split: sum.splits)
  qed
  have "o1 k = None" if "k \<noteq> ''hits''" for k
    using regex_counters_exact[OF list_estimator_law demo_service_good e(1)] that by simp
  with e show ?thesis by (auto simp: fun_eq_iff)
qed

text \<open>
  C40: \<open>resetAllData\<close> leaves nothing to read: no counter of any source, no exported value and no static option;
  what it keeps are the options with registered functions. The service stays in order.
\<close>
theorem reset_leaves_nothing:
  assumes "estimator_law eo sm cnt qt" and "service_good P eo rx strings ok s" and "s' = resetAllData P s"
  shows "service_good P eo rx strings ok s' \<and> getCounters P eo now s' Map.empty = Some Map.empty \<and> (\<forall>k. \<not> hasCounter P k s') \<and>
    getExportedValues (wld (exports s')) (dynamicStrings (exports s')) (texts s') Map.empty = Map.empty \<and>
    options (texts s') = [] \<and> dynamicOptions (texts s') = dynamicOptions (texts s)"
proof -
  have x: "sdata_good P rx strings ok (exports s)" and l: "lockstep strings ok (counters s)"
    and q: "qsm_inv eo strings ok (quantileMap s)" and t: "texts_ok (texts s)" using assms(2) by (simp_all add: service_good_def)
  note D = sdata_cvm[OF x]
  note C1 = clear_ok[OF D(3,1)] and C2 = clear_ok[OF D(3,2)]
  have "lockstep strings ok (q_map (quantileMap s))" using q by (simp add: qsm_inv_def)
  from lockstep_clear[OF D(3) this] have q': "qsm_inv eo strings ok (quantileMap s')"
    by (simp add: assms(3) resetAllData_def Let_def forgetAll_def qsm_inv_def cells_def cm_find_def cachedClearStrings_def)
  have g: "service_good P eo rx strings ok s'"
    using x t C1(1) C2(1) lockstep_clear[OF D(3) l] q' unfolding service_good_def
    by (simp add: assms(3) resetAllData_def Let_def sdata_good_def cvm_good_def texts_ok_def forgetAllHistograms_def forgetAllStats_def)
  have f: "flat_part s' = Map.empty"
    by (simp add: assms(3) resetAllData_def Let_def flat_part_def cm_find_def cachedClearStrings_def fun_eq_iff)
  have d: "dynamic_part P s' = Map.empty"
    using getValue_lookup[OF C1(1)] C1(2)
    by (simp add: assms(3) resetAllData_def Let_def dynamic_part_def forgetAllHistograms_def forgetAllStats_def fun_eq_iff)
  have qq: "quantile_part eo now s' = Map.empty" for now
    unfolding quantile_part_table(1)[OF assms(1) q']
    by (simp add: table_def assms(3) resetAllData_def Let_def forgetAll_def cells_def)
  have ds: "dynamicStrings (exports s') = cvm_clear (cops P) (dynamicStrings (exports s))"
    by (simp add: assms(3) resetAllData_def Let_def forgetAllHistograms_def forgetAllStats_def)
  have "getExportedValues (wld (exports s')) (dynamicStrings (exports s')) (texts s') Map.empty = Map.empty"
    unfolding ds getExportedValues_def getValues_lookup[OF C2(1)] C2(2)
    by (simp add: assms(3) resetAllData_def Let_def)
  moreover have "\<not> hasCounter P k s'" for k using hasCounter_parts[OF assms(1) g, of k now] f d qq by simp
  ultimately show ?thesis using g getCounters_parts[OF assms(1) g, of now Map.empty] f d qq
    by (simp add: assms(3) resetAllData_def Let_def)
qed

theorem reset_leaves_nothing_witness:
  "getCounters demo_params list_estimator 0 (resetAllData demo_params demo_service) Map.empty = Some Map.empty"
  using reset_leaves_nothing[OF list_estimator_law demo_service_good refl] by blast

text \<open>
  The sliding windows of a quantile stat are as long as asked for. \<open>getQuantileStat\<close> ends the process exactly
  when some period of a minute or more is not a number of minutes; otherwise a new stat has one window per
  period, in order and of that length, and a name that is taken keeps its stat.
\<close>
theorem quantile_windows_exact:
  "(window_defs ns = None \<longleftrightarrow> (\<exists>n\<in>set ns. n \<ge> 60 \<and> n mod 60 \<noteq> 0)) \<and>
   (\<forall>defs. window_defs ns = Some defs \<longrightarrow>
      getSlidingWindowLengths (newQuantileStat eo defs now) = map int ns) \<and>
   (\<forall>p. qsm_get nm (quantileMap s) = Some p \<longrightarrow> getQuantileStat P eo nm stats qs ns now s = (Inr p, s)) \<and>
   (qsm_get nm (quantileMap s) = None \<longrightarrow> window_defs ns = None \<longrightarrow>
      getQuantileStat P eo nm stats qs ns now s = (Inl (Failure Abort), s))"
proof -
  have w: "window_def n = None \<longleftrightarrow> n \<ge> 60 \<and> n mod 60 \<noteq> 0" for n by (simp add: window_def_def)
  have l: "slidingWindowLength (fst d) (snd d) = int n" if d: "window_def n = Some d" for n d
  proof (cases "n \<ge> 60")
    case True
    with d have "60 dvd n" "d = (int n div 60, 60)" by (auto simp: window_def_def split: if_splits)
    then show ?thesis by (auto simp: slidingWindowLength_def elim!: dvdE)
  next
    case False
    with d show ?thesis by (auto simp: window_def_def slidingWindowLength_def)
  qed
  have "window_defs ns = None \<longleftrightarrow> (\<exists>n\<in>set ns. window_def n = None)"
    by (induction ns) (auto split: option.splits)
  then have "window_defs ns = None \<longleftrightarrow> (\<exists>n\<in>set ns. n \<ge> 60 \<and> n mod 60 \<noteq> 0)" unfolding w .
  moreover have "window_defs ns = Some defs \<Longrightarrow> map (\<lambda>d. slidingWindowLength (fst d) (snd d)) defs = map int ns" for defs
    by (induction ns arbitrary: defs) (auto dest: l split: option.splits)
  moreover have "qsm_get nm (quantileMap s) = None \<Longrightarrow> window_defs ns = None \<Longrightarrow>
      getQuantileStat P eo nm stats qs ns now s = (Inl (Failure Abort), s)" by (simp add: getQuantileStat_def)
  moreover have "qsm_get nm (quantileMap s) = Some p \<Longrightarrow> getQuantileStat P eo nm stats qs ns now s = (Inr p, s)" for p
    by (simp add: getQuantileStat_def)
  ultimately show ?thesis
    by (simp only: getSlidingWindowLengths_def newQuantileStat_def case_prod_unfold qstat.simps) blast
qed

theorem quantile_windows_exact_witness:
  "getSlidingWindowLengths (newQuantileStat list_estimator [(10, 60), (1, 30)] 0) = [600, 30]"
proof -
  have "window_defs [600, 30] = Some [(10, 60), (1, 30)]" by code_simp
  then have "getSlidingWindowLengths (newQuantileStat list_estimator [(10, 60), (1, 30)] 0) = map int [600, 30]"
    using quantile_windows_exact[of "[600, 30]" list_estimator 0] by blast
  then show ?thesis by simp
qed

text \<open>
  A bad bucket size is found only at the first percentile. With a size that is not positive and no histogram
  of that name, \<open>addStatExports\<close> throws exactly when its list has an item that is not the name of a stat type,
  and makes no histogram; with a histogram of that name it does nothing.
\<close>
theorem bad_bucket_size:
  assumes "sdata_good P rx strings ok (exports s)" and "sint bucketSize \<le> 0"
    and "addStatExports P split to_int key stats bucketSize mn mx s = (r, s')"
  shows "(ehm_contains key (exports s) \<longrightarrow> r = Inr () \<and> s' = s) \<and>
    (\<not> ehm_contains key (exports s) \<longrightarrow> \<not> ehm_contains key (exports s') \<and>
       r = (if list_all (\<lambda>x. stat_type_named x \<noteq> None) (split CHR '','' stats) then Inr () else Inl (BadBucketSize key bucketSize)))"
proof -
  have keep: "\<exists>s1. addStatExportType P key t None True s = (Inr (), s1) \<and> sdata_good P rx strings ok (exports s1) \<and>
      histMap (exports s1) = histMap (exports s)" if g: "sdata_good P rx strings ok (exports s)" for t and s :: "('a, 'b, 'd, 'g, 'h, 'i) service"
  proof -
    obtain p b x where x: "getStatPtrNoExport key None (exports s) = ((p, b), x)" by (metis prod.collapse)
    have gx: "sdata_good P rx strings ok x \<and> histMap x = histMap (exports s)"
      using x g by (auto simp: getStatPtrNoExport_def Let_def sdata_good_def split: option.splits)
    obtain dc where "export_types P p key True [t] x = (Inr (), x\<lparr>dynamicCounters := dc\<rparr>)" "sdata_good P rx strings ok (x\<lparr>dynamicCounters := dc\<rparr>)"
      using export_types_ok[OF gx[THEN conjunct1]] by blast
    with x gx show ?thesis by (simp add: addStatExportType_def exportStats_def on_stats_def)
  qed
  have "\<not> ehm_contains key (exports s') \<and>
      r = (if list_all (\<lambda>x. stat_type_named x \<noteq> None) l then Inr () else Inl (BadBucketSize key bucketSize))"
    if "export_stats_loop P to_int key bucketSize mn mx False l s = (r, s')" "sdata_good P rx strings ok (exports s)" "\<not> ehm_contains key (exports s)"
    for l s
    using that
  proof (induction l arbitrary: s)
    case (Cons x l)
    show ?case
    proof (cases "stat_type_named x")
      case None
      then show ?thesis using Cons.prems assms(2) by auto
    next
      case (Some t)
      obtain s1 where "addStatExportType P key t None True s = (Inr (), s1)" "sdata_good P rx strings ok (exports s1)"
        "histMap (exports s1) = histMap (exports s)" using keep[OF Cons.prems(2)] by blast
      with Cons.IH[of s1] Cons.prems Some show ?thesis by (simp add: ehm_contains_def)
    qed
  qed simp
  from this[of "split CHR '','' stats" s] assms show ?thesis
    by (cases "ehm_contains key (exports s)") (auto simp: addStatExports_def)
qed

theorem bad_bucket_size_witness:
  "fst (addStatExports demo_params (\<lambda>c x. [''AVG'', ''95'']) (\<lambda>x. Some 95) ''lat'' ''AVG,95'' 0 0 9 demo_service) = Inl (BadBucketSize ''lat'' 0)"
proof -
  obtain r s' where e: "addStatExports demo_params (\<lambda>c x. [''AVG'', ''95'']) (\<lambda>x. Some 95) ''lat'' ''AVG,95'' 0 0 9 demo_service = (r, s')"
    by fastforce
  have "sdata_good demo_params (\<lambda>r s. r = s) set distinct (exports demo_service)" using demo_service_good by (simp add: service_good_def)
  moreover have "\<not> ehm_contains ''lat'' (exports demo_service)" by code_simp
  ultimately show ?thesis using bad_bucket_size[OF _ _ e] by (simp add: e stat_type_named_def)
qed

end
