(* ===== verification/Conservation.thy ===== *)
theory Conservation
  imports TLStats
begin

text \<open>
  Conservation across the registry of \<^verbatim>\<open>fb303/ThreadLocalStats.h\<close>: an interface for payloads whose \<open>aggregate\<close> hands
  over everything, and what it gives for whole runs of operations. The theory \<open>StatKinds\<close> interprets it for the
  counters, timeseries and histograms of \<^verbatim>\<open>fb303/ThreadLocalStats-inl.h\<close>.
\<close>

section \<open>The books\<close>

text \<open>What a stat still holds, and what is held in all, the global side included.\<close>

definition held :: "(name \<Rightarrow> 'p \<Rightarrow> 'm::ab_group_add) \<Rightarrow> (addr \<times> bool \<times> name \<times> 'p) option \<Rightarrow> 'm" where
  "held content x = (case x of None \<Rightarrow> 0 | Some (a, b, n, p) \<Rightarrow> content n p)"

definition ledger ::
  "(name \<Rightarrow> 'p \<Rightarrow> 'm::ab_group_add) \<Rightarrow> ('g \<Rightarrow> 'm) \<Rightarrow> (sid \<rightharpoonup> addr \<times> bool \<times> name \<times> 'p) \<Rightarrow> 'g \<Rightarrow> 'm" where
  "ledger content gsum v g = gsum g + (\<Sum>s\<in>dom v. held content (v s))"

definition books :: "('p \<Rightarrow> bool) \<Rightarrow> ('p \<Rightarrow> bool) \<Rightarrow> (sid \<rightharpoonup> addr \<times> bool \<times> name \<times> 'p) \<Rightarrow> bool" where
  "books clear live v \<longleftrightarrow> (\<forall>s a b n p. v s = Some (a, b, n, p) \<longrightarrow> (if b then live p else clear p))"

text \<open>What an operation adds from outside, and what the caller owes for the books to balance.\<close>

fun added :: "(name \<Rightarrow> 'p \<Rightarrow> 'm::ab_group_add) \<Rightarrow> 'p tl_op \<Rightarrow> ('p, 'g) heap \<Rightarrow> 'm" where
  "added content (Update s f) h =
     (case stats h s of None \<Rightarrow> 0
      | Some x \<Rightarrow> content (stat_name x) (f (payload x)) - content (stat_name x) (payload x))"
| "added content _ h = 0"

fun gentle :: "('p \<Rightarrow> bool) \<Rightarrow> ('p \<Rightarrow> bool) \<Rightarrow> 'p tl_op \<Rightarrow> ('p, 'g) heap \<Rightarrow> bool" where
  "gentle clear live (NewStat got s a n p) h \<longleftrightarrow> clear p \<and> live p"
| "gentle clear live (Update s f) h \<longleftrightarrow>
     (case stats h s of None \<Rightarrow> True
      | Some x \<Rightarrow> isLinked (link_ptr x) \<and> (live (payload x) \<longrightarrow> live (f (payload x))))"
| "gentle clear live (MoveConstruct got s t) h \<longleftrightarrow> (case stats h t of None \<Rightarrow> True | Some x \<Rightarrow> live (payload x))"
| "gentle clear live (MoveAssign got s t) h \<longleftrightarrow> (case stats h t of None \<Rightarrow> True | Some x \<Rightarrow> live (payload x))"
| "gentle clear live _ h \<longleftrightarrow> True"

text \<open>A run of operations, with the sum of what they added; \<open>None\<close> when a call breaks a rule or faults.\<close>

fun run_books ::
  "('p, 'g) agg_fn \<Rightarrow> ('p \<Rightarrow> 'p \<times> 'p) \<Rightarrow> ('p \<Rightarrow> 'p \<Rightarrow> 'p \<times> 'p) \<Rightarrow> (name \<Rightarrow> 'p \<Rightarrow> 'm::ab_group_add) \<Rightarrow>
   ('p \<Rightarrow> bool) \<Rightarrow> ('p \<Rightarrow> bool) \<Rightarrow> 'p tl_op list \<Rightarrow> ('p, 'g) heap \<Rightarrow> ('m \<times> ('p, 'g) heap) option"
where
  "run_books agg mc ma content clear live [] h = Some (0, h)"
| "run_books agg mc ma content clear live (x # xs) h =
     (if valid x h \<and> gentle clear live x h
      then (case exec agg mc ma x h of
              Inl e \<Rightarrow> None
            | Inr h1 \<Rightarrow>
                (case run_books agg mc ma content clear live xs h1 of
                   None \<Rightarrow> None
                 | Some (d, h2) \<Rightarrow> Some (added content x h + d, h2)))
      else None)"

lemma held_simps [simp]: "held content None = 0" "held content (Some (a, b, n, p)) = content n p"
  by (simp_all add: held_def)

lemma dom_view: "dom (view h) = dom (stats h)"
  by (auto simp: view_def dom_def)

text \<open>
  Any payload whose \<open>aggregate\<close> hands everything it holds to the global side and keeps nothing: then no
  operation of the registry loses or duplicates anything. \<open>content n p\<close> is what a stat named \<open>n\<close> with payload
  \<open>p\<close> still holds and \<open>gsum\<close> what the global side has, \<open>live\<close> is what a linked stat's payload satisfies and
  \<open>clear\<close> what an unlinked one does.
\<close>

locale conserving =
  fixes agg :: "('p, 'g) agg_fn" and mc :: "'p \<Rightarrow> 'p \<times> 'p" and ma :: "'p \<Rightarrow> 'p \<Rightarrow> 'p \<times> 'p"
    and content :: "name \<Rightarrow> 'p \<Rightarrow> 'm::ab_group_add" and gsum :: "'g \<Rightarrow> 'm"
    and clear :: "'p \<Rightarrow> bool" and live :: "'p \<Rightarrow> bool" and ginv :: "'g \<Rightarrow> bool"
  assumes agg_law: "ginv g \<Longrightarrow> live p \<Longrightarrow> agg u n p g = (q, g') \<Longrightarrow>
      ginv g' \<and> live q \<and> clear q \<and> gsum g' = gsum g + content n p"
    and mc_law: "mc p = (q, r) \<Longrightarrow> clear p \<Longrightarrow> live p \<Longrightarrow> clear q \<and> live q \<and> clear r"
    and ma_law: "ma p p' = (q, q') \<Longrightarrow> clear p \<Longrightarrow> clear p' \<Longrightarrow> live p' \<Longrightarrow> clear q \<and> live q \<and> clear q'"
    and clear_content: "clear p \<Longrightarrow> content n p = 0"
begin

lemma ledger_upd:
  assumes "finite (dom v)"
  shows "ledger content gsum (v(s := x)) g = ledger content gsum v g - held content (v s) + held content x"
proof -
  have "(\<Sum>r\<in>dom (v(s := x)). held content ((v(s := x)) r)) = (\<Sum>r\<in>insert s (dom v). held content ((v(s := x)) r))"
    using assms by (intro sum.mono_neutral_left) (auto split: if_splits)
  also have "\<dots> = held content x + (\<Sum>r\<in>dom v - {s}. held content (v r))"
    using assms by (simp add: sum.insert_remove)
  also have "(\<Sum>r\<in>dom v - {s}. held content (v r)) = (\<Sum>r\<in>dom v. held content (v r)) - held content (v s)"
  proof (cases "v s")
    case None
    then show ?thesis by (simp add: domIff)
  next
    case (Some y)
    then have "s \<in> dom v" by auto
    with assms show ?thesis by (simp add: sum_diff1)
  qed
  finally have e: "(\<Sum>r\<in>dom (v(s := x)). held content ((v(s := x)) r)) =
      held content x + ((\<Sum>r\<in>dom v. held content (v r)) - held content (v s))" .
  show ?thesis unfolding ledger_def e by (simp add: algebra_simps)
qed

lemma held_fresh: "stats h s = None \<Longrightarrow> held content (view h s) = 0"
  by (metis held_simps(1) view_simps(5))

lemma ledger_glob: "ledger content gsum v g' = ledger content gsum v g + (gsum g' - gsum g)"
  by (simp add: ledger_def)

lemma unlinked_law:
  assumes "unlinked agg u (b, n, p) g = (q, g')" "if b then live p else clear p" "ginv g"
  shows "ginv g' \<and> (live p \<longrightarrow> live q) \<and> clear q \<and> gsum g' = gsum g + content n p"
  using assms agg_law[of g p u n q g'] clear_content[of p n] by (cases b) (auto simp: unlinked_def)

lemma agg_view_ledger:
  "finite (dom v) \<Longrightarrow> books clear live v \<Longrightarrow> ginv g \<Longrightarrow> \<forall>s\<in>set ss. \<forall>a n p. v s \<noteq> Some (a, False, n, p) \<Longrightarrow> agg_view agg u ss (v, g) = (v', g') \<Longrightarrow>
   ginv g' \<and> ledger content gsum v' g' = ledger content gsum v g \<and> books clear live v' \<and> (\<forall>s \<in> set ss. held content (v' s) = 0) \<and>
   (\<forall>s. held content (v s) = 0 \<longrightarrow> held content (v' s) = 0)"
proof (induction ss arbitrary: v g)
  case (Cons s ss)
  show ?case
  proof (cases "v s")
    case None
    with Cons show ?thesis by (auto simp: held_def)
  next
    case (Some x)
    obtain a b n p where x: "x = (a, b, n, p)" by (cases x)
    obtain q g1 where q: "agg u n p g = (q, g1)" by (cases "agg u n p g")
    let ?v = "v(s \<mapsto> (a, b, n, q))"
    have b: b using Cons.prems(4) Some x by (cases b) auto
    then have lp: "live p" using Cons.prems(2) Some x unfolding books_def by metis
    note A = agg_law[OF Cons.prems(3) lp q]
    have z: "content m q = 0" for m using A clear_content by blast
    have gi: "ginv g1" using A by blast
    have ue: "books clear live ?v" using Cons.prems(2) A by (auto simp: books_def)
    have ln: "\<forall>s\<in>set ss. \<forall>a n p. ?v s \<noteq> Some (a, False, n, p)" using Cons.prems(4) b by auto
    have fv: "finite (dom ?v)" using Cons.prems(1) by simp
    have run: "agg_view agg u ss (?v, g1) = (v', g')" using Cons.prems(5) Some x q by simp
    from Cons.IH[OF fv ue gi ln run]
    have I: "ginv g' \<and> ledger content gsum v' g' = ledger content gsum ?v g1" "books clear live v'" "\<forall>s \<in> set ss. held content (v' s) = 0"
      "\<forall>s. held content (?v s) = 0 \<longrightarrow> held content (v' s) = 0"
      by blast+
    have "ledger content gsum ?v g1 = ledger content gsum v g"
      using A z ledger_glob[of ?v g1 g] by (simp add: ledger_upd[OF Cons.prems(1)] Some x)
    moreover have "held content (v' s) = 0" using I(4) z by simp
    moreover have "held content (v r) = 0 \<Longrightarrow> held content (v' r) = 0" for r using I(4) z by (cases "r = s") auto
    ultimately show ?thesis using I by simp
  qed
qed simp

lemma finite_view: "heap_wf h \<Longrightarrow> finite (dom (view h))"
  by (simp add: dom_view heap_wf_def)

lemma exec_conserves:
  assumes wf: "heap_wf h" and e: "books clear live (view h)" and gi: "ginv (globals h)"
    and v: "valid op h" and g: "gentle clear live op h" and ex: "exec agg mc ma op h = Inr h'"
  shows "ledger content gsum (view h') (globals h') = ledger content gsum (view h) (globals h) + added content op h \<and> books clear live (view h') \<and>
    ginv (globals h')"
proof -
  note fin = finite_view[OF wf]
  note T = ledger_upd[OF fin]
  have un: "if b then live p else clear p" if "view h s = Some (a, b, n, p)" for s a b n p
    using e that unfolding books_def by blast
  show ?thesis
  proof (cases op)
    case (NewContainer u a)
    with ex e gi show ?thesis by (auto simp: new_container_def)
  next
    case (DestroyContainer a)
    with v obtain l where l: "links h a = Some l" "container l" by auto
    from DestroyContainer ex have "destroy_container a h = Inr h'" by simp
    then have "stats h' = stats h" "globals h' = globals h" 
      using destroy_container_safe[OF wf l] by (metis sum.inject(2))+
    then have "view h' = view h" "globals h' = globals h" by (auto simp: view_def fun_eq_iff)
    with DestroyContainer e gi show ?thesis by simp
  next
    case (NewStat got s a n p)
    with v obtain l where l: "links h a = Some l" and s: "stats h s = None" by auto
    from NewStat ex have h: "new_stat got s a n p h = Inr h'" by simp
    obtain k where k: "new_stat got s a n p h = Inr k" "globals k = globals h" "view k = (view h)(s \<mapsto> (a, True, n, p))"
      by (rule new_stat_view[OF wf l s])
    have "k = h'" using h k(1) by simp
    moreover have "held content (view h s) = 0" using s by (rule held_fresh)
    ultimately show ?thesis using k NewStat e g gi T[of s "Some (a, True, n, p)" "globals h"]
      by (auto simp: books_def clear_content)
  next
    case (DestroyStat s)
    with v obtain a b n p where vs: "view h s = Some (a, b, n, p)"
      by (metis not_None_eq prod_cases4 valid.simps(4) view_simps(5))
    from DestroyStat ex have h: "destroy_stat agg s h = Inr h'" by simp
    obtain k u q g where k: "destroy_stat agg s h = Inr k"
      "unlinked agg u (b, n, p) (globals h) = (q, g)" "globals k = g" "view k = (view h)(s := None)"
      by (rule destroy_stat_view[OF wf vs])
    have "k = h'" using h k(1) by simp
    with k DestroyStat e unlinked_law[OF k(2) un[OF vs] gi] T[of s None g] vs ledger_glob[of "view h" g "globals h"]
    show ?thesis by (auto simp: books_def)
  next
    case (MoveConstruct got s t)
    with v have s: "stats h s = None" by simp
    from MoveConstruct v obtain a b n p where vs: "view h t = Some (a, b, n, p)"
      by (metis not_None_eq prod_cases4 valid.simps(5) view_simps(5))
    from MoveConstruct ex have h: "move_construct agg mc got s t h = Inr h'" by simp
    obtain k u q g p1 q1 where k: "move_construct agg mc got s t h = Inr k"
      "unlinked agg u (b, n, p) (globals h) = (q, g)" "mc q = (p1, q1)" "globals k = g"
      "view k = (view h)(t \<mapsto> (a, False, [], q1), s \<mapsto> (a, True, n, p1))"
      by (rule move_construct_view[OF wf s vs])
    have k': "k = h'" using h k(1) by simp
    note U = unlinked_law[OF k(2) un[OF vs] gi]
    have "live p" using g MoveConstruct view_Some[OF vs] by auto
    then have c: "clear p1" "clear q1" "live p1" using mc_law[OF k(3)] U by auto
    note z = clear_content[OF c(1)] clear_content[OF c(2)]
    have "s \<noteq> t" using s vs by (metis option.discI view_simps(5))
    then have "ledger content gsum (view h') g = ledger content gsum (view h) (globals h)"
      unfolding k'[symmetric] k(5) using fin held_fresh[OF s] vs U z ledger_glob[of "view h" g "globals h"]
      by (simp add: ledger_upd)
    with k k' c U MoveConstruct e show ?thesis by (auto simp: books_def)
  next
    case (MoveAssign got s t)
    show ?thesis
    proof (cases "t = s")
      case True
      with MoveAssign ex e gi show ?thesis by (simp add: moveAssignment_def)
    next
      case False
      from MoveAssign v obtain a b n p a' b' n' p' where vs: "view h s = Some (a, b, n, p)" "view h t = Some (a', b', n', p')"
        by (metis not_None_eq prod_cases4 valid.simps(6) view_simps(5))
      from MoveAssign ex have h: "moveAssignment agg ma got s t h = Inr h'" by simp
      obtain k u u' q q' g g' p1 q1 where k: "moveAssignment agg ma got s t h = Inr k"
        "unlinked agg u (b, n, p) (globals h) = (q, g)" "unlinked agg u' (b', n', p') g = (q', g')"
        "ma q q' = (p1, q1)" "globals k = g'"
        "view k = (view h)(t \<mapsto> (a', False, [], q1), s \<mapsto> (a', True, n', p1))"
        by (rule moveAssignment_view[OF wf False vs])
      have k': "k = h'" using h k(1) by simp
      note U1 = unlinked_law[OF k(2) un[OF vs(1)] gi]
      note U = U1 unlinked_law[OF k(3) un[OF vs(2)] conjunct1[OF U1]]
      have "live p'" using g MoveAssign view_Some[OF vs(2)] by auto
      then have c: "clear p1" "clear q1" "live p1" using ma_law[OF k(4)] U by auto
      note z = clear_content[OF c(1)] clear_content[OF c(2)]
      have "ledger content gsum (view h') g' = ledger content gsum (view h) (globals h)"
        unfolding k'[symmetric] k(6) using fin vs U z False ledger_glob[of "view h" g' "globals h"]
        by (simp add: ledger_upd)
      with k k' c U MoveAssign e show ?thesis by (auto simp: books_def)
    qed
  next
    case (Update s f)
    with v obtain x where x: "stats h s = Some x" by auto
    with Update g have b: "isLinked (link_ptr x)" by simp
    have vs: "view h s = Some (lp_get (link_ptr x), True, stat_name x, payload x)" using x b by simp
    have "live (payload x)" using e vs unfolding books_def by metis
    with Update g x have l: "live (f (payload x))" by simp
    let ?v = "(view h)(s \<mapsto> (lp_get (link_ptr x), True, stat_name x, f (payload x)))"
    have "books clear live ?v" unfolding books_def
    proof (intro allI impI)
      fix t a b' n p assume t: "?v t = Some (a, b', n, p)"
      show "if b' then live p else clear p"
      proof (cases "t = s")
        case False
        then have "view h t = Some (a, b', n, p)" using t by simp
        with e show ?thesis unfolding books_def by blast
      qed (use t l in simp)
    qed
    moreover have "view h' = ?v" "globals h' = globals h" using Update ex x b by (auto simp: update_stat_def)
    ultimately show ?thesis using Update x gi vs T[of s "Some (lp_get (link_ptr x), True, stat_name x, f (payload x))" "globals h"]
      by simp
  next
    case (Aggregate a)
    with v obtain l where l: "links h a = Some l" "container l" by auto
    obtain k ss where k: "aggregate agg a h = Inr (length ss, k)" "set ss = regd h a"
      "(view k, globals k) = agg_view agg (updateGlobalStatsOnRead l) ss (view h, globals h)"
      by (rule aggregate_view[OF wf l])
    have "k = h'" using Aggregate ex k(1) by simp
    have "\<forall>s\<in>set ss. \<forall>a n p. view h s \<noteq> Some (a, False, n, p)" using k(2) by (auto simp: regd_def view_def)
    from agg_view_ledger[OF fin e gi this k(3)[symmetric]] Aggregate \<open>k = h'\<close> show ?thesis by simp
  next
    case (WithContainer s)
    with v obtain x l where x: "stats h s = Some x" "links h (lp_get (link_ptr x)) = Some l" "container l" by auto
    with WithContainer ex wf_linkD(1)[OF wf x(2)] e gi show ?thesis
      by (auto simp: withContainerChecked_def link_lock_ok Let_def)
  qed
qed

lemma run_conserves:
  assumes "heap_wf h" "books clear live (view h)" "ginv (globals h)"
    and "run_books agg mc ma content clear live xs h = Some (d, h')"
  shows "ledger content gsum (view h') (globals h') = ledger content gsum (view h) (globals h) + d \<and>
    books clear live (view h') \<and> ginv (globals h')"
  using assms
proof (induction xs arbitrary: h d)
  case (Cons x xs)
  then have v: "valid x h" "gentle clear live x h" by (auto split: if_splits)
  obtain h1 where h1: "exec agg mc ma x h = Inr h1" "heap_wf h1" using exec_safe[OF Cons.prems(1) v(1)] by blast
  from Cons.prems(4) v h1 obtain e where e: "run_books agg mc ma content clear live xs h1 = Some (e, h')" "d = added content x h + e"
    by (auto split: option.splits)
  note S = exec_conserves[OF Cons.prems(1-3) v h1(1)]
  from S have b: "books clear live (view h1)" and i: "ginv (globals h1)" by blast+
  from Cons.IH[OF h1(2) b i e(1)] S e(2) show ?case by (simp add: algebra_simps)
qed simp

text \<open>From an empty registry; when every stat is gone, the global side has it all.\<close>

lemma run_ledger:
  assumes "ginv g" "run_books agg mc ma content clear live xs (heap0 g) = Some (d, h')"
  shows "ledger content gsum (view h') (globals h') = gsum g + d"
proof -
  have b: "books clear live (view (heap0 g))" by (simp add: books_def view_def heap0_def)
  have gi: "ginv (globals (heap0 g))" using assms(1) by (simp add: heap0_def)
  have "ledger content gsum (view (heap0 g)) (globals (heap0 g)) = gsum g"
    by (simp add: ledger_def dom_view) (simp add: heap0_def)
  with run_conserves[OF heap0_wf b gi assms(2)] show ?thesis by simp
qed

lemma run_delivers:
  assumes "ginv g" "run_books agg mc ma content clear live xs (heap0 g) = Some (d, h')" "stats h' = Map.empty"
  shows "gsum (globals h') = gsum g + d"
  using run_ledger[OF assms(1,2)] assms(3) by (simp add: ledger_def dom_view)

end

end
