(* ===== verification/StatKinds.thy ===== *)
theory StatKinds
  imports Conservation Counters FollyStats
begin

text \<open>
  The three kinds of thread-local stats, \<open>TLCounterT\<close>, \<open>TLTimeseriesT\<close> and \<open>TLHistogramT\<close> of
  \<^verbatim>\<open>fb303/ThreadLocalStats.h\<close> and \<^verbatim>\<open>fb303/ThreadLocalStats-inl.h\<close>: their state, updates, \<open>aggregate\<close>, and what their
  move operations do to the payload. Each interprets the interface \<open>conserving\<close>. A null global stat is never
  dereferenced: only registered stats are aggregated, and \<open>live\<close> says a registered one points to its stat.
\<close>

section \<open>TLCounterT\<close>

definition tlc_aggregate :: "('c, 'h, 'r) cache_ops \<Rightarrow> (int64, 'c counters) agg_fn" where
  "tlc_aggregate ops u n p g =
     (let (delta, q) = tsc_reset p
      in if delta = 0 then (q, g) else (q, snd (incrementCounter ops id n delta g)))"

definition tlc_move :: "int64 \<Rightarrow> int64 \<times> int64" where
  "tlc_move p = (0, p)"

definition tlc_assign :: "int64 \<Rightarrow> int64 \<Rightarrow> int64 \<times> int64" where
  "tlc_assign p p' = (p, p')"

definition incrementValue :: "int64 \<Rightarrow> int64 \<Rightarrow> int64" where
  "incrementValue amount p = tsc_increment amount p"

text \<open>The part of a counter named \<open>k\<close>: what a stat holds of it, and its global value.\<close>

definition counter_content :: "name \<Rightarrow> name \<Rightarrow> int64 \<Rightarrow> int64" where
  "counter_content k n p = (if n = k then p else 0)"

definition counter_value :: "name \<Rightarrow> 'c counters \<Rightarrow> int64" where
  "counter_value k g = (case cm_find k g of None \<Rightarrow> 0 | Some v \<Rightarrow> v)"

definition counters_good ::
  "('c, 'h, 'r) cache_ops \<Rightarrow> (regex \<Rightarrow> name \<Rightarrow> bool) \<Rightarrow> ('c \<Rightarrow> name set) \<Rightarrow> ('c \<Rightarrow> bool) \<Rightarrow> 'c counters \<Rightarrow> bool" where
  "counters_good ops rx strings ok g \<longleftrightarrow>
     regex_cache ops rx strings ok \<and> reliable ops ok \<and> lockstep strings ok g"

lemma increment_value:
  assumes "counters_good ops rx strings ok g" "incrementCounter ops id n d g = (res, g')"
  shows "counters_good ops rx strings ok g' \<and> counter_value k g' = counter_value k g + (if n = k then d else 0)"
proof -
  have l: "lockstep strings ok g" "lockstep strings ok (id g)" "regex_cache ops rx strings ok" "reliable ops ok"
    using assms(1) by (simp_all add: counters_good_def)
  note M = modify_ok[OF l(3,4,1,2) assms(2)[unfolded incrementCounter_def] refl]
  show ?thesis using M(1) M(3)[of k] l by (auto simp: counters_good_def counter_value_def split: option.splits)
qed

interpretation tlc: conserving "tlc_aggregate ops" tlc_move tlc_assign "counter_content k" "counter_value k"
  "\<lambda>p. p = 0" "\<lambda>p. True" "counters_good ops rx strings ok"
  for ops :: "('c, 'h, 'r) cache_ops" and k rx strings ok
proof
  fix g g' :: "'c counters" and u n p q
  assume g: "counters_good ops rx strings ok g" and a: "tlc_aggregate ops u n p g = (q, g')"
  show "counters_good ops rx strings ok g' \<and> True \<and> q = 0 \<and> counter_value k g' = counter_value k g + counter_content k n p"
    using a increment_value[OF g, of n p] g
    by (cases "incrementCounter ops id n p g")
      (auto simp: tlc_aggregate_def tsc_reset_def counter_content_def split: if_splits)
qed (auto simp: tlc_move_def tlc_assign_def counter_content_def)

section \<open>TLTimeseriesT\<close>

text \<open>
  The store of global stats by pointer, and the readings of \<open>get_legacy_stats_time()\<close>, one per aggregation.
\<close>

record 's store =
  stat_at :: "ptr \<Rightarrow> 's"
  readings :: "nat \<Rightarrow> secs"
  reads :: nat

record tlts =
  globalStat :: "ptr option"
  value_ts :: "int64 series"

definition tlt_aggregate :: "'s series_ops \<Rightarrow> (tlts, 's store) agg_fn" where
  "tlt_aggregate sops updateOnRead n p g =
     (let now = readings g (reads g);
          g0 = g\<lparr>reads := reads g + 1\<rparr>;
          ((currentCount, currentSum), v) = reset (value_ts p);
          q = p\<lparr>value_ts := v\<rparr>;
          upd = (\<not> updateOnRead)
      in if currentCount = 0 \<and> \<not> upd then (q, g0)
         else
           (case globalStat p of
              None \<Rightarrow> (q, g0)
            | Some ptr \<Rightarrow>
                (let st = stat_at g0 ptr;
                     st1 = (if currentCount \<noteq> 0 then addValueAggregated sops now currentSum currentCount st else st);
                     st2 = (if upd then update sops now st1 else st1)
                 in (q, g0\<lparr>stat_at := (stat_at g0)(ptr := st2)\<rparr>))))"

definition tlt_move :: "tlts \<Rightarrow> tlts \<times> tlts" where
  "tlt_move p = (\<lparr>globalStat = globalStat p, value_ts = new_series\<rparr>, p\<lparr>globalStat := None\<rparr>)"

definition tlt_assign :: "tlts \<Rightarrow> tlts \<Rightarrow> tlts \<times> tlts" where
  "tlt_assign p p' = (p\<lparr>globalStat := globalStat p'\<rparr>, p'\<lparr>globalStat := globalStat p\<rparr>)"

definition tlt_addValue :: "bool \<Rightarrow> int64 \<Rightarrow> tlts \<Rightarrow> tlts" where
  "tlt_addValue ok value p = p\<lparr>value_ts := addValue ok value 1 (value_ts p)\<rparr>"

definition tlt_addValueAggregated :: "bool \<Rightarrow> int64 \<Rightarrow> int64 \<Rightarrow> tlts \<Rightarrow> tlts" where
  "tlt_addValueAggregated ok value nsamples p = p\<lparr>value_ts := addValue ok value nsamples (value_ts p)\<rparr>"

text \<open>The documented behaviour of an all-time level: it accumulates every sample ever added.\<close>

definition accumulates :: "'s series_ops \<Rightarrow> ('s \<Rightarrow> int64) \<Rightarrow> ('s \<Rightarrow> int64) \<Rightarrow> bool" where
  "accumulates sops cnt sm \<longleftrightarrow>
     (\<forall>now s c st. cnt (addValueAggregated sops now s c st) = cnt st + c \<and>
                   sm (addValueAggregated sops now s c st) = sm st + s) \<and>
     (\<forall>now st. cnt (update sops now st) = cnt st \<and> sm (update sops now st) = sm st)"

definition quiet :: "'a::len word series \<Rightarrow> bool" where
  "quiet t \<longleftrightarrow> \<not> bit (seq t) 0 \<and> \<not> bit (lastSeq t) 0"

definition tlt_live :: "tlts \<Rightarrow> bool" where
  "tlt_live p \<longleftrightarrow> globalStat p \<noteq> None \<and> quiet (value_ts p)"

definition tlt_clear :: "tlts \<Rightarrow> bool" where
  "tlt_clear p \<longleftrightarrow> quiet (value_ts p) \<and> fst (reset (value_ts p)) = (0, 0)"

definition count_content :: "ptr \<Rightarrow> name \<Rightarrow> tlts \<Rightarrow> int64" where
  "count_content ptr n p = (if globalStat p = Some ptr then fst (fst (reset (value_ts p))) else 0)"

definition sum_content :: "ptr \<Rightarrow> name \<Rightarrow> tlts \<Rightarrow> int64" where
  "sum_content ptr n p =
     (if globalStat p = Some ptr \<and> fst (fst (reset (value_ts p))) \<noteq> 0 then snd (fst (reset (value_ts p))) else 0)"

lemma even_mask: "\<not> bit (x :: uint64) 0 \<Longrightarrow> x AND NOT kInFlight = x"
  unfolding kInFlight_def by (rule bit_eqI) (auto simp: bit_simps intro: gr0I)

lemma reset_quiet:
  assumes "quiet t"
  shows "quiet (snd (reset t)) \<and> fst (reset (snd (reset t))) = (0, 0)"
proof (cases "seq t = (lastSeq t AND NOT kInFlight)")
  case True
  with assms show ?thesis by (simp add: reset_def)
next
  case False
  then have r: "reset t = drain t" by (simp add: reset_def)
  have "seq (snd (drain t)) = seq t" "lastSeq (snd (drain t)) = seq t" by (simp_all add: drain_def Let_def)
  with r assms show ?thesis by (simp add: quiet_def reset_def even_mask)
qed


lemma addValue_quiet: "quiet t \<Longrightarrow> quiet (addValue ok v c t)"
  by (auto simp: addValue_def quiet_def Let_def makeSurplus_def bit_0 split: option.splits)

lemma new_series_quiet: "quiet new_series" "reset new_series = ((0, 0), new_series)"
  by (simp_all add: quiet_def reset_def new_series_def kInFlight_def)

lemma tlt_laws:
  "tlt_move p = (q, r) \<Longrightarrow> tlt_clear p \<Longrightarrow> tlt_live p \<Longrightarrow> tlt_clear q \<and> tlt_live q \<and> tlt_clear r"
  "tlt_assign p p' = (q, q') \<Longrightarrow> tlt_clear p \<Longrightarrow> tlt_clear p' \<Longrightarrow> tlt_live p' \<Longrightarrow> tlt_clear q \<and> tlt_live q \<and> tlt_clear q'"
  by (auto simp: tlt_move_def tlt_assign_def tlt_clear_def tlt_live_def new_series_quiet)

lemma tlt_aggregate_ok:
  assumes A: "accumulates sops cnt sm" and l: "tlt_live p" and a: "tlt_aggregate sops u n p g = (q, g')"
  shows "tlt_live q \<and> tlt_clear q"
    and "cnt (stat_at g' ptr) = cnt (stat_at g ptr) + count_content ptr n p"
    and "sm (stat_at g' ptr) = sm (stat_at g ptr) + sum_content ptr n p"
proof -
  obtain c s v where r: "reset (value_ts p) = ((c, s), v)" by (metis prod.exhaust)
  from l obtain x where x: "globalStat p = Some x" by (auto simp: tlt_live_def)
  have q: "q = p\<lparr>value_ts := v\<rparr>" using a r x by (auto simp: tlt_aggregate_def Let_def split: if_splits)
  show "tlt_live q \<and> tlt_clear q"
    using reset_quiet[of "value_ts p"] l r by (simp add: q tlt_live_def tlt_clear_def)
  show "cnt (stat_at g' ptr) = cnt (stat_at g ptr) + count_content ptr n p"
    using a r x A by (auto simp: tlt_aggregate_def Let_def accumulates_def count_content_def split: if_splits)
  show "sm (stat_at g' ptr) = sm (stat_at g ptr) + sum_content ptr n p"
    using a r x A by (auto simp: tlt_aggregate_def Let_def accumulates_def sum_content_def split: if_splits)
qed

interpretation tlt_count: conserving "tlt_aggregate sops" tlt_move tlt_assign "count_content ptr" "\<lambda>g. cnt (stat_at g ptr)"
  tlt_clear tlt_live "\<lambda>g. accumulates sops cnt sm"
  for sops :: "'s series_ops" and ptr cnt sm
proof
  fix g g' :: "'s store" and p q :: tlts and u n
  assume a: "accumulates sops cnt sm" "tlt_live p" "tlt_aggregate sops u n p g = (q, g')"
  show "accumulates sops cnt sm \<and> tlt_live q \<and> tlt_clear q \<and>
    cnt (stat_at g' ptr) = cnt (stat_at g ptr) + count_content ptr n p"
    using a(1) tlt_aggregate_ok(1,2)[OF a] by simp
next
  fix p n assume "tlt_clear p" then show "count_content ptr n p = 0" by (simp add: count_content_def tlt_clear_def)
qed (fact tlt_laws)+

interpretation tlt_sum: conserving "tlt_aggregate sops" tlt_move tlt_assign "sum_content ptr" "\<lambda>g. sm (stat_at g ptr)"
  tlt_clear tlt_live "\<lambda>g. accumulates sops cnt sm"
  for sops :: "'s series_ops" and ptr cnt sm
proof
  fix g g' :: "'s store" and p q :: tlts and u n
  assume a: "accumulates sops cnt sm" "tlt_live p" "tlt_aggregate sops u n p g = (q, g')"
  show "accumulates sops cnt sm \<and> tlt_live q \<and> tlt_clear q \<and>
    sm (stat_at g' ptr) = sm (stat_at g ptr) + sum_content ptr n p"
    using a(1) tlt_aggregate_ok(1,3)[OF a] by simp
next
  fix p n assume "tlt_clear p" then show "sum_content ptr n p = 0" by (simp add: sum_content_def tlt_clear_def)
qed (fact tlt_laws)+

section \<open>TLHistogramT\<close>

text \<open>
  \<open>folly::Histogram\<close> and the global histogram are parameters: \<open>fresh\<close> is an empty histogram with the bucket
  size, minimum and maximum of the given one.
\<close>

record ('l, 'b) hist_ops =
  hist_addValue :: "int64 \<Rightarrow> 'l \<Rightarrow> 'l"
  hist_addRepeated :: "int64 \<Rightarrow> int64 \<Rightarrow> 'l \<Rightarrow> 'l"
  hist_clear :: "'l \<Rightarrow> 'l"
  fresh :: "'l \<Rightarrow> 'l"
  addValues :: "secs \<Rightarrow> 'l \<Rightarrow> 'b \<Rightarrow> 'b"

record 'l tlhist =
  globalHist :: "ptr option"
  simpleHistogram :: 'l
  dirty :: bool

definition tlh_addRepeatedValue :: "('l, 'b) hist_ops \<Rightarrow> int64 \<Rightarrow> int64 \<Rightarrow> 'l tlhist \<Rightarrow> 'l tlhist" where
  "tlh_addRepeatedValue hops value nsamples p =
     p\<lparr>simpleHistogram := hist_addRepeated hops value nsamples (simpleHistogram p), dirty := True\<rparr>"

definition tlh_addValue :: "('l, 'b) hist_ops \<Rightarrow> int64 \<Rightarrow> 'l tlhist \<Rightarrow> 'l tlhist" where
  "tlh_addValue hops value p =
     p\<lparr>simpleHistogram := hist_addValue hops value (simpleHistogram p), dirty := True\<rparr>"

definition tlh_aggregate :: "('l, 'b) hist_ops \<Rightarrow> ('l tlhist, 'b store) agg_fn" where
  "tlh_aggregate hops updateOnRead n p g =
     (let now = readings g (reads g); g0 = g\<lparr>reads := reads g + 1\<rparr>
      in if \<not> dirty p then (p, g0)
         else
           (p\<lparr>simpleHistogram := hist_clear hops (simpleHistogram p), dirty := False\<rparr>,
            (case globalHist p of
               None \<Rightarrow> g0
             | Some x \<Rightarrow> g0\<lparr>stat_at := (stat_at g0)(x := addValues hops now (simpleHistogram p) (stat_at g0 x))\<rparr>)))"

definition tlh_move :: "('l, 'b) hist_ops \<Rightarrow> 'l tlhist \<Rightarrow> 'l tlhist \<times> 'l tlhist" where
  "tlh_move hops p =
     (\<lparr>globalHist = globalHist p, simpleHistogram = fresh hops (simpleHistogram p), dirty = False\<rparr>,
      p\<lparr>globalHist := None\<rparr>)"

definition tlh_assign :: "('l, 'b) hist_ops \<Rightarrow> 'l tlhist \<Rightarrow> 'l tlhist \<Rightarrow> 'l tlhist \<times> 'l tlhist" where
  "tlh_assign hops p p' =
     (p\<lparr>globalHist := globalHist p', simpleHistogram := fresh hops (simpleHistogram p')\<rparr>,
      p'\<lparr>globalHist := globalHist p\<rparr>)"

text \<open>The documented behaviour: a merge adds the counts of a bucket, a clear or fresh histogram has none.\<close>

definition hist_counts :: "('l, 'b) hist_ops \<Rightarrow> ('l \<Rightarrow> int64) \<Rightarrow> ('b \<Rightarrow> int64) \<Rightarrow> bool" where
  "hist_counts hops lc gc \<longleftrightarrow>
     (\<forall>h. lc (hist_clear hops h) = 0 \<and> lc (fresh hops h) = 0) \<and>
     (\<forall>now h b. gc (addValues hops now h b) = gc b + lc h)"

definition tlh_live :: "('l \<Rightarrow> int64) \<Rightarrow> 'l tlhist \<Rightarrow> bool" where
  "tlh_live lc p \<longleftrightarrow> globalHist p \<noteq> None \<and> (dirty p \<or> lc (simpleHistogram p) = 0)"

definition tlh_clear :: "('l \<Rightarrow> int64) \<Rightarrow> 'l tlhist \<Rightarrow> bool" where
  "tlh_clear lc p \<longleftrightarrow> \<not> dirty p \<and> lc (simpleHistogram p) = 0"

definition hist_content :: "('l \<Rightarrow> int64) \<Rightarrow> ptr \<Rightarrow> name \<Rightarrow> 'l tlhist \<Rightarrow> int64" where
  "hist_content lc x n p = (if globalHist p = Some x then lc (simpleHistogram p) else 0)"

interpretation tlh: conserving "tlh_aggregate hops" "tlh_move hops" "tlh_assign hops" "hist_content lc x"
  "\<lambda>g. gc (stat_at g x)" "tlh_clear lc" "\<lambda>p. tlh_live lc p \<and> hist_counts hops lc gc" "\<lambda>g. True"
  for hops :: "('l, 'b) hist_ops" and lc gc x
  by unfold_locales
    (auto simp: tlh_aggregate_def tlh_move_def tlh_assign_def tlh_clear_def tlh_live_def hist_content_def
      hist_counts_def Let_def split: if_splits option.splits)


section \<open>Results\<close>

definition demo_ops :: "'p \<Rightarrow> ('p \<Rightarrow> 'p) \<Rightarrow> ('p \<Rightarrow> 'p) \<Rightarrow> 'p tl_op list" where
  "demo_ops p f f' =
     [NewContainer True 2, NewStat True 0 2 ''k'' p, Update 0 f, Aggregate 2, MoveConstruct False 1 0,
      Update 1 f', DestroyStat 0, DestroyStat 1]"

lemmas registry_eval =
  heap0_def new_container_def new_stat_def put_link_def put_stat_def incRef_def decRef_def get_link_def
  bindE_def get_stat_def link_def update_stat_def aggregate_def link_lock_def completePendingLink_def
  register_stat_def set_linked_def setLinked_def isLinked_def lp_get_def kLinked_def agg_stat_def
  move_construct_def unlink_def unregister_stat_def destroy_stat_def push_pending_def bit_simps Let_def

text \<open>
  No increment of a thread-local counter is lost or counted twice. Along any run of constructing, moving,
  incrementing, aggregating and destroying \<open>TLCounter\<close>s and their containers, in which callers increment only
  registered counters, the global counter \<open>k\<close> plus what the live counters named \<open>k\<close> still hold is its
  initial value plus all increments, modulo \<open>2\<^sup>6\<^sup>4\<close>; once the counters are gone the global counter has it all.
\<close>
theorem tlcounter_conserved:
  assumes "regex_cache ops rx strings ok" "reliable ops ok" "lockstep strings ok g"
    and "run_books (tlc_aggregate ops) tlc_move tlc_assign (counter_content k) (\<lambda>p. p = 0) (\<lambda>p. True) xs (heap0 g) = Some (d, h')"
  shows "ledger (counter_content k) (counter_value k) (view h') (globals h') = counter_value k g + d \<and>
    (stats h' = Map.empty \<longrightarrow> counter_value k (globals h') = counter_value k g + d)"
proof -
  have g: "counters_good ops rx strings ok g" using assms(1-3) by (simp add: counters_good_def)
  show ?thesis using tlc.run_ledger[OF g assms(4)] tlc.run_delivers[OF g assms(4)] by blast
qed

lemma demo_counter:
  "\<exists>h'. run_books (tlc_aggregate (ready_cache (\<lambda>r s. r = s))) tlc_move tlc_assign (counter_content ''k'') (\<lambda>p. p = 0) (\<lambda>p. True)
     (demo_ops 0 (incrementValue 5) (incrementValue 3)) (heap0 \<lparr>cm_map = [], cm_matches = []\<rparr>) = Some (8, h') \<and>
     stats h' = Map.empty"
  unfolding demo_ops_def
  by (simp add: registry_eval tlc_aggregate_def tsc_reset_def incrementValue_def tsc_increment_def tlc_move_def
      counter_content_def incrementCounter_def modifyCounter_def cm_find_def)

theorem tlcounter_conserved_witness:
  "\<exists>h'. run_books (tlc_aggregate (ready_cache (\<lambda>r s. r = s))) tlc_move tlc_assign (counter_content ''k'') (\<lambda>p. p = 0) (\<lambda>p. True)
     (demo_ops 0 (incrementValue 5) (incrementValue 3)) (heap0 \<lparr>cm_map = [], cm_matches = []\<rparr>) = Some (8, h') \<and>
     counter_value ''k'' (globals h') = 8"
proof -
  have r: "reliable (ready_cache (\<lambda>r s. r = s)) distinct" by (simp add: reliable_def ready_cache_def scan_cache_def)
  have l: "lockstep set distinct (\<lparr>cm_map = [], cm_matches = []\<rparr> :: name list counters)"
    by (simp add: lockstep_def cm_keys_def)
  have v: "counter_value ''k'' \<lparr>cm_map = [], cm_matches = []\<rparr> = 0" by (simp add: counter_value_def cm_find_def)
  obtain h' where h: "run_books (tlc_aggregate (ready_cache (\<lambda>r s. r = s))) tlc_move tlc_assign (counter_content ''k'')
      (\<lambda>p. p = 0) (\<lambda>p. True) (demo_ops 0 (incrementValue 5) (incrementValue 3)) (heap0 \<lparr>cm_map = [], cm_matches = []\<rparr>) = Some (8, h')"
      "stats h' = Map.empty"
    using demo_counter by blast
  from tlcounter_conserved[OF ready_cache_laws r l h(1)] h v show ?thesis by auto
qed


definition demo_store :: "(int64 \<times> int64) store" where
  "demo_store = \<lparr>stat_at = (\<lambda>x. (0, 0)), readings = int, reads = 0\<rparr>"

abbreviation "demo_series \<equiv> \<lparr>globalStat = Some 7, value_ts = new_series\<rparr>"

lemma demo_reset:
  "reset (addValue True 20 1 new_series) = ((1, 20 :: int64), \<lparr>sum_ts = \<lparr>lo = 20, hi = 0\<rparr>, seq = 2, lastSeq = 2, baseSum = \<lparr>lo = 20, hi = 0\<rparr>, surplus_ts = None\<rparr>)"
  by code_simp

lemma demo_series_run:
  "\<exists>h'. run_books (tlt_aggregate pair_ops) tlt_move tlt_assign (count_content 7) tlt_clear tlt_live
     [NewContainer True 2, NewStat True 0 2 ''k'' demo_series, Update 0 (tlt_addValue True 20), Aggregate 2] (heap0 demo_store)
       = Some (1, h') \<and>
    run_books (tlt_aggregate pair_ops) tlt_move tlt_assign (sum_content 7) tlt_clear tlt_live
     [NewContainer True 2, NewStat True 0 2 ''k'' demo_series, Update 0 (tlt_addValue True 20), Aggregate 2] (heap0 demo_store)
       = Some (20, h') \<and> stat_at (globals h') 7 = (1, 20)"
  by (simp add: registry_eval tlt_aggregate_def tlt_addValue_def demo_reset new_series_quiet addValue_quiet
      count_content_def sum_content_def tlt_clear_def tlt_live_def demo_store_def pair_ops_def)



definition sum_hist :: "(int64, int64) hist_ops" where
  "sum_hist = \<lparr>hist_addValue = (\<lambda>v h. h + 1), hist_addRepeated = (\<lambda>v n h. h + n), hist_clear = (\<lambda>h. 0), fresh = (\<lambda>h. 0), addValues = (\<lambda>now h b. b + h)\<rparr>"

definition demo_hists :: "int64 store" where
  "demo_hists = \<lparr>stat_at = (\<lambda>x. 0), readings = int, reads = 0\<rparr>"

lemma demo_hist_run:
  "\<exists>h'. run_books (tlh_aggregate sum_hist) (tlh_move sum_hist) (tlh_assign sum_hist) (hist_content (\<lambda>h. h) 7) (tlh_clear (\<lambda>h. h)) (tlh_live (\<lambda>h. h))
      (demo_ops \<lparr>globalHist = Some 7, simpleHistogram = 0, dirty = False\<rparr> (tlh_addRepeatedValue sum_hist 100 3) (tlh_addValue sum_hist 50))
      (heap0 demo_hists) = Some (4, h') \<and> stats h' = Map.empty"
  unfolding demo_ops_def
  by (simp add: registry_eval tlh_aggregate_def tlh_addRepeatedValue_def tlh_addValue_def tlh_move_def hist_content_def
      tlh_live_def tlh_clear_def hist_counts_def sum_hist_def demo_hists_def)


end
