(* ===== verification/KeyHolder.thy ===== *)
theory KeyHolder
  imports StatNames
begin

unbundle bit_operations_syntax

text \<open>
  Keys of dynamic stats: \<open>SubkeyUtils\<close> and \<open>FormattedKeyHolder\<close> of \<^verbatim>\<open>fb303/ThreadCachedServiceData.h\<close> and
  \<open>DynamicQuantileStatWrapper\<close> of \<^verbatim>\<open>fb303/detail/QuantileStatWrappers.h\<close>. Subkeys are turned into a key once for
  the process, under an upgradable lock, and remembered by every thread behind a cache of the last key found. The
  first part has the interleavings of the global lookup; the second the thread-local layers on top of it. \<open>fmt::format\<close>,
  the hash functions and what is done with a new key are parameters.
\<close>

section \<open>SubkeyUtils\<close>

datatype subkey = SubInt int64 | SubStr string

type_synonym subkeys = "subkey list"

fun subkey_hash :: "(int64 \<Rightarrow> uint64) \<Rightarrow> (string \<Rightarrow> uint64) \<Rightarrow> subkey \<Rightarrow> uint64" where
  "subkey_hash hi hs (SubInt v) = hi v"
| "subkey_hash hi hs (SubStr v) = hs v"

definition subkeys_hash :: "(int64 \<Rightarrow> uint64) \<Rightarrow> (string \<Rightarrow> uint64) \<Rightarrow> subkeys \<Rightarrow> uint64" where
  "subkeys_hash hi hs ks = foldl (XOR) 0 (map (subkey_hash hi hs) ks)"

fun subkey_eq :: "subkey \<Rightarrow> subkey \<Rightarrow> bool" where
  "subkey_eq (SubInt a) b = (case b of SubInt p \<Rightarrow> a = p | SubStr p \<Rightarrow> False)"
| "subkey_eq (SubStr a) b = (case b of SubStr p \<Rightarrow> a = p | SubInt p \<Rightarrow> False)"

definition subkeys_eq :: "subkeys \<Rightarrow> subkeys \<Rightarrow> bool" where
  "subkeys_eq as bs = list_all2 subkey_eq as bs"

fun subkey_string :: "subkey \<Rightarrow> string" where
  "subkey_string (SubInt v) = show_int (sint v)"
| "subkey_string (SubStr v) = v"

definition formatKey :: "(string \<Rightarrow> string list \<Rightarrow> string) \<Rightarrow> string \<Rightarrow> subkeys \<Rightarrow> string" where
  "formatKey fmt keyFormat ks = fmt keyFormat (map subkey_string ks)"

lemma subkey_eq_iff: "subkey_eq a b \<longleftrightarrow> a = b"
  by (cases a; cases b) auto

lemma subkeys_eq_iff [simp]: "subkeys_eq as bs \<longleftrightarrow> as = bs"
proof -
  have "subkey_eq = (=)" by (intro ext) (rule subkey_eq_iff)
  then show ?thesis by (simp add: subkeys_eq_def list.rel_eq)
qed

section \<open>The global map under an upgradable lock\<close>

text \<open>
  A lookup reads under the shared lock; after a miss it takes the upgrade lock, looks again, makes the value and
  inserts it under the exclusive lock. Readers run while the upgrade lock is held. Everything else in the process may
  change what \<open>mk\<close> sees, at any time. \<open>made\<close> records the calls of \<open>mk\<close>.
\<close>

datatype ('k, 'v) upc = UIdle | UMiss 'k | UMade 'k 'v | UDone 'k 'v

record ('k, 'v, 'w) upg =
  gmap :: "('k \<times> 'v) list"
  outside :: 'w
  upgrader :: "nat option"
  upcs :: "nat \<Rightarrow> ('k, 'v) upc"
  made :: "('k \<times> 'v) list"

definition upg0 :: "'w \<Rightarrow> ('k, 'v, 'w) upg" where
  "upg0 w = \<lparr>gmap = [], outside = w, upgrader = None, upcs = (\<lambda>_. UIdle), made = []\<rparr>"

inductive upg_step :: "('k \<Rightarrow> 'w \<Rightarrow> 'v \<times> 'w) \<Rightarrow> ('k, 'v, 'w) upg \<Rightarrow> ('k, 'v, 'w) upg \<Rightarrow> bool" for mk where
  read_hit: "upcs s i = UIdle \<Longrightarrow> map_of (gmap s) k = Some v \<Longrightarrow>
    upg_step mk s (s\<lparr>upcs := (upcs s)(i := UDone k v)\<rparr>)"
| read_miss: "upcs s i = UIdle \<Longrightarrow> map_of (gmap s) k = None \<Longrightarrow>
    upg_step mk s (s\<lparr>upcs := (upcs s)(i := UMiss k)\<rparr>)"
| upgrade_hit: "upcs s i = UMiss k \<Longrightarrow> upgrader s = None \<Longrightarrow> map_of (gmap s) k = Some v \<Longrightarrow>
    upg_step mk s (s\<lparr>upcs := (upcs s)(i := UDone k v)\<rparr>)"
| upgrade_make: "upcs s i = UMiss k \<Longrightarrow> upgrader s = None \<Longrightarrow> map_of (gmap s) k = None \<Longrightarrow> mk k (outside s) = (v, w) \<Longrightarrow>
    upg_step mk s (s\<lparr>upgrader := Some i, outside := w, made := (k, v) # made s, upcs := (upcs s)(i := UMade k v)\<rparr>)"
| write_back: "upcs s i = UMade k v \<Longrightarrow>
    upg_step mk s (s\<lparr>gmap := (k, v) # gmap s, upgrader := None, upcs := (upcs s)(i := UDone k v)\<rparr>)"
| return: "upcs s i = UDone k v \<Longrightarrow> upg_step mk s (s\<lparr>upcs := (upcs s)(i := UIdle)\<rparr>)"
| elsewhere: "upg_step mk s (s\<lparr>outside := w\<rparr>)"

inductive upg_reach :: "('k \<Rightarrow> 'w \<Rightarrow> 'v \<times> 'w) \<Rightarrow> ('k, 'v, 'w) upg \<Rightarrow> bool" for mk where
  upg_start: "upg_reach mk (upg0 w)"
| upg_next: "upg_reach mk s \<Longrightarrow> upg_step mk s s' \<Longrightarrow> upg_reach mk s'"

definition upg_inv :: "('k \<Rightarrow> 'w \<Rightarrow> 'v \<times> 'w) \<Rightarrow> ('k, 'v, 'w) upg \<Rightarrow> bool" where
  "upg_inv mk s \<longleftrightarrow>
     distinct (map fst (made s)) \<and>
     (\<forall>(k, v) \<in> set (made s). \<exists>w. v = fst (mk k w)) \<and>
     (case upgrader s of
        None \<Rightarrow> gmap s = made s \<and> (\<forall>i k v. upcs s i \<noteq> UMade k v)
      | Some i \<Rightarrow> (\<exists>k v. upcs s i = UMade k v \<and> made s = (k, v) # gmap s) \<and> (\<forall>j k v. upcs s j = UMade k v \<longrightarrow> j = i)) \<and>
     (\<forall>i k v. upcs s i = UDone k v \<longrightarrow> (k, v) \<in> set (gmap s))"

lemma upg_step_inv: "upg_step mk s s' \<Longrightarrow> upg_inv mk s \<Longrightarrow> upg_inv mk s'"
proof (induction rule: upg_step.induct)
  case (upgrade_make s i k v w)
  then have "v = fst (mk k (outside s))" by simp
  with upgrade_make show ?case
    unfolding upg_inv_def by (auto simp: map_of_eq_None_iff split: option.splits)
next
  case (write_back s i k v)
  have u: "upgrader s = Some i"
  proof (cases "upgrader s")
    case (Some j)
    with write_back.prems have "\<forall>i k v. upcs s i = UMade k v \<longrightarrow> i = j" unfolding upg_inv_def by simp
    with write_back.hyps have "j = i" by blast
    with Some show ?thesis by simp
  qed (use write_back in \<open>simp add: upg_inv_def\<close>)
  have m: "made s = (k, v) # gmap s" and others: "\<forall>j k v. upcs s j = UMade k v \<longrightarrow> j = i"
    using write_back.prems write_back.hyps unfolding upg_inv_def u by auto
  have "distinct (map fst (made s))" "\<forall>(k, v) \<in> set (made s). \<exists>w. v = fst (mk k w)"
    "\<forall>i k v. upcs s i = UDone k v \<longrightarrow> (k, v) \<in> set (gmap s)"
    using write_back.prems unfolding upg_inv_def by simp_all
  with others show ?case unfolding upg_inv_def by (simp add: m) blast
qed (auto simp: upg_inv_def dest: map_of_SomeD split: option.splits)

lemma upg_reach_inv: "upg_reach mk s \<Longrightarrow> upg_inv mk s"
proof (induction rule: upg_reach.induct)
  case (upg_start w)
  show ?case by (simp add: upg0_def upg_inv_def)
qed (rule upg_step_inv)

section \<open>FormattedKeyHolder\<close>

record ('c, 'w) key_ops =
  k_hash :: "subkeys \<Rightarrow> uint64"
  k_format :: "subkeys \<Rightarrow> string"
  k_prepare :: "string \<Rightarrow> 'w \<Rightarrow> 'w"
  k_cache :: "nat \<Rightarrow> string \<Rightarrow> 'w \<Rightarrow> 'c \<times> 'w"    \<comment> \<open>\<open>CacheFun\<close>, on a thread\<close>

record 'c local_map =
  lm_last :: "(uint64 \<times> subkeys \<times> string \<times> 'c) option"
  lm_map :: "(subkeys \<times> string \<times> 'c) list"

record ('c, 'w) holder =
  globalMap :: "(subkeys \<times> string) list"
  localMap :: "nat \<Rightarrow> 'c local_map"
  hworld :: 'w
  prepared :: "string list"

definition holder0 :: "'w \<Rightarrow> ('c, 'w) holder" where
  "holder0 w = \<lparr>globalMap = [], localMap = (\<lambda>_. \<lparr>lm_last = None, lm_map = []\<rparr>), hworld = w, prepared = []\<rparr>"

definition getFormattedKeyGlobal :: "('c, 'w) key_ops \<Rightarrow> subkeys \<Rightarrow> ('c, 'w) holder \<Rightarrow> string \<times> ('c, 'w) holder" where
  "getFormattedKeyGlobal K ks h =
     (case map_of (globalMap h) ks of
        Some key \<Rightarrow> (key, h)
      | None \<Rightarrow>
          (let key = k_format K ks in
           (key, h\<lparr>globalMap := (ks, key) # globalMap h, hworld := k_prepare K key (hworld h), prepared := key # prepared h\<rparr>)))"

definition set_local :: "nat \<Rightarrow> 'c local_map \<Rightarrow> ('c, 'w) holder \<Rightarrow> ('c, 'w) holder" where
  "set_local t m h = h\<lparr>localMap := (localMap h)(t := m)\<rparr>"

definition getFormattedKeySlow ::
  "('c, 'w) key_ops \<Rightarrow> nat \<Rightarrow> subkeys \<Rightarrow> ('c, 'w) holder \<Rightarrow> (string \<times> 'c) \<times> ('c, 'w) holder" where
  "getFormattedKeySlow K t ks h =
     (let (key, h1) = getFormattedKeyGlobal K ks h;
          (c, w) = k_cache K t key (hworld h1);
          m = localMap h1 t
      in ((key, c), set_local t (m\<lparr>lm_map := (ks, key, c) # lm_map m\<rparr>) (h1\<lparr>hworld := w\<rparr>)))"

definition last_hit :: "('c, 'w) key_ops \<Rightarrow> subkeys \<Rightarrow> 'c local_map \<Rightarrow> (string \<times> 'c) option" where
  "last_hit K ks m =
     (case lm_last m of
        None \<Rightarrow> None
      | Some (hsh, key, e) \<Rightarrow> if k_hash K ks = hsh \<and> subkeys_eq key ks then Some e else None)"

definition getFormattedEntry ::
  "('c, 'w) key_ops \<Rightarrow> nat \<Rightarrow> subkeys \<Rightarrow> ('c, 'w) holder \<Rightarrow> (string \<times> 'c) \<times> ('c, 'w) holder" where
  "getFormattedEntry K t ks h =
     (case last_hit K ks (localMap h t) of
        Some e \<Rightarrow> (e, h)
      | None \<Rightarrow>
          (let (e, h1) = (case map_of (lm_map (localMap h t)) ks of
                            Some e \<Rightarrow> (e, h)
                          | None \<Rightarrow> getFormattedKeySlow K t ks h)
           in (e, set_local t ((localMap h1 t)\<lparr>lm_last := Some (k_hash K ks, ks, e)\<rparr>) h1)))"

definition eraseFormattedKey :: "nat \<Rightarrow> subkeys \<Rightarrow> ('c, 'w) holder \<Rightarrow> ('c, 'w) holder" where
  "eraseFormattedKey t ks h =
     set_local t \<lparr>lm_last = None, lm_map = filter (\<lambda>e. fst e \<noteq> ks) (lm_map (localMap h t))\<rparr> h"

datatype 'w kh_op = KhGet nat subkeys | KhErase nat subkeys | KhElsewhere "'w \<Rightarrow> 'w"

fun kh_exec :: "('c, 'w) key_ops \<Rightarrow> 'w kh_op \<Rightarrow> ('c, 'w) holder \<Rightarrow> ('c, 'w) holder" where
  "kh_exec K (KhGet t ks) h = snd (getFormattedEntry K t ks h)"
| "kh_exec K (KhErase t ks) h = eraseFormattedKey t ks h"
| "kh_exec K (KhElsewhere f) h = h\<lparr>hworld := f (hworld h)\<rparr>"

definition asked :: "'w kh_op list \<Rightarrow> subkeys set" where
  "asked xs = {ks. \<exists>t. KhGet t ks \<in> set xs}"

definition local_ok :: "('c, 'w) key_ops \<Rightarrow> (subkeys \<times> string) list \<Rightarrow> 'c local_map \<Rightarrow> bool" where
  "local_ok K g m \<longleftrightarrow>
     (\<forall>(ks, key, c) \<in> set (lm_map m). map_of g ks = Some key) \<and>
     (case lm_last m of None \<Rightarrow> True | Some (hsh, ks, e) \<Rightarrow> map_of (lm_map m) ks = Some e \<and> hsh = k_hash K ks)"

definition holder_ok :: "('c, 'w) key_ops \<Rightarrow> ('c, 'w) holder \<Rightarrow> bool" where
  "holder_ok K h \<longleftrightarrow>
     distinct (map fst (globalMap h)) \<and> (\<forall>(ks, key) \<in> set (globalMap h). key = k_format K ks) \<and>
     prepared h = map snd (globalMap h) \<and> (\<forall>t. local_ok K (globalMap h) (localMap h t))"

lemma local_ok_mono: "local_ok K g m \<Longrightarrow> (\<And>ks key. map_of g ks = Some key \<Longrightarrow> map_of g' ks = Some key) \<Longrightarrow> local_ok K g' m"
  by (auto simp: local_ok_def)

lemma getFormattedKeyGlobal_ok:
  assumes "holder_ok K h" "getFormattedKeyGlobal K ks h = (key, h1)"
  shows "holder_ok K h1" "key = k_format K ks" "map_of (globalMap h1) ks = Some key" "localMap h1 = localMap h"
    "set (map fst (globalMap h1)) = insert ks (set (map fst (globalMap h)))"
proof -
  have "holder_ok K h1 \<and> key = k_format K ks \<and> map_of (globalMap h1) ks = Some key \<and> localMap h1 = localMap h \<and>
    set (map fst (globalMap h1)) = insert ks (set (map fst (globalMap h)))"
  proof (cases "map_of (globalMap h) ks")
    case None
    then have new: "ks \<notin> fst ` set (globalMap h)" by (simp add: map_of_eq_None_iff)
    have "local_ok K ((ks, key) # globalMap h) (localMap h t)" for t
    proof (rule local_ok_mono)
      show "local_ok K (globalMap h) (localMap h t)" using assms(1) by (simp add: holder_ok_def)
    qed (use None in auto)
    with None new assms show ?thesis by (auto simp: getFormattedKeyGlobal_def holder_ok_def Let_def)
  next
    case (Some k)
    with map_of_SomeD[OF Some] assms show ?thesis by (force simp: getFormattedKeyGlobal_def holder_ok_def)
  qed
  then show "holder_ok K h1" "key = k_format K ks" "map_of (globalMap h1) ks = Some key" "localMap h1 = localMap h"
    "set (map fst (globalMap h1)) = insert ks (set (map fst (globalMap h)))" by blast+
qed

lemma set_local_ok: "holder_ok K h \<Longrightarrow> local_ok K (globalMap h) m \<Longrightarrow> holder_ok K (set_local t m h)"
  by (simp add: holder_ok_def set_local_def)

lemma hworld_ok [simp]: "holder_ok K (h\<lparr>hworld := w\<rparr>) = holder_ok K h"
  by (simp add: holder_ok_def)

lemma set_local_sel [simp]:
  "globalMap (set_local t m h) = globalMap h" "localMap (set_local t m h) = (localMap h)(t := m)"
  by (simp_all add: set_local_def)

lemma getFormattedKeySlow_ok:
  assumes "holder_ok K h" "map_of (lm_map (localMap h t)) ks = None" "getFormattedKeySlow K t ks h = (e, h1)"
  shows "holder_ok K h1" "fst e = k_format K ks" "map_of (lm_map (localMap h1 t)) ks = Some e"
    "set (map fst (globalMap h1)) = insert ks (set (map fst (globalMap h)))"
proof -
  obtain key h2 where g: "getFormattedKeyGlobal K ks h = (key, h2)" by fastforce
  note G = getFormattedKeyGlobal_ok[OF assms(1) g]
  obtain c w where c: "k_cache K t key (hworld h2) = (c, w)" by fastforce
  let ?m = "(localMap h2 t)\<lparr>lm_map := (ks, key, c) # lm_map (localMap h2 t)\<rparr>"
  have h1: "e = (key, c)" "h1 = set_local t ?m (h2\<lparr>hworld := w\<rparr>)"
    using assms(3) g c by (auto simp: getFormattedKeySlow_def Let_def)
  have "local_ok K (globalMap h2) (localMap h2 t)" using G(1) by (simp add: holder_ok_def)
  with G(3,4) assms(2) have "local_ok K (globalMap h2) ?m" by (auto simp: local_ok_def split: option.splits)
  with set_local_ok[of K "h2\<lparr>hworld := w\<rparr>" ?m t] G(1) show "holder_ok K h1" by (simp add: h1)
  show "fst e = k_format K ks" "map_of (lm_map (localMap h1 t)) ks = Some e"
    "set (map fst (globalMap h1)) = insert ks (set (map fst (globalMap h)))" using G(2,5) by (simp_all add: h1)
qed

lemma last_hit_map:
  assumes "local_ok K g m" "last_hit K ks m = Some e"
  shows "map_of (lm_map m) ks = Some e"
proof -
  from assms(2) obtain hsh key e' where l: "lm_last m = Some (hsh, key, e')" by (cases "lm_last m") (auto simp: last_hit_def)
  with assms(2) have "key = ks \<and> e' = e" by (simp add: last_hit_def split: if_splits)
  with l assms(1) show ?thesis by (simp add: local_ok_def)
qed

lemma getFormattedEntry_ok:
  assumes "holder_ok K h" "getFormattedEntry K t ks h = (e, h')"
  shows "holder_ok K h'" "fst e = k_format K ks" "map_of (lm_map (localMap h' t)) ks = Some e"
    "set (map fst (globalMap h')) = insert ks (set (map fst (globalMap h)))"
proof -
  let ?m = "localMap h t"
  have loc: "local_ok K (globalMap h) ?m" using assms(1) by (simp add: holder_ok_def)
  have known: "fst e' = k_format K ks \<and> ks \<in> set (map fst (globalMap h))" if "map_of (lm_map ?m) ks = Some e'" for e'
  proof -
    have "map_of (globalMap h) ks = Some (fst e')" using loc map_of_SomeD[OF that] by (cases e') (auto simp: local_ok_def)
    from map_of_SomeD[OF this] show ?thesis using assms(1) by (force simp: holder_ok_def)
  qed
  have "holder_ok K h' \<and> fst e = k_format K ks \<and> map_of (lm_map (localMap h' t)) ks = Some e \<and>
    set (map fst (globalMap h')) = insert ks (set (map fst (globalMap h)))"
  proof (cases "last_hit K ks ?m")
    case (Some e')
    have "map_of (lm_map ?m) ks = Some e'" by (rule last_hit_map[OF loc Some])
    with known[OF this] Some assms show ?thesis by (simp add: getFormattedEntry_def insert_absorb)
  next
    case None
    let ?slow = "case map_of (lm_map ?m) ks of Some e \<Rightarrow> (e, h) | None \<Rightarrow> getFormattedKeySlow K t ks h"
    obtain e' h1 where s: "?slow = (e', h1)" by fastforce
    have ok1: "holder_ok K h1" "fst e' = k_format K ks" "map_of (lm_map (localMap h1 t)) ks = Some e'"
      "set (map fst (globalMap h1)) = insert ks (set (map fst (globalMap h)))"
      using s assms(1) known getFormattedKeySlow_ok[OF assms(1), of t ks e' h1]
      by (auto split: option.splits)
    have "local_ok K (globalMap h1) ((localMap h1 t)\<lparr>lm_last := Some (k_hash K ks, ks, e')\<rparr>)"
      using ok1(3) conjunct2[OF conjunct2[OF conjunct2[OF ok1(1)[unfolded holder_ok_def]]]] by (simp add: local_ok_def)
    from set_local_ok[OF ok1(1) this, of t] have "holder_ok K (set_local t ((localMap h1 t)\<lparr>lm_last := Some (k_hash K ks, ks, e')\<rparr>) h1)" .
    moreover have "e = e'" "h' = set_local t ((localMap h1 t)\<lparr>lm_last := Some (k_hash K ks, ks, e')\<rparr>) h1"
      using None s assms(2) by (auto simp: getFormattedEntry_def)
    ultimately show ?thesis using ok1(2-4) by simp
  qed
  then show "holder_ok K h'" "fst e = k_format K ks" "map_of (lm_map (localMap h' t)) ks = Some e"
    "set (map fst (globalMap h')) = insert ks (set (map fst (globalMap h)))" by blast+
qed

lemma eraseFormattedKey_ok: "holder_ok K h \<Longrightarrow> holder_ok K (eraseFormattedKey t ks h)"
proof -
  assume ok: "holder_ok K h"
  then have "local_ok K (globalMap h) (localMap h t)" by (simp add: holder_ok_def)
  then have "local_ok K (globalMap h) \<lparr>lm_last = None, lm_map = filter (\<lambda>e. fst e \<noteq> ks) (lm_map (localMap h t))\<rparr>"
    by (auto simp: local_ok_def)
  with ok show ?thesis unfolding eraseFormattedKey_def by (rule set_local_ok)
qed

lemma globalMap_erase [simp]: "globalMap (eraseFormattedKey t ks h) = globalMap h"
  by (simp add: eraseFormattedKey_def)

lemma kh_exec_ok:
  "holder_ok K h \<Longrightarrow> holder_ok K (kh_exec K x h) \<and>
   set (map fst (globalMap (kh_exec K x h))) = asked [x] \<union> set (map fst (globalMap h))"
proof (cases x)
  case (KhGet t ks)
  moreover assume "holder_ok K h"
  moreover obtain e h' where "getFormattedEntry K t ks h = (e, h')" by fastforce
  ultimately show ?thesis using getFormattedEntry_ok[of K h t ks e h'] by (auto simp: asked_def)
qed (auto simp: eraseFormattedKey_ok asked_def)

lemma kh_run_ok:
  "holder_ok K h \<Longrightarrow> holder_ok K (fold (kh_exec K) xs h) \<and>
   set (map fst (globalMap (fold (kh_exec K) xs h))) = asked xs \<union> set (map fst (globalMap h))"
proof (induction xs arbitrary: h)
  case (Cons x xs)
  have "asked (x # xs) = asked xs \<union> asked [x]" by (auto simp: asked_def)
  with Cons.IH[of "kh_exec K x h"] kh_exec_ok[OF Cons.prems, of x] show ?case by auto
qed (simp add: asked_def)

lemma holder0_ok: "holder_ok K (holder0 w)"
  by (simp add: holder_ok_def holder0_def local_ok_def)

definition stat_key_ops ::
  "(int64 \<Rightarrow> uint64) \<Rightarrow> (string \<Rightarrow> uint64) \<Rightarrow> (string \<Rightarrow> string list \<Rightarrow> string) \<Rightarrow> string \<Rightarrow>
   (string \<Rightarrow> 'w \<Rightarrow> 'w) \<Rightarrow> (nat \<Rightarrow> string \<Rightarrow> 'w \<Rightarrow> 'c \<times> 'w) \<Rightarrow> ('c, 'w) key_ops" where
  "stat_key_ops hi hs fmt keyFormat prepareKey cacheFun =
     \<lparr>k_hash = subkeys_hash hi hs, k_format = formatKey fmt keyFormat, k_prepare = prepareKey, k_cache = cacheFun\<rparr>"

section \<open>DynamicQuantileStatWrapper\<close>

record ('q, 'w) qwrapper =
  globalCache :: "(subkeys \<times> 'q) list"
  localCache :: "nat \<Rightarrow> (subkeys \<times> 'q) list"
  qworld :: 'w

definition kLocalCacheLinearScanThreshold :: nat where
  "kLocalCacheLinearScanThreshold = 8"

definition qwrapper0 :: "'w \<Rightarrow> ('q, 'w) qwrapper" where
  "qwrapper0 w = \<lparr>globalCache = [], localCache = (\<lambda>_. []), qworld = w\<rparr>"

definition getOrCreateGlobal ::
  "(subkeys \<Rightarrow> string) \<Rightarrow> (string \<Rightarrow> 'w \<Rightarrow> 'q \<times> 'w) \<Rightarrow> subkeys \<Rightarrow> ('q, 'w) qwrapper \<Rightarrow> 'q \<times> ('q, 'w) qwrapper" where
  "getOrCreateGlobal form getq ks s =
     (case map_of (globalCache s) ks of
        Some q \<Rightarrow> (q, s)
      | None \<Rightarrow>
          (let (q, w) = getq (form ks) (qworld s) in
           (q, s\<lparr>globalCache := (ks, q) # globalCache s, qworld := w\<rparr>)))"

definition getStatEntrySlow ::
  "(subkeys \<Rightarrow> string) \<Rightarrow> (string \<Rightarrow> 'w \<Rightarrow> 'q \<times> 'w) \<Rightarrow> nat \<Rightarrow> subkeys \<Rightarrow> ('q, 'w) qwrapper \<Rightarrow> 'q \<times> ('q, 'w) qwrapper" where
  "getStatEntrySlow form getq t ks s =
     (let (q, s1) = getOrCreateGlobal form getq ks s; l = localCache s1 t in
      (q, s1\<lparr>localCache := (localCache s1)(t := (if map_of l ks = None then l @ [(ks, q)] else l))\<rparr>))"

text \<open>A short cache is scanned in the order of its entries, a long one is searched by hash.\<close>

definition cache_find :: "subkeys \<Rightarrow> (subkeys \<times> 'q) list \<Rightarrow> 'q option" where
  "cache_find ks l =
     (if length l \<le> kLocalCacheLinearScanThreshold
      then map_option snd (List.find (\<lambda>e. subkeys_eq (fst e) ks) l)
      else map_of l ks)"

definition getStatEntry ::
  "(subkeys \<Rightarrow> string) \<Rightarrow> (string \<Rightarrow> 'w \<Rightarrow> 'q \<times> 'w) \<Rightarrow> nat \<Rightarrow> subkeys \<Rightarrow> ('q, 'w) qwrapper \<Rightarrow> 'q \<times> ('q, 'w) qwrapper" where
  "getStatEntry form getq t ks s =
     (case cache_find ks (localCache s t) of Some q \<Rightarrow> (q, s) | None \<Rightarrow> getStatEntrySlow form getq t ks s)"

lemma cache_find_map: "cache_find ks l = map_of l ks"
  by (induction l) (auto simp: cache_find_def split: if_splits)

definition qwrapper_ok :: "('q, 'w) qwrapper \<Rightarrow> bool" where
  "qwrapper_ok s \<longleftrightarrow> (\<forall>t ks q. map_of (localCache s t) ks = Some q \<longrightarrow> map_of (globalCache s) ks = Some q)"

lemma getStatEntry_ok:
  assumes "qwrapper_ok s" "getStatEntry form getq t ks s = (q, s')"
  shows "qwrapper_ok s'" "map_of (globalCache s') ks = Some q"
    "map_of (globalCache s) ks' = Some q' \<Longrightarrow> map_of (globalCache s') ks' = Some q'"
proof -
  have "qwrapper_ok s' \<and> map_of (globalCache s') ks = Some q \<and>
    (\<forall>ks' q'. map_of (globalCache s) ks' = Some q' \<longrightarrow> map_of (globalCache s') ks' = Some q')"
  proof (cases "map_of (localCache s t) ks")
    case (Some x)
    with assms show ?thesis by (auto simp: getStatEntry_def cache_find_map qwrapper_ok_def)
  next
    case None
    obtain s1 where g: "getOrCreateGlobal form getq ks s = (q, s1)"
      and s': "s' = s1\<lparr>localCache := (localCache s1)(t := (if map_of (localCache s1 t) ks = None then localCache s1 t @ [(ks, q)] else localCache s1 t))\<rparr>"
      using None assms(2) by (cases "getOrCreateGlobal form getq ks s") (auto simp: getStatEntry_def cache_find_map getStatEntrySlow_def Let_def)
    have g1: "localCache s1 = localCache s" "map_of (globalCache s1) ks = Some q"
      "\<forall>ks' q'. map_of (globalCache s) ks' = Some q' \<longrightarrow> map_of (globalCache s1) ks' = Some q'"
      using g by (auto simp: getOrCreateGlobal_def Let_def split: option.splits prod.splits)
    then show ?thesis using assms(1) unfolding s' qwrapper_ok_def
      by (auto simp: map_add_Some_iff split: if_splits)
  qed
  then show "qwrapper_ok s'" "map_of (globalCache s') ks = Some q"
    "map_of (globalCache s) ks' = Some q' \<Longrightarrow> map_of (globalCache s') ks' = Some q'" by blast+
qed

text \<open>A run: every step asks for a stat on a thread, or changes what \<open>getQuantileStat\<close> sees.\<close>

datatype 'w qw_op = QwGet nat subkeys | QwElsewhere "'w \<Rightarrow> 'w"

fun qw_exec :: "(subkeys \<Rightarrow> string) \<Rightarrow> (string \<Rightarrow> 'w \<Rightarrow> 'q \<times> 'w) \<Rightarrow> 'w qw_op \<Rightarrow> ('q, 'w) qwrapper \<Rightarrow> ('q, 'w) qwrapper" where
  "qw_exec form getq (QwGet t ks) s = snd (getStatEntry form getq t ks s)"
| "qw_exec form getq (QwElsewhere f) s = s\<lparr>qworld := f (qworld s)\<rparr>"

lemma qw_exec_ok:
  assumes "qwrapper_ok s"
  shows "qwrapper_ok (qw_exec form getq x s) \<and>
    (\<forall>ks q. map_of (globalCache s) ks = Some q \<longrightarrow> map_of (globalCache (qw_exec form getq x s)) ks = Some q)"
proof (cases x)
  case (QwGet t ks)
  obtain q s' where "getStatEntry form getq t ks s = (q, s')" by fastforce
  with QwGet getStatEntry_ok[OF assms this] show ?thesis by auto
qed (use assms in \<open>auto simp: qwrapper_ok_def\<close>)

lemma qw_run_ok:
  "qwrapper_ok s \<Longrightarrow> qwrapper_ok (fold (qw_exec form getq) xs s) \<and>
   (\<forall>ks q. map_of (globalCache s) ks = Some q \<longrightarrow> map_of (globalCache (fold (qw_exec form getq) xs s)) ks = Some q)"
proof (induction xs arbitrary: s)
  case (Cons x xs)
  from qw_exec_ok[OF Cons.prems, of form getq x] Cons.IH[of "qw_exec form getq x s"] show ?case by auto
qed simp

section \<open>Properties\<close>

definition concat_keys :: "subkeys \<Rightarrow> string" where
  "concat_keys ks = concat (map subkey_string ks)"

definition demo_getq :: "string \<Rightarrow> nat \<Rightarrow> nat \<times> nat" where
  "demo_getq key n = (n, Suc n)"

definition demo_mk :: "nat \<Rightarrow> nat \<Rightarrow> nat \<times> nat" where
  "demo_mk k w = (k + w, w)"

lemma demo_upg: "\<exists>s. upg_reach demo_mk s \<and> upcs s 0 = UDone 5 15 \<and> upcs s 1 = UDone 5 15"
proof -
  let ?s1 = "(upg0 10 :: (nat, nat, nat) upg)\<lparr>upcs := (\<lambda>_. UIdle)(0 := UMiss 5)\<rparr>"
  let ?s2 = "?s1\<lparr>upcs := (upcs ?s1)(1 := UMiss 5)\<rparr>"
  let ?s3 = "?s2\<lparr>upgrader := Some 0, outside := 10, made := (5, 15) # made ?s2, upcs := (upcs ?s2)(0 := UMade 5 15)\<rparr>"
  let ?s4 = "?s3\<lparr>gmap := (5, 15) # gmap ?s3, upgrader := None, upcs := (upcs ?s3)(0 := UDone 5 15)\<rparr>"
  let ?s5 = "?s4\<lparr>upcs := (upcs ?s4)(1 := UDone 5 15)\<rparr>"
  have "upg_step demo_mk (upg0 10) ?s1" using read_miss[of "upg0 10" 0 5 demo_mk] by (simp add: upg0_def)
  then have 1: "upg_reach demo_mk ?s1" by (rule upg_next[OF upg_start])
  have "upg_step demo_mk ?s1 ?s2" by (rule read_miss) (simp_all add: upg0_def)
  with 1 have 2: "upg_reach demo_mk ?s2" by (rule upg_next)
  have "upg_step demo_mk ?s2 ?s3" by (rule upgrade_make) (simp_all add: upg0_def demo_mk_def)
  with 2 have 3: "upg_reach demo_mk ?s3" by (rule upg_next)
  have "upg_step demo_mk ?s3 ?s4" by (rule write_back) (simp add: upg0_def)
  with 3 have 4: "upg_reach demo_mk ?s4" by (rule upg_next)
  have "upg_step demo_mk ?s4 ?s5" by (rule upgrade_hit) (simp_all add: upg0_def)
  with 4 have "upg_reach demo_mk ?s5" by (rule upg_next)
  then show ?thesis by (intro exI[of _ ?s5]) simp
qed

lemma count_distinct: "distinct xs \<Longrightarrow> x \<in> set xs \<Longrightarrow> count_list xs x = 1"
  by (induction xs) (auto simp: count_notin)



text \<open>
  C27: Whatever threads ask for, erase and cache, the key they get is the format applied to their own subkeys, and
  every array of subkeys that was asked for has been prepared exactly once.
\<close>
theorem dynamic_keys_exact:
  "fst (fst (getFormattedEntry K t ks (fold (kh_exec K) xs (holder0 w)))) = k_format K ks \<and>
   prepared (fold (kh_exec K) xs (holder0 w)) = map (k_format K) (map fst (globalMap (fold (kh_exec K) xs (holder0 w)))) \<and>
   distinct (map fst (globalMap (fold (kh_exec K) xs (holder0 w)))) \<and>
   set (map fst (globalMap (fold (kh_exec K) xs (holder0 w)))) = asked xs"
proof -
  let ?h = "fold (kh_exec K) xs (holder0 w)"
  have ok: "holder_ok K ?h" and set: "set (map fst (globalMap ?h)) = asked xs"
    using kh_run_ok[OF holder0_ok, of K xs w] by (auto simp: holder0_def)
  obtain e h' where "getFormattedEntry K t ks ?h = (e, h')" by fastforce
  with getFormattedEntry_ok(2)[OF ok this] have "fst (fst (getFormattedEntry K t ks ?h)) = k_format K ks" by simp
  moreover have "map snd (globalMap ?h) = map (k_format K) (map fst (globalMap ?h))"
    using ok by (auto simp: holder_ok_def)
  ultimately show ?thesis using ok set by (simp add: holder_ok_def)
qed

text \<open>
  A dynamic quantile stat is resolved once: whatever happens in between, another lookup of the same subkeys, on
  any thread and through a scanned or a hashed cache, finds the same stat.
\<close>
theorem quantile_stat_resolved_once:
  assumes "getStatEntry form getq t ks (fold (qw_exec form getq) xs (qwrapper0 w)) = (q, s)"
  shows "fst (getStatEntry form getq t' ks (fold (qw_exec form getq) ys s)) = q"
proof -
  have "qwrapper_ok (qwrapper0 w)" by (simp add: qwrapper_ok_def qwrapper0_def)
  then have ok: "qwrapper_ok (fold (qw_exec form getq) xs (qwrapper0 w))" using qw_run_ok by blast
  let ?s = "fold (qw_exec form getq) ys s"
  have s: "qwrapper_ok ?s" "map_of (globalCache ?s) ks = Some q"
    using getStatEntry_ok(1,2)[OF ok assms] qw_run_ok[of s form getq ys] by auto
  obtain q' s' where g: "getStatEntry form getq t' ks ?s = (q', s')" by fastforce
  with getStatEntry_ok(2)[OF s(1) g] getStatEntry_ok(3)[OF s(1) g s(2)] show ?thesis by simp
qed

theorem quantile_stat_resolved_once_witness:
  "fst (getStatEntry concat_keys demo_getq 2 [SubInt 7] (fold (qw_exec concat_keys demo_getq)
      [QwElsewhere (\<lambda>n. n + 40), QwGet 2 [SubStr ''x'']] (snd (getStatEntry concat_keys demo_getq 1 [SubInt 7] (qwrapper0 0))))) = 0"
  using quantile_stat_resolved_once[of concat_keys demo_getq 1 "[SubInt 7]" "[]" 0 0
      "snd (getStatEntry concat_keys demo_getq 1 [SubInt 7] (qwrapper0 0))" 2 "[QwElsewhere (\<lambda>n. n + 40), QwGet 2 [SubStr ''x'']]"]
  by (simp add: demo_getq_def getStatEntry_def cache_find_def qwrapper0_def getStatEntrySlow_def getOrCreateGlobal_def)

end
