(* ===== verification/TLMap.thy ===== *)
theory TLMap
  imports ServiceData StatKinds KeyHolder
begin

text \<open>
  \<open>ThreadLocalStatsMapT\<close> (\<^verbatim>\<open>fb303/ThreadLocalStatsMap.h\<close>, \<^verbatim>\<open>fb303/ThreadLocalStatsMap-inl.h\<close>): the stats of a
  thread by name, on top of the registry of the theory \<open>TLStats\<close> and with the whole service as the global side.
  An entry is a shared pointer to a stat with the export types the thread has asked for (the theory \<open>StatPtr\<close> shows
  that both its representations behave as this pair); the name is read through the pointer. A stat is destroyed when
  the last shared pointer to it goes: the entries of the maps and the pointers that the wrappers of
  \<^verbatim>\<open>fb303/ThreadCachedServiceData.h\<close> keep for each thread.
\<close>

section \<open>State\<close>

datatype kind = KSeries | KHist | KCounter

datatype 'l tlpayload = Series tlts | Hist "'l tlhist" | Ctr int64

fun kind_of :: "'l tlpayload \<Rightarrow> kind" where
  "kind_of (Series p) = KSeries"
| "kind_of (Hist p) = KHist"
| "kind_of (Ctr p) = KCounter"

type_synonym entry = "sid \<times> (export_type \<Rightarrow> bool)"

record tlsm =
  tm_link :: addr                    \<comment> \<open>the link of the base class\<close>
  named :: "kind \<Rightarrow> entry list"      \<comment> \<open>\<open>namedTimeseries_\<close>, \<open>namedHistograms_\<close>, \<open>namedCounters_\<close>\<close>

text \<open>
  A pointer that a wrapper keeps: the wrapper, with the subkeys when it is a dynamic one, the kind, the key, and the
  thread.
\<close>

type_synonym holder_id = "nat \<times> subkeys"

type_synonym handle = "holder_id \<times> kind \<times> name \<times> nat"

record ('l, 'g) tcs =
  hp :: "('l tlpayload, 'g) heap"
  tmaps :: "(nat \<times> tlsm) list"       \<comment> \<open>by thread, in the order of \<open>accessAllThreads\<close>\<close>
  handles :: "(handle \<times> sid) list"
  spec_taken :: "nat list"           \<comment> \<open>the histogram wrappers whose \<open>spec_\<close> has been moved out\<close>
  once_done :: "nat list"            \<comment> \<open>the ones whose \<open>once_\<close> is set\<close>

text \<open>\<open>folly::Histogram\<close>, the buckets that a thread fills.\<close>

record 'l bucket_ops =
  lh_make :: "int64 \<Rightarrow> int64 \<Rightarrow> int64 \<Rightarrow> 'l"
  lh_params :: "'l \<Rightarrow> int64 \<times> int64 \<times> int64"
  lh_addValue :: "int64 \<Rightarrow> 'l \<Rightarrow> 'l"
  lh_addRepeated :: "int64 \<Rightarrow> int64 \<Rightarrow> 'l \<Rightarrow> 'l"
  lh_clear :: "'l \<Rightarrow> 'l"

record ('s, 'h, 'l, 'c, 'p, 'r) tenv =
  svc_params :: "('s, 'h, 'l, 'c, 'p, 'r) params"
  buckets :: "'l bucket_ops"
  updateOnRead :: bool               \<comment> \<open>\<open>shouldUpdateGlobalStatOnRead()\<close>\<close>

text \<open>What the allocator and \<open>try_lock\<close> answer during a call.\<close>

record alloc =
  new_sid :: sid
  new_link :: addr
  got_lock :: bool

datatype tc_error = Crash tl_error | NullPointer | Threw service_error

type_synonym ('a, 'l, 'g) tcm = "('l, 'g) tcs \<Rightarrow> (tc_error + 'a) \<times> ('l, 'g) tcs"

definition retX :: "'a \<Rightarrow> ('a, 'l, 'g) tcm" where
  "retX x s = (Inr x, s)"

definition bindX :: "('a, 'l, 'g) tcm \<Rightarrow> ('a \<Rightarrow> ('b, 'l, 'g) tcm) \<Rightarrow> ('b, 'l, 'g) tcm" where
  "bindX m f s = (case m s of (Inl e, s1) \<Rightarrow> (Inl e, s1) | (Inr x, s1) \<Rightarrow> f x s1)"

text \<open>A call into the registry, and one into the service.\<close>

definition registry :: "(('l tlpayload, 'g) heap \<Rightarrow> ('l tlpayload, 'g) result) \<Rightarrow> (unit, 'l, 'g) tcm" where
  "registry f s = (case f (hp s) of Inl e \<Rightarrow> (Inl (Crash e), s) | Inr h \<Rightarrow> (Inr (), s\<lparr>hp := h\<rparr>))"

definition set_globals :: "'g \<Rightarrow> ('l, 'g) tcs \<Rightarrow> ('l, 'g) tcs" where
  "set_globals g s = s\<lparr>hp := (hp s)\<lparr>globals := g\<rparr>\<rparr>"

definition on_service :: "('g \<Rightarrow> (service_error + 'a) \<times> 'g) \<Rightarrow> ('a, 'l, 'g) tcm" where
  "on_service f s = (let (r, g) = f (globals (hp s)) in (map_sum Threw id r, set_globals g s))"

section \<open>Aggregation of the three kinds into the service\<close>

definition series_store :: "('s, 'h, 'c, 'f, 'e, 'x) service \<Rightarrow> 's store" where
  "series_store g =
     \<lparr>stat_at = stat_heap (wld (exports g)), readings = (\<lambda>_. clock (wld (exports g))), reads = 0\<rparr>"

definition put_series :: "'s store \<Rightarrow> ('s, 'h, 'c, 'f, 'e, 'x) service \<Rightarrow> ('s, 'h, 'c, 'f, 'e, 'x) service" where
  "put_series st g = g\<lparr>exports := (exports g)\<lparr>wld := (wld (exports g))\<lparr>stat_heap := stat_at st\<rparr>\<rparr>\<rparr>"

definition hist_store :: "('s, 'h, 'c, 'f, 'e, 'x) service \<Rightarrow> 'h store" where
  "hist_store g =
     \<lparr>stat_at = hist_heap (wld (exports g)), readings = (\<lambda>_. clock (wld (exports g))), reads = 0\<rparr>"

definition put_hists :: "'h store \<Rightarrow> ('s, 'h, 'c, 'f, 'e, 'x) service \<Rightarrow> ('s, 'h, 'c, 'f, 'e, 'x) service" where
  "put_hists st g = g\<lparr>exports := (exports g)\<lparr>wld := (wld (exports g))\<lparr>hist_heap := stat_at st\<rparr>\<rparr>\<rparr>"

definition local_hist_ops :: "('s, 'h, 'l, 'c, 'p, 'r) tenv \<Rightarrow> ('l, 'h) hist_ops" where
  "local_hist_ops E =
     \<lparr>hist_addValue = lh_addValue (buckets E), hist_addRepeated = lh_addRepeated (buckets E),
      hist_clear = lh_clear (buckets E),
      fresh = (\<lambda>l. let (b, mn, mx) = lh_params (buckets E) l in lh_make (buckets E) b mn mx),
      addValues = h_addValues (hops (svc_params E))\<rparr>"

fun tl_aggregate ::
  "('s, 'h, 'l, 'c, 'p, 'r) tenv \<Rightarrow> ('l tlpayload, ('s, 'h, 'c, 'f, 'e, 'x) service) agg_fn" where
  "tl_aggregate E u n (Series p) g =
     (let (q, st) = tlt_aggregate (sops (svc_params E)) u n p (series_store g) in (Series q, put_series st g))"
| "tl_aggregate E u n (Hist p) g =
     (let (q, st) = tlh_aggregate (local_hist_ops E) u n p (hist_store g) in (Hist q, put_hists st g))"
| "tl_aggregate E u n (Ctr p) g =
     (let (q, c) = tlc_aggregate (cops (svc_params E)) u n p (counters g) in (Ctr q, g\<lparr>counters := c\<rparr>))"

section \<open>The named maps\<close>

text \<open>\<open>StatMap::find\<close> compares the name with the one each entry's stat has.\<close>

fun find_entry :: "(sid \<rightharpoonup> 'p tlstat) \<Rightarrow> name \<Rightarrow> entry list \<Rightarrow> tl_error + entry option" where
  "find_entry st n [] = Inr None"
| "find_entry st n (e # es) =
     (case st (fst e) of
        None \<Rightarrow> Inl UseAfterFree
      | Some x \<Rightarrow> if stat_name x = n then Inr (Some e) else find_entry st n es)"

definition find_named :: "tlsm \<Rightarrow> kind \<Rightarrow> name \<Rightarrow> (entry option, 'l, 'g) tcm" where
  "find_named m k n s =
     (case find_entry (stats (hp s)) n (named m k) of Inl e \<Rightarrow> (Inl (Crash e), s) | Inr r \<Rightarrow> (Inr r, s))"

text \<open>\<open>getThreadStats\<close>: the map of the thread, made when it is first asked for.\<close>

definition getThreadStats :: "('s, 'h, 'l, 'c, 'p, 'r) tenv \<Rightarrow> nat \<Rightarrow> alloc \<Rightarrow> (tlsm, 'l, 'g) tcm" where
  "getThreadStats E t w s =
     (case map_of (tmaps s) t of
        Some m \<Rightarrow> (Inr m, s)
      | None \<Rightarrow>
          (let m = \<lparr>tm_link = new_link w, named = (\<lambda>_. [])\<rparr> in
           (Inr m, s\<lparr>hp := new_container (updateOnRead E) (new_link w) (hp s), tmaps := tmaps s @ [(t, m)]\<rparr>)))"

definition mod_map :: "nat \<Rightarrow> (tlsm \<Rightarrow> tlsm) \<Rightarrow> ('l, 'g) tcs \<Rightarrow> ('l, 'g) tcs" where
  "mod_map t f s = s\<lparr>tmaps := map (\<lambda>(r, m). (r, if r = t then f m else m)) (tmaps s)\<rparr>"

definition mod_entries :: "kind \<Rightarrow> (entry list \<Rightarrow> entry list) \<Rightarrow> tlsm \<Rightarrow> tlsm" where
  "mod_entries k f m = m\<lparr>named := (named m)(k := f (named m k))\<rparr>"

definition insert_entry :: "nat \<Rightarrow> kind \<Rightarrow> sid \<Rightarrow> (entry option, 'l, 'g) tcm" where
  "insert_entry t k i s =
     (let e = (i, \<lambda>_. False) in (Inr (Some e), mod_map t (mod_entries k (\<lambda>es. e # es)) s))"

text \<open>\<open>None\<close> is the entry \<open>empty\<close>.\<close>

definition tryInsertLocked ::
  "nat \<Rightarrow> tlsm \<Rightarrow> kind \<Rightarrow> name \<Rightarrow> (sid option, 'l, 'g) tcm \<Rightarrow> (entry option, 'l, 'g) tcm" where
  "tryInsertLocked t m k n mk =
     bindX (find_named m k n) (\<lambda>r.
       case r of
         Some e \<Rightarrow> retX (Some e)
       | None \<Rightarrow>
           bindX mk (\<lambda>p.
             case p of
               None \<Rightarrow> retX None
             | Some i \<Rightarrow> insert_entry t k i))"

text \<open>The constructors of the stats, which \<open>make_shared\<close> runs.\<close>

definition make_series ::
  "tlsm \<Rightarrow> alloc \<Rightarrow> name \<Rightarrow> 's option \<Rightarrow> (sid option, 'l, ('s, 'h, 'c, 'f, 'e, 'x) service) tcm" where
  "make_series m w n copyMe =
     bindX (on_service (\<lambda>g. let (r, x) = getStatPtrNoExport n copyMe (exports g) in (Inr (fst r), g\<lparr>exports := x\<rparr>)))
       (\<lambda>p. bindX (registry (new_stat (got_lock w) (new_sid w) (tm_link m) n
                              (Series \<lparr>globalStat = Some p, value_ts = new_series\<rparr>)))
              (\<lambda>_. retX (Some (new_sid w))))"

definition createHistogramLocked ::
  "('s, 'h, 'l, 'c, 'p, 'r) tenv \<Rightarrow> tlsm \<Rightarrow> alloc \<Rightarrow> name \<Rightarrow> (sid option, 'l, ('s, 'h, 'c, 'f, 'e, 'x) service) tcm" where
  "createHistogramLocked E m w n s =
     (let x = exports (globals (hp s)) in
      case getHistogramUnlocked n x of
        None \<Rightarrow> (Inr None, s)
      | Some p \<Rightarrow>
          (let (b, mn, mx) = h_params (hops (svc_params E)) (hist_heap (wld x) p) in
           bindX (registry (new_stat (got_lock w) (new_sid w) (tm_link m) n
                     (Hist \<lparr>globalHist = Some p, simpleHistogram = lh_make (buckets E) b mn mx, dirty = False\<rparr>)))
             (\<lambda>_. retX (Some (new_sid w))) s))"

definition make_counter :: "tlsm \<Rightarrow> alloc \<Rightarrow> name \<Rightarrow> (sid option, 'l, 'g) tcm" where
  "make_counter m w n =
     bindX (registry (new_stat (got_lock w) (new_sid w) (tm_link m) n (Ctr 0))) (\<lambda>_. retX (Some (new_sid w)))"

definition make_stat ::
  "('s, 'h, 'l, 'c, 'p, 'r) tenv \<Rightarrow> kind \<Rightarrow> 's option \<Rightarrow> tlsm \<Rightarrow> alloc \<Rightarrow> name \<Rightarrow>
   (sid option, 'l, ('s, 'h, 'c, 'f, 'e, 'x) service) tcm" where
  "make_stat E k copyMe m w n =
     (case k of
        KSeries \<Rightarrow> make_series m w n copyMe
      | KHist \<Rightarrow> createHistogramLocked E m w n
      | KCounter \<Rightarrow> make_counter m w n)"

text \<open>
  \<open>getTimeseriesLocked\<close>, \<open>getHistogramLocked\<close>, \<open>getHistogramLockedPtr\<close> and \<open>getCounterLocked\<close>, and the lookups of their
  \<open>Safe\<close> variants: the entry for a name, made if need be.
\<close>

definition get_entry ::
  "('s, 'h, 'l, 'c, 'p, 'r) tenv \<Rightarrow> nat \<Rightarrow> alloc \<Rightarrow> kind \<Rightarrow> 's option \<Rightarrow> name \<Rightarrow>
   (entry option, 'l, ('s, 'h, 'c, 'f, 'e, 'x) service) tcm" where
  "get_entry E t w k copyMe n =
     bindX (getThreadStats E t w) (\<lambda>m. tryInsertLocked t m k n (make_stat E k copyMe m w n))"

text \<open>What a caller does with the raw pointer.\<close>

definition on_raw ::
  "entry option \<Rightarrow> ('l tlpayload \<Rightarrow> 'l tlpayload) \<Rightarrow> (unit, 'l, 'g) tcm" where
  "on_raw r f = (case r of None \<Rightarrow> (\<lambda>s. (Inl NullPointer, s)) | Some e \<Rightarrow> registry (update_stat (fst e) f))"

fun on_series :: "(tlts \<Rightarrow> tlts) \<Rightarrow> 'l tlpayload \<Rightarrow> 'l tlpayload" where
  "on_series f (Series p) = Series (f p)"
| "on_series f p = p"

fun on_hist :: "('l tlhist \<Rightarrow> 'l tlhist) \<Rightarrow> 'l tlpayload \<Rightarrow> 'l tlpayload" where
  "on_hist f (Hist p) = Hist (f p)"
| "on_hist f p = p"

fun on_counter :: "(int64 \<Rightarrow> int64) \<Rightarrow> 'l tlpayload \<Rightarrow> 'l tlpayload" where
  "on_counter f (Ctr p) = Ctr (f p)"
| "on_counter f p = p"

section \<open>Operations\<close>

definition set_type :: "nat \<Rightarrow> sid \<Rightarrow> export_type \<Rightarrow> bool \<Rightarrow> ('l, 'g) tcs \<Rightarrow> ('l, 'g) tcs" where
  "set_type t i ty v =
     mod_map t (mod_entries KSeries (map (\<lambda>e. if fst e = i then (i, (snd e)(ty := v)) else e)))"

definition tm_addStatValue ::
  "('s, 'h, 'l, 'c, 'p, 'r) tenv \<Rightarrow> nat \<Rightarrow> alloc \<Rightarrow> name \<Rightarrow> bool \<Rightarrow> int64 \<Rightarrow>
   (unit, 'l, ('s, 'h, 'c, 'f, 'e, 'x) service) tcm" where
  "tm_addStatValue E t w n ok value =
     bindX (get_entry E t w KSeries None n) (\<lambda>r. on_raw r (on_series (tlt_addValue ok value)))"

definition tm_addStatValueAggregated ::
  "('s, 'h, 'l, 'c, 'p, 'r) tenv \<Rightarrow> nat \<Rightarrow> alloc \<Rightarrow> name \<Rightarrow> bool \<Rightarrow> int64 \<Rightarrow> int64 \<Rightarrow>
   (unit, 'l, ('s, 'h, 'c, 'f, 'e, 'x) service) tcm" where
  "tm_addStatValueAggregated E t w n ok sm numSamples =
     bindX (get_entry E t w KSeries None n) (\<lambda>r. on_raw r (on_series (tlt_addValueAggregated ok sm numSamples)))"

text \<open>\<open>getTimeseriesLocked\<close> with an export type: the service is asked once for each type.\<close>

definition export_entry ::
  "('s, 'h, 'l, 'c, 'p, 'r) tenv \<Rightarrow> nat \<Rightarrow> name \<Rightarrow> export_type \<Rightarrow> entry option \<Rightarrow>
   (unit, 'l, ('s, 'h, 'c, 'f, 'e, 'x) service) tcm" where
  "export_entry E t n ty r =
     (case r of
        None \<Rightarrow> (\<lambda>s. (Inl NullPointer, s))
      | Some e \<Rightarrow>
          if snd e ty then retX ()
          else bindX (on_service (addStatExportType (svc_params E) n ty None True))
                 (\<lambda>_ s. (Inr (), set_type t (fst e) ty True s)))"

definition tm_addStatValueType ::
  "('s, 'h, 'l, 'c, 'p, 'r) tenv \<Rightarrow> nat \<Rightarrow> alloc \<Rightarrow> name \<Rightarrow> bool \<Rightarrow> int64 \<Rightarrow> export_type \<Rightarrow>
   (unit, 'l, ('s, 'h, 'c, 'f, 'e, 'x) service) tcm" where
  "tm_addStatValueType E t w n ok value ty =
     bindX (get_entry E t w KSeries None n) (\<lambda>r.
       bindX (export_entry E t n ty r) (\<lambda>_. on_raw r (on_series (tlt_addValue ok value))))"

definition tm_clearStat ::
  "('s, 'h, 'l, 'c, 'p, 'r) tenv \<Rightarrow> nat \<Rightarrow> alloc \<Rightarrow> name \<Rightarrow> export_type \<Rightarrow>
   (unit, 'l, ('s, 'h, 'c, 'f, 'e, 'x) service) tcm" where
  "tm_clearStat E t w n ty =
     bindX (getThreadStats E t w) (\<lambda>m.
       bindX (find_named m KSeries n) (\<lambda>r.
         bindX (\<lambda>s. (Inr (), case r of None \<Rightarrow> s | Some e \<Rightarrow> set_type t (fst e) ty False s))
           (\<lambda>_. on_service (addStatExportType (svc_params E) n ty None True))))"

definition tm_addHistogramValue ::
  "('s, 'h, 'l, 'c, 'p, 'r) tenv \<Rightarrow> nat \<Rightarrow> alloc \<Rightarrow> name \<Rightarrow> int64 \<Rightarrow>
   (unit, 'l, ('s, 'h, 'c, 'f, 'e, 'x) service) tcm" where
  "tm_addHistogramValue E t w n value =
     bindX (get_entry E t w KHist None n) (\<lambda>r.
       case r of None \<Rightarrow> retX () | Some e \<Rightarrow> on_raw r (on_hist (tlh_addValue (local_hist_ops E) value)))"

definition tm_incrementCounter ::
  "('s, 'h, 'l, 'c, 'p, 'r) tenv \<Rightarrow> nat \<Rightarrow> alloc \<Rightarrow> name \<Rightarrow> int64 \<Rightarrow>
   (unit, 'l, ('s, 'h, 'c, 'f, 'e, 'x) service) tcm" where
  "tm_incrementCounter E t w n amount =
     bindX (get_entry E t w KCounter None n) (\<lambda>r. on_raw r (on_counter (incrementValue amount)))"

section \<open>Shared ownership\<close>

text \<open>How many shared pointers there are to a stat.\<close>

definition entry_count :: "sid \<Rightarrow> tlsm \<Rightarrow> nat" where
  "entry_count i m = (\<Sum>k\<leftarrow>[KSeries, KHist, KCounter]. length (filter (\<lambda>e. fst e = i) (named m k)))"

definition use_count :: "('l, 'g) tcs \<Rightarrow> sid \<Rightarrow> nat" where
  "use_count s i =
     length (filter (\<lambda>h. snd h = i) (handles s)) + (\<Sum>x\<leftarrow>tmaps s. entry_count i (snd x))"

text \<open>After a pointer to \<open>i\<close> has gone.\<close>

definition sp_release ::
  "('s, 'h, 'l, 'c, 'p, 'r) tenv \<Rightarrow> sid \<Rightarrow> (unit, 'l, ('s, 'h, 'c, 'f, 'e, 'x) service) tcm" where
  "sp_release E i s =
     (if use_count s i = 0 then registry (destroy_stat (tl_aggregate E) i) s else (Inr (), s))"

fun sp_release_all ::
  "('s, 'h, 'l, 'c, 'p, 'r) tenv \<Rightarrow> sid list \<Rightarrow> (unit, 'l, ('s, 'h, 'c, 'f, 'e, 'x) service) tcm" where
  "sp_release_all E [] = retX ()"
| "sp_release_all E (i # is) = bindX (sp_release E i) (\<lambda>_. sp_release_all E is)"

definition clearTimeseriesSafe ::
  "('s, 'h, 'l, 'c, 'p, 'r) tenv \<Rightarrow> nat \<Rightarrow> alloc \<Rightarrow> name \<Rightarrow>
   (unit, 'l, ('s, 'h, 'c, 'f, 'e, 'x) service) tcm" where
  "clearTimeseriesSafe E t w n =
     bindX (getThreadStats E t w) (\<lambda>m.
       bindX (find_named m KSeries n) (\<lambda>r.
         case r of
           None \<Rightarrow> retX ()
         | Some e \<Rightarrow>
             bindX (\<lambda>s. (Inr (), mod_map t (mod_entries KSeries (filter (\<lambda>x. fst x \<noteq> fst e))) s))
               (\<lambda>_. sp_release E (fst e))))"

definition clear_map ::
  "('s, 'h, 'l, 'c, 'p, 'r) tenv \<Rightarrow> nat \<Rightarrow> kind \<Rightarrow> (unit, 'l, ('s, 'h, 'c, 'f, 'e, 'x) service) tcm" where
  "clear_map E t k s =
     (case map_of (tmaps s) t of
        None \<Rightarrow> (Inr (), s)
      | Some m \<Rightarrow> sp_release_all E (map fst (named m k)) (mod_map t (mod_entries k (\<lambda>_. [])) s))"

definition tm_resetAllData ::
  "('s, 'h, 'l, 'c, 'p, 'r) tenv \<Rightarrow> nat \<Rightarrow> (unit, 'l, ('s, 'h, 'c, 'f, 'e, 'x) service) tcm" where
  "tm_resetAllData E t =
     bindX (clear_map E t KCounter) (\<lambda>_. bindX (clear_map E t KHist) (\<lambda>_. clear_map E t KSeries))"

text \<open>The destructor: the maps, last member first, and then the container.\<close>

definition tm_destroy ::
  "('s, 'h, 'l, 'c, 'p, 'r) tenv \<Rightarrow> nat \<Rightarrow> (unit, 'l, ('s, 'h, 'c, 'f, 'e, 'x) service) tcm" where
  "tm_destroy E t =
     bindX (tm_resetAllData E t) (\<lambda>_ s.
       case map_of (tmaps s) t of
         None \<Rightarrow> (Inr (), s)
       | Some m \<Rightarrow>
           bindX (registry (destroy_container (tm_link m)))
             (\<lambda>_ s. (Inr (), s\<lparr>tmaps := filter (\<lambda>x. fst x \<noteq> t) (tmaps s)\<rparr>)) s)"

end
