(* ===== verification/TLMapInv.thy ===== *)
theory TLMapInv
  imports TLMap
begin

text \<open>
  The operations of the theory \<open>TLMap\<close> under an invariant: what each call into the registry does to the shape of the
  heap, that is to the link, name and kind of every stat, and to the set of live containers.
\<close>

section \<open>Live containers\<close>

definition alive :: "('p, 'g) heap \<Rightarrow> addr \<Rightarrow> bool" where
  "alive h a \<longleftrightarrow> (\<exists>l. links h a = Some l \<and> container l)"

lemma insert_pending_container: "insert_pending ps l = Inr l' \<Longrightarrow> container l' = container l"
  by (induction ps arbitrary: l) (auto split: if_splits)

lemma link_lock_container: "link_lock l = Inr l' \<Longrightarrow> container l' = container l"
  by (auto simp: link_lock_def completePendingLink_def dest!: insert_pending_container split: if_splits)

lemma alive_put: "links h a = Some l \<Longrightarrow> container l' = container l \<Longrightarrow> alive (put_link a l' h) = alive h"
  by (auto simp: alive_def fun_eq_iff)

lemma alive_simps [simp]:
  "alive (put_stat s x h) = alive h" "alive (h\<lparr>globals := g\<rparr>) = alive h" "alive (h\<lparr>stats := st\<rparr>) = alive h"
  by (auto simp: alive_def fun_eq_iff)

lemma set_linked_alive: "set_linked b s h = Inr h' \<Longrightarrow> alive h' = alive h"
  by (auto simp: set_linked_def bindE_Inr_iff)

lemma get_link_Inr: "get_link a h = Inr l \<longleftrightarrow> links h a = Some l"
  by (auto simp: get_link_def split: option.splits)

lemma link_alive: "link got s h = Inr h' \<Longrightarrow> alive h' = alive h"
  by (auto simp: link_def bindE_Inr_iff get_link_Inr Let_def push_pending_def register_stat_def
      split: if_splits dest!: set_linked_alive link_lock_container
      intro!: alive_put[THEN trans])

lemma agg_stat_alive: "agg_stat agg s h = Inr h' \<Longrightarrow> alive h' = alive h"
  by (auto simp: agg_stat_def bindE_Inr_iff case_prod_beta Let_def)

lemma unlink_alive: "unlink agg s h = Inr h' \<Longrightarrow> alive h' = alive h"
  by (auto simp: unlink_def bindE_Inr_iff get_link_Inr Let_def unregister_stat_def
      split: if_splits dest!: set_linked_alive link_lock_container agg_stat_alive
      simp: alive_put)

lemma new_stat_alive: "new_stat got s a n p h = Inr h' \<Longrightarrow> alive h' = alive h"
  by (auto simp: new_stat_def incRef_def bindE_Inr_iff get_link_Inr alive_put dest!: link_alive)

lemma destroy_stat_alive:
  assumes wf: "heap_wf h" and v: "view h s = Some (a, b, n, p)" and d: "destroy_stat agg s h = Inr h'"
  shows "alive h' = alive h"
proof -
  obtain h1 u q g where h1: "unlink agg s h = Inr h1" "heap_wf h1" "view h1 = (view h)(s \<mapsto> (a, False, n, q))"
    using unlink_view[OF wf v] by blast
  then have "view h1 s = Some (a, False, n, q)" by simp
  from view_Some[OF this] obtain x where x: "stats h1 s = Some x" "lp_get (link_ptr x) = a" by auto
  from wf_stat_link[OF h1(2) x(1)] x(2) obtain l where l: "links h1 a = Some l" by metis
  have "s \<in> refs h1 a" using x by (auto simp: refs_def)
  then have "0 < card (refs h1 a)" using finite_refs[OF h1(2), of a] by (auto simp: card_gt_0_iff)
  with wf_linkD(4)[OF h1(2) l] have c: "container l \<Longrightarrow> refCount l \<noteq> 1" by simp
  obtain h2 where h2: "decRef a h1 = Inr h2" "h' = h2\<lparr>stats := (stats h2)(s := None)\<rparr>"
    using d h1(1) x by (auto simp: destroy_stat_def bindE_Inr_iff)
  then have "alive h' = alive h1"
    using c decRef_simps[OF l] l by (auto simp: alive_def fun_eq_iff split: if_splits)
  with unlink_alive[OF h1(1)] show ?thesis by simp
qed

lemma agg_all_alive: "agg_all agg ss h = Inr h' \<Longrightarrow> alive h' = alive h"
  by (induction ss arbitrary: h) (auto simp: bindE_Inr_iff dest: agg_stat_alive)

lemma aggregate_alive: "aggregate agg a h = Inr (k, h') \<Longrightarrow> alive h' = alive h"
  by (auto simp: aggregate_def bindE_Inr_iff get_link_Inr alive_put dest!: agg_all_alive link_lock_container split: if_splits)

lemma new_container_alive: "alive (new_container u a h) b \<longleftrightarrow> b = a \<or> alive h b"
  by (auto simp: new_container_def alive_def)

lemma destroy_container_alive:
  "destroy_container a h = Inr h' \<Longrightarrow> alive h' b \<longleftrightarrow> b \<noteq> a \<and> alive h b"
  by (auto simp: destroy_container_def bindE_Inr_iff get_link_Inr alive_def decRef_def split: if_splits)

section \<open>The shape of the heap\<close>

definition shape :: "('l tlpayload, 'g) heap \<Rightarrow> sid \<rightharpoonup> addr \<times> bool \<times> name \<times> kind" where
  "shape h i = map_option (\<lambda>(a, b, n, p). (a, b, n, kind_of p)) (view h i)"

lemma tl_aggregate_kind: "tl_aggregate E u n p g = (q, g') \<Longrightarrow> kind_of q = kind_of p"
  by (cases p) (auto simp: Let_def split: prod.splits)

lemma agg_view_shape:
  "agg_view (tl_aggregate E) u ss (v, g) = (v', g') \<Longrightarrow>
   map_option (\<lambda>(a, b, n, p). (a, b, n, kind_of p)) (v' i) = map_option (\<lambda>(a, b, n, p). (a, b, n, kind_of p)) (v i)"
proof (induction ss arbitrary: v g)
  case (Cons s ss)
  show ?case
  proof (cases "v s")
    case (Some x)
    obtain a b n p where x: "x = (a, b, n, p)" by (cases x)
    obtain q g1 where q: "tl_aggregate E u n p g = (q, g1)" by (cases "tl_aggregate E u n p g")
    from Cons.prems Some x q have "agg_view (tl_aggregate E) u ss (v(s \<mapsto> (a, b, n, q)), g1) = (v', g')" by simp
    from Cons.IH[OF this] Some x tl_aggregate_kind[OF q] show ?thesis by (auto split: if_splits)
  qed (use Cons in simp)
qed simp

lemma shape_new:
  assumes "heap_wf h" "alive h a" "stats h s = None"
  obtains h' where "new_stat g s a n p h = Inr h'" "heap_wf h'" "shape h' = (shape h)(s \<mapsto> (a, True, n, kind_of p))"
    "alive h' = alive h" "globals h' = globals h"
proof -
  obtain l where l: "links h a = Some l" using assms(2) by (auto simp: alive_def)
  obtain h' where h: "new_stat g s a n p h = Inr h'" "heap_wf h'" "globals h' = globals h" "view h' = (view h)(s \<mapsto> (a, True, n, p))"
    using new_stat_view[OF assms(1) l assms(3)] by blast
  moreover have "shape h' = (shape h)(s \<mapsto> (a, True, n, kind_of p))" by (auto simp: shape_def h(4) fun_eq_iff)
  ultimately show thesis using that new_stat_alive[OF h(1)] by blast
qed

lemma shape_update:
  assumes "heap_wf h" "shape h s = Some z" "\<And>p. kind_of (f p) = kind_of p"
  obtains h' where "update_stat s f h = Inr h'" "heap_wf h'" "shape h' = shape h" "alive h' = alive h" "globals h' = globals h"
proof -
  obtain x where x: "stats h s = Some x" using assms(2) by (cases "stats h s") (auto simp: shape_def view_def)
  let ?h = "put_stat s (x\<lparr>payload := f (payload x)\<rparr>) h"
  have "update_stat s f h = Inr ?h" using x by (simp add: update_stat_def)
  moreover have "heap_wf ?h" using x by (intro heap_wf_rename[OF assms(1)]) simp_all
  moreover have "shape ?h = shape h" using x by (auto simp: shape_def assms(3) fun_eq_iff)
  ultimately show thesis using that by simp
qed

lemma shape_destroy:
  assumes "heap_wf h" "shape h s = Some z"
  obtains h' where "destroy_stat (tl_aggregate E) s h = Inr h'" "heap_wf h'" "shape h' = (shape h)(s := None)" "alive h' = alive h"
proof -
  obtain a b n p where v: "view h s = Some (a, b, n, p)" using assms(2) by (cases "view h s") (auto simp: shape_def)
  obtain h' where h: "destroy_stat (tl_aggregate E) s h = Inr h'" "heap_wf h'" "view h' = (view h)(s := None)"
    using destroy_stat_view[OF assms(1) v] by blast
  moreover have "shape h' = (shape h)(s := None)" by (auto simp: shape_def h(3) fun_eq_iff)
  ultimately show thesis using that destroy_stat_alive[OF assms(1) v h(1)] by blast
qed

lemma shape_aggregate:
  assumes "heap_wf h" "alive h a"
  obtains h' k where "aggregate (tl_aggregate E) a h = Inr (k, h')" "heap_wf h'" "shape h' = shape h" "alive h' = alive h"
proof -
  obtain l where l: "links h a = Some l" "container l" using assms(2) by (auto simp: alive_def)
  obtain h' and ss :: "sid list" where h: "aggregate (tl_aggregate E) a h = Inr (length ss, h')" "heap_wf h'"
    "(view h', globals h') = agg_view (tl_aggregate E) (updateGlobalStatsOnRead l) ss (view h, globals h)"
    by (rule aggregate_view[OF assms(1) l, where agg = "tl_aggregate E"])
  have "shape h' = shape h" using agg_view_shape[OF h(3)[symmetric]] by (auto simp: shape_def fun_eq_iff)
  with h that aggregate_alive[OF h(1)] show thesis by blast
qed

lemma shape_container:
  assumes "heap_wf h" "links h a = None" "\<not> bit a 0"
  shows "heap_wf (new_container u a h)" "shape (new_container u a h) = shape h" "globals (new_container u a h) = globals h"
  using new_container_safe[OF assms] by (auto simp: shape_def view_def fun_eq_iff new_container_def)

lemma shape_destroy_container:
  assumes "heap_wf h" "alive h a"
  obtains h' where "destroy_container a h = Inr h'" "heap_wf h'" "shape h' = shape h" "globals h' = globals h"
    "\<And>b. alive h' b \<longleftrightarrow> b \<noteq> a \<and> alive h b"
proof -
  obtain l where l: "links h a = Some l" "container l" using assms(2) by (auto simp: alive_def)
  obtain h' where h: "destroy_container a h = Inr h'" "heap_wf h'" "stats h' = stats h" "globals h' = globals h"
    using destroy_container_safe[OF assms(1) l] by blast
  moreover have "shape h' = shape h" using h(3) by (simp add: shape_def view_def fun_eq_iff)
  ultimately show thesis using that destroy_container_alive[OF h(1)] by blast
qed

section \<open>Who holds what\<close>

definition name_at :: "(sid \<rightharpoonup> addr \<times> bool \<times> name \<times> kind) \<Rightarrow> sid \<Rightarrow> name" where
  "name_at S i = (case S i of None \<Rightarrow> [] | Some (a, b, n, k) \<Rightarrow> n)"

definition entries_ok :: "(sid \<rightharpoonup> addr \<times> bool \<times> name \<times> kind) \<Rightarrow> addr \<Rightarrow> kind \<Rightarrow> entry list \<Rightarrow> bool" where
  "entries_ok S a k es \<longleftrightarrow>
     (\<forall>e\<in>set es. S (fst e) = Some (a, True, name_at S (fst e), k)) \<and> distinct (map (\<lambda>e. name_at S (fst e)) es)"

definition held_by :: "(nat \<times> tlsm) list \<Rightarrow> (handle \<times> sid) list \<Rightarrow> sid \<Rightarrow> bool" where
  "held_by tm hs i \<longleftrightarrow> i \<in> snd ` set hs \<or> (\<exists>x\<in>set tm. \<exists>k. i \<in> fst ` set (named (snd x) k))"

text \<open>
  \<open>X\<close> are the stats that a call under way still owes a holder for or has just taken one from.
\<close>

definition tc_ok ::
  "(sid \<rightharpoonup> addr \<times> bool \<times> name \<times> kind) \<Rightarrow> (addr \<Rightarrow> bool) \<Rightarrow> (nat \<times> tlsm) list \<Rightarrow> (handle \<times> sid) list \<Rightarrow> sid set \<Rightarrow> bool" where
  "tc_ok S al tm hs X \<longleftrightarrow>
     distinct (map fst tm) \<and> distinct (map (\<lambda>x. tm_link (snd x)) tm) \<and> distinct (map fst hs) \<and>
     (\<forall>x\<in>set tm. al (tm_link (snd x)) \<and> (\<forall>k. entries_ok S (tm_link (snd x)) k (named (snd x) k))) \<and>
     (\<forall>w k n t i. ((w, k, n, t), i) \<in> set hs \<longrightarrow> (\<exists>a. S i = Some (a, True, n, k))) \<and>
     (\<forall>i a b n k. S i = Some (a, b, n, k) \<longrightarrow> b \<and> (i \<in> X \<or> held_by tm hs i))"

lemma use_count_0: "use_count s i = 0 \<longleftrightarrow> \<not> held_by (tmaps s) (handles s) i"
proof -
  have "entry_count i m = 0 \<longleftrightarrow> (\<forall>k. i \<notin> fst ` set (named m k))" for m
  proof -
    have "entry_count i m = 0 \<longleftrightarrow> (\<forall>k\<in>{KSeries, KHist, KCounter}. i \<notin> fst ` set (named m k))"
      by (auto simp: entry_count_def filter_empty_conv)
    also have "{KSeries, KHist, KCounter} = UNIV" using kind.exhaust by blast
    finally show ?thesis by simp
  qed
  then show ?thesis by (auto simp: use_count_def held_by_def filter_empty_conv sum_list_eq_0_iff)
qed

lemma tc_okD:
  assumes "tc_ok S al tm hs X"
  shows "distinct (map fst tm)" "distinct (map (\<lambda>x. tm_link (snd x)) tm)"
    "x \<in> set tm \<Longrightarrow> al (tm_link (snd x))" "x \<in> set tm \<Longrightarrow> entries_ok S (tm_link (snd x)) k (named (snd x) k)"
    "((w, k, n, t), i) \<in> set hs \<Longrightarrow> \<exists>a. S i = Some (a, True, n, k)"
    "S i = Some (a, b, n, k) \<Longrightarrow> b" "S i = Some (a, b, n, k) \<Longrightarrow> i \<in> X \<or> held_by tm hs i" "distinct (map fst hs)"
  using assms unfolding tc_ok_def by fast+

lemma tc_okI:
  assumes "distinct (map fst tm)" "distinct (map (\<lambda>x. tm_link (snd x)) tm)"
    "\<And>x. x \<in> set tm \<Longrightarrow> al (tm_link (snd x))"
    "\<And>x k. x \<in> set tm \<Longrightarrow> entries_ok S (tm_link (snd x)) k (named (snd x) k)"
    "\<And>w k n t i. ((w, k, n, t), i) \<in> set hs \<Longrightarrow> \<exists>a. S i = Some (a, True, n, k)"
    "\<And>i a b n k. S i = Some (a, b, n, k) \<Longrightarrow> b \<and> (i \<in> X \<or> held_by tm hs i)" "distinct (map fst hs)"
  shows "tc_ok S al tm hs X"
  using assms unfolding tc_ok_def by blast

lemma entries_okD:
  assumes "entries_ok S a k es"
  shows "e \<in> set es \<Longrightarrow> S (fst e) = Some (a, True, name_at S (fst e), k)"
    "distinct (map (\<lambda>e. name_at S (fst e)) es)" "distinct (map fst es)"
proof -
  show "e \<in> set es \<Longrightarrow> S (fst e) = Some (a, True, name_at S (fst e), k)" using assms unfolding entries_ok_def by blast
  show d: "distinct (map (\<lambda>e. name_at S (fst e)) es)" using assms unfolding entries_ok_def by blast
  then have "distinct (map (name_at S) (map fst es))" by (simp add: comp_def)
  then show "distinct (map fst es)" unfolding distinct_map by blast
qed

lemma entries_ok_cong:
  "(\<And>e. e \<in> set es \<Longrightarrow> S' (fst e) = S (fst e)) \<Longrightarrow> entries_ok S' a k es = entries_ok S a k es"
  unfolding entries_ok_def name_at_def by (intro conj_cong ball_cong arg_cong[where f = distinct] map_cong) auto

lemma held_dom: "tc_ok S al tm hs X \<Longrightarrow> held_by tm hs i \<Longrightarrow> S i \<noteq> None"
  unfolding held_by_def by (fastforce dest: tc_okD(4,5) entries_okD(1))

lemma tc_ok_new:
  assumes "tc_ok S al tm hs {}" "S i = None"
  shows "tc_ok (S(i \<mapsto> (a, True, n, k))) al tm hs {i}"
proof -
  let ?S = "S(i \<mapsto> (a, True, n, k))"
  have "\<not> held_by tm hs i" using held_dom[OF assms(1)] assms(2) by blast
  then have ne: "x \<in> set tm \<Longrightarrow> e \<in> set (named (snd x) kk) \<Longrightarrow> fst e \<noteq> i" "y \<in> set hs \<Longrightarrow> snd y \<noteq> i" for x e kk y
    by (auto simp: held_by_def)
  have "x \<in> set tm \<Longrightarrow> entries_ok ?S (tm_link (snd x)) kk (named (snd x) kk)" for x kk
    using tc_okD(4)[OF assms(1), of x kk] entries_ok_cong[of "named (snd x) kk" ?S S] ne(1)[of x] by simp
  moreover have "((w, kk, m, t), j) \<in> set hs \<Longrightarrow> \<exists>a. ?S j = Some (a, True, m, kk)" for w kk m t j
    using tc_okD(5)[OF assms(1), of w kk m t j] ne(2)[of "((w, kk, m, t), j)"] by simp
  moreover have "?S j = Some (aa, b, m, kk) \<Longrightarrow> b \<and> (j \<in> {i} \<or> held_by tm hs j)" for j aa b m kk
    using tc_okD(6,7)[OF assms(1), of j] by (auto split: if_splits)
  ultimately show ?thesis using tc_okD(1-3,8)[OF assms(1)] unfolding tc_ok_def by blast
qed


text \<open>Replacing the entries of kind \<open>k\<close> of one thread.\<close>

definition upd_entries :: "nat \<Rightarrow> kind \<Rightarrow> (entry list \<Rightarrow> entry list) \<Rightarrow> (nat \<times> tlsm) list \<Rightarrow> (nat \<times> tlsm) list" where
  "upd_entries t k f tm = map (\<lambda>(r, m). (r, if r = t then mod_entries k f m else m)) tm"

lemma mod_map_simps [simp]:
  "hp (mod_map t (mod_entries k f) s) = hp s" "handles (mod_map t (mod_entries k f) s) = handles s"
  "tmaps (mod_map t (mod_entries k f) s) = upd_entries t k f (tmaps s)"
  "once_done (mod_map t (mod_entries k f) s) = once_done s"
  by (simp_all add: mod_map_def upd_entries_def)

lemma upd_entries_simps [simp]:
  "map fst (upd_entries t k f tm) = map fst tm" "map (\<lambda>x. tm_link (snd x)) (upd_entries t k f tm) = map (\<lambda>x. tm_link (snd x)) tm"
  by (auto simp: upd_entries_def mod_entries_def)

lemma upd_entries_mem:
  "x \<in> set (upd_entries t k f tm) \<longleftrightarrow> (\<exists>y\<in>set tm. x = (fst y, if fst y = t then mod_entries k f (snd y) else snd y))"
  by (simp add: upd_entries_def image_iff case_prod_beta)

lemma mod_entries_simps [simp]:
  "tm_link (mod_entries k f m) = tm_link m" "named (mod_entries k f m) j = (if j = k then f (named m k) else named m j)"
  by (auto simp: mod_entries_def)

lemma map_of_upd_entries: "map_of (upd_entries t k f tm) t = map_option (mod_entries k f) (map_of tm t)"
  by (induction tm) (auto simp: upd_entries_def)

lemma tc_ok_entries:
  assumes ok: "tc_ok S al tm hs X" and m: "map_of tm t = Some m"
    and e: "entries_ok S (tm_link m) k (f (named m k))"
    and Y: "\<And>i. i \<in> fst ` set (named m k) \<or> i \<in> X \<Longrightarrow> i \<in> Y \<or> i \<in> fst ` set (f (named m k)) \<or> S i = None"
  shows "tc_ok S al (upd_entries t k f tm) hs Y"
proof -
  have u: "x \<in> set tm \<Longrightarrow> fst x = t \<Longrightarrow> snd x = m" for x
    using m map_of_eq_Some_iff[OF tc_okD(1)[OF ok], of t m] by (metis map_of_is_SomeI prod.collapse tc_okD(1)[OF ok] option.inject)
  have mm: "(t, m) \<in> set tm" using m by (rule map_of_SomeD)
  have "x \<in> set (upd_entries t k f tm) \<Longrightarrow>
      al (tm_link (snd x)) \<and> (\<forall>j. entries_ok S (tm_link (snd x)) j (named (snd x) j))" for x
    using u e tc_okD(3,4)[OF ok] by (auto simp: upd_entries_mem)
  moreover have "i \<in> Y \<or> held_by (upd_entries t k f tm) hs i" if i: "S i = Some (a, b, n, kk)" for i a b n kk
  proof (rule ccontr)
    assume c: "\<not> (i \<in> Y \<or> held_by (upd_entries t k f tm) hs i)"
    have t: "(t, mod_entries k f m) \<in> set (upd_entries t k f tm)" using mm by (force simp: upd_entries_mem)
    with c have nf: "i \<notin> fst ` set (f (named m k))" unfolding held_by_def by force
    with Y[of i] c i have nk: "i \<notin> X" "i \<notin> fst ` set (named m k)" by auto
    from tc_okD(7)[OF ok i] nk(1) have "held_by tm hs i" by blast
    with c obtain x j where x: "x \<in> set tm" "i \<in> fst ` set (named (snd x) j)" unfolding held_by_def by blast
    let ?y = "(fst x, if fst x = t then mod_entries k f (snd x) else snd x)"
    have "?y \<in> set (upd_entries t k f tm)" using x(1) by (force simp: upd_entries_mem)
    moreover have "i \<in> fst ` set (named (snd ?y) j)"
    proof (cases "fst x = t")
      case True
      with u[OF x(1)] x(2) nk(2) have "snd x = m" "j \<noteq> k" by auto
      with x(2) show ?thesis by simp
    qed (use x(2) in simp)
    ultimately show False using c unfolding held_by_def by blast
  qed
  ultimately show ?thesis using tc_okD(1,2,5,6,8)[OF ok] unfolding tc_ok_def by (auto simp: tc_okD(1,2)[OF ok])
qed

lemma tc_ok_insert:
  assumes ok: "tc_ok S al tm hs {i}" and m: "map_of tm t = Some m" and i: "S i = Some (tm_link m, True, n, k)"
    and fresh: "\<forall>e\<in>set (named m k). name_at S (fst e) \<noteq> n"
  shows "tc_ok S al (upd_entries t k (\<lambda>es. (i, ty) # es) tm) hs {}"
proof (rule tc_ok_entries[OF ok m])
  have "entries_ok S (tm_link m) k (named m k)" using tc_okD(4)[OF ok map_of_SomeD[OF m]] by simp
  then show "entries_ok S (tm_link m) k ((i, ty) # named m k)"
    using fresh i by (auto simp: entries_ok_def name_at_def image_iff)
qed auto

lemma tc_ok_set_type:
  assumes ok: "tc_ok S al tm hs X" and m: "map_of tm t = Some m" and f: "\<And>e. fst (g e) = fst e"
  shows "tc_ok S al (upd_entries t k (map g) tm) hs X"
proof (rule tc_ok_entries[OF ok m])
  have "entries_ok S (tm_link m) k (named m k)" using tc_okD(4)[OF ok map_of_SomeD[OF m]] by simp
  then show "entries_ok S (tm_link m) k (map g (named m k))" by (simp add: entries_ok_def f comp_def)
  show "i \<in> fst ` set (named m k) \<or> i \<in> X \<Longrightarrow> i \<in> X \<or> i \<in> fst ` set (map g (named m k)) \<or> S i = None" for i
    by (force simp: f image_iff)
qed

lemma tc_ok_remove:
  assumes ok: "tc_ok S al tm hs X" and m: "map_of tm t = Some m"
  shows "tc_ok S al (upd_entries t k (filter P) tm) hs (X \<union> fst ` {e \<in> set (named m k). \<not> P e})"
proof (rule tc_ok_entries[OF ok m])
  have "entries_ok S (tm_link m) k (named m k)" using tc_okD(4)[OF ok map_of_SomeD[OF m]] by simp
  then show "entries_ok S (tm_link m) k (filter P (named m k))" by (auto simp: entries_ok_def distinct_map_filter)
qed force

lemma tc_ok_release:
  assumes ok: "tc_ok S al tm hs (insert i X)" and nh: "\<not> held_by tm hs i"
  shows "tc_ok (S(i := None)) al tm hs X"
proof -
  have ne: "x \<in> set tm \<Longrightarrow> e \<in> set (named (snd x) kk) \<Longrightarrow> fst e \<noteq> i" "y \<in> set hs \<Longrightarrow> snd y \<noteq> i" for x e kk y
    using nh by (auto simp: held_by_def)
  have "x \<in> set tm \<Longrightarrow> entries_ok (S(i := None)) (tm_link (snd x)) kk (named (snd x) kk)" for x kk
    using tc_okD(4)[OF ok, of x kk] entries_ok_cong[of "named (snd x) kk" "S(i := None)" S] ne(1)[of x] by simp
  moreover have "((w, kk, m, t), j) \<in> set hs \<Longrightarrow> \<exists>a. (S(i := None)) j = Some (a, True, m, kk)" for w kk m t j
    using tc_okD(5)[OF ok, of w kk m t j] ne(2)[of "((w, kk, m, t), j)"] by simp
  moreover have "(S(i := None)) j = Some (aa, b, m, kk) \<Longrightarrow> b \<and> (j \<in> X \<or> held_by tm hs j)" for j aa b m kk
    using tc_okD(6,7)[OF ok, of j] by (auto split: if_splits)
  ultimately show ?thesis using tc_okD(1-3,8)[OF ok] unfolding tc_ok_def by blast
qed

lemma tc_ok_weaken:
  assumes "tc_ok S al tm hs X" "\<And>i. i \<in> X \<Longrightarrow> S i = None \<or> i \<in> Y \<or> held_by tm hs i"
  shows "tc_ok S al tm hs Y"
proof -
  have "S i = Some (a, b, n, k) \<Longrightarrow> b \<and> (i \<in> Y \<or> held_by tm hs i)" for i a b n k
    using tc_okD(6,7)[OF assms(1), of i] assms(2)[of i] by auto
  then show ?thesis using tc_okD(1-5,8)[OF assms(1)] unfolding tc_ok_def by blast
qed

lemma tc_ok_handle:
  assumes "tc_ok S al tm hs X" "S i = Some (a, True, n, k)" "map_of hs (w, k, n, t) = None"
  shows "tc_ok S al tm (((w, k, n, t), i) # hs) X"
proof -
  have "held_by tm hs j \<Longrightarrow> held_by tm (((w, k, n, t), i) # hs) j" for j by (auto simp: held_by_def)
  then have "S j = Some (aa, b, m, kk) \<Longrightarrow> b \<and> (j \<in> X \<or> held_by tm (((w, k, n, t), i) # hs) j)" for j aa b m kk
    using tc_okD(6,7)[OF assms(1), of j aa b m kk] by blast
  moreover have "distinct (map fst (((w, k, n, t), i) # hs))"
    using tc_okD(8)[OF assms(1)] assms(3) by (simp add: map_of_eq_None_iff)
  ultimately show ?thesis using tc_okD(1-5)[OF assms(1)] assms(2) by (intro tc_okI) (assumption | blast | force)+
qed

lemma tc_ok_drop:
  assumes "tc_ok S al tm hs X"
  shows "tc_ok S al tm (filter P hs) (X \<union> snd ` {x \<in> set hs. \<not> P x})"
proof -
  have "held_by tm hs j \<Longrightarrow> j \<in> snd ` {x \<in> set hs. \<not> P x} \<or> held_by tm (filter P hs) j" for j
    by (auto simp: held_by_def image_iff)
  then have "S j = Some (aa, b, m, kk) \<Longrightarrow> b \<and> (j \<in> X \<union> snd ` {x \<in> set hs. \<not> P x} \<or> held_by tm (filter P hs) j)" for j aa b m kk
    using tc_okD(6,7)[OF assms, of j aa b m kk] by blast
  moreover have "distinct (map fst (filter P hs))" using tc_okD(8)[OF assms] by (simp add: distinct_map_filter)
  ultimately show ?thesis using tc_okD(1-5)[OF assms] by (intro tc_okI) (assumption | blast | force)+
qed

lemma tc_ok_thread:
  assumes ok: "tc_ok S al tm hs X" and "t \<notin> fst ` set tm" "\<not> al a"
  shows "tc_ok S (\<lambda>b. b = a \<or> al b) (tm @ [(t, \<lparr>tm_link = a, named = (\<lambda>_. [])\<rparr>)]) hs X"
proof -
  have "a \<notin> (\<lambda>x. tm_link (snd x)) ` set tm" using tc_okD(3)[OF ok] assms(3) by blast
  moreover have "held_by tm hs i \<Longrightarrow> held_by (tm @ [(t, \<lparr>tm_link = a, named = (\<lambda>_. [])\<rparr>)]) hs i" for i
    by (auto simp: held_by_def)
  ultimately show ?thesis
    using assms(2) tc_okD[OF ok] by (intro tc_okI) (fastforce simp: entries_ok_def)+
qed

lemma tc_ok_thread_gone:
  assumes ok: "tc_ok S al tm hs X" and m: "map_of tm t = Some m" "\<And>k. named m k = []"
    and al: "\<And>b. al' b \<longleftrightarrow> b \<noteq> tm_link m \<and> al b"
  shows "tc_ok S al' (filter (\<lambda>x. fst x \<noteq> t) tm) hs X"
proof -
  let ?tm = "filter (\<lambda>x. fst x \<noteq> t) tm"
  have mm: "(t, m) \<in> set tm" using m(1) by (rule map_of_SomeD)
  have u: "x \<in> set tm \<Longrightarrow> fst x = t \<Longrightarrow> snd x = m" for x
    using m(1) tc_okD(1)[OF ok] by (metis map_of_is_SomeI prod.collapse option.inject)
  have ln: "x \<in> set ?tm \<Longrightarrow> tm_link (snd x) \<noteq> tm_link m" for x
    using tc_okD(2)[OF ok] mm inj_onD[of "\<lambda>x. tm_link (snd x)" "set tm" x "(t, m)"] by (auto simp: distinct_map)
  have hb: "held_by tm hs i \<Longrightarrow> held_by ?tm hs i" for i
  proof -
    assume "held_by tm hs i"
    then consider "i \<in> snd ` set hs" | x k where "x \<in> set tm" "i \<in> fst ` set (named (snd x) k)" unfolding held_by_def by blast
    then show ?thesis
    proof cases
      case (2 x k)
      with u[of x] m(2)[of k] have "fst x \<noteq> t" by auto
      with 2 have "x \<in> set ?tm" by simp
      with 2 show ?thesis unfolding held_by_def by blast
    qed (simp add: held_by_def)
  qed
  show ?thesis
  proof (rule tc_okI)
    show "x \<in> set ?tm \<Longrightarrow> al' (tm_link (snd x))" for x using ln[of x] al tc_okD(3)[OF ok, of x] by simp
    show "S i = Some (a, b, n, k) \<Longrightarrow> b \<and> (i \<in> X \<or> held_by ?tm hs i)" for i a b n k
      using tc_okD(6,7)[OF ok, of i a b n k] hb[of i] by blast
  qed (use tc_okD(1,2,4,5,8)[OF ok] in \<open>simp_all add: distinct_map_filter\<close>)
qed

end
