(* ===== verification/TLMapOps.thy ===== *)
theory TLMapOps
  imports TLMapInv
begin

text \<open>
  Every operation of the theory \<open>TLMap\<close> ends without a crash, keeps the invariant, and keeps account of the flat
  counters: of the value in the service and what the threads still hold.
\<close>

section \<open>The books of the flat counters\<close>

fun tl_move :: "('s, 'h, 'l, 'c, 'p, 'r) tenv \<Rightarrow> 'l tlpayload \<Rightarrow> 'l tlpayload \<times> 'l tlpayload" where
  "tl_move E (Series p) = map_prod Series Series (tlt_move p)"
| "tl_move E (Hist p) = map_prod Hist Hist (tlh_move (local_hist_ops E) p)"
| "tl_move E (Ctr p) = map_prod Ctr Ctr (tlc_move p)"

text \<open>Assignment is defined between stats of the same kind only.\<close>

fun tl_assign :: "('s, 'h, 'l, 'c, 'p, 'r) tenv \<Rightarrow> 'l tlpayload \<Rightarrow> 'l tlpayload \<Rightarrow> 'l tlpayload \<times> 'l tlpayload" where
  "tl_assign E (Series p) (Series p') = map_prod Series Series (tlt_assign p p')"
| "tl_assign E (Hist p) (Hist p') = map_prod Hist Hist (tlh_assign (local_hist_ops E) p p')"
| "tl_assign E (Ctr p) (Ctr p') = map_prod Ctr Ctr (tlc_assign p p')"
| "tl_assign E p p' = (p', p)"

fun ctr_content :: "name \<Rightarrow> name \<Rightarrow> 'l tlpayload \<Rightarrow> int64" where
  "ctr_content k n (Ctr v) = counter_content k n v"
| "ctr_content k n p = 0"

fun ctr_clear :: "'l tlpayload \<Rightarrow> bool" where
  "ctr_clear (Ctr v) \<longleftrightarrow> v = 0"
| "ctr_clear p \<longleftrightarrow> True"

definition svc_good ::
  "('s, 'h, 'l, 'c, 'p, 'r) tenv \<Rightarrow> (regex \<Rightarrow> name \<Rightarrow> bool) \<Rightarrow> ('c \<Rightarrow> name set) \<Rightarrow> ('c \<Rightarrow> bool) \<Rightarrow>
   ('s, 'h, 'c, 'f, 'e, 'x) service \<Rightarrow> bool" where
  "svc_good E rx strings ok g \<longleftrightarrow>
     counters_good (cops (svc_params E)) rx strings ok (counters g) \<and> sdata_good (svc_params E) rx strings ok (exports g)"

lemma put_world_simps [simp]:
  "counters (put_series st g) = counters g" "counters (put_hists st' g) = counters g"
  "svc_good E rx strings ok (put_series st g) = svc_good E rx strings ok g"
  "svc_good E rx strings ok (put_hists st' g) = svc_good E rx strings ok g"
  by (simp_all add: put_series_def put_hists_def svc_good_def sdata_good_def)

lemma tl_aggregate_books:
  assumes "svc_good E rx strings ok g" "tl_aggregate E u n p g = (q, g')"
  shows "svc_good E rx strings ok g' \<and> ctr_clear q \<and>
    counter_value k (counters g') = counter_value k (counters g) + ctr_content k n p"
proof (cases p)
  case (Ctr v)
  obtain q1 c where a: "tlc_aggregate (cops (svc_params E)) u n v (counters g) = (q1, c)" by (metis prod.exhaust)
  have "counters_good (cops (svc_params E)) rx strings ok (counters g)" using assms(1) by (simp add: svc_good_def)
  from tlc.agg_law[OF this TrueI a] Ctr assms a show ?thesis by (auto simp: svc_good_def)
qed (use assms in \<open>auto split: prod.splits\<close>)

interpretation tcc: conserving "tl_aggregate E" "tl_move E" "tl_assign E" "ctr_content k" "\<lambda>g. counter_value k (counters g)"
  ctr_clear "\<lambda>p. True" "svc_good E rx strings ok"
  for E :: "('s, 'h, 'l, 'c, 'p, 'r) tenv" and k rx strings ok
proof
  show "svc_good E rx strings ok g \<Longrightarrow> True \<Longrightarrow> tl_aggregate E u n p g = (q, g') \<Longrightarrow>
    svc_good E rx strings ok g' \<and> True \<and> ctr_clear q \<and>
    counter_value k (counters g') = counter_value k (counters g) + ctr_content k n p" for g u n p q g'
    using tl_aggregate_books by blast
  show "tl_move E p = (q, r) \<Longrightarrow> ctr_clear p \<Longrightarrow> True \<Longrightarrow> ctr_clear q \<and> True \<and> ctr_clear r" for p q r
    by (cases p) (auto simp: tlc_move_def tlt_move_def tlh_move_def)
  show "tl_assign E p p' = (q, q') \<Longrightarrow> ctr_clear p \<Longrightarrow> ctr_clear p' \<Longrightarrow> True \<Longrightarrow> ctr_clear q \<and> True \<and> ctr_clear q'" for p p' q q'
    by (cases p; cases p') (auto simp: tlc_assign_def tlt_assign_def tlh_assign_def)
  show "ctr_clear p \<Longrightarrow> ctr_content k n p = 0" for p n by (cases p) (auto simp: counter_content_def)
qed

section \<open>The invariant\<close>

definition tc_inv ::
  "('s, 'h, 'l, 'c, 'p, 'r) tenv \<Rightarrow> (regex \<Rightarrow> name \<Rightarrow> bool) \<Rightarrow> ('c \<Rightarrow> name set) \<Rightarrow> ('c \<Rightarrow> bool) \<Rightarrow> sid set \<Rightarrow>
   ('l, ('s, 'h, 'c, 'f, 'e, 'x) service) tcs \<Rightarrow> bool" where
  "tc_inv E rx strings ok X s \<longleftrightarrow>
     heap_wf (hp s) \<and> tc_ok (shape (hp s)) (alive (hp s)) (tmaps s) (handles s) X \<and> svc_good E rx strings ok (globals (hp s))"

definition led :: "name \<Rightarrow> ('l, ('s, 'h, 'c, 'f, 'e, 'x) service) tcs \<Rightarrow> int64" where
  "led k s = ledger (ctr_content k) (\<lambda>g. counter_value k (counters g)) (view (hp s)) (globals (hp s))"

definition okX :: "('a, 'l, 'g) tcm \<Rightarrow> ('l, 'g) tcs \<Rightarrow> ('a \<Rightarrow> ('l, 'g) tcs \<Rightarrow> bool) \<Rightarrow> bool" where
  "okX m s Q \<longleftrightarrow> (case m s of (Inl e, s') \<Rightarrow> False | (Inr x, s') \<Rightarrow> Q x s')"

lemma okX_simps [simp]:
  "okX (retX x) s Q \<longleftrightarrow> Q x s" "okX (bindX m f) s Q \<longleftrightarrow> okX m s (\<lambda>x s'. okX (f x) s' Q)"
  "okX (\<lambda>s. (Inr y, h s)) s Q \<longleftrightarrow> Q y (h s)"
  by (auto simp: okX_def retX_def bindX_def split: prod.splits sum.splits)

lemma okX_registry: "f (hp s) = Inr h \<Longrightarrow> Q () (s\<lparr>hp := h\<rparr>) \<Longrightarrow> okX (registry f) s Q"
  by (simp add: okX_def registry_def)

lemma okX_service: "f (globals (hp s)) = (Inr x, g) \<Longrightarrow> Q x (set_globals g s) \<Longrightarrow> okX (on_service f) s Q"
  by (simp add: okX_def on_service_def)

lemma okX_mono: "okX m s Q \<Longrightarrow> (\<And>x s'. Q x s' \<Longrightarrow> R x s') \<Longrightarrow> okX m s R"
  by (auto simp: okX_def split: prod.splits sum.splits)

lemma set_globals_simps [simp]:
  "tmaps (set_globals g s) = tmaps s" "once_done (set_globals g s) = once_done s" "handles (set_globals g s) = handles s" "globals (hp (set_globals g s)) = g"
  "stats (hp (set_globals g s)) = stats (hp s)" "links (hp (set_globals g s)) = links (hp s)"
  "shape (hp (set_globals g s)) = shape (hp s)" "alive (hp (set_globals g s)) = alive (hp s)"
  "view (hp (set_globals g s)) = view (hp s)" "heap_wf (hp (set_globals g s)) = heap_wf (hp s)"
  by (auto simp: set_globals_def shape_def view_def alive_def heap_wf_def link_wf_def refs_def regd_def fun_eq_iff)

lemma tc_books: "tc_inv E rx strings ok X s \<Longrightarrow> books ctr_clear (\<lambda>p. True) (view (hp s))"
  unfolding books_def tc_inv_def by (fastforce dest: tc_okD(6) simp: shape_def)

lemma exec_led:
  assumes i: "tc_inv E rx strings ok X s" and v: "valid op (hp s)" and g: "gentle ctr_clear (\<lambda>p. True) op (hp s)"
    and x: "exec (tl_aggregate E) (tl_move E) (tl_assign E) op (hp s) = Inr h'"
  shows "led k (s\<lparr>hp := h'\<rparr>) = led k s + added (ctr_content k) op (hp s)" "svc_good E rx strings ok (globals h')"
proof -
  have "heap_wf (hp s)" "svc_good E rx strings ok (globals (hp s))" using i by (auto simp: tc_inv_def)
  from tcc.exec_conserves[OF this(1) tc_books[OF i] this(2) v g x, of k]
  show "led k (s\<lparr>hp := h'\<rparr>) = led k s + added (ctr_content k) op (hp s)" "svc_good E rx strings ok (globals h')"
    by (simp_all add: led_def)
qed

text \<open>What a lookup leaves as it is.\<close>

definition calm :: "name \<Rightarrow> ('l, ('s, 'h, 'c, 'f, 'e, 'x) service) tcs \<Rightarrow> ('l, ('s, 'h, 'c, 'f, 'e, 'x) service) tcs \<Rightarrow> bool" where
  "calm k s s' \<longleftrightarrow> led k s' = led k s \<and> handles s' = handles s \<and> counters (globals (hp s')) = counters (globals (hp s)) \<and>
     once_done s' = once_done s"

lemma calm_trans: "calm k s s1 \<Longrightarrow> calm k s1 s2 \<Longrightarrow> calm k s s2"
  by (simp add: calm_def)

lemma calm_refl [simp]: "calm k s s"
  by (simp add: calm_def)

section \<open>Lookups\<close>

definition fresh_alloc :: "alloc \<Rightarrow> ('l, 'g) tcs \<Rightarrow> bool" where
  "fresh_alloc w s \<longleftrightarrow> stats (hp s) (new_sid w) = None \<and> links (hp s) (new_link w) = None \<and> \<not> bit (new_link w) 0"

lemma getThreadStats_ok:
  assumes i: "tc_inv E rx strings ok {} s" and w: "fresh_alloc w s"
  shows "okX (getThreadStats E t w) s (\<lambda>m s'. tc_inv E rx strings ok {} s' \<and> calm k s s' \<and>
    map_of (tmaps s') t = Some m \<and> stats (hp s') (new_sid w) = None)"
proof (cases "map_of (tmaps s) t")
  case None
  let ?h = "new_container (updateOnRead E) (new_link w) (hp s)"
  let ?m = "\<lparr>tm_link = new_link w, named = (\<lambda>_. [])\<rparr>"
  let ?s = "s\<lparr>hp := ?h, tmaps := tmaps s @ [(t, ?m)]\<rparr>"
  have wf: "heap_wf (hp s)" and ok: "tc_ok (shape (hp s)) (alive (hp s)) (tmaps s) (handles s) {}"
    and g: "svc_good E rx strings ok (globals (hp s))" using i by (auto simp: tc_inv_def)
  have l: "links (hp s) (new_link w) = None" "\<not> bit (new_link w) 0" using w by (auto simp: fresh_alloc_def)
  have al: "alive ?h = (\<lambda>b. b = new_link w \<or> alive (hp s) b)" by (intro ext) (rule new_container_alive)
  have "\<not> alive (hp s) (new_link w)" using l by (simp add: alive_def)
  moreover have "t \<notin> fst ` set (tmaps s)" using None by (simp add: map_of_eq_None_iff)
  ultimately have "tc_ok (shape ?h) (alive ?h) (tmaps ?s) (handles ?s) {}"
    using tc_ok_thread[OF ok, of t "new_link w"] shape_container(2)[OF wf l] al by simp
  then have "tc_inv E rx strings ok {} ?s" using shape_container[OF wf l] g by (simp add: tc_inv_def)
  moreover have "calm k s ?s" by (simp add: calm_def led_def new_container_def)
  moreover have "map_of (tmaps ?s) t = Some ?m" using None by (simp add: map_of_append map_add_Some_iff)
  moreover have "stats ?h (new_sid w) = None" using w by (simp add: fresh_alloc_def new_container_def)
  ultimately show ?thesis by (simp add: okX_def getThreadStats_def None Let_def)
next
  case (Some m)
  then show ?thesis using i w by (simp add: okX_def getThreadStats_def fresh_alloc_def)
qed

lemma find_entry_ok:
  assumes "\<forall>e\<in>set es. shape h (fst e) \<noteq> None"
  shows "\<exists>r. find_entry (stats h) n es = Inr r \<and>
    (case r of None \<Rightarrow> \<forall>e\<in>set es. name_at (shape h) (fst e) \<noteq> n
     | Some e \<Rightarrow> e \<in> set es \<and> name_at (shape h) (fst e) = n)"
  using assms
proof (induction es)
  case (Cons e es)
  then obtain x where x: "stats h (fst e) = Some x" by (cases "stats h (fst e)") (auto simp: shape_def view_def)
  then have "name_at (shape h) (fst e) = stat_name x" by (simp add: name_at_def shape_def)
  with Cons x show ?case by (auto split: option.splits)
qed simp

lemma find_named_ok:
  assumes i: "tc_inv E rx strings ok X s" and m: "map_of (tmaps s) t = Some m"
  shows "okX (find_named m k n) s (\<lambda>r s'. s' = s \<and>
    (case r of None \<Rightarrow> \<forall>e\<in>set (named m k). name_at (shape (hp s)) (fst e) \<noteq> n
     | Some e \<Rightarrow> e \<in> set (named m k) \<and> shape (hp s) (fst e) = Some (tm_link m, True, n, k)))"
proof -
  have e: "entries_ok (shape (hp s)) (tm_link m) k (named m k)"
    using i tc_okD(4)[of _ _ "tmaps s" _ _ "(t, m)" k] map_of_SomeD[OF m] by (fastforce simp: tc_inv_def)
  then have "\<forall>x\<in>set (named m k). shape (hp s) (fst x) \<noteq> None" using entries_okD(1)[OF e] by auto
  from find_entry_ok[OF this, of n] obtain r where "find_entry (stats (hp s)) n (named m k) = Inr r"
    "case r of None \<Rightarrow> \<forall>e\<in>set (named m k). name_at (shape (hp s)) (fst e) \<noteq> n
     | Some e \<Rightarrow> e \<in> set (named m k) \<and> name_at (shape (hp s)) (fst e) = n" by blast
  then show ?thesis using entries_okD(1)[OF e] by (auto simp: okX_def find_named_def split: option.splits)
qed

lemma new_ok:
  assumes i: "tc_inv E rx strings ok {} s" and a: "alive (hp s) a" and f: "stats (hp s) j = None"
    and c: "ctr_clear p"
  shows "okX (registry (new_stat gt j a n p)) s (\<lambda>_ s'. tc_inv E rx strings ok {j} s' \<and> calm k s s' \<and>
    tmaps s' = tmaps s \<and> handles s' = handles s \<and> shape (hp s') = (shape (hp s))(j \<mapsto> (a, True, n, kind_of p)))"
proof -
  have wf: "heap_wf (hp s)" and ok: "tc_ok (shape (hp s)) (alive (hp s)) (tmaps s) (handles s) {}" using i by (auto simp: tc_inv_def)
  obtain h where h: "new_stat gt j a n p (hp s) = Inr h" "heap_wf h" "shape h = (shape (hp s))(j \<mapsto> (a, True, n, kind_of p))"
    "alive h = alive (hp s)" "globals h = globals (hp s)"
    by (rule shape_new[OF wf a f])
  have "shape (hp s) j = None" using f by (simp add: shape_def)
  from tc_ok_new[OF ok this] h have t: "tc_ok (shape h) (alive h) (tmaps s) (handles s) {j}" by simp
  have "calm k s (s\<lparr>hp := h\<rparr>)"
    using exec_led(1)[OF i, of "NewStat gt j a n p" h k] a f c h(1,5) by (simp add: alive_def calm_def)
  with t h i show ?thesis by (auto intro!: okX_registry[where h = h] simp: h(1) tc_inv_def)
qed


lemma inv_globals:
  assumes "tc_inv E rx strings ok X s" "svc_good E rx strings ok g" "counters g = counters (globals (hp s))"
  shows "tc_inv E rx strings ok X (set_globals g s)" "calm k s (set_globals g s)"
  using assms by (simp_all add: calm_def tc_inv_def led_def ledger_def)

lemma getStatPtr_good:
  assumes "svc_good E rx strings ok g" "getStatPtrNoExport n c (exports g) = (r, x)"
  shows "svc_good E rx strings ok (g\<lparr>exports := x\<rparr>)"
  using assms by (auto simp: svc_good_def sdata_good_def getStatPtrNoExport_def Let_def split: option.splits)

lemma make_stat_ok:
  assumes i: "tc_inv E rx strings ok {} s" and m: "map_of (tmaps s) t = Some m" and f: "stats (hp s) (new_sid w) = None"
  shows "okX (make_stat E kd c m w n) s (\<lambda>r s'. calm k s s' \<and> tmaps s' = tmaps s \<and>
    (case r of None \<Rightarrow> kd = KHist \<and> s' = s
     | Some j \<Rightarrow> tc_inv E rx strings ok {j} s' \<and> shape (hp s) j = None \<and> shape (hp s') = (shape (hp s))(j \<mapsto> (tm_link m, True, n, kd))))"
proof -
  have f': "shape (hp s) (new_sid w) = None" using f by (simp add: shape_def)
  have a: "alive (hp s) (tm_link m)"
    using i tc_okD(3)[of _ "alive (hp s)" "tmaps s" _ _ "(t, m)"] map_of_SomeD[OF m] by (fastforce simp: tc_inv_def)
  show ?thesis
  proof (cases kd)
    case KSeries
    obtain r x where r: "getStatPtrNoExport n c (exports (globals (hp s))) = (r, x)" by (metis prod.exhaust)
    let ?g = "globals (hp s)\<lparr>exports := x\<rparr>"
    have "svc_good E rx strings ok (globals (hp s))" using i by (simp add: tc_inv_def)
    from getStatPtr_good[OF this r] have "svc_good E rx strings ok ?g" .
    note G = inv_globals[OF i this]
    have "okX (make_series m w n c) s (\<lambda>r s'. calm k s s' \<and> tmaps s' = tmaps s \<and>
      (case r of None \<Rightarrow> False | Some j \<Rightarrow> tc_inv E rx strings ok {j} s' \<and> shape (hp s) j = None \<and> shape (hp s') = (shape (hp s))(j \<mapsto> (tm_link m, True, n, KSeries))))"
      unfolding make_series_def okX_simps
      by (rule okX_service[where x = "fst r" and g = ?g], simp add: r,
          rule okX_mono[OF new_ok[of E rx strings ok _ "tm_link m" "new_sid w" _ _ n k]])
        (use G a f f' in \<open>auto intro: calm_trans\<close>)
    then show ?thesis unfolding make_stat_def KSeries kind.case by (rule okX_mono) (auto split: option.splits)
  next
    case KHist
    show ?thesis
    proof (cases "getHistogramUnlocked n (exports (globals (hp s)))")
      case None
      then show ?thesis using i by (simp add: make_stat_def KHist createHistogramLocked_def okX_def Let_def)
    next
      case (Some p)
      obtain b mn mx where h: "h_params (hops (svc_params E)) (hist_heap (wld (exports (globals (hp s)))) p) = (b, mn, mx)"
        by (metis prod.exhaust)
      let ?p = "Hist \<lparr>globalHist = Some p, simpleHistogram = lh_make (buckets E) b mn mx, dirty = False\<rparr>"
      have "okX (bindX (registry (new_stat (got_lock w) (new_sid w) (tm_link m) n ?p)) (\<lambda>_. retX (Some (new_sid w)))) s
        (\<lambda>r s'. calm k s s' \<and> tmaps s' = tmaps s \<and>
         (case r of None \<Rightarrow> kd = KHist \<and> s' = s | Some j \<Rightarrow> tc_inv E rx strings ok {j} s' \<and> shape (hp s) j = None \<and> shape (hp s') = (shape (hp s))(j \<mapsto> (tm_link m, True, n, KHist))))"
        unfolding okX_simps using okX_mono[OF new_ok[OF i a f, of ?p "got_lock w" n k]] f' by fastforce
      then show ?thesis using Some h unfolding KHist by (simp add: make_stat_def createHistogramLocked_def okX_def Let_def)
    qed
  next
    case KCounter
    have "okX (make_counter m w n) s (\<lambda>r s'. calm k s s' \<and> tmaps s' = tmaps s \<and>
      (case r of None \<Rightarrow> False | Some j \<Rightarrow> tc_inv E rx strings ok {j} s' \<and> shape (hp s) j = None \<and> shape (hp s') = (shape (hp s))(j \<mapsto> (tm_link m, True, n, KCounter))))"
      unfolding make_counter_def okX_simps
      using okX_mono[OF new_ok[OF i a f, of "Ctr 0" "got_lock w" n k]] f' by fastforce
    then show ?thesis unfolding make_stat_def KCounter kind.case by (rule okX_mono) (auto split: option.splits)
  qed
qed

text \<open>The entry a thread has for a name.\<close>

definition entry_for :: "('l, 'g) tcs \<Rightarrow> nat \<Rightarrow> kind \<Rightarrow> name \<Rightarrow> entry \<Rightarrow> bool" where
  "entry_for s t k n e \<longleftrightarrow> (\<exists>m. map_of (tmaps s) t = Some m \<and> e \<in> set (named m k) \<and>
     shape (hp s) (fst e) = Some (tm_link m, True, n, k))"

lemma insert_entry_ok:
  assumes i: "tc_inv E rx strings ok {j} s" and m: "map_of (tmaps s) t = Some m"
    and j: "shape (hp s) j = Some (tm_link m, True, n, kd)" and new: "\<forall>e\<in>set (named m kd). name_at (shape (hp s)) (fst e) \<noteq> n"
  shows "okX (insert_entry t kd j) s (\<lambda>r s'. tc_inv E rx strings ok {} s' \<and> calm k s s' \<and>
    (case r of None \<Rightarrow> False | Some e \<Rightarrow> entry_for s' t kd n e))"
proof -
  let ?s = "mod_map t (mod_entries kd (\<lambda>es. (j, \<lambda>_. False) # es)) s"
  have "tc_ok (shape (hp s)) (alive (hp s)) (tmaps s) (handles s) {j}" using i by (simp add: tc_inv_def)
  from tc_ok_insert[OF this m j new, of "\<lambda>_. False"] have "tc_inv E rx strings ok {} ?s" using i by (simp add: tc_inv_def)
  moreover have "calm k s ?s" by (simp add: calm_def led_def)
  moreover have "entry_for ?s t kd n (j, \<lambda>_. False)" using m j by (simp add: entry_for_def map_of_upd_entries)
  ultimately show ?thesis by (simp add: okX_def insert_entry_def Let_def)
qed

lemma tryInsertLocked_ok:
  assumes i: "tc_inv E rx strings ok {} s" and m: "map_of (tmaps s) t = Some m" and f: "stats (hp s) (new_sid w) = None"
  shows "okX (tryInsertLocked t m kd n (make_stat E kd c m w n)) s (\<lambda>r s'. tc_inv E rx strings ok {} s' \<and> calm k s s' \<and>
    (case r of None \<Rightarrow> kd = KHist | Some e \<Rightarrow> entry_for s' t kd n e))" (is "okX _ s ?Q")
  unfolding tryInsertLocked_def okX_simps
proof (rule okX_mono[OF find_named_ok[OF i m, of kd n]], clarify)
  fix r
  assume r: "case r of None \<Rightarrow> \<forall>e\<in>set (named m kd). name_at (shape (hp s)) (fst e) \<noteq> n
    | Some e \<Rightarrow> e \<in> set (named m kd) \<and> shape (hp s) (fst e) = Some (tm_link m, True, n, kd)"
  show "okX (case r of None \<Rightarrow> bindX (make_stat E kd c m w n) (\<lambda>p. case p of None \<Rightarrow> retX None | Some i \<Rightarrow> insert_entry t kd i)
    | Some e \<Rightarrow> retX (Some e)) s ?Q"
  proof (cases r)
    case (Some e)
    with r i m show ?thesis by (auto simp: entry_for_def)
  next
    case None
    with r have new: "\<forall>e\<in>set (named m kd). name_at (shape (hp s)) (fst e) \<noteq> n" by simp
    show ?thesis unfolding None option.case okX_simps
    proof (rule okX_mono[OF make_stat_ok[OF i m f, of kd c n k]], clarify)
      fix p s2
      assume l2: "calm k s s2" and t2: "tmaps s2 = tmaps s"
        and p: "case p of None \<Rightarrow> kd = KHist \<and> s2 = s
          | Some j \<Rightarrow> tc_inv E rx strings ok {j} s2 \<and> shape (hp s) j = None \<and> shape (hp s2) = (shape (hp s))(j \<mapsto> (tm_link m, True, n, kd))"
      show "okX (case p of None \<Rightarrow> retX None | Some i \<Rightarrow> insert_entry t kd i) s2 ?Q"
      proof (cases p)
        case None
        with p i show ?thesis by simp
      next
        case (Some j)
        with p have i2: "tc_inv E rx strings ok {j} s2" and nj: "shape (hp s) j = None"
          and sh: "shape (hp s2) = (shape (hp s))(j \<mapsto> (tm_link m, True, n, kd))" by auto
        have m2: "map_of (tmaps s2) t = Some m" using m t2 by simp
        have "tc_ok (shape (hp s)) (alive (hp s)) (tmaps s) (handles s) {}" using i by (simp add: tc_inv_def)
        from tc_okD(4)[OF this map_of_SomeD[OF m], of kd] have "entries_ok (shape (hp s)) (tm_link m) kd (named m kd)" by simp
        from entries_okD(1)[OF this] nj have "e \<in> set (named m kd) \<Longrightarrow> fst e \<noteq> j" for e by fastforce
        then have n2: "\<forall>e\<in>set (named m kd). name_at (shape (hp s2)) (fst e) \<noteq> n" using new by (simp add: sh name_at_def)
        have j2: "shape (hp s2) j = Some (tm_link m, True, n, kd)" by (simp add: sh)
        show ?thesis unfolding Some option.case
          by (rule okX_mono[OF insert_entry_ok[OF i2 m2 j2 n2, of k]]) (auto intro: calm_trans[OF l2] split: option.splits)
      qed
    qed
  qed
qed

lemma get_entry_ok:
  assumes i: "tc_inv E rx strings ok {} s" and w: "fresh_alloc w s"
  shows "okX (get_entry E t w kd c n) s (\<lambda>r s'. tc_inv E rx strings ok {} s' \<and> calm k s s' \<and>
    (case r of None \<Rightarrow> kd = KHist | Some e \<Rightarrow> entry_for s' t kd n e))"
  unfolding get_entry_def okX_simps
proof (rule okX_mono[OF getThreadStats_ok[OF i w, of t k]], elim conjE)
  fix m s1
  assume s1: "tc_inv E rx strings ok {} s1" "map_of (tmaps s1) t = Some m" "stats (hp s1) (new_sid w) = None" and l: "calm k s s1"
  show "okX (tryInsertLocked t m kd n (make_stat E kd c m w n)) s1 (\<lambda>r s'. tc_inv E rx strings ok {} s' \<and> calm k s s' \<and>
    (case r of None \<Rightarrow> kd = KHist | Some e \<Rightarrow> entry_for s' t kd n e))"
    by (rule okX_mono[OF tryInsertLocked_ok[OF s1, of kd n c k]]) (auto intro: calm_trans[OF l])
qed


section \<open>Updates\<close>

lemma update_ok:
  assumes i: "tc_inv E rx strings ok X s" and sh: "shape (hp s) j = Some (a, b, n, kd)"
    and kp: "\<And>p. kind_of (f p) = kind_of p"
    and d: "\<And>p. kind_of p = kd \<Longrightarrow> ctr_content k n (f p) = ctr_content k n p + d"
  shows "okX (registry (update_stat j f)) s (\<lambda>_ s'. tc_inv E rx strings ok X s' \<and> led k s' = led k s + d \<and>
    counters (globals (hp s')) = counters (globals (hp s)) \<and>
    shape (hp s') = shape (hp s) \<and> tmaps s' = tmaps s \<and> handles s' = handles s \<and> once_done s' = once_done s)"
proof -
  have wf: "heap_wf (hp s)" and ok: "tc_ok (shape (hp s)) (alive (hp s)) (tmaps s) (handles s) X" using i by (auto simp: tc_inv_def)
  obtain h where h: "update_stat j f (hp s) = Inr h" "heap_wf h" "shape h = shape (hp s)" "alive h = alive (hp s)"
    "globals h = globals (hp s)"
    by (rule shape_update[OF wf sh kp])
  obtain x where x: "stats (hp s) j = Some x" using sh by (cases "stats (hp s) j") (auto simp: shape_def view_def)
  have "b" using tc_okD(6)[OF ok sh] .
  then have y: "isLinked (link_ptr x)" "stat_name x = n" "kind_of (payload x) = kd" using sh x by (auto simp: shape_def)
  have "led k (s\<lparr>hp := h\<rparr>) = led k s + d"
    using exec_led(1)[OF i, of "Update j f" h k] x y d[OF y(3)] h(1) by simp
  with h i show ?thesis by (auto intro!: okX_registry[where h = h] simp: h(1) tc_inv_def)
qed

lemma addStatExportType_good:
  assumes "svc_good E rx strings ok g"
  shows "\<exists>g'. addStatExportType (svc_params E) n ty c u g = (Inr (), g') \<and> svc_good E rx strings ok g' \<and> counters g' = counters g"
proof -
  obtain p cr x where x: "getStatPtrNoExport n c (exports g) = ((p, cr), x)" by (metis prod.exhaust)
  from getStatPtr_good[OF assms x] have "sdata_good (svc_params E) rx strings ok x" by (simp add: svc_good_def)
  from export_types_ok[OF this, of p n u "[ty]"] assms x show ?thesis
    by (auto simp: addStatExportType_def exportStats_def on_stats_def svc_good_def)
qed

lemma export_service_ok:
  assumes "tc_inv E rx strings ok X s"
  shows "okX (on_service (addStatExportType (svc_params E) n ty c u)) s (\<lambda>_ s'. tc_inv E rx strings ok X s' \<and> calm k s s' \<and>
    shape (hp s') = shape (hp s) \<and> tmaps s' = tmaps s)"
proof -
  have "svc_good E rx strings ok (globals (hp s))" using assms by (simp add: tc_inv_def)
  from addStatExportType_good[OF this, of n ty c u] obtain g where
    g: "addStatExportType (svc_params E) n ty c u (globals (hp s)) = (Inr (), g)" "svc_good E rx strings ok g"
      "counters g = counters (globals (hp s))" by blast
  show ?thesis by (rule okX_service[where x = "()" and g = g]) (use g(1) inv_globals[OF assms g(2,3)] in simp_all)
qed

lemma set_type_ok:
  assumes i: "tc_inv E rx strings ok X s" and m: "map_of (tmaps s) t = Some m"
  shows "tc_inv E rx strings ok X (set_type t j ty v s)" "calm k s (set_type t j ty v s)"
    "shape (hp (set_type t j ty v s)) = shape (hp s)"
proof -
  have "tc_ok (shape (hp s)) (alive (hp s)) (tmaps s) (handles s) X" using i by (simp add: tc_inv_def)
  from tc_ok_set_type[OF this m, of "\<lambda>e. if fst e = j then (j, (snd e)(ty := v)) else e" KSeries] i
  show "tc_inv E rx strings ok X (set_type t j ty v s)" by (simp add: tc_inv_def set_type_def)
qed (simp_all add: set_type_def calm_def led_def mod_map_def)

section \<open>Releasing\<close>

lemma sp_release_ok:
  assumes i: "tc_inv E rx strings ok (insert j X) s" and j: "shape (hp s) j \<noteq> None"
  shows "okX (sp_release E j) s (\<lambda>_ s'. tc_inv E rx strings ok X s' \<and> led k s' = led k s \<and>
    (\<forall>i. i \<noteq> j \<longrightarrow> shape (hp s') i = shape (hp s) i) \<and> tmaps s' = tmaps s \<and> handles s' = handles s)"
proof (cases "use_count s j = 0")
  case True
  have wf: "heap_wf (hp s)" and ok: "tc_ok (shape (hp s)) (alive (hp s)) (tmaps s) (handles s) (insert j X)" using i by (auto simp: tc_inv_def)
  from j obtain z where z: "shape (hp s) j = Some z" by blast
  obtain h where h: "destroy_stat (tl_aggregate E) j (hp s) = Inr h" "heap_wf h" "shape h = (shape (hp s))(j := None)" "alive h = alive (hp s)"
    by (rule shape_destroy[OF wf z])
  have "stats (hp s) j \<noteq> None" using z by (auto simp: shape_def view_def)
  then have "led k (s\<lparr>hp := h\<rparr>) = led k s" "svc_good E rx strings ok (globals h)"
    using exec_led[OF i, of "DestroyStat j" h] h(1) by simp_all
  moreover have "tc_ok (shape h) (alive h) (tmaps s) (handles s) X"
    using tc_ok_release[OF ok] True by (simp add: use_count_0 h)
  ultimately show ?thesis using True h by (simp add: okX_def sp_release_def registry_def tc_inv_def)
next
  case False
  then have "tc_ok (shape (hp s)) (alive (hp s)) (tmaps s) (handles s) X"
    using i tc_ok_weaken[of _ _ _ _ "insert j X" X] by (auto simp: tc_inv_def use_count_0)
  with False i show ?thesis by (simp add: okX_def sp_release_def tc_inv_def)
qed

lemma sp_release_all_ok:
  fixes s :: "('l, ('s, 'h, 'c, 'f, 'e, 'x) service) tcs"
  assumes "tc_inv E rx strings ok (set js \<union> X) s" "distinct js" "\<forall>j\<in>set js. shape (hp s) j \<noteq> None"
  shows "okX (sp_release_all E js) s (\<lambda>_ s'. tc_inv E rx strings ok X s' \<and> led k s' = led k s \<and>
    tmaps s' = tmaps s \<and> handles s' = handles s)"
  using assms
proof (induction js arbitrary: s)
  case (Cons j js)
  have i: "tc_inv E rx strings ok (insert j (set js \<union> X)) s" and j: "shape (hp s) j \<noteq> None" using Cons.prems by auto
  show ?case unfolding sp_release_all.simps okX_simps
  proof (rule okX_mono[OF sp_release_ok[OF i j, of k]], elim conjE)
    fix x :: unit and s1 :: "('l, ('s, 'h, 'c, 'f, 'e, 'x) service) tcs"
    assume s1: "tc_inv E rx strings ok (set js \<union> X) s1" "led k s1 = led k s" "\<forall>i. i \<noteq> j \<longrightarrow> shape (hp s1) i = shape (hp s) i"
      "tmaps s1 = tmaps s" "handles s1 = handles s"
    have "distinct js" using Cons.prems(2) by simp
    moreover have "\<forall>i\<in>set js. shape (hp s1) i \<noteq> None"
    proof
      fix i assume "i \<in> set js"
      with Cons.prems(2,3) have "i \<noteq> j" "shape (hp s) i \<noteq> None" by auto
      with s1(3) show "shape (hp s1) i \<noteq> None" by simp
    qed
    ultimately show "okX (sp_release_all E js) s1 (\<lambda>_ s'. tc_inv E rx strings ok X s' \<and> led k s' = led k s \<and>
      tmaps s' = tmaps s \<and> handles s' = handles s)"
      using Cons.IH[OF s1(1)] by (simp add: s1)
  qed
qed simp

lemma clear_map_ok:
  assumes i: "tc_inv E rx strings ok {} s"
  shows "okX (clear_map E t kd) s (\<lambda>_ s'. tc_inv E rx strings ok {} s' \<and> led k s' = led k s \<and>
    map_of (tmaps s') t = map_option (mod_entries kd (\<lambda>_. [])) (map_of (tmaps s) t))"
proof (cases "map_of (tmaps s) t")
  case None
  then show ?thesis using i by (simp add: okX_def clear_map_def)
next
  case (Some m)
  let ?s = "mod_map t (mod_entries kd (\<lambda>_. [])) s" and ?js = "map fst (named m kd)"
  have ok: "tc_ok (shape (hp s)) (alive (hp s)) (tmaps s) (handles s) {}" using i by (simp add: tc_inv_def)
  have e: "entries_ok (shape (hp s)) (tm_link m) kd (named m kd)" using tc_okD(4)[OF ok map_of_SomeD[OF Some], of kd] by simp
  have "filter (\<lambda>_. False) = (\<lambda>_ :: entry list. [])" by (intro ext) simp
  with tc_ok_remove[OF ok Some, of kd "\<lambda>_. False"] i have "tc_inv E rx strings ok (set ?js \<union> {}) ?s" by (simp add: tc_inv_def)
  moreover have "\<forall>j\<in>set ?js. shape (hp ?s) j \<noteq> None" using entries_okD(1)[OF e] by auto
  ultimately have "okX (sp_release_all E ?js) ?s (\<lambda>_ s'. tc_inv E rx strings ok {} s' \<and> led k s' = led k ?s \<and>
    tmaps s' = tmaps ?s \<and> handles s' = handles ?s)"
    by (intro sp_release_all_ok entries_okD(3)[OF e])
  then have "okX (sp_release_all E ?js) ?s (\<lambda>_ s'. tc_inv E rx strings ok {} s' \<and> led k s' = led k s \<and>
    map_of (tmaps s') t = Some (mod_entries kd (\<lambda>_. []) m))"
    by (rule okX_mono) (simp add: led_def map_of_upd_entries Some)
  then show ?thesis by (simp add: okX_def clear_map_def Some)
qed

end
