(* ===== verification/ThreadCached.thy ===== *)
theory ThreadCached
  imports TLMapOps
begin

text \<open>
  \<open>ThreadCachedServiceData\<close> (\<^verbatim>\<open>fb303/ThreadCachedServiceData.h\<close>, \<^verbatim>\<open>fb303/ThreadCachedServiceData.cpp\<close>): the front end that
  threads update stats through, by name or through wrappers that keep a pointer to the stat for each thread, and the
  publication of what the threads hold to the service.
\<close>

section \<open>Wrappers\<close>

text \<open>
  \<open>StatWrapperBase::tcStat\<close>, \<open>TimeseriesWrapper::tcTimeseries\<close> and their slow paths: the pointer kept for the thread, or
  the stat of the thread's map, which is then kept.
\<close>

definition keep_handle :: "handle \<Rightarrow> entry option \<Rightarrow> (sid option, 'l, 'g) tcm" where
  "keep_handle h r s =
     (case r of
        None \<Rightarrow> (Inr None, s)
      | Some e \<Rightarrow> (Inr (Some (fst e)), s\<lparr>handles := (h, fst e) # handles s\<rparr>))"

definition tcStat ::
  "('s, 'h, 'l, 'c, 'p, 'r) tenv \<Rightarrow> holder_id \<Rightarrow> kind \<Rightarrow> name \<Rightarrow> 's option \<Rightarrow> nat \<Rightarrow> alloc \<Rightarrow>
   (sid option, 'l, ('s, 'h, 'c, 'f, 'e, 'x) service) tcm" where
  "tcStat E wid k key copyMe t w s =
     (case map_of (handles s) (wid, k, key, t) of
        Some i \<Rightarrow> (Inr (Some i), s)
      | None \<Rightarrow> bindX (get_entry E t w k copyMe key) (keep_handle (wid, k, key, t)) s)"

definition on_stat :: "sid option \<Rightarrow> ('l tlpayload \<Rightarrow> 'l tlpayload) \<Rightarrow> (unit, 'l, 'g) tcm" where
  "on_stat r f = (case r of None \<Rightarrow> (\<lambda>s. (Inl NullPointer, s)) | Some i \<Rightarrow> registry (update_stat i f))"

definition CounterWrapper_incrementValue ::
  "('s, 'h, 'l, 'c, 'p, 'r) tenv \<Rightarrow> nat \<Rightarrow> name \<Rightarrow> nat \<Rightarrow> alloc \<Rightarrow> int64 \<Rightarrow>
   (unit, 'l, ('s, 'h, 'c, 'f, 'e, 'x) service) tcm" where
  "CounterWrapper_incrementValue E wid key t w amount =
     bindX (tcStat E (wid, []) KCounter key None t w) (\<lambda>r. on_stat r (on_counter (incrementValue amount)))"

definition TimeseriesWrapper_add ::
  "('s, 'h, 'l, 'c, 'p, 'r) tenv \<Rightarrow> nat \<Rightarrow> name \<Rightarrow> 's option \<Rightarrow> nat \<Rightarrow> alloc \<Rightarrow> bool \<Rightarrow> int64 \<Rightarrow>
   (unit, 'l, ('s, 'h, 'c, 'f, 'e, 'x) service) tcm" where
  "TimeseriesWrapper_add E wid key copyMe t w ok value =
     bindX (tcStat E (wid, []) KSeries key copyMe t w) (\<lambda>r. on_stat r (on_series (tlt_addValue ok value)))"

definition TimeseriesWrapper_addAggregated ::
  "('s, 'h, 'l, 'c, 'p, 'r) tenv \<Rightarrow> nat \<Rightarrow> name \<Rightarrow> 's option \<Rightarrow> nat \<Rightarrow> alloc \<Rightarrow> bool \<Rightarrow> int64 \<Rightarrow> int64 \<Rightarrow>
   (unit, 'l, ('s, 'h, 'c, 'f, 'e, 'x) service) tcm" where
  "TimeseriesWrapper_addAggregated E wid key copyMe t w ok sm numSamples =
     bindX (tcStat E (wid, []) KSeries key copyMe t w) (\<lambda>r. on_stat r (on_series (tlt_addValueAggregated ok sm numSamples)))"

text \<open>\<open>HistogramSpec\<close>, and the wrapper that applies it when it is first used.\<close>

record 's hist_spec =
  hs_bucketWidth :: int64
  hs_min :: int64
  hs_max :: int64
  hs_stats :: "export_type list"
  hs_percentiles :: "int list"
  hs_levels :: 's

definition addHistogram_prototype ::
  "('s, 'h, 'l, 'c, 'p, 'r) params \<Rightarrow> name \<Rightarrow> 'h \<Rightarrow> ('s, 'h, 'c, 'f, 'e, 'x) service \<Rightarrow>
   (bool, 's, 'h, 'c, 'f, 'e, 'x) svc_result" where
  "addHistogram_prototype P key hist g =
     (case on_exports (addHistogram_copy P key hist (exports g)) g of (r, g1) \<Rightarrow> (map_sum id fst r, g1))"

fun each_service :: "('g \<Rightarrow> (service_error + unit) \<times> 'g) list \<Rightarrow> 'g \<Rightarrow> (service_error + unit) \<times> 'g" where
  "each_service [] g = (Inr (), g)"
| "each_service (f # fs) g = (case f g of (Inl e, g1) \<Rightarrow> (Inl e, g1) | (Inr _, g1) \<Rightarrow> each_service fs g1)"

definition spec_apply ::
  "('s, 'h, 'l, 'c, 'p, 'r) params \<Rightarrow> name \<Rightarrow> 's hist_spec \<Rightarrow> ('s, 'h, 'c, 'f, 'e, 'x) service \<Rightarrow>
   (unit, 's, 'h, 'c, 'f, 'e, 'x) svc_result" where
  "spec_apply P key sp g =
     (let prototype = h_make (hops P) (hs_bucketWidth sp) (hs_min sp) (hs_max sp) (hs_levels sp) in
      case addHistogram_prototype P key prototype g of
        (Inl e, g1) \<Rightarrow> (Inl e, g1)
      | (Inr _, g1) \<Rightarrow>
          each_service (map (\<lambda>stat. exportHistogram P key (Type stat)) (hs_stats sp) @
                        map (exportHistogramPercentile P key) (hs_percentiles sp)) g1)"

definition doApplySpecLocked ::
  "('s, 'h, 'l, 'c, 'p, 'r) tenv \<Rightarrow> nat \<Rightarrow> name \<Rightarrow> 's hist_spec \<Rightarrow> (unit, 'l, ('s, 'h, 'c, 'f, 'e, 'x) service) tcm" where
  "doApplySpecLocked E wid key sp s =
     (if wid \<in> set (spec_taken s) then (Inl NullPointer, s)
      else on_service (spec_apply (svc_params E) key sp) (s\<lparr>spec_taken := wid # spec_taken s\<rparr>))"

text \<open>\<open>folly::call_once\<close> leaves the flag as it is when the function throws.\<close>

definition call_once :: "nat \<Rightarrow> (unit, 'l, 'g) tcm \<Rightarrow> (unit, 'l, 'g) tcm" where
  "call_once wid f s =
     (if wid \<in> set (once_done s) then (Inr (), s)
      else bindX f (\<lambda>_ s. (Inr (), s\<lparr>once_done := wid # once_done s\<rparr>)) s)"

definition tcHistogram ::
  "('s, 'h, 'l, 'c, 'p, 'r) tenv \<Rightarrow> nat \<Rightarrow> name \<Rightarrow> 's hist_spec \<Rightarrow> nat \<Rightarrow> alloc \<Rightarrow>
   (sid option, 'l, ('s, 'h, 'c, 'f, 'e, 'x) service) tcm" where
  "tcHistogram E wid key sp t w s =
     (case map_of (handles s) ((wid, []), KHist, key, t) of
        Some i \<Rightarrow> (Inr (Some i), s)
      | None \<Rightarrow>
          bindX (call_once wid (doApplySpecLocked E wid key sp)) (\<lambda>_.
            bindX (get_entry E t w KHist None key) (keep_handle ((wid, []), KHist, key, t))) s)"

definition HistogramWrapper_add ::
  "('s, 'h, 'l, 'c, 'p, 'r) tenv \<Rightarrow> nat \<Rightarrow> name \<Rightarrow> 's hist_spec \<Rightarrow> nat \<Rightarrow> alloc \<Rightarrow> int64 \<Rightarrow>
   (unit, 'l, ('s, 'h, 'c, 'f, 'e, 'x) service) tcm" where
  "HistogramWrapper_add E wid key sp t w value =
     bindX (tcHistogram E wid key sp t w) (\<lambda>r. on_stat r (on_hist (tlh_addValue (local_hist_ops E) value)))"

text \<open>The pointer a wrapper keeps for a thread goes with the thread or with the wrapper.\<close>

definition drop_handle ::
  "('s, 'h, 'l, 'c, 'p, 'r) tenv \<Rightarrow> handle \<Rightarrow> (unit, 'l, ('s, 'h, 'c, 'f, 'e, 'x) service) tcm" where
  "drop_handle E h s =
     (case map_of (handles s) h of
        None \<Rightarrow> (Inr (), s)
      | Some i \<Rightarrow> sp_release E i (s\<lparr>handles := filter (\<lambda>x. fst x \<noteq> h) (handles s)\<rparr>))"

section \<open>Publication\<close>

definition aggregate_map ::
  "('s, 'h, 'l, 'c, 'p, 'r) tenv \<Rightarrow> addr \<Rightarrow> (nat, 'l, ('s, 'h, 'c, 'f, 'e, 'x) service) tcm" where
  "aggregate_map E a s =
     (case aggregate (tl_aggregate E) a (hp s) of
        Inl e \<Rightarrow> (Inl (Crash e), s)
      | Inr (c, h) \<Rightarrow> (Inr c, s\<lparr>hp := h\<rparr>))"

text \<open>The loop of \<open>publishStats\<close>: the number of calls and of maps.\<close>

fun aggregate_maps ::
  "('s, 'h, 'l, 'c, 'p, 'r) tenv \<Rightarrow> addr list \<Rightarrow> (nat \<times> nat, 'l, ('s, 'h, 'c, 'f, 'e, 'x) service) tcm" where
  "aggregate_maps E [] = retX (0, 0)"
| "aggregate_maps E (a # as) =
     bindX (aggregate_map E a) (\<lambda>c. bindX (aggregate_maps E as) (\<lambda>(calls, maps). retX (c + calls, maps + 1)))"

definition publish_all ::
  "('s, 'h, 'l, 'c, 'p, 'r) tenv \<Rightarrow> (nat \<times> nat, 'l, ('s, 'h, 'c, 'f, 'e, 'x) service) tcm" where
  "publish_all E s = aggregate_maps E (map (\<lambda>x. tm_link (snd x)) (tmaps s)) s"

text \<open>
  \<open>publishStats\<close> on the thread \<open>t\<close>: the loop took \<open>usec\<close>; three time series of the publisher's own are then updated.
  The wrappers \<open>0\<close>, \<open>1\<close> and \<open>2\<close> stand for them.
\<close>

definition publish_names :: "name list" where
  "publish_names =
     [''fb303_tcData_publish_time_usec'', ''fb303_tcData_aggregate_call_count'', ''fb303_tcData_tlmaps_aggregated'']"

fun add_each ::
  "('s, 'h, 'l, 'c, 'p, 'r) tenv \<Rightarrow> nat \<Rightarrow> (nat \<times> name \<times> alloc \<times> bool \<times> int64) list \<Rightarrow>
   (unit, 'l, ('s, 'h, 'c, 'f, 'e, 'x) service) tcm" where
  "add_each E t [] = retX ()"
| "add_each E t ((wid, key, w, ok, v) # xs) =
     bindX (TimeseriesWrapper_add E wid key None t w ok v) (\<lambda>_. add_each E t xs)"

definition publish_values ::
  "(nat \<Rightarrow> alloc) \<Rightarrow> (nat \<Rightarrow> bool) \<Rightarrow> int64 list \<Rightarrow> (nat \<times> name \<times> alloc \<times> bool \<times> int64) list" where
  "publish_values ws oks vs = map (\<lambda>((i, key), v). (i, key, ws i, oks i, v)) (zip (enumerate 0 publish_names) vs)"

definition publishStats ::
  "('s, 'h, 'l, 'c, 'p, 'r) tenv \<Rightarrow> nat \<Rightarrow> (nat \<Rightarrow> alloc) \<Rightarrow> (nat \<Rightarrow> bool) \<Rightarrow> int64 \<Rightarrow>
   (unit, 'l, ('s, 'h, 'c, 'f, 'e, 'x) service) tcm" where
  "publishStats E t ws oks usec =
     bindX (publish_all E) (\<lambda>(totalAggregateCalls, mapsAggregated).
       add_each E t (publish_values ws oks [usec, of_nat totalAggregateCalls, of_nat mapsAggregated]))"

section \<open>The remaining operations\<close>

definition counter_op ::
  "('c counters \<Rightarrow> (rx_error + 'a) \<times> 'c counters) \<Rightarrow> ('s, 'h, 'c, 'f, 'e, 'x) service \<Rightarrow>
   ('a, 's, 'h, 'c, 'f, 'e, 'x) svc_result" where
  "counter_op f g = (let (r, c) = f (counters g) in (map_sum (\<lambda>e. Failure (Thrown e)) id r, g\<lparr>counters := c\<rparr>))"

definition tc_setCounter ::
  "('s, 'h, 'l, 'c, 'p, 'r) tenv \<Rightarrow> name \<Rightarrow> int64 \<Rightarrow> (int64, 'l, ('s, 'h, 'c, 'f, 'e, 'x) service) tcm" where
  "tc_setCounter E key value = on_service (counter_op (setCounter (cops (svc_params E)) id key value))"

definition tc_clearCounter ::
  "('s, 'h, 'l, 'c, 'p, 'r) tenv \<Rightarrow> name \<Rightarrow> (unit, 'l, ('s, 'h, 'c, 'f, 'e, 'x) service) tcm" where
  "tc_clearCounter E key = on_service (\<lambda>g. (Inr (), g\<lparr>counters := clearCounter (cops (svc_params E)) key (counters g)\<rparr>))"

definition tc_zeroStats ::
  "('s, 'h, 'l, 'c, 'p, 'r) tenv \<Rightarrow> nat \<Rightarrow> (nat \<Rightarrow> alloc) \<Rightarrow> (nat \<Rightarrow> bool) \<Rightarrow> int64 \<Rightarrow>
   (unit, 'l, ('s, 'h, 'c, 'f, 'e, 'x) service) tcm" where
  "tc_zeroStats E t ws oks usec =
     bindX (publishStats E t ws oks usec) (\<lambda>_. on_service (\<lambda>g. (Inr (), zeroStats (svc_params E) g)))"

definition tc_addHistAndStatValue ::
  "('s, 'h, 'l, 'c, 'p, 'r) tenv \<Rightarrow> nat \<Rightarrow> alloc \<Rightarrow> alloc \<Rightarrow> name \<Rightarrow> bool \<Rightarrow> int64 \<Rightarrow>
   (unit, 'l, ('s, 'h, 'c, 'f, 'e, 'x) service) tcm" where
  "tc_addHistAndStatValue E t w w' key ok value =
     bindX (tm_addStatValue E t w key ok value) (\<lambda>_. tm_addHistogramValue E t w' key value)"

end
