(* ===== verification/TCOps.thy ===== *)
theory TCOps
  imports ThreadCached
begin

text \<open>
  The operations of the theory \<open>ThreadCached\<close>, one by one: each keeps the invariant, and the account of the flat counters
  changes by what the call says.
\<close>

section \<open>Operations by name\<close>

lemma kind_on [simp]: "kind_of (on_series f p) = kind_of p" "kind_of (on_hist g p) = kind_of p" "kind_of (on_counter c p) = kind_of p"
  by (cases p; simp)+

lemma content_on [simp]: "ctr_content k n (on_series f p) = ctr_content k n p" "ctr_content k n (on_hist g p) = ctr_content k n p"
  by (cases p; simp)+

lemma content_increment: "kind_of p = KCounter \<Longrightarrow>
  ctr_content k n (on_counter (incrementValue a) p) = ctr_content k n p + (if n = k then a else 0)"
  by (cases p) (auto simp: counter_content_def incrementValue_def tsc_increment_def)

text \<open>The account after an update worth \<open>d\<close>.\<close>

definition paid :: "name \<Rightarrow> int64 \<Rightarrow> ('l, ('s, 'h, 'c, 'f, 'e, 'x) service) tcs \<Rightarrow> ('l, ('s, 'h, 'c, 'f, 'e, 'x) service) tcs \<Rightarrow> bool" where
  "paid k d s s' \<longleftrightarrow> led k s' = led k s + d \<and> counters (globals (hp s')) = counters (globals (hp s))"

lemma calm_paid: "calm k s s1 \<Longrightarrow> paid k d s1 s2 \<Longrightarrow> paid k d s s2" "calm k s s1 \<Longrightarrow> paid k 0 s s1"
  by (simp_all add: calm_def paid_def)

lemma stat_update_ok:
  assumes "tc_inv E rx strings ok X s" "shape (hp s) j = Some (a, b, n, kd)" "\<And>p. kind_of (f p) = kind_of p"
    and "\<And>p. kind_of p = kd \<Longrightarrow> ctr_content k n (f p) = ctr_content k n p + d"
  shows "okX (registry (update_stat j f)) s (\<lambda>_ s'. tc_inv E rx strings ok X s' \<and> paid k d s s')"
  by (rule okX_mono[OF update_ok[OF assms]]) (simp_all add: paid_def)

lemma by_name_ok:
  assumes i: "tc_inv E rx strings ok {} s" and w: "fresh_alloc w s" and kd: "kd \<noteq> KHist"
    and f: "\<And>p. kind_of (f p) = kind_of p" "\<And>p. kind_of p = kd \<Longrightarrow> ctr_content k n (f p) = ctr_content k n p + d"
  shows "okX (bindX (get_entry E t w kd c n) (\<lambda>r. on_raw r f)) s (\<lambda>_ s'. tc_inv E rx strings ok {} s' \<and> paid k d s s')"
  unfolding okX_simps
proof (rule okX_mono[OF get_entry_ok[OF i w, of t kd c n k]], elim conjE)
  fix r s1
  assume s1: "tc_inv E rx strings ok {} s1" "calm k s s1"
    and r: "case r of None \<Rightarrow> kd = KHist | Some e \<Rightarrow> entry_for s1 t kd n e"
  from r kd obtain e a where e: "r = Some e" "shape (hp s1) (fst e) = Some (a, True, n, kd)"
    by (auto simp: entry_for_def split: option.splits)
  show "okX (on_raw r f) s1 (\<lambda>_ s'. tc_inv E rx strings ok {} s' \<and> paid k d s s')"
    unfolding e(1) on_raw_def option.case
    by (rule okX_mono[OF stat_update_ok[OF s1(1) e(2) f]]) (use calm_paid(1)[OF s1(2)] in auto)
qed

lemma export_entry_ok:
  assumes i: "tc_inv E rx strings ok {} s" and e: "entry_for s t KSeries n e"
  shows "okX (export_entry E t n ty (Some e)) s (\<lambda>_ s'. tc_inv E rx strings ok {} s' \<and> calm k s s' \<and> shape (hp s') = shape (hp s))"
proof (cases "snd e ty")
  case True
  then show ?thesis using i by (simp add: export_entry_def)
next
  case False
  from e obtain m where m: "map_of (tmaps s) t = Some m" by (auto simp: entry_for_def)
  show ?thesis unfolding export_entry_def option.case if_not_P[OF False] okX_simps
  proof (rule okX_mono[OF export_service_ok[OF i, of n ty None True k]], elim conjE)
    fix x :: unit and s1
    assume s1: "tc_inv E rx strings ok {} s1" "calm k s s1" "shape (hp s1) = shape (hp s)" "tmaps s1 = tmaps s"
    have m1: "map_of (tmaps s1) t = Some m" using m s1(4) by simp
    note S = set_type_ok[OF s1(1) m1, where j = "fst e" and ty = ty and v = True]
    show "tc_inv E rx strings ok {} (set_type t (fst e) ty True s1) \<and> calm k s (set_type t (fst e) ty True s1) \<and>
      shape (hp (set_type t (fst e) ty True s1)) = shape (hp s)"
      using S(1,3) calm_trans[OF s1(2) S(2)] s1(3) by simp
  qed
qed

lemma addStatValueType_ok:
  assumes i: "tc_inv E rx strings ok {} s" and w: "fresh_alloc w s"
  shows "okX (tm_addStatValueType E t w n ok' v ty) s (\<lambda>_ s'. tc_inv E rx strings ok {} s' \<and> paid k 0 s s')"
  unfolding tm_addStatValueType_def okX_simps
proof (rule okX_mono[OF get_entry_ok[OF i w, of t KSeries None n k]], elim conjE)
  fix r s1
  assume s1: "tc_inv E rx strings ok {} s1" "calm k s s1"
    and r: "case r of None \<Rightarrow> KSeries = KHist | Some e \<Rightarrow> entry_for s1 t KSeries n e"
  from r obtain e a where e: "r = Some e" "entry_for s1 t KSeries n e" "shape (hp s1) (fst e) = Some (a, True, n, KSeries)"
    by (auto simp: entry_for_def split: option.splits)
  show "okX (export_entry E t n ty r) s1 (\<lambda>_ s'. okX (on_raw r (on_series (tlt_addValue ok' v))) s'
      (\<lambda>_ s'. tc_inv E rx strings ok {} s' \<and> paid k 0 s s'))"
    unfolding e(1)
  proof (rule okX_mono[OF export_entry_ok[OF s1(1) e(2), of ty k]], elim conjE)
    fix x :: unit and s2
    assume s2: "tc_inv E rx strings ok {} s2" "calm k s1 s2" "shape (hp s2) = shape (hp s1)"
    have e2: "shape (hp s2) (fst e) = Some (a, True, n, KSeries)" using e(3) s2(3) by simp
    show "okX (on_raw (Some e) (on_series (tlt_addValue ok' v))) s2 (\<lambda>_ s'. tc_inv E rx strings ok {} s' \<and> paid k 0 s s')"
      unfolding on_raw_def option.case
      by (rule okX_mono[OF stat_update_ok[OF s2(1) e2, of "on_series (tlt_addValue ok' v)" k 0]])
        (use calm_paid(1)[OF calm_trans[OF s1(2) s2(2)]] in auto)
  qed
qed

lemma clearStat_ok:
  assumes i: "tc_inv E rx strings ok {} s" and w: "fresh_alloc w s"
  shows "okX (tm_clearStat E t w n ty) s (\<lambda>_ s'. tc_inv E rx strings ok {} s' \<and> paid k 0 s s')"
  unfolding tm_clearStat_def okX_simps
proof (rule okX_mono[OF getThreadStats_ok[OF i w, of t k]], elim conjE)
  fix m s1
  assume s1: "tc_inv E rx strings ok {} s1" "calm k s s1" "map_of (tmaps s1) t = Some m"
  show "okX (find_named m KSeries n) s1 (\<lambda>r s'. okX (on_service (addStatExportType (svc_params E) n ty None True))
      (case r of None \<Rightarrow> s' | Some e \<Rightarrow> set_type t (fst e) ty False s') (\<lambda>_ s'. tc_inv E rx strings ok {} s' \<and> paid k 0 s s'))"
  proof (rule okX_mono[OF find_named_ok[OF s1(1,3), of KSeries n]], clarify)
    fix r
    let ?s = "case r of None \<Rightarrow> s1 | Some e \<Rightarrow> set_type t (fst e) ty False s1"
    have q: "tc_inv E rx strings ok {} ?s" "calm k s1 ?s"
      using s1(1) set_type_ok(1,2)[OF s1(1,3)] by (auto split: option.splits)
    show "okX (on_service (addStatExportType (svc_params E) n ty None True)) ?s (\<lambda>_ s'. tc_inv E rx strings ok {} s' \<and> paid k 0 s s')"
      by (rule okX_mono[OF export_service_ok[OF q(1), of n ty None True k]])
        (use calm_paid(2) calm_trans[OF calm_trans[OF s1(2) q(2)]] in blast)
  qed
qed

lemma addHistogramValue_ok:
  assumes i: "tc_inv E rx strings ok {} s" and w: "fresh_alloc w s"
  shows "okX (tm_addHistogramValue E t w n v) s (\<lambda>_ s'. tc_inv E rx strings ok {} s' \<and> paid k 0 s s')"
  unfolding tm_addHistogramValue_def okX_simps
proof (rule okX_mono[OF get_entry_ok[OF i w, of t KHist None n k]], elim conjE)
  fix r s1
  assume s1: "tc_inv E rx strings ok {} s1" "calm k s s1"
    and r: "case r of None \<Rightarrow> KHist = KHist | Some e \<Rightarrow> entry_for s1 t KHist n e"
  show "okX (case r of None \<Rightarrow> retX () | Some e \<Rightarrow> on_raw r (on_hist (tlh_addValue (local_hist_ops E) v))) s1
    (\<lambda>_ s'. tc_inv E rx strings ok {} s' \<and> paid k 0 s s')"
  proof (cases r)
    case None
    then show ?thesis using s1 calm_paid(2)[OF s1(2)] by simp
  next
    case (Some e)
    with r obtain a where e: "shape (hp s1) (fst e) = Some (a, True, n, KHist)" by (auto simp: entry_for_def)
    show ?thesis unfolding Some option.case on_raw_def
      by (rule okX_mono[OF stat_update_ok[OF s1(1) e, of "on_hist (tlh_addValue (local_hist_ops E) v)" k 0]])
        (use calm_paid(1)[OF s1(2)] in auto)
  qed
qed


section \<open>Forgetting\<close>

lemma clearTimeseries_ok:
  assumes i: "tc_inv E rx strings ok {} s" and w: "fresh_alloc w s"
  shows "okX (clearTimeseriesSafe E t w n) s (\<lambda>_ s'. tc_inv E rx strings ok {} s' \<and> led k s' = led k s)"
  unfolding clearTimeseriesSafe_def okX_simps
proof (rule okX_mono[OF getThreadStats_ok[OF i w, of t k]], elim conjE)
  fix m s1
  assume s1: "tc_inv E rx strings ok {} s1" "calm k s s1" and m: "map_of (tmaps s1) t = Some m"
  show "okX (find_named m KSeries n) s1 (\<lambda>r s'. okX (case r of None \<Rightarrow> retX () | Some e \<Rightarrow>
      bindX (\<lambda>s. (Inr (), mod_map t (mod_entries KSeries (filter (\<lambda>x. fst x \<noteq> fst e))) s)) (\<lambda>_. sp_release E (fst e))) s'
      (\<lambda>_ s'. tc_inv E rx strings ok {} s' \<and> led k s' = led k s))"
  proof (rule okX_mono[OF find_named_ok[OF s1(1) m, of KSeries n]], clarify)
    fix r
    assume r: "case r of None \<Rightarrow> \<forall>e\<in>set (named m KSeries). name_at (shape (hp s1)) (fst e) \<noteq> n
      | Some e \<Rightarrow> e \<in> set (named m KSeries) \<and> shape (hp s1) (fst e) = Some (tm_link m, True, n, KSeries)"
    show "okX (case r of None \<Rightarrow> retX () | Some e \<Rightarrow>
      bindX (\<lambda>s. (Inr (), mod_map t (mod_entries KSeries (filter (\<lambda>x. fst x \<noteq> fst e))) s)) (\<lambda>_. sp_release E (fst e))) s1
      (\<lambda>_ s'. tc_inv E rx strings ok {} s' \<and> led k s' = led k s)"
    proof (cases r)
      case None
      then show ?thesis using s1 by (simp add: calm_def)
    next
      case (Some e)
      let ?s = "mod_map t (mod_entries KSeries (filter (\<lambda>x. fst x \<noteq> fst e))) s1"
      have e: "e \<in> set (named m KSeries)" "shape (hp ?s) (fst e) \<noteq> None" using r Some by auto
      have ok: "tc_ok (shape (hp s1)) (alive (hp s1)) (tmaps s1) (handles s1) {}" using s1(1) by (simp add: tc_inv_def)
      have "{} \<union> fst ` {x \<in> set (named m KSeries). \<not> fst x \<noteq> fst e} = {fst e}" using e(1) by auto
      with tc_ok_remove[OF ok m, of KSeries "\<lambda>x. fst x \<noteq> fst e"] s1(1)
      have "tc_inv E rx strings ok (insert (fst e) {}) ?s" by (simp add: tc_inv_def)
      from sp_release_ok[OF this e(2), of k] show ?thesis
        unfolding Some option.case okX_simps
        by (rule okX_mono) (use s1(2) in \<open>auto simp: calm_def led_def\<close>)
    qed
  qed
qed

lemma resetAllData_ok:
  assumes i: "tc_inv E rx strings ok {} s"
  shows "okX (tm_resetAllData E t) s (\<lambda>_ s'. tc_inv E rx strings ok {} s' \<and> led k s' = led k s \<and>
    (\<forall>m. map_of (tmaps s') t = Some m \<longrightarrow> (\<forall>kd. named m kd = [])))"
  unfolding tm_resetAllData_def okX_simps
proof (rule okX_mono[OF clear_map_ok[OF i, of t KCounter k]], elim conjE)
  fix x :: unit and s1
  assume s1: "tc_inv E rx strings ok {} s1" "led k s1 = led k s"
    "map_of (tmaps s1) t = map_option (mod_entries KCounter (\<lambda>_. [])) (map_of (tmaps s) t)"
  show "okX (clear_map E t KHist) s1 (\<lambda>_ s'. okX (clear_map E t KSeries) s' (\<lambda>_ s'. tc_inv E rx strings ok {} s' \<and>
    led k s' = led k s \<and> (\<forall>m. map_of (tmaps s') t = Some m \<longrightarrow> (\<forall>kd. named m kd = []))))"
  proof (rule okX_mono[OF clear_map_ok[OF s1(1), of t KHist k]], elim conjE)
    fix x :: unit and s2
    assume s2: "tc_inv E rx strings ok {} s2" "led k s2 = led k s1"
      "map_of (tmaps s2) t = map_option (mod_entries KHist (\<lambda>_. [])) (map_of (tmaps s1) t)"
    have kd: "(\<forall>kd. P kd) \<longleftrightarrow> P KSeries \<and> P KHist \<and> P KCounter" for P by (metis kind.exhaust)
    show "okX (clear_map E t KSeries) s2 (\<lambda>_ s'. tc_inv E rx strings ok {} s' \<and>
      led k s' = led k s \<and> (\<forall>m. map_of (tmaps s') t = Some m \<longrightarrow> (\<forall>kd. named m kd = [])))"
      by (rule okX_mono[OF clear_map_ok[OF s2(1), of t KSeries k]]) (use s1(2,3) s2(2,3) in \<open>auto simp: kd\<close>)
  qed
qed

lemma destroy_ok:
  assumes i: "tc_inv E rx strings ok {} s"
  shows "okX (tm_destroy E t) s (\<lambda>_ s'. tc_inv E rx strings ok {} s' \<and> led k s' = led k s)"
  unfolding tm_destroy_def okX_simps
proof (rule okX_mono[OF resetAllData_ok[OF i, of t k]], elim conjE)
  fix x :: unit and s1
  assume s1: "tc_inv E rx strings ok {} s1" "led k s1 = led k s"
    "\<forall>m. map_of (tmaps s1) t = Some m \<longrightarrow> (\<forall>kd. named m kd = [])"
  let ?f = "\<lambda>s. case map_of (tmaps s) t of None \<Rightarrow> (Inr (), s) | Some m \<Rightarrow>
    bindX (registry (destroy_container (tm_link m))) (\<lambda>_ s. (Inr (), s\<lparr>tmaps := filter (\<lambda>x. fst x \<noteq> t) (tmaps s)\<rparr>)) s"
  show "okX ?f s1 (\<lambda>_ s'. tc_inv E rx strings ok {} s' \<and> led k s' = led k s)"
  proof (cases "map_of (tmaps s1) t")
    case None
    then show ?thesis using s1 by (simp add: okX_def)
  next
    case (Some m)
    have wf: "heap_wf (hp s1)" and ok: "tc_ok (shape (hp s1)) (alive (hp s1)) (tmaps s1) (handles s1) {}" using s1(1) by (auto simp: tc_inv_def)
    have a: "alive (hp s1) (tm_link m)" using tc_okD(3)[OF ok map_of_SomeD[OF Some]] by simp
    obtain h where h: "destroy_container (tm_link m) (hp s1) = Inr h" "heap_wf h" "shape h = shape (hp s1)" "globals h = globals (hp s1)"
      "\<And>b. alive h b \<longleftrightarrow> b \<noteq> tm_link m \<and> alive (hp s1) b" by (rule shape_destroy_container[OF wf a]) (rule that)
    have "tc_ok (shape h) (alive h) (filter (\<lambda>x. fst x \<noteq> t) (tmaps s1)) (handles s1) {}"
      unfolding h(3) using s1(3) Some h(5) by (intro tc_ok_thread_gone[OF ok Some]) auto
    moreover have "led k (s1\<lparr>hp := h\<rparr>) = led k s1"
      using exec_led(1)[OF s1(1), of "DestroyContainer (tm_link m)" h k] a h(1) by (simp add: alive_def)
    ultimately show ?thesis using Some h s1(1,2) by (simp add: okX_def bindX_def registry_def tc_inv_def led_def)
  qed
qed

section \<open>Wrappers\<close>

lemma tcStat_ok:
  assumes i: "tc_inv E rx strings ok {} s" and w: "fresh_alloc w s"
  shows "okX (tcStat E wid kd key c t w) s (\<lambda>r s'. tc_inv E rx strings ok {} s' \<and> paid k 0 s s' \<and>
    (case r of None \<Rightarrow> kd = KHist | Some j \<Rightarrow> \<exists>a. shape (hp s') j = Some (a, True, key, kd)))"
proof (cases "map_of (handles s) (wid, kd, key, t)")
  case (Some j)
  have "tc_ok (shape (hp s)) (alive (hp s)) (tmaps s) (handles s) {}" using i by (simp add: tc_inv_def)
  from tc_okD(5)[OF this map_of_SomeD[OF Some]] i Some show ?thesis by (simp add: okX_def tcStat_def paid_def)
next
  case None
  have "okX (bindX (get_entry E t w kd c key) (keep_handle (wid, kd, key, t))) s (\<lambda>r s'. tc_inv E rx strings ok {} s' \<and> paid k 0 s s' \<and>
    (case r of None \<Rightarrow> kd = KHist | Some j \<Rightarrow> \<exists>a. shape (hp s') j = Some (a, True, key, kd)))"
    unfolding okX_simps
  proof (rule okX_mono[OF get_entry_ok[OF i w, of t kd c key k]], elim conjE)
    fix r s1
    assume s1: "tc_inv E rx strings ok {} s1" "calm k s s1"
      and r: "case r of None \<Rightarrow> kd = KHist | Some e \<Rightarrow> entry_for s1 t kd key e"
    show "okX (keep_handle (wid, kd, key, t) r) s1 (\<lambda>r s'. tc_inv E rx strings ok {} s' \<and> paid k 0 s s' \<and>
      (case r of None \<Rightarrow> kd = KHist | Some j \<Rightarrow> \<exists>a. shape (hp s') j = Some (a, True, key, kd)))"
    proof (cases r)
      case r0: None
      then show ?thesis using s1 r calm_paid(2)[OF s1(2)] by (simp add: okX_def keep_handle_def)
    next
      case (Some e)
      with r obtain a where e: "shape (hp s1) (fst e) = Some (a, True, key, kd)" by (auto simp: entry_for_def)
      have "tc_ok (shape (hp s1)) (alive (hp s1)) (tmaps s1) (handles s1) {}" using s1(1) by (simp add: tc_inv_def)
      from tc_ok_handle[OF this e, of wid t] None s1(2)
      have "tc_ok (shape (hp s1)) (alive (hp s1)) (tmaps s1) (((wid, kd, key, t), fst e) # handles s1) {}" by (simp add: calm_def)
      with s1 e Some show ?thesis by (simp add: okX_def keep_handle_def tc_inv_def paid_def calm_def led_def)
    qed
  qed
  then show ?thesis by (simp add: okX_def tcStat_def None)
qed

lemma wrapper_ok:
  assumes i: "tc_inv E rx strings ok {} s" and w: "fresh_alloc w s" and kd: "kd \<noteq> KHist"
    and f: "\<And>p. kind_of (f p) = kind_of p" "\<And>p. kind_of p = kd \<Longrightarrow> ctr_content k key (f p) = ctr_content k key p + d"
  shows "okX (bindX (tcStat E wid kd key c t w) (\<lambda>r. on_stat r f)) s (\<lambda>_ s'. tc_inv E rx strings ok {} s' \<and> paid k d s s')"
  unfolding okX_simps
proof (rule okX_mono[OF tcStat_ok[OF i w, of wid kd key c t k]], elim conjE)
  fix r s1
  assume s1: "tc_inv E rx strings ok {} s1" "paid k 0 s s1"
    and r: "case r of None \<Rightarrow> kd = KHist | Some j \<Rightarrow> \<exists>a. shape (hp s1) j = Some (a, True, key, kd)"
  from r kd obtain j a where e: "r = Some j" "shape (hp s1) j = Some (a, True, key, kd)" by (auto split: option.splits)
  show "okX (on_stat r f) s1 (\<lambda>_ s'. tc_inv E rx strings ok {} s' \<and> paid k d s s')"
    unfolding e(1) on_stat_def option.case
    by (rule okX_mono[OF stat_update_ok[OF s1(1) e(2) f]]) (use s1(2) in \<open>auto simp: paid_def\<close>)
qed

lemma drop_handle_ok:
  assumes i: "tc_inv E rx strings ok {} s"
  shows "okX (drop_handle E h) s (\<lambda>_ s'. tc_inv E rx strings ok {} s' \<and> led k s' = led k s)"
proof (cases "map_of (handles s) h")
  case None
  then show ?thesis using i by (simp add: okX_def drop_handle_def)
next
  case (Some j)
  let ?s = "s\<lparr>handles := filter (\<lambda>x. fst x \<noteq> h) (handles s)\<rparr>"
  have ok: "tc_ok (shape (hp s)) (alive (hp s)) (tmaps s) (handles s) {}" using i by (simp add: tc_inv_def)
  have "snd ` {x \<in> set (handles s). \<not> fst x \<noteq> h} = {j}"
  proof -
    have "x \<in> set (handles s) \<Longrightarrow> fst x = h \<Longrightarrow> snd x = j" for x
      using Some tc_okD(8)[OF ok] by (metis map_of_is_SomeI option.inject prod.collapse)
    then show ?thesis using map_of_SomeD[OF Some] by force
  qed
  with tc_ok_drop[OF ok, of "\<lambda>x. fst x \<noteq> h"] i have q: "tc_inv E rx strings ok (insert j {}) ?s" by (simp add: tc_inv_def)
  obtain wid kd key t where h: "h = (wid, kd, key, t)" by (metis prod.exhaust)
  have "shape (hp ?s) j \<noteq> None" using tc_okD(5)[OF ok] map_of_SomeD[OF Some] h by fastforce
  from sp_release_ok[OF q this, of k] have "okX (sp_release E j) ?s (\<lambda>_ s'. tc_inv E rx strings ok {} s' \<and> led k s' = led k s)"
    by (rule okX_mono) (simp add: led_def)
  then show ?thesis by (simp add: okX_def drop_handle_def Some)
qed

end
