(* ===== verification/TCPublish.thy ===== *)
theory TCPublish
  imports TCOps
begin

text \<open>
  Publication: what the threads hold reaches the service; and the operations that go to the service, and the histogram
  wrappers.
\<close>

section \<open>Publication\<close>

text \<open>What a stat has not yet handed over.\<close>

definition pend :: "name \<Rightarrow> ('l, 'g) tcs \<Rightarrow> sid \<Rightarrow> int64" where
  "pend k s i = held (ctr_content k) (view (hp s) i)"

lemma aggregate_map_ok:
  assumes i: "tc_inv E rx strings ok {} s" and a: "alive (hp s) a"
  shows "okX (aggregate_map E a) s (\<lambda>_ s'. tc_inv E rx strings ok {} s' \<and> led k s' = led k s \<and>
    shape (hp s') = shape (hp s) \<and> alive (hp s') = alive (hp s) \<and> tmaps s' = tmaps s \<and>
    (\<forall>i. pend k s i = 0 \<longrightarrow> pend k s' i = 0) \<and> (\<forall>i b n kd. shape (hp s) i = Some (a, b, n, kd) \<longrightarrow> pend k s' i = 0))"
proof -
  have wf: "heap_wf (hp s)" and ok: "tc_ok (shape (hp s)) (alive (hp s)) (tmaps s) (handles s) {}"
    and g: "svc_good E rx strings ok (globals (hp s))" using i by (auto simp: tc_inv_def)
  obtain l where l: "links (hp s) a = Some l" "container l" using a by (auto simp: alive_def)
  obtain h ss where h: "aggregate (tl_aggregate E) a (hp s) = Inr (length ss, h)" "heap_wf h" "set ss = regd (hp s) a"
    "(view h, globals h) = agg_view (tl_aggregate E) (updateGlobalStatsOnRead l) ss (view (hp s), globals (hp s))"
    by (rule aggregate_view[OF wf l, where agg = "tl_aggregate E"])
  have "\<forall>s'\<in>set ss. \<forall>a n p. view (hp s) s' \<noteq> Some (a, False, n, p)" using h(3) by (auto simp: regd_def view_def)
  note A = tcc.agg_view_ledger[OF tcc.finite_view[OF wf] tc_books[OF i] g this h(4)[symmetric], of k]
  have sh: "shape h = shape (hp s)" using agg_view_shape[OF h(4)[symmetric]] by (auto simp: shape_def fun_eq_iff)
  have al: "alive h = alive (hp s)" by (rule aggregate_alive[OF h(1)])
  have "shape (hp s) i = Some (a, b, n, kd) \<Longrightarrow> i \<in> set ss" for i b n kd
    using tc_okD(6)[OF ok, of i a b n kd] h(3) by (auto simp: shape_def regd_def view_def)
  with A sh al h(1,2) ok show ?thesis
    by (auto simp: okX_def aggregate_map_def tc_inv_def led_def pend_def)
qed

lemma aggregate_maps_ok:
  fixes s :: "('l, ('s, 'h, 'c, 'f, 'e, 'x) service) tcs"
  assumes "tc_inv E rx strings ok {} s" "\<forall>a\<in>set as. alive (hp s) a"
  shows "okX (aggregate_maps E as) s (\<lambda>r s'. tc_inv E rx strings ok {} s' \<and> led k s' = led k s \<and> snd r = length as \<and>
    shape (hp s') = shape (hp s) \<and> tmaps s' = tmaps s \<and>
    (\<forall>i. pend k s i = 0 \<longrightarrow> pend k s' i = 0) \<and> (\<forall>i a b n kd. shape (hp s) i = Some (a, b, n, kd) \<longrightarrow> a \<in> set as \<longrightarrow> pend k s' i = 0))"
  using assms
proof (induction as arbitrary: s)
  case (Cons a as)
  have al: "alive (hp s) a" using Cons.prems(2) by simp
  show ?case unfolding aggregate_maps.simps okX_simps case_prod_beta
  proof (rule okX_mono[OF aggregate_map_ok[OF Cons.prems(1) al, of k]], elim conjE)
    fix c :: nat and s1 :: "('l, ('s, 'h, 'c, 'f, 'e, 'x) service) tcs"
    assume s1: "tc_inv E rx strings ok {} s1" "led k s1 = led k s" "shape (hp s1) = shape (hp s)" "alive (hp s1) = alive (hp s)"
      "tmaps s1 = tmaps s" "\<forall>i. pend k s i = 0 \<longrightarrow> pend k s1 i = 0" "\<forall>i b n kd. shape (hp s) i = Some (a, b, n, kd) \<longrightarrow> pend k s1 i = 0"
    have "\<forall>b\<in>set as. alive (hp s1) b" using Cons.prems(2) s1(4) by simp
    note IH = Cons.IH[OF s1(1) this]
    show "okX (aggregate_maps E as) s1 (\<lambda>r s'. tc_inv E rx strings ok {} s' \<and>
        led k s' = led k s \<and> snd (c + fst r, snd r + 1) = length (a # as) \<and> shape (hp s') = shape (hp s) \<and> tmaps s' = tmaps s \<and>
        (\<forall>i. pend k s i = 0 \<longrightarrow> pend k s' i = 0) \<and>
        (\<forall>i b b' n kd. shape (hp s) i = Some (b, b', n, kd) \<longrightarrow> b \<in> set (a # as) \<longrightarrow> pend k s' i = 0))"
    proof (rule okX_mono[OF IH], elim conjE)
      fix r :: "nat \<times> nat" and s2 :: "('l, ('s, 'h, 'c, 'f, 'e, 'x) service) tcs"
      assume s2: "tc_inv E rx strings ok {} s2" "led k s2 = led k s1" "snd r = length as" "shape (hp s2) = shape (hp s1)"
        "tmaps s2 = tmaps s1" "\<forall>i. pend k s1 i = 0 \<longrightarrow> pend k s2 i = 0"
        "\<forall>i a b n kd. shape (hp s1) i = Some (a, b, n, kd) \<longrightarrow> a \<in> set as \<longrightarrow> pend k s2 i = 0"
      have "\<forall>i b b' n kd. shape (hp s) i = Some (b, b', n, kd) \<longrightarrow> b \<in> set (a # as) \<longrightarrow> pend k s2 i = 0"
        using s1(3,7) s2(6,7) by (metis set_ConsD)
      moreover have "\<forall>i. pend k s i = 0 \<longrightarrow> pend k s2 i = 0" using s1(6) s2(6) by simp
      ultimately show "tc_inv E rx strings ok {} s2 \<and> led k s2 = led k s \<and> snd (c + fst r, snd r + 1) = length (a # as) \<and>
        shape (hp s2) = shape (hp s) \<and> tmaps s2 = tmaps s \<and> (\<forall>i. pend k s i = 0 \<longrightarrow> pend k s2 i = 0) \<and>
        (\<forall>i b b' n kd. shape (hp s) i = Some (b, b', n, kd) \<longrightarrow> b \<in> set (a # as) \<longrightarrow> pend k s2 i = 0)"
        using s1 s2 by simp
    qed
  qed
qed simp

text \<open>
  A stat that a wrapper still holds although the map of its thread has gone is out of the publisher's reach until the
  wrapper lets go of it.
\<close>

definition no_orphans :: "('l, 'g) tcs \<Rightarrow> bool" where
  "no_orphans s \<longleftrightarrow> (\<forall>x\<in>set (handles s).
     case stats (hp s) (snd x) of None \<Rightarrow> True | Some y \<Rightarrow> lp_get (link_ptr y) \<in> (\<lambda>z. tm_link (snd z)) ` set (tmaps s))"

lemma no_orphans_link:
  assumes i: "tc_inv E rx strings ok {} s" and n: "no_orphans s" and sh: "shape (hp s) j = Some (a, b, nm, kd)"
  shows "a \<in> (\<lambda>z. tm_link (snd z)) ` set (tmaps s)"
proof -
  have ok: "tc_ok (shape (hp s)) (alive (hp s)) (tmaps s) (handles s) {}" using i by (simp add: tc_inv_def)
  from tc_okD(7)[OF ok sh] consider "j \<in> snd ` set (handles s)"
    | x kd' where "x \<in> set (tmaps s)" "j \<in> fst ` set (named (snd x) kd')"
    unfolding held_by_def by blast
  then show ?thesis
  proof cases
    case 1
    from sh obtain y where "stats (hp s) j = Some y" "lp_get (link_ptr y) = a"
      by (cases "stats (hp s) j") (auto simp: shape_def view_def)
    with 1 n show ?thesis by (fastforce simp: no_orphans_def)
  next
    case (2 x kd')
    then obtain e where e: "e \<in> set (named (snd x) kd')" "fst e = j" by auto
    from entries_okD(1)[OF tc_okD(4)[OF ok 2(1)] e(1)] sh e(2) 2(1) show ?thesis by auto
  qed
qed

lemma publish_all_ok:
  assumes i: "tc_inv E rx strings ok {} s"
  shows "okX (publish_all E) s (\<lambda>r s'. tc_inv E rx strings ok {} s' \<and> led k s' = led k s \<and> snd r = length (tmaps s) \<and>
    (no_orphans s \<longrightarrow> counter_value k (counters (globals (hp s'))) = led k s))"
proof -
  have ok: "tc_ok (shape (hp s)) (alive (hp s)) (tmaps s) (handles s) {}" using i by (simp add: tc_inv_def)
  let ?as = "map (\<lambda>x. tm_link (snd x)) (tmaps s)"
  have "\<forall>a\<in>set ?as. alive (hp s) a" using tc_okD(3)[OF ok] by auto
  from aggregate_maps_ok[OF i this, of k] have "okX (aggregate_maps E ?as) s (\<lambda>r s'. tc_inv E rx strings ok {} s' \<and> led k s' = led k s \<and>
    snd r = length (tmaps s) \<and> (no_orphans s \<longrightarrow> counter_value k (counters (globals (hp s'))) = led k s))"
  proof (rule okX_mono, elim conjE)
    fix r s1
    assume s1: "tc_inv E rx strings ok {} s1" "led k s1 = led k s" "snd r = length ?as" "shape (hp s1) = shape (hp s)"
      "\<forall>i a b n kd. shape (hp s) i = Some (a, b, n, kd) \<longrightarrow> a \<in> set ?as \<longrightarrow> pend k s1 i = 0"
    have "no_orphans s \<Longrightarrow> held (ctr_content k) (view (hp s1) j) = 0" if "j \<in> dom (view (hp s1))" for j
    proof -
      assume n: "no_orphans s"
      from that obtain a b nm kd where "shape (hp s) j = Some (a, b, nm, kd)" unfolding s1(4)[symmetric] shape_def by auto
      with no_orphans_link[OF i n this] s1(5) have "pend k s1 j = 0" by simp
      then show ?thesis by (simp add: pend_def)
    qed
    then have "no_orphans s \<Longrightarrow> led k s1 = counter_value k (counters (globals (hp s1)))" by (simp add: led_def ledger_def)
    with s1 show "tc_inv E rx strings ok {} s1 \<and> led k s1 = led k s \<and> snd r = length (tmaps s) \<and>
      (no_orphans s \<longrightarrow> counter_value k (counters (globals (hp s1))) = led k s)" by simp
  qed
  then show ?thesis by (simp add: okX_def publish_all_def)
qed

text \<open>Each allocation of \<open>add_each\<close> is new when it is made.\<close>

fun fresh_each ::
  "('s, 'h, 'l, 'c, 'p, 'r) tenv \<Rightarrow> nat \<Rightarrow> (nat \<times> name \<times> alloc \<times> bool \<times> int64) list \<Rightarrow>
   ('l, ('s, 'h, 'c, 'f, 'e, 'x) service) tcs \<Rightarrow> bool" where
  "fresh_each E t [] s \<longleftrightarrow> True"
| "fresh_each E t ((wid, key, w, ok, v) # xs) s \<longleftrightarrow>
     fresh_alloc w s \<and> fresh_each E t xs (snd (TimeseriesWrapper_add E wid key None t w ok v s))"

definition fresh_publish ::
  "('s, 'h, 'l, 'c, 'p, 'r) tenv \<Rightarrow> nat \<Rightarrow> (nat \<Rightarrow> alloc) \<Rightarrow> (nat \<Rightarrow> bool) \<Rightarrow> int64 \<Rightarrow>
   ('l, ('s, 'h, 'c, 'f, 'e, 'x) service) tcs \<Rightarrow> bool" where
  "fresh_publish E t ws oks usec s \<longleftrightarrow>
     (case publish_all E s of
        (Inl e, s1) \<Rightarrow> True
      | (Inr r, s1) \<Rightarrow> fresh_each E t (publish_values ws oks [usec, of_nat (fst r), of_nat (snd r)]) s1)"

lemma okX_run: "okX m s Q \<longleftrightarrow> (\<exists>x s'. m s = (Inr x, s') \<and> Q x s')"
  by (auto simp: okX_def split: prod.splits sum.splits)

lemma wrapper_add_ok:
  assumes "tc_inv E rx strings ok {} s" "fresh_alloc w s"
  shows "okX (TimeseriesWrapper_add E wid key c t w ok' v) s (\<lambda>_ s'. tc_inv E rx strings ok {} s' \<and> paid k 0 s s')"
  unfolding TimeseriesWrapper_add_def by (rule wrapper_ok[OF assms]) auto

lemma add_each_ok:
  fixes s :: "('l, ('s, 'h, 'c, 'f, 'e, 'x) service) tcs"
  assumes "tc_inv E rx strings ok {} s" "fresh_each E t xs s"
  shows "okX (add_each E t xs) s (\<lambda>_ s'. tc_inv E rx strings ok {} s' \<and> paid k 0 s s')"
  using assms
proof (induction xs arbitrary: s)
  case Nil
  then show ?case by (simp add: paid_def)
next
  case (Cons x xs)
  obtain wid key w ok' v where x: "x = (wid, key, w, ok', v)" by (metis prod.exhaust)
  with Cons.prems(2) have w: "fresh_alloc w s" by simp
  from wrapper_add_ok[OF Cons.prems(1) w, of wid key None t ok' v k] obtain u s1 where
    s1: "TimeseriesWrapper_add E wid key None t w ok' v s = (Inr u, s1)" "tc_inv E rx strings ok {} s1" "paid k 0 s s1"
    unfolding okX_run by blast
  with Cons.prems(2) x have "fresh_each E t xs s1" by simp
  from Cons.IH[OF s1(2) this] have "okX (add_each E t xs) s1 (\<lambda>_ s'. tc_inv E rx strings ok {} s' \<and> paid k 0 s s')"
    by (rule okX_mono) (use s1(3) in \<open>auto simp: paid_def\<close>)
  then show ?case using s1(1) by (simp add: okX_def bindX_def x)
qed

lemma publishStats_ok:
  assumes i: "tc_inv E rx strings ok {} s" and f: "fresh_publish E t ws oks usec s"
  shows "okX (publishStats E t ws oks usec) s (\<lambda>_ s'. tc_inv E rx strings ok {} s' \<and> led k s' = led k s \<and>
    (no_orphans s \<longrightarrow> counter_value k (counters (globals (hp s'))) = led k s))"
proof -
  from publish_all_ok[OF i, of k] obtain r s1 where
    s1: "publish_all E s = (Inr r, s1)" "tc_inv E rx strings ok {} s1" "led k s1 = led k s"
      "no_orphans s \<longrightarrow> counter_value k (counters (globals (hp s1))) = led k s"
    unfolding okX_run by blast
  let ?xs = "publish_values ws oks [usec, of_nat (fst r), of_nat (snd r)]"
  have "fresh_each E t ?xs s1" using f s1(1) by (simp add: fresh_publish_def)
  from add_each_ok[OF s1(2) this, of k] have "okX (add_each E t ?xs) s1 (\<lambda>_ s'. tc_inv E rx strings ok {} s' \<and> led k s' = led k s \<and>
    (no_orphans s \<longrightarrow> counter_value k (counters (globals (hp s'))) = led k s))"
    by (rule okX_mono) (use s1(3,4) in \<open>auto simp: paid_def\<close>)
  then show ?thesis using s1(1) by (simp add: okX_def publishStats_def bindX_def case_prod_beta)
qed

section \<open>Operations on the service\<close>

text \<open>A call that goes to the service alone changes the account by what it does to the counter there.\<close>

definition shift :: "name \<Rightarrow> ('s, 'h, 'c, 'f, 'e, 'x) service \<Rightarrow> ('s, 'h, 'c, 'f, 'e, 'x) service \<Rightarrow> int64" where
  "shift k g g' = counter_value k (counters g') - counter_value k (counters g)"

lemma globals_ok:
  assumes "tc_inv E rx strings ok X s" "svc_good E rx strings ok g"
  shows "tc_inv E rx strings ok X (set_globals g s)" "led k (set_globals g s) = led k s + shift k (globals (hp s)) g"
  using assms by (simp_all add: tc_inv_def led_def ledger_def shift_def)

lemma setCounter_ok:
  assumes i: "tc_inv E rx strings ok {} s"
  shows "okX (tc_setCounter E key v) s (\<lambda>r s'. tc_inv E rx strings ok {} s' \<and> r = v \<and> counter_value key (counters (globals (hp s'))) = v \<and>
    led k s' = led k s + (if k = key then v - counter_value key (counters (globals (hp s))) else 0))"
proof -
  let ?c = "counters (globals (hp s))" and ?P = "svc_params E"
  obtain r c where r: "setCounter (cops ?P) id key v ?c = (r, c)" by (metis prod.exhaust)
  have g: "svc_good E rx strings ok (globals (hp s))" using i by (simp add: tc_inv_def)
  then have C: "regex_cache (cops ?P) rx strings ok" "reliable (cops ?P) ok" "lockstep strings ok ?c"
    by (auto simp: svc_good_def counters_good_def)
  have l: "lockstep strings ok (id ?c)" using C(3) by simp
  note M = modify_ok[OF C l r[unfolded setCounter_def] refl]
  have "svc_good E rx strings ok (globals (hp s)\<lparr>counters := c\<rparr>)" using g M(1) by (simp add: svc_good_def counters_good_def)
  note G = globals_ok[OF i this]
  have v: "counter_value j c = (if j = key then v else counter_value j ?c)" for j using M(3)[of j] by (auto simp: counter_value_def)
  have "r = Inr v" using M(2) by simp
  then have "okX (on_service (counter_op (setCounter (cops ?P) id key v))) s (\<lambda>r s'. tc_inv E rx strings ok {} s' \<and> r = v \<and>
    counter_value key (counters (globals (hp s'))) = v \<and> led k s' = led k s + (if k = key then v - counter_value key ?c else 0))"
    by (intro okX_service[where x = v and g = "globals (hp s)\<lparr>counters := c\<rparr>"])
      (use r G v in \<open>simp_all add: counter_op_def shift_def\<close>)
  then show ?thesis by (simp add: tc_setCounter_def)
qed

lemma clearCounter_tc_ok:
  assumes i: "tc_inv E rx strings ok {} s"
  shows "okX (tc_clearCounter E key) s (\<lambda>_ s'. tc_inv E rx strings ok {} s' \<and> cm_find key (counters (globals (hp s'))) = None \<and>
    led k s' = led k s - (if k = key then counter_value key (counters (globals (hp s))) else 0))"
proof -
  let ?c = "counters (globals (hp s))" and ?P = "svc_params E"
  let ?g = "globals (hp s)\<lparr>counters := clearCounter (cops ?P) key ?c\<rparr>"
  have g: "svc_good E rx strings ok (globals (hp s))" using i by (simp add: tc_inv_def)
  then have C: "regex_cache (cops ?P) rx strings ok" "lockstep strings ok ?c" by (auto simp: svc_good_def counters_good_def)
  have f: "cm_find j (clearCounter (cops ?P) key ?c) = (if j = key then None else cm_find j ?c)" for j
    by (rule clearCounter_ok(2)[OF C])
  have "svc_good E rx strings ok ?g" using g clearCounter_ok(1)[OF C, of key] by (simp add: svc_good_def counters_good_def)
  note G = globals_ok[OF i this]
  show ?thesis unfolding tc_clearCounter_def
    by (rule okX_service[where x = "()" and g = ?g]) (use G f in \<open>simp_all add: shift_def counter_value_def\<close>)
qed

lemma fold_good: "\<forall>e\<in>set xs. \<forall>s. sdata_good P rx strings ok (f e s) = sdata_good P rx strings ok s \<Longrightarrow>
  sdata_good P rx strings ok (fold f xs s) = sdata_good P rx strings ok s"
  by (induction xs arbitrary: s) auto

lemma zeroStats_good:
  assumes "svc_good E rx strings ok g"
  shows "svc_good E rx strings ok (zeroStats (svc_params E) g)" "counter_value k (counters (zeroStats (svc_params E) g)) = 0"
proof -
  have "sdata_good (svc_params E) rx strings ok (clearAllHistograms (svc_params E) (clearAllStats (svc_params E) (exports g))) =
    sdata_good (svc_params E) rx strings ok (exports g)"
    by (simp add: clearAllHistograms_def clearAllStats_def fold_good)
  then show "svc_good E rx strings ok (zeroStats (svc_params E) g)"
    using assms by (simp add: svc_good_def zeroStats_def counters_good_def zeroCounters_ok(1))
  show "counter_value k (counters (zeroStats (svc_params E) g)) = 0"
    by (simp add: zeroStats_def counter_value_def zeroCounters_ok(2) split: option.splits)
qed

text \<open>\<open>zeroStats\<close> publishes first, so that nothing the threads hold survives it.\<close>

lemma tc_zeroStats_ok:
  assumes i: "tc_inv E rx strings ok {} s" and f: "fresh_publish E t ws oks usec s"
  shows "okX (tc_zeroStats E t ws oks usec) s (\<lambda>_ s'. tc_inv E rx strings ok {} s' \<and>
    counter_value k (counters (globals (hp s'))) = 0 \<and>
    led k s' = led k s - counter_value k (counters (globals (hp (snd (publishStats E t ws oks usec s))))) \<and>
    (no_orphans s \<longrightarrow> led k s' = 0))"
proof -
  from publishStats_ok[OF i f, of k] obtain u s1 where s1: "publishStats E t ws oks usec s = (Inr u, s1)"
    "tc_inv E rx strings ok {} s1" "led k s1 = led k s" "no_orphans s \<longrightarrow> counter_value k (counters (globals (hp s1))) = led k s"
    unfolding okX_run by blast
  have "svc_good E rx strings ok (globals (hp s1))" using s1(2) by (simp add: tc_inv_def)
  note Z = zeroStats_good[OF this]
  note G = globals_ok(1)[OF s1(2) Z(1)] globals_ok(2)[OF s1(2) Z(1), of k]
  show ?thesis using s1 G Z(2)[of k]
    by (simp add: okX_def tc_zeroStats_def bindX_def on_service_def shift_def)
qed

section \<open>Histogram wrappers\<close>

lemma addHistogram_copy_good:
  "sdata_good P rx strings ok s \<Longrightarrow> sdata_good P rx strings ok (snd (addHistogram_copy P nm h s))"
proof -
  assume g: "sdata_good P rx strings ok s"
  let ?s = "hist_insert nm (h_clear (hops P) h) s"
  have "sdata_good P rx strings ok (snd (exportBuckets P (next_ptr s) nm ?s))"
  proof (cases "h_numBuckets (hops P) (h_clear (hops P) h) = 0")
    case True
    then show ?thesis using g by (simp add: exportBuckets_def)
  next
    case False
    then show ?thesis using exportBuckets_ok[of P rx strings ok ?s "next_ptr s" nm] g by auto
  qed
  then show ?thesis using g
    by (auto simp: addHistogram_copy_def getOrCreateUnlocked_def split: option.splits prod.splits sum.splits)
qed

lemma exportPercentile_good:
  "sdata_good P rx strings ok s \<Longrightarrow> sdata_good P rx strings ok (snd (exportPercentile P nm q s))"
proof -
  assume g: "sdata_good P rx strings ok s"
  have "sdata_good P rx strings ok (snd (exportPercentile_hist P p nm q s))" for p
  proof (cases "h_numBuckets (hops P) (hist_heap (wld s) p) = 0 \<or> q < 0 \<or> 100 < q")
    case True
    then show ?thesis using g by (auto simp: exportPercentile_hist_def forEachPercentileName_def)
  next
    case False
    then show ?thesis using exportPercentile_hist_ok[OF g, of p q nm] by auto
  qed
  with g show ?thesis by (auto simp: exportPercentile_def split: option.splits prod.splits sum.splits) (metis snd_conv)+
qed

lemma exportStat_type_good:
  "sdata_good P rx strings ok s \<Longrightarrow> sdata_good P rx strings ok (snd (exportStat_type P nm ty s))"
  using exportStat_hist_ok[of P rx strings ok s _ nm ty]
  by (auto simp: exportStat_type_def split: option.splits prod.splits sum.splits) (metis snd_conv)+

definition keeps_good :: "('s, 'h, 'l, 'c, 'p, 'r) tenv \<Rightarrow> (regex \<Rightarrow> name \<Rightarrow> bool) \<Rightarrow> ('c \<Rightarrow> name set) \<Rightarrow> ('c \<Rightarrow> bool) \<Rightarrow>
   (('s, 'h, 'c, 'f, 'e, 'x) service \<Rightarrow> (unit, 's, 'h, 'c, 'f, 'e, 'x) svc_result) \<Rightarrow> bool" where
  "keeps_good E rx strings ok f \<longleftrightarrow>
     (\<forall>g. svc_good E rx strings ok g \<longrightarrow> svc_good E rx strings ok (snd (f g)) \<and> counters (snd (f g)) = counters g)"

lemma each_service_good:
  fixes fs :: "(('s, 'h, 'c, 'f, 'e, 'x) service \<Rightarrow> (unit, 's, 'h, 'c, 'f, 'e, 'x) svc_result) list"
  assumes "\<forall>f\<in>set fs. keeps_good E rx strings ok f"
  shows "keeps_good E rx strings ok (each_service fs)"
  using assms
proof (induction fs)
  case (Cons f fs)
  show ?case unfolding keeps_good_def
  proof (intro allI impI)
    fix g :: "('s, 'h, 'c, 'f, 'e, 'x) service"
    assume g: "svc_good E rx strings ok g"
    obtain r g1 where r: "f g = (r, g1)" by fastforce
    with Cons.prems g have "svc_good E rx strings ok g1" "counters g1 = counters g" by (auto simp: keeps_good_def)
    with Cons r show "svc_good E rx strings ok (snd (each_service (f # fs) g)) \<and> counters (snd (each_service (f # fs) g)) = counters g"
      by (cases r) (auto simp: keeps_good_def)
  qed
qed (simp add: keeps_good_def)

lemma spec_apply_good:
  "keeps_good E rx strings ok (spec_apply (svc_params E) key sp ::
     ('s, 'h, 'c, 'f, 'e, 'x) service \<Rightarrow> (unit, 's, 'h, 'c, 'f, 'e, 'x) svc_result)"
proof -
  let ?P = "svc_params E"
  let ?k = "keeps_good E rx strings ok :: (('s, 'h, 'c, 'f, 'e, 'x) service \<Rightarrow> (unit, 's, 'h, 'c, 'f, 'e, 'x) svc_result) \<Rightarrow> bool"
  have "?k (exportHistogram ?P key (Type ty))" "?k (exportHistogramPercentile ?P key q)" for ty q
    using exportStat_type_good exportPercentile_good
    by (auto simp: keeps_good_def exportHistogram_def exportHistogramPercentile_def on_exports_def svc_good_def case_prod_beta)
  then have e: "?k (each_service (map (\<lambda>stat. exportHistogram ?P key (Type stat)) (hs_stats sp) @
    map (exportHistogramPercentile ?P key) (hs_percentiles sp)))" by (intro each_service_good) auto
  show ?thesis unfolding keeps_good_def
  proof (intro allI impI)
    fix g :: "('s, 'h, 'c, 'f, 'e, 'x) service"
    assume g: "svc_good E rx strings ok g"
    obtain r g1 where r: "addHistogram_prototype ?P key (h_make (hops ?P) (hs_bucketWidth sp) (hs_min sp) (hs_max sp) (hs_levels sp)) g = (r, g1)"
      by fastforce
    have "svc_good E rx strings ok g1 \<and> counters g1 = counters g" using r g addHistogram_copy_good
      by (auto simp: addHistogram_prototype_def on_exports_def svc_good_def case_prod_beta)
    with e r show "svc_good E rx strings ok (snd (spec_apply ?P key sp g)) \<and> counters (snd (spec_apply ?P key sp g)) = counters g"
      by (cases r) (auto simp: spec_apply_def keeps_good_def Let_def)
  qed
qed

text \<open>
  A call that may throw, or find no histogram, but touches no stat that is gone.
\<close>

definition endsX :: "('a, 'l, 'g) tcm \<Rightarrow> ('l, 'g) tcs \<Rightarrow> (('l, 'g) tcs \<Rightarrow> bool) \<Rightarrow> bool" where
  "endsX m s Q \<longleftrightarrow> (case m s of (Inl e, s') \<Rightarrow> (\<forall>x. e \<noteq> Crash x) \<and> Q s' | (Inr x, s') \<Rightarrow> Q s')"

lemma okX_ends: "okX m s (\<lambda>_. Q) \<Longrightarrow> endsX m s Q"
  by (auto simp: okX_def endsX_def split: prod.splits sum.splits)

lemma ends_bind:
  assumes "endsX m s P" "\<And>x s1. m s = (Inr x, s1) \<Longrightarrow> P s1 \<Longrightarrow> endsX (f x) s1 Q" "\<And>s'. P s' \<Longrightarrow> Q s'"
  shows "endsX (bindX m f) s Q"
  using assms by (fastforce simp: endsX_def bindX_def split: prod.splits sum.splits)

lemma apply_ends:
  assumes i: "tc_inv E rx strings ok {} s"
  shows "endsX (call_once wid (doApplySpecLocked E wid key sp)) s (\<lambda>s'. tc_inv E rx strings ok {} s' \<and> paid k 0 s s' \<and>
    stats (hp s') = stats (hp s) \<and> links (hp s') = links (hp s))"
proof (cases "wid \<in> set (once_done s) \<or> wid \<in> set (spec_taken s)")
  case True
  then show ?thesis using i by (auto simp: endsX_def call_once_def doApplySpecLocked_def paid_def bindX_def)
next
  case False
  let ?s = "s\<lparr>spec_taken := wid # spec_taken s\<rparr>"
  obtain r g where r: "spec_apply (svc_params E) key sp (globals (hp s)) = (r, g)" by fastforce
  have "svc_good E rx strings ok (globals (hp s))" using i by (simp add: tc_inv_def)
  with spec_apply_good[of E rx strings ok key sp] r have g: "svc_good E rx strings ok g" "counters g = counters (globals (hp ?s))"
    by (auto simp: keeps_good_def)
  have "tc_inv E rx strings ok {} ?s" "led k ?s = led k s" using i by (simp_all add: tc_inv_def led_def)
  with inv_globals(1)[OF this(1) g] inv_globals(2)[OF this(1) g, of k] False r g(2) show ?thesis
    by (cases r) (auto simp: endsX_def call_once_def doApplySpecLocked_def bindX_def on_service_def paid_def calm_def tc_inv_def led_def
        split: sum.splits)
qed

lemma histogram_wrapper_ends:
  assumes i: "tc_inv E rx strings ok {} s" and w: "fresh_alloc w s"
  shows "endsX (HistogramWrapper_add E wid key sp t w v) s (\<lambda>s'. tc_inv E rx strings ok {} s' \<and> paid k 0 s s')"
proof -
  let ?f = "on_hist (tlh_addValue (local_hist_ops E) v)"
  have upd: "endsX (on_stat r ?f) s1 (\<lambda>s'. tc_inv E rx strings ok {} s' \<and> paid k 0 s s')"
    if "tc_inv E rx strings ok {} s1" "paid k 0 s s1" "\<And>j. r = Some j \<Longrightarrow> \<exists>a. shape (hp s1) j = Some (a, True, key, KHist)" for r s1
  proof (cases r)
    case None
    then show ?thesis using that by (simp add: endsX_def on_stat_def)
  next
    case (Some j)
    with that(3) obtain a where "shape (hp s1) j = Some (a, True, key, KHist)" by blast
    from stat_update_ok[OF that(1) this, of ?f k 0] have "okX (registry (update_stat j ?f)) s1 (\<lambda>_ s'. tc_inv E rx strings ok {} s' \<and> paid k 0 s1 s')"
      by simp
    then show ?thesis unfolding Some on_stat_def option.case
      by (intro okX_ends) (rule okX_mono, use that(2) in \<open>auto simp: paid_def\<close>)
  qed
  have stat: "endsX (bindX (tcStat E (wid, []) KHist key None t w) (\<lambda>r. on_stat r ?f)) s1 (\<lambda>s'. tc_inv E rx strings ok {} s' \<and> paid k 0 s s')"
    if s1: "tc_inv E rx strings ok {} s1" "paid k 0 s s1" "fresh_alloc w s1" for s1
  proof -
    from tcStat_ok[OF s1(1,3), of "(wid, [])" KHist key None t k] obtain r s2 where
      s2: "tcStat E (wid, []) KHist key None t w s1 = (Inr r, s2)" "tc_inv E rx strings ok {} s2" "paid k 0 s1 s2"
        "case r of None \<Rightarrow> KHist = KHist | Some j \<Rightarrow> \<exists>a. shape (hp s2) j = Some (a, True, key, KHist)"
      unfolding okX_run by blast
    have "paid k 0 s s2" using s1(2) s2(3) by (simp add: paid_def)
    moreover have "\<exists>a. shape (hp s2) j = Some (a, True, key, KHist)" if "r = Some j" for j using s2(4) that by simp
    ultimately show ?thesis using upd[OF s2(2), of r] s2(1) by (simp add: endsX_def bindX_def)
  qed
  show ?thesis
  proof (cases "map_of (handles s) ((wid, []), KHist, key, t)")
    case (Some j)
    then have "HistogramWrapper_add E wid key sp t w v s = bindX (tcStat E (wid, []) KHist key None t w) (\<lambda>r. on_stat r ?f) s"
      by (simp add: HistogramWrapper_add_def tcHistogram_def tcStat_def bindX_def)
    with stat[OF i _ w] show ?thesis by (simp add: endsX_def paid_def)
  next
    case None
    have e: "HistogramWrapper_add E wid key sp t w v s =
      bindX (call_once wid (doApplySpecLocked E wid key sp)) (\<lambda>_. bindX (tcStat E (wid, []) KHist key None t w) (\<lambda>r. on_stat r ?f)) s"
    proof -
      have "map_of (handles s1) ((wid, []), KHist, key, t) = None" if "call_once wid (doApplySpecLocked E wid key sp) s = (Inr (), s1)" for s1
        using that None by (auto simp: call_once_def doApplySpecLocked_def bindX_def on_service_def split: if_splits sum.splits prod.splits)
      then show ?thesis using None
        by (auto simp: HistogramWrapper_add_def tcHistogram_def tcStat_def bindX_def split: prod.splits sum.splits)
    qed
    have "endsX (bindX (call_once wid (doApplySpecLocked E wid key sp)) (\<lambda>_. bindX (tcStat E (wid, []) KHist key None t w) (\<lambda>r. on_stat r ?f))) s
      (\<lambda>s'. tc_inv E rx strings ok {} s' \<and> paid k 0 s s')"
      by (rule ends_bind[OF apply_ends[OF i, of wid key sp k]]) (use stat w in \<open>auto simp: fresh_alloc_def\<close>)
    then show ?thesis by (simp add: endsX_def e)
  qed
qed

end
