(* ===== verification/TCRun.thy ===== *)
theory TCRun
  imports TCPublish
begin

text \<open>
  Runs of \<open>ThreadCachedServiceData\<close> over any number of threads, wrappers and calls: no call touches a stat that is gone,
  a stat lives exactly as long as a map or a wrapper holds it, and no increment of a counter is lost on its way to the
  service.
\<close>

section \<open>Calls\<close>

datatype ('s, 'g) tc_op =
    AddStatValue nat alloc name bool int64
  | AddStatValueAggregated nat alloc name bool int64 int64
  | AddStatValueType nat alloc name bool int64 export_type
  | ClearStat nat alloc name export_type
  | AddHistogramValue nat alloc name int64
  | AddHistAndStatValue nat alloc alloc name bool int64
  | IncrementCounter nat alloc name int64
  | ClearTimeseries nat alloc name
  | ResetThread nat
  | ThreadExit nat
  | WrapIncrement nat name nat alloc int64
  | WrapAdd nat name "'s option" nat alloc bool int64
  | WrapAddAggregated nat name "'s option" nat alloc bool int64 int64
  | WrapHistogram nat name "'s hist_spec" nat alloc int64
  | DropHandle handle
  | SetCounter name int64
  | ClearCounter name
  | Publish nat "nat \<Rightarrow> alloc" "nat \<Rightarrow> bool" int64
  | ZeroStats nat "nat \<Rightarrow> alloc" "nat \<Rightarrow> bool" int64
  | Service 'g                       \<comment> \<open>anything else that changes the service\<close>

fun tc_exec ::
  "('s, 'h, 'l, 'c, 'p, 'r) tenv \<Rightarrow> ('s, ('s, 'h, 'c, 'f, 'e, 'x) service) tc_op \<Rightarrow>
   (unit, 'l, ('s, 'h, 'c, 'f, 'e, 'x) service) tcm" where
  "tc_exec E (AddStatValue t w n ok v) = tm_addStatValue E t w n ok v"
| "tc_exec E (AddStatValueAggregated t w n ok sm c) = tm_addStatValueAggregated E t w n ok sm c"
| "tc_exec E (AddStatValueType t w n ok v ty) = tm_addStatValueType E t w n ok v ty"
| "tc_exec E (ClearStat t w n ty) = tm_clearStat E t w n ty"
| "tc_exec E (AddHistogramValue t w n v) = tm_addHistogramValue E t w n v"
| "tc_exec E (AddHistAndStatValue t w w' n ok v) = tc_addHistAndStatValue E t w w' n ok v"
| "tc_exec E (IncrementCounter t w n a) = tm_incrementCounter E t w n a"
| "tc_exec E (ClearTimeseries t w n) = clearTimeseriesSafe E t w n"
| "tc_exec E (ResetThread t) = tm_resetAllData E t"
| "tc_exec E (ThreadExit t) = tm_destroy E t"
| "tc_exec E (WrapIncrement wid n t w a) = CounterWrapper_incrementValue E wid n t w a"
| "tc_exec E (WrapAdd wid n c t w ok v) = TimeseriesWrapper_add E wid n c t w ok v"
| "tc_exec E (WrapAddAggregated wid n c t w ok sm m) = TimeseriesWrapper_addAggregated E wid n c t w ok sm m"
| "tc_exec E (WrapHistogram wid n sp t w v) = HistogramWrapper_add E wid n sp t w v"
| "tc_exec E (DropHandle h) = drop_handle E h"
| "tc_exec E (SetCounter n v) = bindX (tc_setCounter E n v) (\<lambda>_. retX ())"
| "tc_exec E (ClearCounter n) = tc_clearCounter E n"
| "tc_exec E (Publish t ws oks usec) = publishStats E t ws oks usec"
| "tc_exec E (ZeroStats t ws oks usec) = tc_zeroStats E t ws oks usec"
| "tc_exec E (Service g) = (\<lambda>s. (Inr (), set_globals g s))"

text \<open>The allocator hands out what is not in use, and the rest of the process leaves the service well formed.\<close>

fun tc_enabled ::
  "('s, 'h, 'l, 'c, 'p, 'r) tenv \<Rightarrow> (regex \<Rightarrow> name \<Rightarrow> bool) \<Rightarrow> ('c \<Rightarrow> name set) \<Rightarrow> ('c \<Rightarrow> bool) \<Rightarrow>
   ('s, ('s, 'h, 'c, 'f, 'e, 'x) service) tc_op \<Rightarrow> ('l, ('s, 'h, 'c, 'f, 'e, 'x) service) tcs \<Rightarrow> bool" where
  "tc_enabled E rx strings ok (AddStatValue t w n b v) s \<longleftrightarrow> fresh_alloc w s"
| "tc_enabled E rx strings ok (AddStatValueAggregated t w n b sm c) s \<longleftrightarrow> fresh_alloc w s"
| "tc_enabled E rx strings ok (AddStatValueType t w n b v ty) s \<longleftrightarrow> fresh_alloc w s"
| "tc_enabled E rx strings ok (ClearStat t w n ty) s \<longleftrightarrow> fresh_alloc w s"
| "tc_enabled E rx strings ok (AddHistogramValue t w n v) s \<longleftrightarrow> fresh_alloc w s"
| "tc_enabled E rx strings ok (AddHistAndStatValue t w w' n b v) s \<longleftrightarrow>
     fresh_alloc w s \<and> fresh_alloc w' (snd (tm_addStatValue E t w n b v s))"
| "tc_enabled E rx strings ok (IncrementCounter t w n a) s \<longleftrightarrow> fresh_alloc w s"
| "tc_enabled E rx strings ok (ClearTimeseries t w n) s \<longleftrightarrow> fresh_alloc w s"
| "tc_enabled E rx strings ok (WrapIncrement wid n t w a) s \<longleftrightarrow> fresh_alloc w s"
| "tc_enabled E rx strings ok (WrapAdd wid n c t w b v) s \<longleftrightarrow> fresh_alloc w s"
| "tc_enabled E rx strings ok (WrapAddAggregated wid n c t w b sm m) s \<longleftrightarrow> fresh_alloc w s"
| "tc_enabled E rx strings ok (WrapHistogram wid n sp t w v) s \<longleftrightarrow> fresh_alloc w s"
| "tc_enabled E rx strings ok (Publish t ws oks usec) s \<longleftrightarrow> fresh_publish E t ws oks usec s"
| "tc_enabled E rx strings ok (ZeroStats t ws oks usec) s \<longleftrightarrow> fresh_publish E t ws oks usec s"
| "tc_enabled E rx strings ok (Service g) s \<longleftrightarrow> svc_good E rx strings ok g"
| "tc_enabled E rx strings ok op s \<longleftrightarrow> True"

text \<open>
  What a call is worth to the counter \<open>k\<close>: an increment its amount, and a call that changes the counter in the service the
  difference it makes there.
\<close>

fun gain ::
  "('s, 'h, 'l, 'c, 'p, 'r) tenv \<Rightarrow> name \<Rightarrow> ('s, ('s, 'h, 'c, 'f, 'e, 'x) service) tc_op \<Rightarrow>
   ('l, ('s, 'h, 'c, 'f, 'e, 'x) service) tcs \<Rightarrow> int64" where
  "gain E k (IncrementCounter t w n a) s = (if n = k then a else 0)"
| "gain E k (WrapIncrement wid n t w a) s = (if n = k then a else 0)"
| "gain E k (SetCounter n v) s = (if n = k then v - counter_value k (counters (globals (hp s))) else 0)"
| "gain E k (ClearCounter n) s = (if n = k then - counter_value k (counters (globals (hp s))) else 0)"
| "gain E k (ZeroStats t ws oks usec) s =
     - counter_value k (counters (globals (hp (snd (publishStats E t ws oks usec s)))))"
| "gain E k (Service g) s = shift k (globals (hp s)) g"
| "gain E k op s = 0"

fun may_fail :: "('s, 'g) tc_op \<Rightarrow> bool" where
  "may_fail (WrapHistogram wid n sp t w v) \<longleftrightarrow> True"
| "may_fail op \<longleftrightarrow> False"

section \<open>Every call\<close>

lemma hist_and_stat_ok:
  assumes i: "tc_inv E rx strings ok {} s" and w: "fresh_alloc w s" "fresh_alloc w' (snd (tm_addStatValue E t w n b v s))"
  shows "okX (tc_addHistAndStatValue E t w w' n b v) s (\<lambda>_ s'. tc_inv E rx strings ok {} s' \<and> led k s' = led k s)"
proof -
  have "okX (tm_addStatValue E t w n b v) s (\<lambda>_ s'. tc_inv E rx strings ok {} s' \<and> paid k 0 s s')"
    unfolding tm_addStatValue_def by (rule by_name_ok[OF i w(1)]) auto
  then obtain u s1 where s1: "tm_addStatValue E t w n b v s = (Inr u, s1)" "tc_inv E rx strings ok {} s1" "paid k 0 s s1"
    unfolding okX_run by blast
  then have "fresh_alloc w' s1" using w(2) by simp
  from addHistogramValue_ok[OF s1(2) this, of t n v k] s1 show ?thesis
    by (auto simp: okX_run tc_addHistAndStatValue_def bindX_def paid_def)
qed

lemma tc_exec_ok:
  assumes i: "tc_inv E rx strings ok {} s" and e: "tc_enabled E rx strings ok op s" and f: "\<not> may_fail op"
  shows "okX (tc_exec E op) s (\<lambda>_ s'. tc_inv E rx strings ok {} s' \<and> led k s' = led k s + gain E k op s)"
proof -
  have paid: "okX m s (\<lambda>_ s'. tc_inv E rx strings ok {} s' \<and> led k s' = led k s + d)"
    if "okX m s (\<lambda>_ s'. tc_inv E rx strings ok {} s' \<and> paid k d s s')" for m :: "(unit, _, _) tcm" and d
    using that by (rule okX_mono) (simp add: paid_def)
  show ?thesis
  proof (cases op)
    case (AddStatValue t w n b v)
    show ?thesis unfolding AddStatValue tc_exec.simps tm_addStatValue_def gain.simps
      by (rule paid[OF by_name_ok[OF i]]) (use e AddStatValue in \<open>auto simp: content_increment\<close>)
  next
    case (AddStatValueAggregated t w n b sm c)
    show ?thesis unfolding AddStatValueAggregated tc_exec.simps tm_addStatValueAggregated_def gain.simps
      by (rule paid[OF by_name_ok[OF i]]) (use e AddStatValueAggregated in \<open>auto simp: content_increment\<close>)
  next
    case (AddStatValueType t w n b v ty)
    with paid[OF addStatValueType_ok[OF i, of w]] e show ?thesis by simp
  next
    case (ClearStat t w n ty)
    with paid[OF clearStat_ok[OF i, of w]] e show ?thesis by simp
  next
    case (AddHistogramValue t w n v)
    with paid[OF addHistogramValue_ok[OF i, of w]] e show ?thesis by simp
  next
    case (AddHistAndStatValue t w w' n b v)
    with hist_and_stat_ok[OF i, of w w'] e show ?thesis by simp
  next
    case (IncrementCounter t w n a)
    show ?thesis unfolding IncrementCounter tc_exec.simps tm_incrementCounter_def gain.simps
      by (rule paid[OF by_name_ok[OF i]]) (use e IncrementCounter in \<open>auto simp: content_increment\<close>)
  next
    case (ClearTimeseries t w n)
    with clearTimeseries_ok[OF i, of w] e show ?thesis by simp
  next
    case (ResetThread t)
    with resetAllData_ok[OF i, of t k] show ?thesis by (auto simp: okX_run)
  next
    case (ThreadExit t)
    with destroy_ok[OF i] show ?thesis by simp
  next
    case (WrapIncrement wid n t w a)
    show ?thesis unfolding WrapIncrement tc_exec.simps CounterWrapper_incrementValue_def gain.simps
      by (rule paid[OF wrapper_ok[OF i]]) (use e WrapIncrement in \<open>auto simp: content_increment\<close>)
  next
    case (WrapAdd wid n c t w b v)
    with paid[OF wrapper_add_ok[OF i, of w]] e show ?thesis by simp
  next
    case (WrapAddAggregated wid n c t w b sm m)
    show ?thesis unfolding WrapAddAggregated tc_exec.simps TimeseriesWrapper_addAggregated_def gain.simps
      by (rule paid[OF wrapper_ok[OF i]]) (use e WrapAddAggregated in \<open>auto simp: content_increment\<close>)
  next
    case (DropHandle h)
    with drop_handle_ok[OF i] show ?thesis by simp
  next
    case (SetCounter n v)
    with setCounter_ok[OF i, of n v k] show ?thesis by (auto simp: okX_run bindX_def retX_def)
  next
    case (ClearCounter n)
    with clearCounter_tc_ok[OF i, of n k] show ?thesis by (auto simp: okX_run)
  next
    case (Publish t ws oks usec)
    with publishStats_ok[OF i, of t ws oks usec k] e show ?thesis by (auto simp: okX_run)
  next
    case (ZeroStats t ws oks usec)
    with tc_zeroStats_ok[OF i, of t ws oks usec k] e show ?thesis by (auto simp: okX_run)
  next
    case (Service g)
    with globals_ok(1)[OF i, of g] globals_ok(2)[OF i, of g k] e show ?thesis by (simp add: okX_def)
  qed (use f in simp)
qed

lemma tc_exec_ends:
  assumes i: "tc_inv E rx strings ok {} s" and e: "tc_enabled E rx strings ok op s"
  shows "endsX (tc_exec E op) s (\<lambda>s'. tc_inv E rx strings ok {} s' \<and> led k s' = led k s + gain E k op s)"
proof (cases "may_fail op")
  case True
  then obtain wid n sp t w v where op: "op = WrapHistogram wid n sp t w v" by (cases op) auto
  with histogram_wrapper_ends[OF i, of w wid n sp t v k] e show ?thesis
    by (auto simp: endsX_def paid_def split: prod.splits sum.splits)
qed (rule okX_ends[OF tc_exec_ok[OF i e]])

section \<open>Runs\<close>

definition tc0 :: "'g \<Rightarrow> ('l, 'g) tcs" where
  "tc0 g = \<lparr>hp = heap0 g, tmaps = [], handles = [], spec_taken = [], once_done = []\<rparr>"

text \<open>A run, with what its calls were worth to each counter; a call that throws leaves the state it reached.\<close>

inductive tc_steps ::
  "('s, 'h, 'l, 'c, 'p, 'r) tenv \<Rightarrow> (regex \<Rightarrow> name \<Rightarrow> bool) \<Rightarrow> ('c \<Rightarrow> name set) \<Rightarrow> ('c \<Rightarrow> bool) \<Rightarrow>
   ('l, ('s, 'h, 'c, 'f, 'e, 'x) service) tcs \<Rightarrow> (name \<Rightarrow> int64) \<Rightarrow> ('l, ('s, 'h, 'c, 'f, 'e, 'x) service) tcs \<Rightarrow> bool"
  for E rx strings ok s0 where
  Start: "tc_steps E rx strings ok s0 (\<lambda>_. 0) s0"
| Step: "tc_steps E rx strings ok s0 d s \<Longrightarrow> tc_enabled E rx strings ok op s \<Longrightarrow> tc_exec E op s = (r, s') \<Longrightarrow>
    tc_steps E rx strings ok s0 (\<lambda>k. d k + gain E k op s) s'"

lemma tc_steps_inv:
  assumes "tc_steps E rx strings ok s0 d s" "tc_inv E rx strings ok {} s0"
  shows "tc_inv E rx strings ok {} s \<and> led k s = led k s0 + d k"
  using assms
proof (induction rule: tc_steps.induct)
  case (Step d s op r s')
  then have "tc_inv E rx strings ok {} s" by simp
  from tc_exec_ends[OF this Step.hyps(2), of k] Step show ?case by (auto simp: endsX_def split: sum.splits)
qed simp

lemma heap0_simps [simp]: "globals (heap0 g) = g" "view (heap0 g) = (\<lambda>_. None)"
  "tc_ok (shape (heap0 g)) al [] [] {}"
  by (simp_all add: heap0_def view_def fun_eq_iff tc_ok_def shape_def)

lemma tc0_inv:
  assumes "svc_good E rx strings ok g"
  shows "tc_inv E rx strings ok {} (tc0 g)" "led k (tc0 g) = counter_value k (counters g)"
  using assms by (simp_all add: tc_inv_def tc0_def led_def ledger_def heap0_wf)


lemma tc_reach_inv:
  assumes "svc_good E rx strings ok g" "tc_steps E rx strings ok (tc0 g) d s"
  shows "tc_inv E rx strings ok {} s" "led k s = counter_value k (counters g) + d k"
  using tc_steps_inv[OF assms(2) tc0_inv(1)[OF assms(1)]] tc0_inv(2)[OF assms(1), of k] by auto

text \<open>The service's counter after a publication.\<close>

definition published :: "('s, 'h, 'l, 'c, 'p, 'r) tenv \<Rightarrow> nat \<Rightarrow> (nat \<Rightarrow> alloc) \<Rightarrow> (nat \<Rightarrow> bool) \<Rightarrow> int64 \<Rightarrow> name \<Rightarrow>
   ('l, ('s, 'h, 'c, 'f, 'e, 'x) service) tcs \<Rightarrow> int64" where
  "published E t ws oks usec k s = counter_value k (counters (globals (hp (snd (publishStats E t ws oks usec s)))))"

lemma published_led:
  assumes "tc_inv E rx strings ok {} s" "fresh_publish E t ws oks usec s" "no_orphans s"
  shows "published E t ws oks usec k s = led k s" "fst (publishStats E t ws oks usec s) = Inr ()"
  using publishStats_ok[OF assms(1,2), of k] assms(3) by (auto simp: okX_run published_def)

lemma stat_iff_held:
  assumes "tc_inv E rx strings ok {} s"
  shows "stats (hp s) i \<noteq> None \<longleftrightarrow> 0 < use_count s i"
proof -
  have ok: "tc_ok (shape (hp s)) (alive (hp s)) (tmaps s) (handles s) {}" using assms by (simp add: tc_inv_def)
  have "stats (hp s) i \<noteq> None \<longleftrightarrow> shape (hp s) i \<noteq> None" by (auto simp: shape_def view_def)
  also have "\<dots> \<longleftrightarrow> held_by (tmaps s) (handles s) i"
    using held_dom[OF ok, of i] tc_okD(7)[OF ok, of i] by fastforce
  also have "\<dots> \<longleftrightarrow> 0 < use_count s i" using use_count_0[of s i] by auto
  finally show ?thesis .
qed

section \<open>An example\<close>

definition demo_env ::
  "(int64 \<times> int64, (int64 \<times> int64 \<times> int64) \<times> (int64 \<times> int64), int64 \<times> int64, name list, unit, unit) tenv" where
  "demo_env =
     \<lparr>svc_params = demo_params,
      buckets = \<lparr>lh_make = (\<lambda>b mn mx. (0, 0)), lh_params = (\<lambda>l. (1, 0, 0)), lh_addValue = (\<lambda>v (c, t). (c + 1, t + v)),
        lh_addRepeated = (\<lambda>v n (c, t). (c + n, t + n * v)), lh_clear = (\<lambda>l. (0, 0))\<rparr>,
      updateOnRead = True\<rparr>"

definition demo_alloc :: "nat \<Rightarrow> alloc" where
  "demo_alloc i = \<lparr>new_sid = i, new_link = of_nat (2 * i + 2), got_lock = True\<rparr>"

text \<open>A thread increments a counter through a wrapper.\<close>

definition demo_tc where
  "demo_tc = snd (tc_exec demo_env (WrapIncrement 7 ''hits'' 1 (demo_alloc 0) 5) (tc0 demo_service))"

abbreviation demo_ws :: "nat \<Rightarrow> alloc" where
  "demo_ws \<equiv> (\<lambda>i. demo_alloc (i + 1))"

lemma demo_tc_good: "svc_good demo_env (\<lambda>r s. r = s) set distinct demo_service"
proof -
  have "regex_cache (ready_cache (\<lambda>r s. r = s)) (\<lambda>r s. r = s) set distinct" "reliable (ready_cache (\<lambda>r s. r = s)) distinct"
    by (simp_all add: ready_cache_laws demo_reliable)
  then show ?thesis using demo_service_good
    by (simp add: svc_good_def service_good_def demo_env_def counters_good_def demo_params_def)
qed

lemma demo_steps:
  "tc_steps demo_env (\<lambda>r s. r = s) set distinct (tc0 demo_service) (\<lambda>k. 0 + gain demo_env k (WrapIncrement 7 ''hits'' 1 (demo_alloc 0) 5) (tc0 demo_service)) demo_tc"
proof (rule tc_steps.Step[OF tc_steps.Start])
  show "tc_enabled demo_env (\<lambda>r s. r = s) set distinct (WrapIncrement 7 ''hits'' 1 (demo_alloc 0) 5) (tc0 demo_service)"
    by (simp add: fresh_alloc_def tc0_def heap0_def demo_alloc_def)
  show "tc_exec demo_env (WrapIncrement 7 ''hits'' 1 (demo_alloc 0) 5) (tc0 demo_service) =
    (fst (tc_exec demo_env (WrapIncrement 7 ''hits'' 1 (demo_alloc 0) 5) (tc0 demo_service)), demo_tc)"
    by (simp add: demo_tc_def)
qed

lemma demo_tc_facts: "no_orphans demo_tc" "fresh_publish demo_env 2 demo_ws (\<lambda>_. True) 9 demo_tc"
  by code_simp+

section \<open>Results\<close>

text \<open>
  C7: No call of \<open>ThreadCachedServiceData\<close> ever touches a stat or a container that is gone, whatever threads, wrappers and
  publications came before; and every call but an update through a histogram wrapper returns normally.
\<close>
theorem thread_cached_never_faults:
  assumes "svc_good E rx strings ok g" and "tc_steps E rx strings ok (tc0 g) d s" and "tc_enabled E rx strings ok op s"
  shows "(\<forall>e. fst (tc_exec E op s) \<noteq> Inl (Crash e)) \<and> (\<not> may_fail op \<longrightarrow> fst (tc_exec E op s) = Inr ())"
proof -
  note i = tc_reach_inv(1)[OF assms(1,2)]
  have "\<forall>e. fst (tc_exec E op s) \<noteq> Inl (Crash e)"
    using tc_exec_ends[OF i assms(3), where k = "[]"] by (cases "tc_exec E op s") (auto simp: endsX_def split: sum.splits)
  moreover have "\<not> may_fail op \<Longrightarrow> fst (tc_exec E op s) = Inr ()"
    using tc_exec_ok[OF i assms(3), where k = "[]"] by (auto simp: okX_run)
  ultimately show ?thesis by blast
qed

theorem thread_cached_never_faults_witness: "fst (tc_exec demo_env (ThreadExit 1) demo_tc) = Inr ()"
  using thread_cached_never_faults[OF demo_tc_good demo_steps, of "ThreadExit 1"] by simp



text \<open>
  C6: The value the service has for a counter after \<open>publishStats\<close> is what it had at the start and everything the calls
  were worth since, on any thread and by name or through wrappers, to the unit and modulo \<open>2\<^sup>64\<close>, once no wrapper holds a
  stat of a thread that has gone.
\<close>
theorem counters_published_exactly:
  assumes "svc_good E rx strings ok g" and "tc_steps E rx strings ok (tc0 g) d s"
    and "no_orphans s" and "fresh_publish E t ws oks usec s"
  shows "published E t ws oks usec k s = counter_value k (counters g) + d k"
  using published_led(1)[OF tc_reach_inv(1)[OF assms(1,2)] assms(4,3)] tc_reach_inv(2)[OF assms(1,2)] by simp

theorem counters_published_exactly_witness: "published demo_env 2 demo_ws (\<lambda>_. True) 9 ''hits'' demo_tc = 8"
  using counters_published_exactly[OF demo_tc_good demo_steps demo_tc_facts, of "''hits''"]
  by (simp add: demo_service_def counter_value_def cm_find_def)



text \<open>
  C10: The maps of the threads are in order: each thread has one map, every entry of it is a live stat of the map's kind that
  is linked to the map's own container, and no two entries of a kind have the same name.
\<close>
theorem thread_maps_in_order:
  assumes "svc_good E rx strings ok g" and "tc_steps E rx strings ok (tc0 g) d s" and "(t, m) \<in> set (tmaps s)"
  shows "map_of (tmaps s) t = Some m \<and> alive (hp s) (tm_link m) \<and>
    (\<forall>e\<in>set (named m kd). \<exists>n. shape (hp s) (fst e) = Some (tm_link m, True, n, kd)) \<and>
    distinct (map (\<lambda>e. name_at (shape (hp s)) (fst e)) (named m kd))"
proof -
  have ok: "tc_ok (shape (hp s)) (alive (hp s)) (tmaps s) (handles s) {}"
    using tc_reach_inv(1)[OF assms(1,2)] by (simp add: tc_inv_def)
  have "entries_ok (shape (hp s)) (tm_link m) kd (named m kd)" using tc_okD(4)[OF ok assms(3), of kd] by simp
  with tc_okD(1)[OF ok] tc_okD(3)[OF ok assms(3)] assms(3) show ?thesis
    by (simp add: entries_ok_def)
qed

theorem thread_maps_in_order_witness:
  "\<exists>m. map_of (tmaps demo_tc) 1 = Some m \<and> alive (hp demo_tc) (tm_link m)"
proof -
  have "map_of (tmaps demo_tc) 1 \<noteq> None" by code_simp
  then obtain m where m: "(1, m) \<in> set (tmaps demo_tc)" by (auto dest: map_of_SomeD)
  from thread_maps_in_order[OF demo_tc_good demo_steps m] show ?thesis by blast
qed

text \<open>
  A histogram wrapper whose specification has been applied dereferences a null pointer when a thread that is new to the
  stats adds a value after the histogram has been dropped from the service.
\<close>
theorem histogram_wrapper_null:
  assumes "wid \<in> set (once_done s)" and "map_of (handles s) ((wid, []), KHist, key, t) = None" and "map_of (tmaps s) t = None"
    and "getHistogramUnlocked key (exports (globals (hp s))) = None"
  shows "fst (HistogramWrapper_add E wid key sp t w v s) = Inl NullPointer"
  using assms
  by (simp add: HistogramWrapper_add_def tcHistogram_def bindX_def call_once_def get_entry_def getThreadStats_def
      tryInsertLocked_def find_named_def make_stat_def createHistogramLocked_def keep_handle_def on_stat_def retX_def
      new_container_def Let_def)

text \<open>One thread adds a value, the service is reset, and another thread adds one.\<close>

definition demo_spec :: "(int64 \<times> int64) hist_spec" where
  "demo_spec = \<lparr>hs_bucketWidth = 1, hs_min = 0, hs_max = 9, hs_stats = [AVG], hs_percentiles = [95], hs_levels = (0, 0)\<rparr>"

definition demo_used_hist where
  "demo_used_hist = snd (tc_exec demo_env (WrapHistogram 4 ''lat'' demo_spec 1 (demo_alloc 0) 5) (tc0 demo_service))"

definition demo_reset_hist where
  "demo_reset_hist = snd (tc_exec demo_env (Service (resetAllData demo_params (globals (hp demo_used_hist)))) demo_used_hist)"

theorem histogram_wrapper_null_witness:
  "fst (tc_exec demo_env (WrapHistogram 4 ''lat'' demo_spec 1 (demo_alloc 0) 5) (tc0 demo_service)) = Inr () \<and>
   fst (HistogramWrapper_add demo_env 4 ''lat'' demo_spec 3 (demo_alloc 1) 5 demo_reset_hist) = Inl NullPointer"
proof
  show "fst (tc_exec demo_env (WrapHistogram 4 ''lat'' demo_spec 1 (demo_alloc 0) 5) (tc0 demo_service)) = Inr ()" by code_simp
  have r: "once_done demo_reset_hist = once_done demo_used_hist" "handles demo_reset_hist = handles demo_used_hist"
    "tmaps demo_reset_hist = tmaps demo_used_hist" by (simp_all add: demo_reset_hist_def)
  have h: "4 \<in> set (once_done demo_reset_hist)" unfolding r by code_simp
  have k: "map_of (handles demo_reset_hist) ((4, []), KHist, ''lat'', 3) = None" unfolding r by code_simp
  have "3 \<notin> set (map fst (tmaps demo_used_hist))" by code_simp
  then have m: "map_of (tmaps demo_reset_hist) 3 = None" unfolding r by (simp add: map_of_eq_None_iff)
  have "getHistogramUnlocked ''lat'' (exports (globals (hp demo_reset_hist))) = None"
    by (simp add: demo_reset_hist_def getHistogramUnlocked_def resetAllData_def forgetAllHistograms_def)
  from histogram_wrapper_null[OF h k m this]
  show "fst (HistogramWrapper_add demo_env 4 ''lat'' demo_spec 3 (demo_alloc 1) 5 demo_reset_hist) = Inl NullPointer" .
qed

end
