(* ===== verification/DynWrappers.thy ===== *)
theory DynWrappers
  imports TCRun
begin

text \<open>
  The dynamic wrappers of \<^verbatim>\<open>fb303/ThreadCachedServiceData.h\<close>: \<open>DynamicTimeseriesWrapper\<close> and \<open>DynamicHistogramWrapper\<close>. The
  keys come from the \<open>FormattedKeyHolder\<close> of the theory \<open>KeyHolder\<close>, whose world is here the whole of the thread-cached
  service data; the entries that a thread remembers hold pointers to the thread's own stats.
\<close>

section \<open>Leaving the pointers alone\<close>

definition keepsH :: "('a, 'l, 'g) tcm \<Rightarrow> bool" where
  "keepsH m \<longleftrightarrow> (\<forall>s. handles (snd (m s)) = handles s)"

named_theorems keeps

lemma keepsH_basic [keeps]:
  "keepsH (retX x)" "keepsH (registry fr)" "keepsH (on_service g)" "keepsH (find_named m k n)" "keepsH (getThreadStats E t w)"
  "keepsH (insert_entry t k i)" "keepsH (\<lambda>s. (r, set_type t i ty v s))" "keepsH (\<lambda>s. (r, s))"
  "keepsH (\<lambda>s. (r, mod_map t (mod_entries k f) s))"
  by (auto simp: keepsH_def retX_def registry_def on_service_def find_named_def getThreadStats_def insert_entry_def set_type_def
      Let_def split: sum.splits option.splits prod.splits)

lemma keepsH_bind [keeps]: "keepsH m \<Longrightarrow> (\<And>x. keepsH (f x)) \<Longrightarrow> keepsH (bindX m f)"
  by (auto simp: keepsH_def bindX_def split: prod.splits sum.splits) (metis snd_conv)+

lemma keepsH_option [keeps]: "keepsH a \<Longrightarrow> (\<And>x. keepsH (f x)) \<Longrightarrow> keepsH (case r of None \<Rightarrow> a | Some x \<Rightarrow> f x)"
  by (cases r) auto

lemma keepsH_make [keeps]: "keepsH (make_stat E k c m w n)"
proof (cases k)
  case KHist
  have "keepsH (createHistogramLocked E m w n)"
    by (auto simp: keepsH_def createHistogramLocked_def bindX_def retX_def registry_def Let_def split: option.splits sum.splits prod.splits)
  then show ?thesis by (simp add: make_stat_def KHist)
qed (auto simp: make_stat_def make_series_def make_counter_def intro!: keeps)

lemma keepsH_get [keeps]: "keepsH (get_entry E t w k c n)"
  unfolding get_entry_def tryInsertLocked_def by (intro keeps)

lemma keepsH_release [keeps]: "keepsH (sp_release E i)"
  by (auto simp: keepsH_def sp_release_def registry_def split: sum.splits)

lemma keepsH_on [keeps]: "keepsH (on_raw r f)" "keepsH (on_stat c f)"
  by (auto simp: on_raw_def on_stat_def intro!: keeps split: option.splits)

lemma keepsH_type [keeps]: "keepsH (\<lambda>s. (x, case r of None \<Rightarrow> s | Some e \<Rightarrow> set_type t (fst e) ty v s))"
  by (cases r) (simp_all add: keepsH_def set_type_def)

lemma keepsH_ops [keeps]: "keepsH (tm_addStatValueAggregated E t w n ok sm c)" "keepsH (tm_clearStat E t w n ty)"
  "keepsH (clearTimeseriesSafe E t w n)"
  unfolding tm_addStatValueAggregated_def clearTimeseriesSafe_def tm_clearStat_def by (intro keeps)+

section \<open>DynamicTimeseriesWrapper\<close>

text \<open>\<open>keyFormat_\<close>, \<open>exportTypes_\<close> and the prototype of a wrapper, with the functions its key holder is made of.\<close>

record 's dyn =
  dw_id :: nat
  dw_types :: "export_type list"
  dw_proto :: "'s option"
  dw_hash_int :: "int64 \<Rightarrow> uint64"
  dw_hash_string :: "string \<Rightarrow> uint64"
  dw_fmt :: "string \<Rightarrow> string list \<Rightarrow> string"
  keyFormat :: string

text \<open>The world of the key holder: the state, and the error that has ended the call, if any.\<close>

type_synonym ('l, 'g) tworld = "tc_error option \<times> ('l, 'g) tcs"

definition stepW :: "(unit, 'l, 'g) tcm \<Rightarrow> ('l, 'g) tworld \<Rightarrow> ('l, 'g) tworld" where
  "stepW m w =
     (case fst w of
        Some e \<Rightarrow> w
      | None \<Rightarrow> (case m (snd w) of (Inl e, s1) \<Rightarrow> (Some e, s1) | (Inr x, s1) \<Rightarrow> (None, s1)))"

definition dyn_prepareKey ::
  "('s, 'h, 'l, 'c, 'p, 'r) tenv \<Rightarrow> 's dyn \<Rightarrow> string \<Rightarrow> ('l, ('s, 'h, 'c, 'f, 'e, 'x) service) tworld \<Rightarrow>
   ('l, ('s, 'h, 'c, 'f, 'e, 'x) service) tworld" where
  "dyn_prepareKey E D key =
     stepW (on_service (each_service (map (\<lambda>ty. addStatExportType (svc_params E) key ty (dw_proto D) True) (dw_types D))))"

text \<open>\<open>GetTLTimeseriesFn\<close>; the entry made for the subkeys \<open>ks\<close> keeps the pointer.\<close>

definition dyn_cacheFun ::
  "('s, 'h, 'l, 'c, 'p, 'r) tenv \<Rightarrow> 's dyn \<Rightarrow> subkeys \<Rightarrow> alloc \<Rightarrow> nat \<Rightarrow> string \<Rightarrow>
   ('l, ('s, 'h, 'c, 'f, 'e, 'x) service) tworld \<Rightarrow> sid option \<times> ('l, ('s, 'h, 'c, 'f, 'e, 'x) service) tworld" where
  "dyn_cacheFun E D ks w t key v =
     (case fst v of
        Some e \<Rightarrow> (None, v)
      | None \<Rightarrow>
          (case bindX (get_entry E t w KSeries None key) (keep_handle ((dw_id D, ks), KSeries, key, t)) (snd v) of
             (Inl e, s1) \<Rightarrow> (None, (Some e, s1))
           | (Inr c, s1) \<Rightarrow> (c, (None, s1))))"

definition dyn_keys ::
  "('s, 'h, 'l, 'c, 'p, 'r) tenv \<Rightarrow> 's dyn \<Rightarrow> subkeys \<Rightarrow> alloc \<Rightarrow>
   (sid option, ('l, ('s, 'h, 'c, 'f, 'e, 'x) service) tworld) key_ops" where
  "dyn_keys E D ks w =
     stat_key_ops (dw_hash_int D) (dw_hash_string D) (dw_fmt D) (keyFormat D) (dyn_prepareKey E D) (dyn_cacheFun E D ks w)"

type_synonym ('l, 'g) dynw = "(sid option, ('l, 'g) tworld) holder"

definition onW :: "(unit, 'l, 'g) tcm \<Rightarrow> ('k, ('l, 'g) tworld) holder \<Rightarrow> ('k, ('l, 'g) tworld) holder" where
  "onW m h = h\<lparr>hworld := stepW m (hworld h)\<rparr>"

definition dyn_addImpl ::
  "('s, 'h, 'l, 'c, 'p, 'r) tenv \<Rightarrow> 's dyn \<Rightarrow> nat \<Rightarrow> subkeys \<Rightarrow> alloc \<Rightarrow> bool \<Rightarrow> int64 \<Rightarrow>
   ('l, ('s, 'h, 'c, 'f, 'e, 'x) service) dynw \<Rightarrow> ('l, ('s, 'h, 'c, 'f, 'e, 'x) service) dynw" where
  "dyn_addImpl E D t ks w ok value h =
     (let (e, h1) = getFormattedEntry (dyn_keys E D ks w) t ks h in onW (on_stat (snd e) (on_series (tlt_addValue ok value))) h1)"

definition dyn_addAggregated ::
  "('s, 'h, 'l, 'c, 'p, 'r) tenv \<Rightarrow> 's dyn \<Rightarrow> nat \<Rightarrow> subkeys \<Rightarrow> alloc \<Rightarrow> alloc \<Rightarrow> bool \<Rightarrow> int64 \<Rightarrow> int64 \<Rightarrow>
   ('l, ('s, 'h, 'c, 'f, 'e, 'x) service) dynw \<Rightarrow> ('l, ('s, 'h, 'c, 'f, 'e, 'x) service) dynw" where
  "dyn_addAggregated E D t ks w w' ok sm numSamples h =
     (let (e, h1) = getFormattedEntry (dyn_keys E D ks w) t ks h in onW (tm_addStatValueAggregated E t w' (fst e) ok sm numSamples) h1)"

definition dyn_exportKey ::
  "('s, 'h, 'l, 'c, 'p, 'r) tenv \<Rightarrow> 's dyn \<Rightarrow> nat \<Rightarrow> subkeys \<Rightarrow> alloc \<Rightarrow>
   ('l, ('s, 'h, 'c, 'f, 'e, 'x) service) dynw \<Rightarrow> ('l, ('s, 'h, 'c, 'f, 'e, 'x) service) dynw" where
  "dyn_exportKey E D t ks w h = snd (getFormattedEntry (dyn_keys E D ks w) t ks h)"

fun clear_stats ::
  "('s, 'h, 'l, 'c, 'p, 'r) tenv \<Rightarrow> nat \<Rightarrow> (nat \<Rightarrow> alloc) \<Rightarrow> name \<Rightarrow> export_type list \<Rightarrow>
   (unit, 'l, ('s, 'h, 'c, 'f, 'e, 'x) service) tcm" where
  "clear_stats E t ws key [] = clearTimeseriesSafe E t (ws 0) key"
| "clear_stats E t ws key (ty # tys) =
     bindX (tm_clearStat E t (ws 0) key ty) (\<lambda>_. clear_stats E t (\<lambda>i. ws (Suc i)) key tys)"

text \<open>
  \<open>clear\<close>: every export type is cleared, the entry goes from the thread's map and then from the thread's cache of keys,
  and with it the pointer. \<open>ws i\<close> is what the allocator would give to the \<open>i\<close>th of the calls into the map.
\<close>

definition dyn_clear ::
  "('s, 'h, 'l, 'c, 'p, 'r) tenv \<Rightarrow> 's dyn \<Rightarrow> nat \<Rightarrow> subkeys \<Rightarrow> alloc \<Rightarrow> (nat \<Rightarrow> alloc) \<Rightarrow>
   ('l, ('s, 'h, 'c, 'f, 'e, 'x) service) dynw \<Rightarrow> ('l, ('s, 'h, 'c, 'f, 'e, 'x) service) dynw" where
  "dyn_clear E D t ks w ws h =
     (let (e, h1) = getFormattedEntry (dyn_keys E D ks w) t ks h;
          h2 = onW (clear_stats E t ws (fst e) (dw_types D)) h1
      in onW (drop_handle E ((dw_id D, ks), KSeries, fst e, t)) (eraseFormattedKey t ks h2))"

section \<open>DynamicHistogramWrapper\<close>

definition dynhist_keys ::
  "('s, 'h, 'l, 'c, 'p, 'r) tenv \<Rightarrow> 's dyn \<Rightarrow> 's hist_spec \<Rightarrow>
   (unit, ('l, ('s, 'h, 'c, 'f, 'e, 'x) service) tworld) key_ops" where
  "dynhist_keys E D sp =
     stat_key_ops (dw_hash_int D) (dw_hash_string D) (dw_fmt D) (keyFormat D)
       (\<lambda>key. stepW (on_service (spec_apply (svc_params E) key sp))) (\<lambda>t key v. ((), v))"

definition dynhist_add ::
  "('s, 'h, 'l, 'c, 'p, 'r) tenv \<Rightarrow> 's dyn \<Rightarrow> 's hist_spec \<Rightarrow> nat \<Rightarrow> subkeys \<Rightarrow> alloc \<Rightarrow> int64 \<Rightarrow>
   (unit, ('l, ('s, 'h, 'c, 'f, 'e, 'x) service) tworld) holder \<Rightarrow> (unit, ('l, ('s, 'h, 'c, 'f, 'e, 'x) service) tworld) holder" where
  "dynhist_add E D sp t ks w value h =
     (let (e, h1) = getFormattedEntry (dynhist_keys E D sp) t ks h in onW (tm_addHistogramValue E t w (fst e) value) h1)"

definition dynhist_exportKey ::
  "('s, 'h, 'l, 'c, 'p, 'r) tenv \<Rightarrow> 's dyn \<Rightarrow> 's hist_spec \<Rightarrow> nat \<Rightarrow> subkeys \<Rightarrow>
   (unit, ('l, ('s, 'h, 'c, 'f, 'e, 'x) service) tworld) holder \<Rightarrow> (unit, ('l, ('s, 'h, 'c, 'f, 'e, 'x) service) tworld) holder" where
  "dynhist_exportKey E D sp t ks h = snd (getFormattedEntry (dynhist_keys E D sp) t ks h)"

section \<open>Constructors\<close>

text \<open>\<open>exportStats\<close> of the plain wrappers, and the arguments of \<open>HistogramSpec\<close>, taken in turn.\<close>

definition wrapper_exportStats ::
  "('s, 'h, 'l, 'c, 'p, 'r) tenv \<Rightarrow> name \<Rightarrow> 's option \<Rightarrow> bool \<Rightarrow> export_type list \<Rightarrow>
   (unit, 'l, ('s, 'h, 'c, 'f, 'e, 'x) service) tcm" where
  "wrapper_exportStats E key statPrototype u types =
     on_service (each_service (map (\<lambda>ty. addStatExportType (svc_params E) key ty statPrototype u) types))"

datatype 's spec_arg = SpecType export_type | SpecPercentile int | SpecLevels 's

fun ctorHandleArg :: "'s spec_arg \<Rightarrow> 's hist_spec \<Rightarrow> 's hist_spec" where
  "ctorHandleArg (SpecType ty) sp = sp\<lparr>hs_stats := hs_stats sp @ [ty]\<rparr>"
| "ctorHandleArg (SpecPercentile p) sp = sp\<lparr>hs_percentiles := hs_percentiles sp @ [p]\<rparr>"
| "ctorHandleArg (SpecLevels l) sp = sp\<lparr>hs_levels := l\<rparr>"

definition HistogramSpec :: "'s \<Rightarrow> int64 \<Rightarrow> int64 \<Rightarrow> int64 \<Rightarrow> 's spec_arg list \<Rightarrow> 's hist_spec" where
  "HistogramSpec lvls bucketWidth mn mx args =
     fold ctorHandleArg args
       \<lparr>hs_bucketWidth = bucketWidth, hs_min = mn, hs_max = mx, hs_stats = [], hs_percentiles = [], hs_levels = lvls\<rparr>"

text \<open>The number of placeholders in a key format; \<open>None\<close> when an assertion fails.\<close>

fun count_placeholders :: "string \<Rightarrow> nat option" where
  "count_placeholders [] = Some 0"
| "count_placeholders (c # cs) =
     (if c = CHR ''{'' then
        (case cs of
           [] \<Rightarrow> None
         | d # ds \<Rightarrow> if d = CHR ''}'' then map_option Suc (count_placeholders cs) else None)
      else count_placeholders cs)"

section \<open>Lookups\<close>

lemma dyn_keys_simps [simp]:
  "k_format (dyn_keys E D ks w) = formatKey (dw_fmt D) (keyFormat D)"
  "k_hash (dyn_keys E D ks w) = subkeys_hash (dw_hash_int D) (dw_hash_string D)"
  "k_prepare (dyn_keys E D ks w) = dyn_prepareKey E D" "k_cache (dyn_keys E D ks w) = dyn_cacheFun E D ks w"
  by (simp_all add: dyn_keys_def stat_key_ops_def)

lemma holder_ok_cong: "k_format K = k_format K' \<Longrightarrow> k_hash K = k_hash K' \<Longrightarrow> holder_ok K h = holder_ok K' h"
  by (simp add: holder_ok_def local_ok_def cong: option.case_cong)

lemma getFormattedEntry_known:
  assumes "holder_ok K h" "map_of (lm_map (localMap h t)) ks = Some e" "getFormattedEntry K t ks h = (e', h')"
  shows "e' = e" "hworld h' = hworld h" "lm_map (localMap h' r) = lm_map (localMap h r)"
proof -
  have "local_ok K (globalMap h) (localMap h t)" using assms(1) by (simp add: holder_ok_def)
  from last_hit_map[OF this, of ks] assms(2,3)
  show "e' = e" "hworld h' = hworld h" "lm_map (localMap h' r) = lm_map (localMap h r)"
    by (auto simp: getFormattedEntry_def set_local_def split: option.splits)
qed

lemma getFormattedEntry_new:
  assumes "holder_ok K h" "map_of (lm_map (localMap h t)) ks = None" "getFormattedEntry K t ks h = (e, h')"
  obtains v where "v = hworld h \<or> v = k_prepare K (k_format K ks) (hworld h)"
    "k_cache K t (k_format K ks) v = (snd e, hworld h')" "fst e = k_format K ks"
    "\<And>r. lm_map (localMap h' r) = (if r = t then (ks, e) # lm_map (localMap h t) else lm_map (localMap h r))"
proof -
  have "local_ok K (globalMap h) (localMap h t)" using assms(1) by (simp add: holder_ok_def)
  from last_hit_map[OF this, of ks] assms(2) have l: "last_hit K ks (localMap h t) = None"
    by (cases "last_hit K ks (localMap h t)") auto
  obtain key h1 where g: "getFormattedKeyGlobal K ks h = (key, h1)" by fastforce
  note G = getFormattedKeyGlobal_ok[OF assms(1) g]
  have v: "hworld h1 = hworld h \<or> hworld h1 = k_prepare K (k_format K ks) (hworld h)"
    using g by (auto simp: getFormattedKeyGlobal_def Let_def split: option.splits)
  obtain c w where c: "k_cache K t key (hworld h1) = (c, w)" by fastforce
  have e: "e = (key, c)" "hworld h' = w"
    "localMap h' = (localMap h)(t := \<lparr>lm_last = Some (k_hash K ks, ks, e), lm_map = (ks, key, c) # lm_map (localMap h t)\<rparr>)"
    using assms(3) unfolding getFormattedEntry_def l option.case assms(2) getFormattedKeySlow_def g Let_def case_prod_conv c
    by (auto simp: set_local_def G(4))
  show thesis by (rule that[OF v]) (use c e G(2) in simp_all)
qed


section \<open>The invariant\<close>

abbreviation dyn_key :: "'s dyn \<Rightarrow> subkeys \<Rightarrow> string" where
  "dyn_key D \<equiv> formatKey (dw_fmt D) (keyFormat D)"

definition cached :: "('l, 'g) dynw \<Rightarrow> nat \<Rightarrow> subkeys \<Rightarrow> sid option" where
  "cached h t ks = (case map_of (lm_map (localMap h t)) ks of None \<Rightarrow> None | Some e \<Rightarrow> snd e)"

text \<open>The pointers the wrapper holds are those in the caches of the threads.\<close>

definition pointers_match :: "'s dyn \<Rightarrow> ('l, 'g) dynw \<Rightarrow> (handle \<times> sid) list \<Rightarrow> bool" where
  "pointers_match D h hs \<longleftrightarrow>
     (\<forall>t ks key. map_of hs ((dw_id D, ks), KSeries, key, t) = (if key = dyn_key D ks then cached h t ks else None)) \<and>
     (\<forall>t ks e. map_of (lm_map (localMap h t)) ks = Some e \<longrightarrow> snd e \<noteq> None)"

definition dyn_ok ::
  "('s, 'h, 'l, 'c, 'p, 'r) tenv \<Rightarrow> (regex \<Rightarrow> name \<Rightarrow> bool) \<Rightarrow> ('c \<Rightarrow> name set) \<Rightarrow> ('c \<Rightarrow> bool) \<Rightarrow> 's dyn \<Rightarrow>
   ('l, ('s, 'h, 'c, 'f, 'e, 'x) service) dynw \<Rightarrow> ('l, ('s, 'h, 'c, 'f, 'e, 'x) service) tcs \<Rightarrow> bool" where
  "dyn_ok E rx strings ok D h s \<longleftrightarrow> hworld h = (None, s) \<and> tc_inv E rx strings ok {} s \<and>
     (\<forall>ks w. holder_ok (dyn_keys E D ks w) h) \<and> pointers_match D h (handles s)"

lemma dyn_ok_holder: "(\<forall>ks w. holder_ok (dyn_keys E D ks w) h) \<longleftrightarrow> holder_ok (dyn_keys E D ks' w') h"
  using holder_ok_cong[of "dyn_keys E D _ _" "dyn_keys E D ks' w'" h] by auto

lemma pointers_match_cong:
  "(\<And>t. lm_map (localMap h' t) = lm_map (localMap h t)) \<Longrightarrow> pointers_match D h' hs = pointers_match D h hs"
  by (simp add: pointers_match_def cached_def)

lemma stepW_ok: "okX m s (\<lambda>_ s'. Q s') \<Longrightarrow> \<exists>s'. stepW m (None, s) = (None, s') \<and> Q s'"
  by (auto simp: okX_run stepW_def)

lemma onW_ok:
  assumes d: "dyn_ok E rx strings ok D h s" and m: "okX m s (\<lambda>_ s'. tc_inv E rx strings ok {} s')" and k: "keepsH m"
  shows "\<exists>s'. dyn_ok E rx strings ok D (onW m h) s'"
proof -
  from m obtain x s' where s': "m s = (Inr x, s')" "tc_inv E rx strings ok {} s'" unfolding okX_run by blast
  have "handles s' = handles s" using k s'(1) unfolding keepsH_def by (metis snd_conv)
  moreover have "holder_ok K (h\<lparr>hworld := v\<rparr>) = holder_ok K h" for K v by simp
  ultimately have "dyn_ok E rx strings ok D (onW m h) s'"
    using d s' by (simp add: dyn_ok_def onW_def stepW_def pointers_match_def cached_def)
  then show ?thesis by blast
qed

lemma export_each_type_good:
  fixes g :: "('s, 'h, 'c, 'f, 'e, 'x) service"
  assumes "svc_good E rx strings ok g"
  shows "\<exists>g'. each_service (map (\<lambda>ty. addStatExportType (svc_params E) key ty c u) tys) g = (Inr (), g') \<and>
    svc_good E rx strings ok g' \<and> counters g' = counters g"
  using assms
proof (induction tys arbitrary: g)
  case (Cons ty tys)
  from addStatExportType_good[OF Cons.prems, of key ty c u] obtain g1 where
    g1: "addStatExportType (svc_params E) key ty c u g = (Inr (), g1)" "svc_good E rx strings ok g1" "counters g1 = counters g" by blast
  from Cons.IH[OF g1(2)] g1 show ?case by auto
qed simp

lemma export_types_ok_tc:
  assumes "tc_inv E rx strings ok {} s"
  shows "okX (on_service (each_service (map (\<lambda>ty. addStatExportType (svc_params E) key ty c u) tys))) s (\<lambda>_ s'.
    tc_inv E rx strings ok {} s' \<and> handles s' = handles s \<and> stats (hp s') = stats (hp s) \<and> links (hp s') = links (hp s))"
proof -
  have "svc_good E rx strings ok (globals (hp s))" using assms by (simp add: tc_inv_def)
  from export_each_type_good[OF this, of key c u tys] obtain g where
    g: "each_service (map (\<lambda>ty. addStatExportType (svc_params E) key ty c u) tys) (globals (hp s)) = (Inr (), g)"
      "svc_good E rx strings ok g" "counters g = counters (globals (hp s))" by blast
  show ?thesis by (rule okX_service[where x = "()" and g = g]) (use g(1) inv_globals(1)[OF assms g(2,3)] in simp_all)
qed

lemma cacheFun_ok:
  assumes i: "tc_inv E rx strings ok {} s" and w: "fresh_alloc w s" and h: "map_of (handles s) ((dw_id D, ks), KSeries, key, t) = None"
  shows "\<exists>j s'. dyn_cacheFun E D ks w t key (None, s) = (Some j, (None, s')) \<and> tc_inv E rx strings ok {} s' \<and>
    handles s' = (((dw_id D, ks), KSeries, key, t), j) # handles s"
proof -
  from get_entry_ok[OF i w, of t KSeries None key "[]"] obtain r s1 where
    s1: "get_entry E t w KSeries None key s = (Inr r, s1)" "tc_inv E rx strings ok {} s1" "handles s1 = handles s"
      "case r of None \<Rightarrow> KSeries = KHist | Some e \<Rightarrow> entry_for s1 t KSeries key e"
    unfolding okX_run calm_def by blast
  then obtain e a where e: "r = Some e" "shape (hp s1) (fst e) = Some (a, True, key, KSeries)"
    by (auto simp: entry_for_def split: option.splits)
  have "tc_ok (shape (hp s1)) (alive (hp s1)) (tmaps s1) (handles s1) {}" using s1(2) by (simp add: tc_inv_def)
  from tc_ok_handle[OF this e(2), of "(dw_id D, ks)" t] h s1(3)
  have "tc_ok (shape (hp s1)) (alive (hp s1)) (tmaps s1) ((((dw_id D, ks), KSeries, key, t), fst e) # handles s1) {}" by simp
  with s1 e(1) show ?thesis by (simp add: dyn_cacheFun_def bindX_def keep_handle_def tc_inv_def)
qed

lemma dyn_get_ok:
  assumes d: "dyn_ok E rx strings ok D h s" and w: "fresh_alloc w s"
    and g: "getFormattedEntry (dyn_keys E D ks w) t ks h = (e, h')"
  shows "\<exists>s' j. dyn_ok E rx strings ok D h' s' \<and> e = (dyn_key D ks, Some j) \<and>
    map_of (handles s') ((dw_id D, ks), KSeries, dyn_key D ks, t) = Some j \<and> map_of (lm_map (localMap h' t)) ks = Some e"
proof -
  let ?K = "dyn_keys E D ks w"
  have hw: "hworld h = (None, s)" and i: "tc_inv E rx strings ok {} s" and ho: "holder_ok ?K h" and pm: "pointers_match D h (handles s)"
    using d by (auto simp: dyn_ok_def)
  note G = getFormattedEntry_ok[OF ho g]
  have ho': "\<forall>ks w. holder_ok (dyn_keys E D ks w) h'" using G(1) dyn_ok_holder by blast
  show ?thesis
  proof (cases "map_of (lm_map (localMap h t)) ks")
    case (Some e0)
    note N = getFormattedEntry_known[OF ho Some g]
    from pm Some N(1) obtain j where "snd e = Some j" unfolding pointers_match_def by blast
    moreover have "fst e = dyn_key D ks" using G(2) by simp
    moreover have "pointers_match D h' (handles s)" using pm pointers_match_cong[of h' h D "handles s"] N(3) by blast
    ultimately have "dyn_ok E rx strings ok D h' s" "e = (dyn_key D ks, Some j)" using hw i ho' N(2) by (auto simp: dyn_ok_def prod_eq_iff)
    moreover have "map_of (handles s) ((dw_id D, ks), KSeries, dyn_key D ks, t) = Some j"
      using pm Some N(1) \<open>snd e = Some j\<close> by (simp add: pointers_match_def cached_def)
    ultimately show ?thesis using G(3) by blast
  next
    case None
    obtain v where v: "v = hworld h \<or> v = dyn_prepareKey E D (dyn_key D ks) (hworld h)"
      "dyn_cacheFun E D ks w t (dyn_key D ks) v = (snd e, hworld h')"
      "\<And>r. lm_map (localMap h' r) = (if r = t then (ks, e) # lm_map (localMap h t) else lm_map (localMap h r))"
      by (rule getFormattedEntry_new[OF ho None g]) simp_all
    have "\<exists>s1. v = (None, s1) \<and> tc_inv E rx strings ok {} s1 \<and> handles s1 = handles s \<and> fresh_alloc w s1"
    proof (cases "v = hworld h")
      case False
      with v(1) hw have "v = stepW (on_service (each_service (map (\<lambda>ty. addStatExportType (svc_params E) (dyn_key D ks) ty (dw_proto D) True) (dw_types D)))) (None, s)"
        by (simp add: dyn_prepareKey_def)
      with stepW_ok[OF export_types_ok_tc[OF i, of "dyn_key D ks" "dw_proto D" True "dw_types D"]] w show ?thesis
        by (auto simp: fresh_alloc_def)
    qed (use hw i w in simp)
    then obtain s1 where s1: "v = (None, s1)" "tc_inv E rx strings ok {} s1" "handles s1 = handles s" "fresh_alloc w s1" by blast
    have "map_of (handles s1) ((dw_id D, ks), KSeries, dyn_key D ks, t) = None"
      using pm None s1(3) by (simp add: pointers_match_def cached_def)
    from cacheFun_ok[OF s1(2,4) this] v(2) s1(1) obtain j s' where
      s': "snd e = Some j" "hworld h' = (None, s')" "tc_inv E rx strings ok {} s'"
        "handles s' = (((dw_id D, ks), KSeries, dyn_key D ks, t), j) # handles s" by (auto simp: s1(3))
    have e: "e = (dyn_key D ks, Some j)" using G(2) s'(1) by (auto simp: prod_eq_iff)
    have "pointers_match D h' (handles s')"
      using pm v(3) unfolding s'(4) e by (auto simp: pointers_match_def cached_def split: if_splits)
    with s' ho' have "dyn_ok E rx strings ok D h' s'" by (simp add: dyn_ok_def)
    moreover have "map_of (handles s') ((dw_id D, ks), KSeries, dyn_key D ks, t) = Some j" by (simp add: s'(4))
    ultimately show ?thesis using G(3) e by blast
  qed
qed


section \<open>Operations\<close>

fun fresh_clear ::
  "('s, 'h, 'l, 'c, 'p, 'r) tenv \<Rightarrow> nat \<Rightarrow> (nat \<Rightarrow> alloc) \<Rightarrow> name \<Rightarrow> export_type list \<Rightarrow>
   ('l, ('s, 'h, 'c, 'f, 'e, 'x) service) tcs \<Rightarrow> bool" where
  "fresh_clear E t ws key [] s \<longleftrightarrow> fresh_alloc (ws 0) s"
| "fresh_clear E t ws key (ty # tys) s \<longleftrightarrow>
     fresh_alloc (ws 0) s \<and> fresh_clear E t (\<lambda>i. ws (Suc i)) key tys (snd (tm_clearStat E t (ws 0) key ty s))"

lemma clear_stats_ok:
  fixes s :: "('l, ('s, 'h, 'c, 'f, 'e, 'x) service) tcs"
  assumes "tc_inv E rx strings ok {} s" "fresh_clear E t ws key tys s"
  shows "okX (clear_stats E t ws key tys) s (\<lambda>_ s'. tc_inv E rx strings ok {} s')"
  using assms
proof (induction tys arbitrary: ws s)
  case Nil
  then show ?case using clearTimeseries_ok[OF Nil.prems(1), of "ws 0" t key] by (auto simp: okX_run)
next
  case (Cons ty tys)
  have "fresh_alloc (ws 0) s" using Cons.prems(2) by simp
  from clearStat_ok[OF Cons.prems(1) this, of t key ty "[]"] obtain u s1 where
    s1: "tm_clearStat E t (ws 0) key ty s = (Inr u, s1)" "tc_inv E rx strings ok {} s1" unfolding okX_run by blast
  with Cons.prems(2) have "fresh_clear E t (\<lambda>i. ws (Suc i)) key tys s1" by simp
  from Cons.IH[OF s1(2) this] s1(1) show ?case by (simp add: okX_def bindX_def)
qed

lemma keepsH_clear [keeps]: "keepsH (clear_stats E t ws key tys)"
  by (induction tys arbitrary: ws) (auto intro!: keeps)

lemma erase_drop_ok:
  assumes d: "dyn_ok E rx strings ok D h s" and e: "map_of (lm_map (localMap h t)) ks = Some (dyn_key D ks, Some j)"
  shows "\<exists>s'. dyn_ok E rx strings ok D (onW (drop_handle E ((dw_id D, ks), KSeries, dyn_key D ks, t)) (eraseFormattedKey t ks h)) s' \<and>
    map_of (handles s') ((dw_id D, ks), KSeries, dyn_key D ks, t) = None"
proof -
  let ?h = "((dw_id D, ks), KSeries, dyn_key D ks, t)"
  have hw: "hworld h = (None, s)" and i: "tc_inv E rx strings ok {} s" and ho: "\<forall>ks w. holder_ok (dyn_keys E D ks w) h"
    and pm: "pointers_match D h (handles s)" using d by (auto simp: dyn_ok_def)
  have j: "map_of (handles s) ?h = Some j" using pm e by (simp add: pointers_match_def cached_def)
  from drop_handle_ok[OF i, of ?h "[]"] obtain s' where s': "drop_handle E ?h s = (Inr (), s')" "tc_inv E rx strings ok {} s'"
    unfolding okX_run by auto
  have "keepsH (sp_release E j)" by (intro keeps)
  with s'(1) j have hs: "handles s' = filter (\<lambda>x. fst x \<noteq> ?h) (handles s)"
    unfolding keepsH_def drop_handle_def by (metis (no_types, lifting) option.case(2) snd_conv tcs.select_convs(3) tcs.surjective tcs.update_convs(3))
  have f: "map_of (filter (\<lambda>x. fst x \<noteq> a) xs) b = (if b = a then None else map_of xs b)" for a b and xs :: "(handle \<times> sid) list"
    by (induction xs) auto
  have g: "map_of (filter (\<lambda>x. fst x \<noteq> ks) xs) ks' = (if ks' = ks then None else map_of xs ks')" for ks' and xs :: "(subkeys \<times> string \<times> sid option) list"
    by (induction xs) auto
  let ?e = "eraseFormattedKey t ks h"
  have "pointers_match D ?e (handles s')"
    using pm unfolding hs by (auto simp: pointers_match_def cached_def f g eraseFormattedKey_def)
  moreover have "holder_ok K (?e\<lparr>hworld := v\<rparr>) = holder_ok K ?e" for K v by simp
  moreover have "hworld ?e = (None, s)" using hw by (simp add: eraseFormattedKey_def set_local_def)
  ultimately have "dyn_ok E rx strings ok D (onW (drop_handle E ?h) ?e) s'"
    using s' eraseFormattedKey_ok[OF ho[rule_format]] by (auto simp: dyn_ok_def onW_def stepW_def pointers_match_def cached_def)
  then show ?thesis using hs f by auto
qed


section \<open>Runs\<close>

text \<open>
  The calls on one wrapper, and anything else that happens to the thread-cached data, including to other wrappers; the
  wrapper's own pointers are its own.
\<close>

datatype ('s, 'g) dyn_op =
    DynAdd nat subkeys alloc bool int64
  | DynAddAggregated nat subkeys alloc alloc bool int64 int64
  | DynExportKey nat subkeys alloc
  | DynClear nat subkeys alloc "nat \<Rightarrow> alloc"
  | DynOther "('s, 'g) tc_op"

definition onSnd :: "('a, 'l, 'g) tcm \<Rightarrow> ('l, 'g) dynw \<Rightarrow> ('l, 'g) dynw" where
  "onSnd m h = h\<lparr>hworld := (fst (hworld h), snd (m (snd (hworld h))))\<rparr>"

fun dyn_exec ::
  "('s, 'h, 'l, 'c, 'p, 'r) tenv \<Rightarrow> 's dyn \<Rightarrow> ('s, ('s, 'h, 'c, 'f, 'e, 'x) service) dyn_op \<Rightarrow>
   ('l, ('s, 'h, 'c, 'f, 'e, 'x) service) dynw \<Rightarrow> ('l, ('s, 'h, 'c, 'f, 'e, 'x) service) dynw" where
  "dyn_exec E D (DynAdd t ks w ok v) h = dyn_addImpl E D t ks w ok v h"
| "dyn_exec E D (DynAddAggregated t ks w w' ok sm n) h = dyn_addAggregated E D t ks w w' ok sm n h"
| "dyn_exec E D (DynExportKey t ks w) h = dyn_exportKey E D t ks w h"
| "dyn_exec E D (DynClear t ks w ws) h = dyn_clear E D t ks w ws h"
| "dyn_exec E D (DynOther op) h = onSnd (tc_exec E op) h"

definition spares :: "'s dyn \<Rightarrow> ('l, 'g) tcs \<Rightarrow> ('l, 'g) tcs \<Rightarrow> bool" where
  "spares D s s' \<longleftrightarrow> (\<forall>ks key t. map_of (handles s') ((dw_id D, ks), KSeries, key, t) = map_of (handles s) ((dw_id D, ks), KSeries, key, t))"

definition after_get ::
  "('s, 'h, 'l, 'c, 'p, 'r) tenv \<Rightarrow> 's dyn \<Rightarrow> nat \<Rightarrow> subkeys \<Rightarrow> alloc \<Rightarrow>
   ('l, ('s, 'h, 'c, 'f, 'e, 'x) service) dynw \<Rightarrow> ('l, ('s, 'h, 'c, 'f, 'e, 'x) service) tcs" where
  "after_get E D t ks w h = snd (hworld (snd (getFormattedEntry (dyn_keys E D ks w) t ks h)))"

fun dyn_enabled ::
  "('s, 'h, 'l, 'c, 'p, 'r) tenv \<Rightarrow> (regex \<Rightarrow> name \<Rightarrow> bool) \<Rightarrow> ('c \<Rightarrow> name set) \<Rightarrow> ('c \<Rightarrow> bool) \<Rightarrow> 's dyn \<Rightarrow>
   ('s, ('s, 'h, 'c, 'f, 'e, 'x) service) dyn_op \<Rightarrow> ('l, ('s, 'h, 'c, 'f, 'e, 'x) service) dynw \<Rightarrow> bool" where
  "dyn_enabled E rx strings ok D (DynAdd t ks w b v) h \<longleftrightarrow> fresh_alloc w (snd (hworld h))"
| "dyn_enabled E rx strings ok D (DynAddAggregated t ks w w' b sm n) h \<longleftrightarrow>
     fresh_alloc w (snd (hworld h)) \<and> fresh_alloc w' (after_get E D t ks w h)"
| "dyn_enabled E rx strings ok D (DynExportKey t ks w) h \<longleftrightarrow> fresh_alloc w (snd (hworld h))"
| "dyn_enabled E rx strings ok D (DynClear t ks w ws) h \<longleftrightarrow>
     fresh_alloc w (snd (hworld h)) \<and> fresh_clear E t ws (dyn_key D ks) (dw_types D) (after_get E D t ks w h)"
| "dyn_enabled E rx strings ok D (DynOther op) h \<longleftrightarrow>
     tc_enabled E rx strings ok op (snd (hworld h)) \<and> spares D (snd (hworld h)) (snd (tc_exec E op (snd (hworld h))))"

lemma handle_shape:
  assumes "tc_inv E rx strings ok {} s" "map_of (handles s) (hid, kd, key, t) = Some j"
  obtains a where "shape (hp s) j = Some (a, True, key, kd)"
proof -
  have "tc_ok (shape (hp s)) (alive (hp s)) (tmaps s) (handles s) {}" using assms(1) by (simp add: tc_inv_def)
  from tc_okD(5)[OF this map_of_SomeD[OF assms(2)]] that show thesis by blast
qed

lemma dyn_exec_ok:
  assumes d: "dyn_ok E rx strings ok D h s" and e: "dyn_enabled E rx strings ok D op h"
  shows "\<exists>s'. dyn_ok E rx strings ok D (dyn_exec E D op h) s'"
proof -
  have hw: "snd (hworld h) = s" and i: "tc_inv E rx strings ok {} s" using d by (simp_all add: dyn_ok_def)
  have get: "\<exists>h1 s1 j. getFormattedEntry (dyn_keys E D ks w) t ks h = ((dyn_key D ks, Some j), h1) \<and> dyn_ok E rx strings ok D h1 s1 \<and>
      map_of (handles s1) ((dw_id D, ks), KSeries, dyn_key D ks, t) = Some j \<and>
      map_of (lm_map (localMap h1 t)) ks = Some (dyn_key D ks, Some j) \<and> after_get E D t ks w h = s1" if "fresh_alloc w s" for ks w t
  proof -
    obtain en h1 where g: "getFormattedEntry (dyn_keys E D ks w) t ks h = (en, h1)" by fastforce
    from dyn_get_ok[OF d that g] g show ?thesis by (auto simp: after_get_def dyn_ok_def)
  qed
  show ?thesis
  proof (cases op)
    case (DynAdd t ks w b v)
    with e hw have "fresh_alloc w s" by simp
    from get[OF this, of ks t] obtain h1 s1 j where h1: "getFormattedEntry (dyn_keys E D ks w) t ks h = ((dyn_key D ks, Some j), h1)"
      "dyn_ok E rx strings ok D h1 s1" "map_of (handles s1) ((dw_id D, ks), KSeries, dyn_key D ks, t) = Some j" by blast
    have i1: "tc_inv E rx strings ok {} s1" using h1(2) by (simp add: dyn_ok_def)
    obtain a where sh: "shape (hp s1) j = Some (a, True, dyn_key D ks, KSeries)" by (rule handle_shape[OF i1 h1(3)])
    let ?m = "on_stat (Some j) (on_series (tlt_addValue b v))"
    have "okX ?m s1 (\<lambda>_ s'. tc_inv E rx strings ok {} s')"
      using stat_update_ok[OF i1 sh, of "on_series (tlt_addValue b v)" "[]" 0] by (auto simp: on_stat_def okX_run)
    from onW_ok[OF h1(2) this] have "\<exists>s'. dyn_ok E rx strings ok D (onW ?m h1) s'" by (simp add: keepsH_on)
    with DynAdd h1(1) show ?thesis by (simp add: dyn_addImpl_def)
  next
    case (DynAddAggregated t ks w w' b sm n)
    with e hw have "fresh_alloc w s" by simp
    from get[OF this, of ks t] obtain h1 s1 j where h1: "getFormattedEntry (dyn_keys E D ks w) t ks h = ((dyn_key D ks, Some j), h1)"
      "dyn_ok E rx strings ok D h1 s1" "after_get E D t ks w h = s1" by blast
    have i1: "tc_inv E rx strings ok {} s1" using h1(2) by (simp add: dyn_ok_def)
    let ?m = "tm_addStatValueAggregated E t w' (dyn_key D ks) b sm n"
    have "fresh_alloc w' s1" using e h1(3) DynAddAggregated by simp
    from by_name_ok[OF i1 this, of KSeries "on_series (tlt_addValueAggregated b sm n)" "[]" "dyn_key D ks" 0 t None]
    have "okX ?m s1 (\<lambda>_ s'. tc_inv E rx strings ok {} s' \<and> paid [] 0 s1 s')" by (simp add: tm_addStatValueAggregated_def)
    then have "okX ?m s1 (\<lambda>_ s'. tc_inv E rx strings ok {} s')" by (rule okX_mono) blast
    from onW_ok[OF h1(2) this] have "\<exists>s'. dyn_ok E rx strings ok D (onW ?m h1) s'" by (simp add: keepsH_ops)
    with DynAddAggregated h1(1) show ?thesis by (simp add: dyn_addAggregated_def)
  next
    case (DynExportKey t ks w)
    with e hw get[of w ks t] show ?thesis by (auto simp: dyn_exportKey_def)
  next
    case (DynClear t ks w ws)
    with e hw have "fresh_alloc w s" by simp
    from get[OF this, of ks t] obtain h1 s1 j where h1: "getFormattedEntry (dyn_keys E D ks w) t ks h = ((dyn_key D ks, Some j), h1)"
      "dyn_ok E rx strings ok D h1 s1" "map_of (lm_map (localMap h1 t)) ks = Some (dyn_key D ks, Some j)" "after_get E D t ks w h = s1" by blast
    have i1: "tc_inv E rx strings ok {} s1" using h1(2) by (simp add: dyn_ok_def)
    let ?m = "clear_stats E t ws (dyn_key D ks) (dw_types D)"
    have "fresh_clear E t ws (dyn_key D ks) (dw_types D) s1" using e h1(4) DynClear by simp
    from onW_ok[OF h1(2) clear_stats_ok[OF i1 this] keepsH_clear] obtain s2 where s2: "dyn_ok E rx strings ok D (onW ?m h1) s2" by blast
    have "map_of (lm_map (localMap (onW ?m h1) t)) ks = Some (dyn_key D ks, Some j)" using h1(3) by (simp add: onW_def)
    from erase_drop_ok[OF s2 this] DynClear h1(1) show ?thesis by (auto simp: dyn_clear_def Let_def)
  next
    case (DynOther op')
    with e hw have e': "tc_enabled E rx strings ok op' s" "spares D s (snd (tc_exec E op' s))" by auto
    let ?s = "snd (tc_exec E op' s)"
    have "tc_inv E rx strings ok {} ?s"
      using tc_exec_ends[OF i e'(1), where k = "[]"] by (cases "tc_exec E op' s") (auto simp: endsX_def split: sum.splits)
    moreover have "pointers_match D h (handles ?s)"
      using d e'(2) by (simp add: dyn_ok_def pointers_match_def spares_def)
    moreover have "holder_ok K (h\<lparr>hworld := v\<rparr>) = holder_ok K h" for K v by simp
    ultimately have "dyn_ok E rx strings ok D (onSnd (tc_exec E op') h) ?s"
      using d hw by (auto simp: dyn_ok_def onSnd_def pointers_match_def cached_def)
    with DynOther show ?thesis by auto
  qed
qed

inductive dyn_reach ::
  "('s, 'h, 'l, 'c, 'p, 'r) tenv \<Rightarrow> (regex \<Rightarrow> name \<Rightarrow> bool) \<Rightarrow> ('c \<Rightarrow> name set) \<Rightarrow> ('c \<Rightarrow> bool) \<Rightarrow> 's dyn \<Rightarrow>
   ('s, 'h, 'c, 'f, 'e, 'x) service \<Rightarrow> ('l, ('s, 'h, 'c, 'f, 'e, 'x) service) dynw \<Rightarrow> bool"
  for E rx strings ok D g where
  Made: "dyn_reach E rx strings ok D g (holder0 (None, tc0 g))"
| Call: "dyn_reach E rx strings ok D g h \<Longrightarrow> dyn_enabled E rx strings ok D op h \<Longrightarrow> dyn_reach E rx strings ok D g (dyn_exec E D op h)"

lemma holder0_simps [simp]: "hworld (holder0 v) = v" "lm_map (localMap (holder0 v) t) = []"
  by (simp_all add: holder0_def)

lemma dyn_ok_new: "svc_good E rx strings ok g \<Longrightarrow> dyn_ok E rx strings ok D (holder0 (None, tc0 g)) (tc0 g)"
  by (simp add: dyn_ok_def tc0_inv(1) holder0_ok pointers_match_def cached_def) (simp add: tc0_def)

lemma dyn_reach_ok:
  assumes "dyn_reach E rx strings ok D g h" "svc_good E rx strings ok g"
  shows "\<exists>s. dyn_ok E rx strings ok D h s"
  using assms by (induction rule: dyn_reach.induct) (blast intro: dyn_ok_new dest: dyn_exec_ok)+

section \<open>Dynamic histograms\<close>

text \<open>A specification that cannot be applied ends the process; nothing else goes wrong.\<close>

definition world_ok ::
  "('s, 'h, 'l, 'c, 'p, 'r) tenv \<Rightarrow> (regex \<Rightarrow> name \<Rightarrow> bool) \<Rightarrow> ('c \<Rightarrow> name set) \<Rightarrow> ('c \<Rightarrow> bool) \<Rightarrow>
   ('l, ('s, 'h, 'c, 'f, 'e, 'x) service) tworld \<Rightarrow> bool" where
  "world_ok E rx strings ok v \<longleftrightarrow> tc_inv E rx strings ok {} (snd v) \<and> (\<forall>x. fst v \<noteq> Some (Crash x))"

lemma stepW_ends:
  assumes "world_ok E rx strings ok v" "fst v = None \<Longrightarrow> endsX m (snd v) (\<lambda>s'. tc_inv E rx strings ok {} s')"
  shows "world_ok E rx strings ok (stepW m v)"
  using assms by (auto simp: world_ok_def stepW_def endsX_def split: option.splits prod.splits sum.splits)

lemma spec_apply_world:
  assumes "world_ok E rx strings ok v"
  shows "world_ok E rx strings ok (stepW (on_service (spec_apply (svc_params E) key sp)) v)"
proof (rule stepW_ends[OF assms])
  let ?g = "globals (hp (snd v))"
  have i: "tc_inv E rx strings ok {} (snd v)" using assms by (simp add: world_ok_def)
  then have "svc_good E rx strings ok ?g" by (simp add: tc_inv_def)
  with spec_apply_good[of E rx strings ok key sp] obtain r g where
    r: "spec_apply (svc_params E) key sp ?g = (r, g)" "svc_good E rx strings ok g" "counters g = counters ?g"
    by (cases "spec_apply (svc_params E) key sp ?g") (auto simp: keeps_good_def)
  from inv_globals(1)[OF i r(2,3)] r(1)
  show "endsX (on_service (spec_apply (svc_params E) key sp)) (snd v) (\<lambda>s'. tc_inv E rx strings ok {} s')"
    by (cases r) (auto simp: endsX_def on_service_def)
qed

lemma dynhist_get_ok:
  assumes "holder_ok (dynhist_keys E D sp) h" "world_ok E rx strings ok (hworld h)"
    and g: "getFormattedEntry (dynhist_keys E D sp) t ks h = (e, h')"
  shows "holder_ok (dynhist_keys E D sp) h'" "fst e = dyn_key D ks" "world_ok E rx strings ok (hworld h')"
proof -
  let ?K = "dynhist_keys E D sp"
  note G = getFormattedEntry_ok[OF assms(1) g]
  show "holder_ok ?K h'" "fst e = dyn_key D ks" using G by (simp_all add: dynhist_keys_def stat_key_ops_def)
  show "world_ok E rx strings ok (hworld h')"
  proof (cases "map_of (lm_map (localMap h t)) ks")
    case None
    show ?thesis
    proof (rule getFormattedEntry_new[OF assms(1) None g])
      fix v assume "v = hworld h \<or> v = k_prepare ?K (k_format ?K ks) (hworld h)" "k_cache ?K t (k_format ?K ks) v = (snd e, hworld h')"
      then show ?thesis using assms(2) spec_apply_world[OF assms(2)] by (auto simp: dynhist_keys_def stat_key_ops_def)
    qed
  qed (use getFormattedEntry_known(2)[OF assms(1) _ g] assms(2) in auto)
qed

lemma dynhist_add_ok:
  assumes "holder_ok (dynhist_keys E D sp) h" "world_ok E rx strings ok (hworld h)"
    and "fresh_alloc w (snd (hworld (snd (getFormattedEntry (dynhist_keys E D sp) t ks h))))"
  shows "holder_ok (dynhist_keys E D sp) (dynhist_add E D sp t ks w v h) \<and> world_ok E rx strings ok (hworld (dynhist_add E D sp t ks w v h))"
proof -
  obtain e h1 where g: "getFormattedEntry (dynhist_keys E D sp) t ks h = (e, h1)" by fastforce
  note G = dynhist_get_ok[OF assms(1,2) g]
  have i: "tc_inv E rx strings ok {} (snd (hworld h1))" using G(3) by (simp add: world_ok_def)
  have "fresh_alloc w (snd (hworld h1))" using assms(3) g by simp
  from addHistogramValue_ok[OF i this, of t "fst e" v "[]"]
  have "endsX (tm_addHistogramValue E t w (fst e) v) (snd (hworld h1)) (\<lambda>s'. tc_inv E rx strings ok {} s')"
    by (auto simp: okX_run endsX_def)
  from stepW_ends[OF G(3) this] G(1) show ?thesis by (simp add: dynhist_add_def g onW_def)
qed

section \<open>Results\<close>

definition demo_dyn :: "(int64 \<times> int64) dyn" where
  "demo_dyn = \<lparr>dw_id = 9, dw_types = [ESUM], dw_proto = None, dw_hash_int = (\<lambda>i. i), dw_hash_string = (\<lambda>s. of_nat (length s)),
     dw_fmt = (\<lambda>f ks. f @ concat ks), keyFormat = ''foo.''\<rparr>"

text \<open>
  C9: A dynamic time series gives every thread its own live stat under the right name. Whatever calls on any threads went
  before, clearing keys and the end of threads included, a lookup of subkeys succeeds and its key is the format applied to
  them; the pointer that comes with it, remembered or new, is to an existing time series of exactly that name.
\<close>
theorem dynamic_series_live:
  assumes "svc_good E rx strings ok g" and "dyn_reach E rx strings ok D g h" and "fresh_alloc w (snd (hworld h))"
    and "getFormattedEntry (dyn_keys E D ks w) t ks h = (e, h')"
  shows "fst (hworld h') = None \<and> fst e = formatKey (dw_fmt D) (keyFormat D) ks \<and>
    (\<exists>j x. snd e = Some j \<and> stats (hp (snd (hworld h'))) j = Some x \<and> stat_name x = fst e \<and> kind_of (payload x) = KSeries)"
proof -
  from dyn_reach_ok[OF assms(2,1)] obtain s where d: "dyn_ok E rx strings ok D h s" by blast
  then have "fresh_alloc w s" using assms(3) by (simp add: dyn_ok_def)
  from dyn_get_ok[OF d this assms(4)] obtain s' j where
    s': "dyn_ok E rx strings ok D h' s'" "e = (dyn_key D ks, Some j)" "map_of (handles s') ((dw_id D, ks), KSeries, dyn_key D ks, t) = Some j"
    by blast
  have i: "tc_inv E rx strings ok {} s'" and hw: "hworld h' = (None, s')" using s'(1) by (simp_all add: dyn_ok_def)
  obtain a where "shape (hp s') j = Some (a, True, dyn_key D ks, KSeries)" by (rule handle_shape[OF i s'(3)])
  then obtain x where "stats (hp s') j = Some x" "stat_name x = dyn_key D ks" "kind_of (payload x) = KSeries"
    by (cases "stats (hp s') j") (auto simp: shape_def view_def)
  with s'(2) hw show ?thesis by auto
qed

text \<open>One thread has added a value; another looks up the same subkeys.\<close>

definition demo_dynw where
  "demo_dynw = dyn_exec demo_env demo_dyn (DynAdd 1 [SubStr ''a''] (demo_alloc 0) True 5) (holder0 (None, tc0 demo_service))"

theorem dynamic_series_live_witness:
  "\<exists>e h' j x. getFormattedEntry (dyn_keys demo_env demo_dyn [SubStr ''a''] (demo_alloc 1)) 2 [SubStr ''a''] demo_dynw = (e, h') \<and>
     e = (''foo.a'', Some j) \<and> stats (hp (snd (hworld h'))) j = Some x \<and> stat_name x = ''foo.a''"
proof -
  have "fresh_alloc (demo_alloc 0) (tc0 demo_service)" by (simp add: fresh_alloc_def tc0_def heap0_def demo_alloc_def)
  then have r: "dyn_reach demo_env (\<lambda>r s. r = s) set distinct demo_dyn demo_service demo_dynw"
    unfolding demo_dynw_def by (intro dyn_reach.Call[OF dyn_reach.Made]) simp
  have f: "fresh_alloc (demo_alloc 1) (snd (hworld demo_dynw))" by code_simp
  obtain e h' where g: "getFormattedEntry (dyn_keys demo_env demo_dyn [SubStr ''a''] (demo_alloc 1)) 2 [SubStr ''a''] demo_dynw = (e, h')"
    by fastforce
  have "formatKey (dw_fmt demo_dyn) (keyFormat demo_dyn) [SubStr ''a''] = ''foo.a''" by (simp add: demo_dyn_def formatKey_def)
  with dynamic_series_live[OF demo_tc_good r f g] g show ?thesis by (metis prod.collapse)
qed

end
