(* ===== verification/Publisher.thy ===== *)
theory Publisher
  imports Fb303_Prelude
begin

text \<open>
  The publish thread of \<open>ThreadCachedServiceData\<close> (\<^verbatim>\<open>fb303/ThreadCachedServiceData.cpp\<close>): \<open>startPublishThread\<close>,
  \<open>stopPublishThread\<close>, \<open>publishThreadRunning\<close> and the \<open>PublisherManager\<close> singleton that holds the scheduler. The interval is
  an atomic that outlives the manager; it is read without the lock first, and written with the worker under the lock of
  the manager.
\<close>

section \<open>State and calls\<close>

datatype start_pc = StIdle | StWant int

record publisher =
  interval :: int                    \<comment> \<open>\<open>interval_\<close>, in milliseconds\<close>
  manager :: bool                    \<comment> \<open>whether \<open>publisherManager.try_get()\<close> gives the manager\<close>
  worker :: "int option"             \<comment> \<open>the interval that the scheduler of \<open>worker_\<close> was made with\<close>
  pcs :: "nat \<Rightarrow> start_pc"

definition publishThreadRunning :: "publisher \<Rightarrow> bool" where
  "publishThreadRunning p \<longleftrightarrow> 0 < interval p"

text \<open>The part of \<open>startPublishThread\<close> before the lock: \<open>None\<close> when it returns at once.\<close>

definition start_check :: "int \<Rightarrow> publisher \<Rightarrow> int option" where
  "start_check i p =
     (if i \<le> 0 \<and> interval p \<noteq> 0 then None
      else Some (if i \<le> 0 then 1000 else i))"

text \<open>\<open>worker.emplace()\<close>: the constructor reads the interval.\<close>

definition emplace_worker :: "publisher \<Rightarrow> publisher" where
  "emplace_worker p = p\<lparr>worker := Some (interval p)\<rparr>"

definition start_locked :: "int \<Rightarrow> publisher \<Rightarrow> publisher" where
  "start_locked i p = (if manager p then emplace_worker (p\<lparr>interval := i\<rparr>) else p)"

definition startPublishThread :: "int \<Rightarrow> publisher \<Rightarrow> publisher" where
  "startPublishThread i p = (case start_check i p of None \<Rightarrow> p | Some i' \<Rightarrow> start_locked i' p)"

definition stopPublishThread :: "publisher \<Rightarrow> publisher" where
  "stopPublishThread p = (if manager p then p\<lparr>interval := 0, worker := None\<rparr> else p)"

definition PublisherManager :: "publisher \<Rightarrow> publisher" where
  "PublisherManager p =
     (let q = p\<lparr>manager := True, worker := None\<rparr> in if publishThreadRunning p then emplace_worker q else q)"

definition destroy_manager :: "publisher \<Rightarrow> publisher" where
  "destroy_manager p = p\<lparr>manager := False, worker := None\<rparr>"

definition publisher0 :: publisher where
  "publisher0 = \<lparr>interval = 0, manager = False, worker = None, pcs = (\<lambda>_. StIdle)\<rparr>"

section \<open>Interleavings\<close>

text \<open>A thread may be held up between its look at the interval and the lock.\<close>

inductive pub_step :: "publisher \<Rightarrow> publisher \<Rightarrow> bool" where
  Return: "pcs p t = StIdle \<Longrightarrow> start_check i p = None \<Longrightarrow> pub_step p p"
| Check: "pcs p t = StIdle \<Longrightarrow> start_check i p = Some i' \<Longrightarrow> pub_step p (p\<lparr>pcs := (pcs p)(t := StWant i')\<rparr>)"
| Locked: "pcs p t = StWant i \<Longrightarrow> pub_step p (start_locked i (p\<lparr>pcs := (pcs p)(t := StIdle)\<rparr>))"
| Stop: "pub_step p (stopPublishThread p)"
| Vivify: "\<not> manager p \<Longrightarrow> pub_step p (PublisherManager p)"
| Shutdown: "manager p \<Longrightarrow> pub_step p (destroy_manager p)"

inductive pub_reach :: "publisher \<Rightarrow> bool" where
  Init: "pub_reach publisher0"
| Next: "pub_reach p \<Longrightarrow> pub_step p q \<Longrightarrow> pub_reach q"

inductive_cases pub_stepE: "pub_step p q"

lemmas publisher_defs = start_locked_def emplace_worker_def stopPublishThread_def PublisherManager_def destroy_manager_def
  publishThreadRunning_def publisher0_def Let_def

definition pub_inv :: "publisher \<Rightarrow> bool" where
  "pub_inv p \<longleftrightarrow> 0 \<le> interval p \<and>
     worker p = (if manager p \<and> publishThreadRunning p then Some (interval p) else None) \<and>
     (\<forall>t i. pcs p t = StWant i \<longrightarrow> 0 < i)"

lemma start_check_pos: "start_check i p = Some j \<Longrightarrow> 0 < j"
  by (auto simp: start_check_def split: if_splits)

lemma pub_step_inv: "pub_step p q \<Longrightarrow> pub_inv p \<Longrightarrow> pub_inv q"
  by (erule pub_stepE) (auto simp: pub_inv_def publisher_defs dest: start_check_pos split: if_splits)

lemma pub_reach_inv: "pub_reach p \<Longrightarrow> pub_inv p"
proof (induction rule: pub_reach.induct)
  case Init
  show ?case by (simp add: pub_inv_def publisher_defs)
qed (rule pub_step_inv)

section \<open>Results\<close>

text \<open>
  C30: Under every interleaving of starts, stops, shutdowns and revivals there is a publish thread exactly when there is a
  manager and \<open>publishThreadRunning\<close>, and it was made with the current interval; and \<open>startPublishThread\<close>, run without
  interference on a live manager, leaves a thread with the interval asked for, or for a non-positive one the interval of
  the thread that was running, or one second.
\<close>
theorem publish_thread_matches:
  assumes "pub_reach p" and "manager p"
  shows "worker p = (if publishThreadRunning p then Some (interval p) else None) \<and>
    worker (startPublishThread i p) = Some (if 0 < i then i else if publishThreadRunning p then interval p else 1000) \<and>
    publishThreadRunning (startPublishThread i p) \<and> worker (stopPublishThread p) = None \<and> \<not> publishThreadRunning (stopPublishThread p)"
  using pub_reach_inv[OF assms(1)] assms(2)
  by (auto simp: pub_inv_def startPublishThread_def start_check_def publisher_defs)

theorem publish_thread_matches_witness:
  "worker (startPublishThread (-1) (startPublishThread 5000 (PublisherManager publisher0))) = Some 5000"
proof -
  let ?p = "PublisherManager publisher0"
  have m: "pub_reach ?p" by (rule pub_reach.Next[OF pub_reach.Init pub_step.Vivify]) (simp add: publisher0_def)
  have "pub_step ?p (?p\<lparr>pcs := (pcs ?p)(0 := StWant 5000)\<rparr>)"
    by (rule pub_step.Check[of _ _ 5000]) (simp_all add: publisher_defs start_check_def)
  from pub_reach.Next[OF pub_reach.Next[OF m this] pub_step.Locked[of _ 0 5000]]
  have r: "pub_reach (start_locked 5000 (?p\<lparr>pcs := (pcs ?p)(0 := StWant 5000, 0 := StIdle)\<rparr>))" by simp
  have e: "start_locked 5000 (?p\<lparr>pcs := (pcs ?p)(0 := StWant 5000, 0 := StIdle)\<rparr>) = startPublishThread 5000 ?p"
    by (simp add: publisher_defs startPublishThread_def start_check_def fun_eq_iff)
  have "manager (startPublishThread 5000 ?p)" "interval (startPublishThread 5000 ?p) = 5000"
    by (simp_all add: publisher_defs startPublishThread_def start_check_def)
  with publish_thread_matches[OF r[unfolded e], of "-1"] show ?thesis by (simp add: publishThreadRunning_def)
qed

text \<open>
  The check of the interval and the write are not one step: a library that only asks for some publish thread can replace
  the interval that the program has set in between.
\<close>
theorem default_start_overrides:
  "\<exists>p q. pub_reach p \<and> pcs p 0 = StWant 1000 \<and> worker p = Some 5000 \<and> pub_step p q \<and> worker q = Some 1000"
proof -
  let ?a = "PublisherManager publisher0"
  let ?b = "?a\<lparr>pcs := (pcs ?a)(0 := StWant 1000)\<rparr>"
  let ?c = "?b\<lparr>pcs := (pcs ?b)(1 := StWant 5000)\<rparr>"
  let ?d = "start_locked 5000 (?c\<lparr>pcs := (pcs ?c)(1 := StIdle)\<rparr>)"
  have a: "pub_reach ?a" by (rule pub_reach.Next[OF pub_reach.Init pub_step.Vivify]) (simp add: publisher0_def)
  have b: "pub_step ?a ?b" by (rule pub_step.Check[of _ _ "-1"]) (simp_all add: publisher_defs start_check_def)
  have c: "pub_step ?b ?c" by (rule pub_step.Check[of _ _ 5000]) (simp_all add: publisher_defs start_check_def)
  have d: "pub_step ?c ?d" by (rule pub_step.Locked) simp
  have "pub_reach ?d" by (rule pub_reach.Next[OF pub_reach.Next[OF pub_reach.Next[OF a b] c] d])
  moreover have w: "pcs ?d 0 = StWant 1000" "worker ?d = Some 5000" by (simp_all add: publisher_defs)
  moreover have "pub_step ?d (start_locked 1000 (?d\<lparr>pcs := (pcs ?d)(0 := StIdle)\<rparr>))" by (rule pub_step.Locked[OF w(1)])
  moreover have "worker (start_locked 1000 (?d\<lparr>pcs := (pcs ?d)(0 := StIdle)\<rparr>)) = Some 1000" by (simp add: publisher_defs)
  ultimately show ?thesis by blast
qed

end
