(* ===== verification/BaseService.thy ===== *)
theory BaseService
  imports ServiceData
begin

text \<open>
  The Thrift handler \<open>BaseService\<close> (\<^verbatim>\<open>fb303/BaseService.h\<close>, \<^verbatim>\<open>fb303/BaseService.cpp\<close>) with \<^verbatim>\<open>fb303/LimitUtils.h\<close>: how requests
  for counters are turned down when they have waited too long, how a limit in the request headers cuts a reply, and which
  errors of \<open>ServiceData\<close> a client sees. \<open>folly::tryTo\<close> and the clock readings are arguments.
\<close>

section \<open>Headers\<close>

text \<open>A request context, of which a request may have none; the headers of the request and those of the reply.\<close>

record req_ctx =
  req_headers :: "(string \<rightharpoonup> string) option"
  reply_headers :: "string \<rightharpoonup> string"

definition kCountersAvailableHeader :: string where
  "kCountersAvailableHeader = ''fb303_counters_available''"

definition kCountersLimitHeader :: string where
  "kCountersLimitHeader = ''fb303_counters_read_limit''"

definition readThriftHeader :: "(string \<Rightarrow> int option) \<Rightarrow> req_ctx option \<Rightarrow> string \<Rightarrow> nat option" where
  "readThriftHeader to_int ctx key =
     (case ctx of
        None \<Rightarrow> None
      | Some c \<Rightarrow>
          (case req_headers c of
             None \<Rightarrow> None
           | Some headers \<Rightarrow>
               (case headers key of
                  None \<Rightarrow> None
                | Some v \<Rightarrow>
                    (let lim = (case to_int v of None \<Rightarrow> -1 | Some i \<Rightarrow> i)
                     in if lim < 0 then None else Some (nat lim)))))"

text \<open>\<open>emplace\<close> leaves a header that is already there.\<close>

definition addCountersAvailableToResponse :: "nat \<Rightarrow> req_ctx option \<Rightarrow> req_ctx option" where
  "addCountersAvailableToResponse available ctx =
     (case ctx of
        None \<Rightarrow> None
      | Some c \<Rightarrow>
          (case req_headers c of
             None \<Rightarrow> Some c
           | Some _ \<Rightarrow>
               Some (case reply_headers c kCountersAvailableHeader of
                       None \<Rightarrow> c\<lparr>reply_headers := (reply_headers c)(kCountersAvailableHeader \<mapsto> show_int (int available))\<rparr>
                     | Some _ \<Rightarrow> c)))"

section \<open>Replies\<close>

text \<open>
  A result is a \<open>std::map\<close>, in the order of the names; erasing from the \<open>n\<close>th position on leaves the keys that fewer than
  \<open>n\<close> others precede.
\<close>

definition keep_first :: "nat \<Rightarrow> (name \<rightharpoonup> int64) \<Rightarrow> name \<rightharpoonup> int64" where
  "keep_first n m = (\<lambda>k. if card {j \<in> dom m. j < k} < n then m k else None)"

definition limited_reply ::
  "(string \<Rightarrow> int option) \<Rightarrow> (name \<rightharpoonup> int64) \<Rightarrow> req_ctx option \<Rightarrow> (name \<rightharpoonup> int64) \<times> req_ctx option" where
  "limited_reply to_int res ctx =
     (case readThriftHeader to_int ctx kCountersLimitHeader of
        None \<Rightarrow> (res, ctx)
      | Some limit \<Rightarrow>
          (let numAvailable = card (dom res) in
           (if numAvailable > limit then keep_first limit res else res, addCountersAvailableToResponse numAvailable ctx)))"

datatype reply_error = Timeout | Error service_error

text \<open>
  The expiration that was set, or else the one of the flag, in milliseconds; the clock has nanoseconds. Durations are
  integers: an expiration of more than 292 years, which overflows when the code turns it into nanoseconds, is outside the
  model.
\<close>

record base_service =
  countersExpiration :: "int option"
  queue_timeout_flag :: int

definition getCountersExpiration :: "base_service \<Rightarrow> int" where
  "getCountersExpiration b = (case countersExpiration b of Some e \<Rightarrow> e | None \<Rightarrow> queue_timeout_flag b)"

definition setGetCountersExpiration :: "int \<Rightarrow> base_service \<Rightarrow> base_service" where
  "setGetCountersExpiration e b = b\<lparr>countersExpiration := Some e\<rparr>"

definition expired :: "base_service \<Rightarrow> int \<Rightarrow> int \<Rightarrow> bool" where
  "expired b start now \<longleftrightarrow> 0 < getCountersExpiration b \<and> getCountersExpiration b * 1000000 < now - start"

definition async_eb_getCounters ::
  "('s, 'h, 'l, 'c, 'p, 'r) params \<Rightarrow> ('f, 'e, 'd) estimator_ops \<Rightarrow> (string \<Rightarrow> int option) \<Rightarrow> base_service \<Rightarrow> int \<Rightarrow> int \<Rightarrow> ns \<Rightarrow>
   req_ctx option \<Rightarrow> ('s, 'h, 'c, 'f, 'e, 'x) service \<Rightarrow> (reply_error + (name \<rightharpoonup> int64)) \<times> req_ctx option" where
  "async_eb_getCounters P eo to_int b start started now ctx s =
     (if expired b start started then (Inl Timeout, ctx)
      else
        (case getCounters P eo now s Map.empty of
           None \<Rightarrow> (Inl (Error (Failure Abort)), ctx)
         | Some res \<Rightarrow> (let (r, ctx1) = limited_reply to_int res ctx in (Inr r, ctx1))))"

definition async_eb_getSelectedCounters ::
  "('s, 'h, 'l, 'c, 'p, 'r) params \<Rightarrow> ('f, 'e, 'd) estimator_ops \<Rightarrow> (string \<Rightarrow> int option) \<Rightarrow> base_service \<Rightarrow> int \<Rightarrow> int \<Rightarrow> ns \<Rightarrow>
   name list \<Rightarrow> req_ctx option \<Rightarrow> ('s, 'h, 'c, 'f, 'e, 'x) service \<Rightarrow> (reply_error + (name \<rightharpoonup> int64)) \<times> req_ctx option" where
  "async_eb_getSelectedCounters P eo to_int b start started now keys ctx s =
     (if expired b start started then (Inl Timeout, ctx)
      else
        (case getSelectedCounters P eo now keys s Map.empty of
           None \<Rightarrow> (Inl (Error (Failure Abort)), ctx)
         | Some res \<Rightarrow> (let (r, ctx1) = limited_reply to_int res ctx in (Inr r, ctx1))))"

definition async_eb_getRegexCounters ::
  "('s, 'h, 'l, 'c, 'p, 'r) params \<Rightarrow> ('f, 'e, 'd) estimator_ops \<Rightarrow> (string \<Rightarrow> int option) \<Rightarrow> base_service \<Rightarrow> int \<Rightarrow> int \<Rightarrow> ns \<Rightarrow>
   regex \<Rightarrow> time_point \<Rightarrow> req_ctx option \<Rightarrow> ('s, 'h, 'c, 'f, 'e, 'x) service \<Rightarrow>
   ((reply_error + (name \<rightharpoonup> int64)) \<times> req_ctx option) \<times> ('s, 'h, 'c, 'f, 'e, 'x) service" where
  "async_eb_getRegexCounters P eo to_int b start started now regex rnow ctx s =
     (if expired b start started then ((Inl Timeout, ctx), s)
      else
        (case getRegexCounters P eo now regex rnow s Map.empty of
           (Inl e, s1) \<Rightarrow> ((Inl (Error e), ctx), s1)
         | (Inr res, s1) \<Rightarrow> (let (r, ctx1) = limited_reply to_int res ctx in ((Inr r, ctx1), s1))))"

text \<open>\<open>getCounter\<close> and \<open>getOption\<close> answer for a missing name with zero and the empty string.\<close>

definition bs_getCounter ::
  "('s, 'h, 'l, 'c, 'p, 'r) params \<Rightarrow> ('f, 'e, 'd) estimator_ops \<Rightarrow> ns \<Rightarrow> ns \<Rightarrow> name \<Rightarrow> ('s, 'h, 'c, 'f, 'e, 'x) service \<Rightarrow>
   service_error + int64" where
  "bs_getCounter P eo now1 now2 key s =
     (case getCounter P eo now1 now2 key s of
        Inl (NoSuchCounter k) \<Rightarrow> Inr 0
      | r \<Rightarrow> r)"

text \<open>\<open>invalid e\<close>: whether what a getter threw is a \<open>std::invalid_argument\<close>.\<close>

definition bs_getOption :: "'x flag_ops \<Rightarrow> (string \<Rightarrow> bool) \<Rightarrow> name \<Rightarrow> 'x texts \<Rightarrow> 'x \<Rightarrow> option_error + string" where
  "bs_getOption fo invalid key t x =
     (case getOption fo key t x of
        Inl (NoSuchOption k) \<Rightarrow> Inr []
      | Inl (OptionThrew e) \<Rightarrow> if invalid e then Inr [] else Inl (OptionThrew e)
      | Inr v \<Rightarrow> Inr v)"

section \<open>The first entries of a map\<close>

lemma rank_less:
  fixes A :: "'a::linorder set"
  assumes "finite A" "a \<in> A" "a < b"
  shows "card {j \<in> A. j < a} < card {j \<in> A. j < b}"
  using assms by (intro psubset_card_mono) auto

lemma rank_image:
  fixes A :: "'a::linorder set"
  assumes "finite A"
  shows "(\<lambda>a. card {j \<in> A. j < a}) ` A = {..<card A}" "inj_on (\<lambda>a. card {j \<in> A. j < a}) A"
proof -
  let ?r = "\<lambda>a. card {j \<in> A. j < a}"
  show i: "inj_on ?r A"
  proof (rule inj_onI)
    fix a b assume ab: "a \<in> A" "b \<in> A" "?r a = ?r b"
    show "a = b"
      using rank_less[OF assms ab(1), of b] rank_less[OF assms ab(2), of a] ab(3)
      by (cases a b rule: linorder_cases) simp_all
  qed
  have "?r ` A \<subseteq> {..<card A}"
    using assms by (auto intro!: psubset_card_mono)
  moreover have "card (?r ` A) = card {..<card A}" using card_image[OF i] by simp
  ultimately show "?r ` A = {..<card A}" by (intro card_subset_eq) simp_all
qed

lemma keep_first:
  assumes "finite (dom m)"
  shows "keep_first n m \<subseteq>\<^sub>m m" "card (dom (keep_first n m)) = min n (card (dom m))"
    "a \<in> dom (keep_first n m) \<Longrightarrow> b \<in> dom m - dom (keep_first n m) \<Longrightarrow> a < b"
proof -
  let ?r = "\<lambda>a. card {j \<in> dom m. j < a}"
  show "keep_first n m \<subseteq>\<^sub>m m" by (auto simp: keep_first_def map_le_def)
  have d: "dom (keep_first n m) = {k \<in> dom m. ?r k < n}" by (auto simp: keep_first_def split: if_splits)
  have "?r ` dom (keep_first n m) = {..<min n (card (dom m))}"
  proof
    show "?r ` dom (keep_first n m) \<subseteq> {..<min n (card (dom m))}"
      using equalityD1[OF rank_image(1)[OF assms]] unfolding d by (auto simp: image_subset_iff)
    show "{..<min n (card (dom m))} \<subseteq> ?r ` dom (keep_first n m)"
    proof
      fix x assume x: "x \<in> {..<min n (card (dom m))}"
      then have "x \<in> ?r ` dom m" unfolding rank_image(1)[OF assms] by simp
      then obtain k where "k \<in> dom m" "x = ?r k" by blast
      with x show "x \<in> ?r ` dom (keep_first n m)" unfolding d by auto
    qed
  qed
  moreover have "card (?r ` dom (keep_first n m)) = card (dom (keep_first n m))"
    by (rule card_image) (use inj_on_subset[OF rank_image(2)[OF assms]] d in auto)
  ultimately show "card (dom (keep_first n m)) = min n (card (dom m))" by simp
  assume ab: "a \<in> dom (keep_first n m)" "b \<in> dom m - dom (keep_first n m)"
  have "b \<in> dom m" "n \<le> ?r b" using ab(2) unfolding d by auto
  moreover have "a \<in> dom m" "?r a < n" using ab(1) unfolding d by auto
  ultimately have "\<not> b < a" "a \<noteq> b" using rank_less[OF assms, of b a] by auto
  then show "a < b" by simp
qed

lemma finite_lookup:
  assumes "cvm_inv hash strings ok t"
  shows "finite (dom (lookup hash t))"
proof (rule finite_subset)
  show "dom (lookup hash t) \<subseteq> (\<Union>m\<in>set (callbackMaps t). fst ` set (cm_map m))"
  proof
    fix n assume "n \<in> dom (lookup hash t)"
    then obtain e where e: "cm_find n (shard_of hash n t) = Some e" by (auto simp: lookup_def split: option.splits)
    have "getShard hash n < length (callbackMaps t)" using assms by (simp add: cvm_inv_def getShard_def kNumShards_def)
    then have "shard_of hash n t \<in> set (callbackMaps t)" by (simp add: shard_of_def)
    with e show "n \<in> (\<Union>m\<in>set (callbackMaps t). fst ` set (cm_map m))"
      by (force simp: cm_find_def dest: map_of_SomeD)
  qed
qed auto

lemma finite_counters:
  assumes "estimator_law eo sm cnt qt" "service_good P eo rx strings ok s" "getCounters P eo now s Map.empty = Some res"
  shows "finite (dom res)"
proof -
  have q: "qsm_inv eo strings ok (quantileMap s)" and d: "cvm_inv (hashf P) strings ok (dynamicCounters (exports s))"
    using assms(2) sdata_cvm by (auto simp: service_good_def)
  have "dom (dynamic_part P s) = dom (lookup (hashf P) (dynamicCounters (exports s)))"
    using getValue_lookup[OF d, of "wld (exports s)"] by (auto simp: dynamic_part_def dom_def)
  moreover have "finite (dom (flat_part s))" using finite_dom_map_of[of "cm_map (counters s)"] by (simp add: flat_part_def cm_find_def dom_def)
  moreover have "finite (dom (quantile_part eo now s))"
    unfolding quantile_part_table(1)[OF assms(1) q] table_def by (simp add: finite_dom_map_of)
  moreover have "res = quantile_part eo now s ++ flat_part s ++ dynamic_part P s"
    using getCounters_parts[OF assms(1,2), of now Map.empty] assms(3) by simp
  ultimately show ?thesis using finite_lookup[OF d] by simp
qed

section \<open>Results\<close>



text \<open>
  A client that asks for one counter gets the value that \<open>ServiceData\<close> reports, or zero when there is none; no request
  for a missing counter is an error.
\<close>
theorem missing_counter_reads_zero:
  assumes "estimator_law eo sm cnt qt" and "service_good P eo rx strings ok s"
  shows "bs_getCounter P eo now now k s =
    Inr (case (flat_part s ++ quantile_part eo now s ++ dynamic_part P s) k of Some v \<Rightarrow> v | None \<Rightarrow> 0)"
  using getCounterIfExists_parts[OF assms, of now k]
  unfolding bs_getCounter_def getCounter_def
  by (cases "(flat_part s ++ quantile_part eo now s ++ dynamic_part P s) k") (simp_all del: map_add_None)

end
