(* ===== verification/Spec2Isabelle.thy ===== *)
theory Spec2Isabelle
  imports SimpleLRU SeqLock RegistryRace NameSet RequestDelivery StatPtr DynWrappers Publisher BaseService
begin

text \<open>
  A model of fb303, the monitoring library in which a service keeps its counters, time series, histograms,
  quantiles, exported values and options (\<^verbatim>\<open>src/fb303\<close>).

  \<^bold>\<open>The program.\<close> A thread adds values to thread-local stats (\<^verbatim>\<open>ThreadLocalStats.h\<close>), whose accumulators come in
  an unlocked and a lock-free variant (\<^verbatim>\<open>TLStatsLockTraits.h\<close>). A container aggregates its stats into global
  ones, which live in maps by name (\<^verbatim>\<open>ExportedStatMap\<close>, \<^verbatim>\<open>ExportedHistogramMap\<close>) or are the flat counters of
  \<^verbatim>\<open>ServiceData\<close>. Exporters (\<^verbatim>\<open>TimeseriesExporter\<close>, \<^verbatim>\<open>HistogramExporter\<close>) publish a global stat by registering one
  callback per counter name in a sharded registry (\<^verbatim>\<open>CallbackValuesMap\<close>). Quantile stats have a map of their
  own. \<open>ServiceData\<close> combines the registry, the quantile map and the flat counters when counters are read, and
  searches them by regex through caches kept beside each map (\<^verbatim>\<open>detail/RegexUtil.h\<close>).

  Services reach all this through \<open>ThreadCachedServiceData\<close>: each thread has a map of its stats by name
  (\<^verbatim>\<open>ThreadLocalStatsMap.h\<close>), wrappers keep for each thread a shared pointer to one of them, dynamic wrappers make
  the name from a format and subkeys, and a publish thread aggregates the maps of all threads at intervals. Thrift
  servers feed it per-function statistics (\<^verbatim>\<open>TFunctionStatHandler\<close>) and answer clients through \<open>BaseService\<close>. The
  names of thread-local stats are interned in a set of weak pointers. \<open>SimpleLRUMap\<close> is a self-contained cache.

  \<^bold>\<open>The theories\<close>, in the order they build on each other:
  \<^item> \<open>Fb303_Prelude\<close>: names of machine types, collections of simplification rules, shared lemmas.
  \<^item> \<open>SimpleLRU\<close> (\<^verbatim>\<open>SimpleLRUMap.h\<close>): nodes with identities, the index as a map to identities; a dangling
    iterator or \<open>back()\<close> of an empty list is \<open>None\<close>. Reachable maps are in order and no operation fails; the
    operations refine a list of the most recently used keys. The eviction loop terminates by the list's length.
  \<^item> \<open>LockTraits\<close> (\<^verbatim>\<open>TLStatsLockTraits.h\<close>): both variants at the width of the machine words, with their surplus
    blocks; the totals a reset reports are exact and clamped, and the two variants agree where nothing saturates.
  \<^item> \<open>SeqLock\<close>: the same \<open>addValue\<close> and \<open>reset\<close> cut at their atomic accesses, as a step relation over any number of
    resetting threads and one adder; every window of adds is reported once and exactly, the claim is exclusive,
    and operations that run alone end in a bounded number of steps.
  \<^item> \<open>TLStats\<close> (\<^verbatim>\<open>ThreadLocalStats.h\<close>, \<^verbatim>\<open>ThreadLocalStats-inl.h\<close>): stats, links and containers in a heap with
    explicit errors for use after free and failed checks; none is reachable, links live as long as they are
    referred to, aggregation visits every linked stat. \<open>RegistryRace\<close> interleaves \<open>link\<close>, \<open>unlink\<close> and \<open>aggregate\<close>.
  \<^item> \<open>Conservation\<close>: the locale \<open>conserving\<close> states what an aggregation must keep of an amount; in it the books of
    any run balance. \<open>StatKinds\<close> interprets it for counters, timeseries and histograms.
  \<^item> \<open>RegexUtil\<close> (\<^verbatim>\<open>detail/RegexUtil.h\<close>): maps with a regex cache in lockstep, and the search that scans without
    the lock. \<open>CallbackValues\<close> (\<^verbatim>\<open>CallbackValuesMap.h\<close>): 128 such maps as one; the locale \<open>callback_registry\<close> is
    what exporters rely on. \<open>Counters\<close>: the flat counters of \<^verbatim>\<open>ServiceData.cpp\<close>.
  \<^item> \<open>StatNames\<close>: the names of counters and a parser that inverts them. \<open>FollyStats\<close>: the operations of folly's time
    series and histograms that the code calls, as records of functions, with a small instance for examples.
  \<^item> \<open>StatExport\<close> (\<^verbatim>\<open>TimeseriesExporter.cpp\<close>, \<^verbatim>\<open>ExportedStatMap.cpp\<close>) and \<open>HistExport\<close> (\<^verbatim>\<open>HistogramExporter.cpp\<close>,
    \<^verbatim>\<open>ExportedHistogramMap.cpp\<close>): stats and histograms in a heap shared with the callbacks that read them; what
    the first value exports, what unexporting removes, which failures end the process.
  \<^item> \<open>QuantileMap\<close> (\<^verbatim>\<open>QuantileStat-inl.h\<close>, \<^verbatim>\<open>detail/QuantileStatMap-inl.h\<close>): its three readers agree, and
    forgetting undoes registering.
  \<^item> \<open>ServiceOptions\<close> and \<open>ServiceData\<close> (\<^verbatim>\<open>ServiceData.cpp\<close>): exported values, options and flags, and the readers of
    counters over all sources: their precedence, their agreement where sources do not clash, regex searches,
    resetting.
  \<^item> \<open>NameSet\<close> (\<open>TLStatNameSet\<close> of \<^verbatim>\<open>ThreadLocalStats.cpp\<close>): interned names as interleavings of lookups, copies and
    the two steps of a release, with addresses that are used again; no expired pointer is read through and equal
    names share an object.
  \<^item> \<open>FunctionStats\<close>, \<open>RequestBooks\<close>, \<open>RequestDelivery\<close> (\<^verbatim>\<open>TFunctionStatHandler.cpp\<close>): requests, threads and
    consolidations; no request touches an object of a thread that has ended, each of nine sums is reported
    exactly once (the locale \<open>tally\<close>), and the reports arrive in the stats of \<open>StatExport\<close>.
  \<^item> \<open>KeyHolder\<close> (\<open>FormattedKeyHolder\<close>, \<open>DynamicQuantileStatWrapper\<close>): keys made from subkeys once for the process,
    under every interleaving of the upgradable lock, and remembered by each thread. \<open>StatPtr\<close>: the two
    representations of a map entry, of which one hides the export types in a pointer, agree.
  \<^item> \<open>TLMap\<close> (\<^verbatim>\<open>ThreadLocalStatsMap-inl.h\<close>): the maps of the threads over the heap of \<open>TLStats\<close>, with the shared pointers of
    maps and wrappers; the last one that goes destroys the stat. \<open>TLMapInv\<close> has what registry calls do to the
    shape of the heap, \<open>TLMapOps\<close> the invariant \<open>tc_inv\<close> and the account \<open>led\<close> of a flat counter: its value in the
    service and what the threads still hold.
  \<^item> \<open>ThreadCached\<close> (\<^verbatim>\<open>ThreadCachedServiceData.h\<close>, \<^verbatim>\<open>.cpp\<close>): the calls by name, the wrappers and publication. \<open>TCOps\<close> and
    \<open>TCPublish\<close> show for each call that it keeps the invariant and what it does to the account; \<open>TCRun\<close> concludes for
    every run that no call faults, that stats live as long as they are held, that publication is exact and what
    zeroing does. \<open>DynWrappers\<close> puts the dynamic wrappers on top of \<open>KeyHolder\<close>.
  \<^item> \<open>Publisher\<close>: starting and stopping the publish thread, as interleavings.
  \<^item> \<open>BaseService\<close> (\<^verbatim>\<open>BaseService.h\<close>, \<^verbatim>\<open>LimitUtils.h\<close>): requests for counters that expire, limits in the request headers,
    and which errors a client sees.

  \<^bold>\<open>How code is rendered.\<close> Objects are records, shared pointers are addresses in a heap that is a function or a
  partial map, exceptions and failed checks are values of a sum type, \<open>int64_t\<close> and \<open>uint64_t\<close> are words. An
  operation that takes a lock once is one function; where threads interleave inside an operation the model is a
  step relation or takes what the others do as an argument. Loops are structural recursion or have a measure;
  no definition uses fuel. Code outside the repository is an argument: \<open>folly::RegexMatchCache\<close> (\<open>cache_ops\<close>
  with the laws \<open>regex_cache\<close> and \<open>reliable\<close>), time series and histograms (\<open>series_ops\<close>, \<open>histogram_ops\<close>), the
  quantile estimator and doubles (\<open>estimator_ops\<close> with \<open>estimator_law\<close>), gflags and glog (\<open>flag_ops\<close>), the hash
  function, the clock. Each law is shown to hold of a concrete instance, on which the witnesses evaluate.

  \<^bold>\<open>Not modelled.\<close> Memory orders weaker than sequential consistency; that reading an exported stat also stores the
  decayed state; threads that interleave inside a call of \<open>ThreadCachedServiceData\<close>, whose calls are one step each (the
  races below them are those of \<open>SeqLock\<close>, \<open>RegistryRace\<close> and \<open>KeyHolder\<close>); members that only forward, singletons, macros
  and the registration of handlers with Thrift; \<^verbatim>\<open>TLStatsAsyncAggregator\<close> and the timing of the schedulers,
  \<^verbatim>\<open>FollyLoggingHandler\<close> and \<^verbatim>\<open>LegacyClock\<close>, which are glue around an event base, a logging library and a clock; the
  classes of \<^verbatim>\<open>Timeseries.h\<close> and \<^verbatim>\<open>TimeseriesHistogram.h\<close>, which fix constants of folly's time series and forward to them.
\<close>

end
